(* ===== verification/Knv_Prelude.thy ===== *)
theory Knv_Prelude
  imports Main "HOL-Library.Word" "HOL-Library.Monad_Syntax"
begin

unbundle bit_operations_syntax

text \<open>
  Shared vocabulary of the development: the machine integers of the library, pointers and the
  byte-addressed memory they point into, little-endian words, and the generic lemmas on lists,
  memory regions and words that the components use.

  A pointer names a memory block and an offset in it.  The blocks are the user's buffers
  (\<open>Ext\<close>), the memory owned by a \<open>UcMem\<close> object (\<open>Mem\<close>) and the 64-byte \<open>small_buf\<close> arrays inside a
  node (\<open>NodeBuf\<close>) and inside its key (\<open>KeyBuf\<close>).  Memory is a function from blocks to their bytes.
\<close>

section \<open>Machine integers\<close>

type_synonym byte = "8 word"
type_synonym u8 = "8 word"
type_synonym u16 = "16 word"
type_synonym u32 = "32 word"
type_synonym u64 = "64 word"

text \<open>The conversion of an \<open>int\<close> to \<open>uint64_t\<close> that C inserts in a mixed comparison.\<close>

abbreviation to_u64 :: "int \<Rightarrow> u64" where
  "to_u64 i \<equiv> word_of_int i"

text \<open>The conversion of an unsigned or wider value to a 32-bit \<open>int\<close>.\<close>

definition to_int32 :: "int \<Rightarrow> int" where
  "to_int32 i = sint (word_of_int i :: u32)"

named_theorems mem_simps "rewriting of memory accesses"

section \<open>Pointers and memory\<close>

datatype blk = Ext nat | Mem nat | NodeBuf nat | KeyBuf nat

datatype ptr = NULL | Ptr blk nat

type_synonym heap = "blk \<Rightarrow> byte list"

fun ptr_add :: "ptr \<Rightarrow> nat \<Rightarrow> ptr" where
  "ptr_add NULL n = NULL"
| "ptr_add (Ptr b i) n = Ptr b (i + n)"

fun ptr_diff :: "ptr \<Rightarrow> ptr \<Rightarrow> int" where
  "ptr_diff (Ptr b i) (Ptr c j) = int i - int j"
| "ptr_diff _ _ = 0"

text \<open>A read outside a block is unspecified; every read the components make is guarded.\<close>

fun load :: "heap \<Rightarrow> ptr \<Rightarrow> byte" where
  "load h (Ptr b i) = h b ! i"
| "load h NULL = undefined"

definition bytes_at :: "heap \<Rightarrow> ptr \<Rightarrow> nat \<Rightarrow> byte list" where
  "bytes_at h p n = map (\<lambda>i. load h (ptr_add p i)) [0..<n]"

fun store_bytes :: "heap \<Rightarrow> ptr \<Rightarrow> byte list \<Rightarrow> heap" where
  "store_bytes h NULL bs = h"
| "store_bytes h (Ptr b i) bs = h(b := take i (h b) @ bs @ drop (i + length bs) (h b))"

fun valid_region :: "heap \<Rightarrow> ptr \<Rightarrow> nat \<Rightarrow> bool" where
  "valid_region h NULL n \<longleftrightarrow> n = 0"
| "valid_region h (Ptr b i) n \<longleftrightarrow> i + n \<le> length (h b)"

fun ptr_blk :: "ptr \<Rightarrow> blk option" where
  "ptr_blk NULL = None"
| "ptr_blk (Ptr b i) = Some b"

lemma ptr_add_0 [simp]: "ptr_add p 0 = p"
  by (cases p) auto

lemma ptr_add_add [simp]: "ptr_add (ptr_add p m) n = ptr_add p (m + n)"
  by (cases p) auto

lemma ptr_diff_add [simp]: "p \<noteq> NULL \<Longrightarrow> ptr_diff (ptr_add p n) p = int n"
  by (cases p) auto

lemma length_bytes_at [simp]: "length (bytes_at h p n) = n"
  by (simp add: bytes_at_def)

lemma bytes_at_0 [simp]: "bytes_at h p 0 = []"
  by (simp add: bytes_at_def)

lemma nth_bytes_at: "i < n \<Longrightarrow> bytes_at h p n ! i = load h (ptr_add p i)"
  by (simp add: bytes_at_def)

lemma bytes_at_add: "bytes_at h p (m + n) = bytes_at h p m @ bytes_at h (ptr_add p m) n"
  by (rule nth_equalityI) (auto simp: nth_bytes_at nth_append)

lemma bytes_at_Suc: "bytes_at h p (Suc n) = load h p # bytes_at h (ptr_add p 1) n"
  using bytes_at_add [of h p 1 n] by (simp add: bytes_at_def)

lemma take_bytes_at: "m \<le> n \<Longrightarrow> take m (bytes_at h p n) = bytes_at h p m"
  by (rule nth_equalityI) (auto simp: nth_bytes_at)

lemma drop_bytes_at: "m \<le> n \<Longrightarrow> drop m (bytes_at h p n) = bytes_at h (ptr_add p m) (n - m)"
  by (rule nth_equalityI) (auto simp: nth_bytes_at)

lemma bytes_at_Ptr:
  "i + n \<le> length (h b) \<Longrightarrow> bytes_at h (Ptr b i) n = take n (drop i (h b))"
  by (rule nth_equalityI) (auto simp: nth_bytes_at)

lemma ptr_blk_add [simp]: "ptr_blk (ptr_add p n) = ptr_blk p"
  by (cases p) auto

lemma valid_region_NULL [simp]: "valid_region h p n \<Longrightarrow> 0 < n \<Longrightarrow> p \<noteq> NULL"
  by auto

lemma valid_region_mono: "valid_region h p n \<Longrightarrow> m \<le> n \<Longrightarrow> valid_region h p m"
  by (cases p) auto

lemma valid_region_add: "valid_region h p (m + n) \<Longrightarrow> valid_region h (ptr_add p m) n"
  by (cases p) auto

subsection \<open>Writes\<close>

lemma length_store_bytes [mem_simps]:
  "valid_region h p (length bs) \<Longrightarrow> length (store_bytes h p bs b) = length (h b)"
  by (cases p) auto

lemma valid_region_store_bytes [mem_simps]:
  "valid_region h p (length bs) \<Longrightarrow> valid_region (store_bytes h p bs) q n = valid_region h q n"
  by (cases q) (auto simp: length_store_bytes)

lemma store_bytes_Nil [simp]: "store_bytes h p [] = h"
  by (cases p) auto

lemma store_bytes_other: "ptr_blk p \<noteq> Some b \<Longrightarrow> store_bytes h p bs b = h b"
  by (cases p) auto

lemma bytes_at_store_same [mem_simps]:
  assumes "valid_region h p (length bs)"
  shows "bytes_at (store_bytes h p bs) p (length bs) = bs"
  using assms
  by (cases p) (auto intro!: nth_equalityI simp: nth_bytes_at nth_append)

lemma bytes_at_store_other_blk:
  assumes "ptr_blk p \<noteq> ptr_blk q \<or> n = 0"
  shows "bytes_at (store_bytes h p bs) q n = bytes_at h q n"
  using assms
  by (cases p; cases q) (auto intro!: nth_equalityI simp: nth_bytes_at)

lemma bytes_at_store_after:
  assumes "valid_region h p (k + length bs)"
  shows "bytes_at (store_bytes h (ptr_add p k) bs) p k = bytes_at h p k"
  using assms
  by (cases p) (auto intro!: nth_equalityI simp: nth_bytes_at nth_append)

lemma store_bytes_append:
  assumes "valid_region h p (length xs + length ys)"
  shows "store_bytes (store_bytes h p xs) (ptr_add p (length xs)) ys = store_bytes h p (xs @ ys)"
proof (cases p)
  case NULL
  then show ?thesis by simp
next
  case (Ptr b i)
  with assms have "i + (length xs + length ys) \<le> length (h b)" by simp
  with Ptr show ?thesis by (simp add: ac_simps min_def)
qed

section \<open>Little-endian words\<close>

fun le_word :: "byte list \<Rightarrow> 'a::len word" where
  "le_word [] = 0"
| "le_word (b # bs) = ucast b OR push_bit 8 (le_word bs)"

fun le_bytes :: "nat \<Rightarrow> 'a::len word \<Rightarrow> byte list" where
  "le_bytes 0 w = []"
| "le_bytes (Suc n) w = ucast w # le_bytes n (drop_bit 8 w)"

lemma length_le_bytes [simp]: "length (le_bytes n w) = n"
  by (induction n arbitrary: w) auto

lemma le_word_le_bytes: "le_word (le_bytes n w) = take_bit (8 * n) w"
proof (induction n arbitrary: w)
  case 0
  then show ?case by simp
next
  case (Suc n)
  then show ?case by (auto intro!: bit_word_eqI simp: bit_simps)
qed

lemma le_word_le_bytes_32 [simp]: "le_word (le_bytes 4 w) = (w :: u32)"
  by (simp add: le_word_le_bytes take_bit_length_eq [where 'a = 32, simplified])

lemma le_word_le_bytes_64 [simp]: "le_word (le_bytes 8 w) = (w :: u64)"
  by (simp add: le_word_le_bytes take_bit_length_eq [where 'a = 64, simplified])

text \<open>Shifting a nonzero word right makes it smaller: the varint loops terminate.\<close>

lemma unat_drop_bit_less: "v \<noteq> 0 \<Longrightarrow> 0 < n \<Longrightarrow> unat (drop_bit n v) < unat (v :: 'a::len word)"
proof -
  assume "v \<noteq> 0" "0 < n"
  then have "0 < unat v" and "1 < (2::nat) ^ n"
    using one_less_power [of "2::nat" n] by (simp_all add: unat_gt_0)
  then have "unat v div 2 ^ n < unat v" by simp
  then show ?thesis unfolding unat_drop_bit_eq by (simp add: drop_bit_eq_div)
qed

lemma unat_u32_less: "unat (w :: u32) < 4294967296"
  using unsigned_less [where 'a = nat and 'b = 32, of w] by simp

lemma unat_u64_less: "unat (w :: u64) < 18446744073709551616"
  using unsigned_less [where 'a = nat and 'b = 64, of w] by simp

lemma to_u64_nat: "0 \<le> i \<Longrightarrow> to_u64 i = of_nat (nat i)"
  by (metis int_nat_eq of_int_of_nat_eq)

lemma to_int32_id: "- (2 ^ 31) \<le> i \<Longrightarrow> i < 2 ^ 31 \<Longrightarrow> to_int32 i = i"
  by (simp add: to_int32_def signed_of_int signed_take_bit_int_eq_self)

lemma to_int32_nat: "n < 2 ^ 31 \<Longrightarrow> to_int32 (int n) = int n"
  by (rule to_int32_id) simp_all

section \<open>Lists\<close>

text \<open>The first element of a list with a property, as a linear search returns it.\<close>

lemma find_None_iff_filter: "List.find P xs = None \<longleftrightarrow> filter P xs = []"
  by (auto simp: find_None_iff filter_empty_conv)

lemma find_append: "List.find P (xs @ ys) = (case List.find P xs of None \<Rightarrow> List.find P ys | r \<Rightarrow> r)"
  by (induction xs) auto

lemma sum_list_remove1:
  fixes g :: "'a \<Rightarrow> int"
  shows "x \<in> set xs \<Longrightarrow> sum_list (map g (remove1 x xs)) = sum_list (map g xs) - g x"
  by (induction xs) auto

end
