(* ===== verification/Pb.thy ===== *)
theory Pb
  imports Knv_Prelude
begin

text \<open>
  The low-level protocol-buffer routines, \<open>src/src/pb.h\<close> and \<open>src/src/pb.c\<close>: zig-zag integers,
  varints, the field iterator (\<open>pb_begin\<close>, \<open>pb_next\<close>, \<open>pb_skip_field\<close>) and the buffer writer (\<open>pb_add_*\<close>,
  \<open>pb_eval_*\<close>).  Readers take the memory as an argument, writers return it changed.  A function that
  returns a status code and updates \<open>*f\<close> or \<open>*b\<close> returns the pair of both.

  The wire format they implement, and the proofs, are in \<open>Pb_Wire\<close> (writing), \<open>Pb_Parse\<close> (reading) and
  \<open>Pb_Correct\<close> (the properties).
\<close>

section \<open>Definitions\<close>

subsection \<open>Zig-zag integers\<close>

definition pb_int2uint :: "u64 \<Rightarrow> u64" where
  "pb_int2uint s = (if sint s < 0 then NOT (push_bit 1 s) else push_bit 1 s)"

definition pb_uint2int :: "u64 \<Rightarrow> u64" where
  "pb_uint2int u = (if u AND 1 \<noteq> 0 then NOT (drop_bit 1 u) else drop_bit 1 u)"

subsection \<open>Data types\<close>

text \<open>
  \<open>pb_type_t\<close> is an enum; a value read from the wire is cast to it unchecked, so the type also holds
  the codes that have no name.
\<close>

datatype pb_type_t =
  PB_TYPE_VARINT | PB_TYPE_FIXED64 | PB_TYPE_STRING | PB_TYPE_FIXED32 | PB_TYPE_CODE nat

fun pb_type_code :: "pb_type_t \<Rightarrow> nat" where
  "pb_type_code PB_TYPE_VARINT = 0"
| "pb_type_code PB_TYPE_FIXED64 = 1"
| "pb_type_code PB_TYPE_STRING = 2"
| "pb_type_code PB_TYPE_FIXED32 = 5"
| "pb_type_code (PB_TYPE_CODE n) = n"

definition pb_type_of_code :: "nat \<Rightarrow> pb_type_t" where
  "pb_type_of_code n =
     (if n = 0 then PB_TYPE_VARINT else if n = 1 then PB_TYPE_FIXED64
      else if n = 2 then PB_TYPE_STRING else if n = 5 then PB_TYPE_FIXED32 else PB_TYPE_CODE n)"

text \<open>
  The union \<open>pb_field_val_t\<close> on a 64-bit little-endian machine: \<open>i32\<close> and \<open>str.len\<close> are the low half of
  \<open>i64\<close>, \<open>str.data\<close> lies behind it.
\<close>

record pb_field_val_t =
  v_i64 :: u64
  v_data :: ptr

definition v_i32 :: "pb_field_val_t \<Rightarrow> u32" where
  "v_i32 v = ucast (v_i64 v)"

definition v_len :: "pb_field_val_t \<Rightarrow> u32" where
  "v_len v = ucast (v_i64 v)"

definition set_low32 :: "u64 \<Rightarrow> u32 \<Rightarrow> u64" where
  "set_low32 w x = (w AND 0xFFFFFFFF00000000) OR ucast x"

definition set_v_i32 :: "u32 \<Rightarrow> pb_field_val_t \<Rightarrow> pb_field_val_t" where
  "set_v_i32 x v = v\<lparr>v_i64 := set_low32 (v_i64 v) x\<rparr>"

definition set_v_len :: "u32 \<Rightarrow> pb_field_val_t \<Rightarrow> pb_field_val_t" where
  "set_v_len x v = v\<lparr>v_i64 := set_low32 (v_i64 v) x\<rparr>"

record pb_field_t =
  f_tag :: u32
  f_eom :: bool
  f_type :: pb_type_t
  f_val :: pb_field_val_t
  f_start :: ptr
  f_size :: u32
  f_ptr :: ptr
  f_left :: int
  f_errmsg :: "string option"

record pb_buff_t =
  b_start :: ptr
  b_size :: u64
  b_ptr :: ptr
  b_left :: int
  b_errmsg :: "string option"

text \<open>\<open>RETURN_WITH_ERROR\<close> keeps the first message.\<close>

definition f_error :: "string \<Rightarrow> pb_field_t \<Rightarrow> pb_field_t" where
  "f_error msg f = (if f_errmsg f = None then f\<lparr>f_errmsg := Some msg\<rparr> else f)"

definition b_error :: "string \<Rightarrow> pb_buff_t \<Rightarrow> pb_buff_t" where
  "b_error msg b = (if b_errmsg b = None then b\<lparr>b_errmsg := Some msg\<rparr> else b)"

definition f_advance :: "nat \<Rightarrow> pb_field_t \<Rightarrow> pb_field_t" where
  "f_advance n f = f\<lparr>f_ptr := ptr_add (f_ptr f) n, f_left := f_left f - int n\<rparr>"

definition b_advance :: "nat \<Rightarrow> pb_buff_t \<Rightarrow> pb_buff_t" where
  "b_advance n b = b\<lparr>b_ptr := ptr_add (b_ptr b) n, b_left := b_left b - int n\<rparr>"

subsection \<open>Reading\<close>

definition pb_get :: "heap \<Rightarrow> pb_field_t \<Rightarrow> u64 \<Rightarrow> int \<times> byte list \<times> pb_field_t" where
  "pb_get h f count =
     (if to_u64 (f_left f) < count then (-1, [], f_error ''end of buffer'' f)
      else (0, bytes_at h (f_ptr f) (unat count), f_advance (unat count) f))"

definition pb_get_byte :: "heap \<Rightarrow> pb_field_t \<Rightarrow> int \<times> byte \<times> pb_field_t" where
  "pb_get_byte h f =
     (if f_left f < 1 then (-1, 0, f_error ''end of buffer'' f)
      else (0, load h (f_ptr f), f_advance 1 f))"

definition pb_get_dword :: "heap \<Rightarrow> pb_field_t \<Rightarrow> int \<times> u32 \<times> pb_field_t" where
  "pb_get_dword h f =
     (if f_left f < 4 then (-1, 0, f_error ''end of buffer'' f)
      else (0, le_word (bytes_at h (f_ptr f) 4), f_advance 4 f))"

definition pb_get_ddword :: "heap \<Rightarrow> pb_field_t \<Rightarrow> int \<times> u64 \<times> pb_field_t" where
  "pb_get_ddword h f =
     (if f_left f < 8 then (-1, 0, f_error ''end of buffer'' f)
      else (0, le_word (bytes_at h (f_ptr f) 8), f_advance 8 f))"

text \<open>The loop of \<open>pb_decode_varint\<close>; \<open>bitpos\<close> is a \<open>uint8_t\<close>.\<close>

function pb_decode_varint_loop ::
  "heap \<Rightarrow> pb_field_t \<Rightarrow> nat \<Rightarrow> u64 \<Rightarrow> int \<times> pb_field_t" where
  "pb_decode_varint_loop h f bitpos result =
     (if bitpos \<ge> 64 then (-1, f_error ''varint overflow'' f)
      else
        (let (ret, byte, f) = pb_get_byte h f in
         if ret \<noteq> 0 then (-2, f)
         else
           (let result = result OR push_bit bitpos (ucast (byte AND 0x7F)) in
            if byte AND 0x80 \<noteq> 0 then pb_decode_varint_loop h f ((bitpos + 7) mod 256) result
            else (0, f\<lparr>f_val := (f_val f)\<lparr>v_i64 := result\<rparr>\<rparr>))))"
  by pat_completeness auto
termination
  by (relation "measure (\<lambda>(h, f, bitpos, result). 71 - bitpos)") auto

declare pb_decode_varint_loop.simps [simp del]

definition pb_decode_varint :: "heap \<Rightarrow> pb_field_t \<Rightarrow> int \<times> pb_field_t" where
  "pb_decode_varint h f = pb_decode_varint_loop h f 0 0"

definition pb_decode_fixed32 :: "heap \<Rightarrow> pb_field_t \<Rightarrow> int \<times> pb_field_t" where
  "pb_decode_fixed32 h f =
     (let (ret, x, f) = pb_get_dword h f
      in (ret, if ret = 0 then f\<lparr>f_val := set_v_i32 x (f_val f)\<rparr> else f))"

definition pb_decode_fixed64 :: "heap \<Rightarrow> pb_field_t \<Rightarrow> int \<times> pb_field_t" where
  "pb_decode_fixed64 h f =
     (let (ret, x, f) = pb_get_ddword h f
      in (ret, if ret = 0 then f\<lparr>f_val := (f_val f)\<lparr>v_i64 := x\<rparr>\<rparr> else f))"

definition pb_decode_string :: "heap \<Rightarrow> pb_field_t \<Rightarrow> int \<times> pb_field_t" where
  "pb_decode_string h f =
     (let (ret, f) = pb_decode_varint h f in
      if ret \<noteq> 0 then (-1, f)
      else if v_i64 (f_val f) > to_u64 (f_left f) then (-2, f_error ''string overflow'' f)
      else
        (let sz = ucast (v_i64 (f_val f)) :: u32;
             v = (set_v_len sz (f_val f))\<lparr>v_data := f_ptr f\<rparr>
         in (0, f_advance (unat sz) (f\<lparr>f_val := v\<rparr>))))"

text \<open>\<open>pb_skip_varint\<close> returns 0 also at the end of the buffer; its loop is bounded by \<open>left\<close>.\<close>

function pb_skip_varint :: "heap \<Rightarrow> pb_field_t \<Rightarrow> int \<times> pb_field_t" where
  "pb_skip_varint h f =
     (let (ret, byte, f') = pb_get_byte h f in
      if ret \<noteq> 0 then (0, f')
      else if byte AND 0x80 \<noteq> 0 then pb_skip_varint h f'
      else (0, f'))"
  by pat_completeness auto
termination
  by (relation "measure (\<lambda>(h, f). nat (f_left f))")
     (auto simp: pb_get_byte_def f_advance_def split: if_splits)

declare pb_skip_varint.simps [simp del]

definition pb_skip_string :: "heap \<Rightarrow> pb_field_t \<Rightarrow> int \<times> pb_field_t" where
  "pb_skip_string h f =
     (let (ret, f) = pb_decode_varint h f in
      if ret \<noteq> 0 then (-1, f)
      else (let (ret, _, f) = pb_get h f (ucast (v_i32 (f_val f))) in (ret, f)))"

definition pb_decode_tag :: "heap \<Rightarrow> pb_field_t \<Rightarrow> int \<times> pb_field_t" where
  "pb_decode_tag h f =
     (let (ret, f) = pb_decode_varint h f in
      if ret \<noteq> 0 then (-1, if f_left f = 0 then f\<lparr>f_eom := True\<rparr> else f)
      else if v_i64 (f_val f) = 0 then (-2, f_error ''0-terminated msg'' (f\<lparr>f_eom := True\<rparr>))
      else
        (let f = f\<lparr>f_tag := ucast (drop_bit 3 (v_i64 (f_val f))),
                   f_type := pb_type_of_code (unat (v_i32 (f_val f) AND 7))\<rparr>
         in case f_type f of
              PB_TYPE_VARINT \<Rightarrow> pb_decode_varint h f
            | PB_TYPE_FIXED64 \<Rightarrow> pb_decode_fixed64 h f
            | PB_TYPE_STRING \<Rightarrow> pb_decode_string h f
            | PB_TYPE_FIXED32 \<Rightarrow> pb_decode_fixed32 h f
            | PB_TYPE_CODE _ \<Rightarrow> (-3, f_error ''invalid type'' f)))"

definition pb_skip_field :: "heap \<Rightarrow> pb_field_t \<Rightarrow> pb_type_t \<Rightarrow> int \<times> pb_field_t" where
  "pb_skip_field h f type =
     (case type of
        PB_TYPE_VARINT \<Rightarrow> pb_skip_varint h f
      | PB_TYPE_FIXED64 \<Rightarrow> (let (ret, _, f) = pb_get_ddword h f in (ret, f))
      | PB_TYPE_STRING \<Rightarrow> pb_skip_string h f
      | PB_TYPE_FIXED32 \<Rightarrow> (let (ret, _, f) = pb_get_dword h f in (ret, f))
      | PB_TYPE_CODE _ \<Rightarrow> (-1, f_error ''invalid type'' f))"

text \<open>
  The iterator functions return a pointer to \<open>f\<close> or \<open>NULL\<close>: the model returns whether it is \<open>f\<close>, and
  \<open>*f\<close>, which the caller reads (\<open>eom\<close>, \<open>errmsg\<close>) also after \<open>NULL\<close>.
\<close>

definition pb_begin :: "heap \<Rightarrow> pb_field_t \<Rightarrow> ptr \<Rightarrow> int \<Rightarrow> bool \<times> pb_field_t" where
  "pb_begin h f data dlen =
     (let f = f\<lparr>f_start := data, f_ptr := data, f_size := word_of_int dlen, f_left := dlen,
                f_eom := False, f_errmsg := None\<rparr>;
          (ret, f) = pb_decode_tag h f
      in (ret = 0, f))"

definition pb_begin_delimited :: "heap \<Rightarrow> pb_field_t \<Rightarrow> ptr \<Rightarrow> int \<Rightarrow> bool \<times> pb_field_t" where
  "pb_begin_delimited h f data dlen =
     (let f = f\<lparr>f_start := data, f_ptr := data, f_size := word_of_int dlen, f_left := dlen,
                f_eom := False\<rparr>;
          (ret, f) = pb_decode_varint h f
      in if ret \<noteq> 0 then (False, f)
         else if v_i64 (f_val f) > to_u64 (f_left f)
         then (False, f_error ''delimited overflow'' f)
         else
           (let f = f\<lparr>f_left := to_int32 (uint (v_i64 (f_val f)))\<rparr>;
                (ret, f) = pb_decode_tag h f
            in (ret = 0, f)))"

definition pb_next :: "heap \<Rightarrow> pb_field_t \<Rightarrow> bool \<times> pb_field_t" where
  "pb_next h f = (let (ret, f) = pb_decode_tag h f in (ret = 0, f))"

subsection \<open>Writing\<close>

definition pb_init_buff :: "pb_buff_t \<Rightarrow> ptr \<Rightarrow> u64 \<Rightarrow> int \<times> pb_buff_t" where
  "pb_init_buff b buf sz =
     (0, b\<lparr>b_start := buf, b_ptr := buf, b_left := to_int32 (uint sz),
           b_size := to_u64 (to_int32 (uint sz))\<rparr>)"

definition pb_add :: "heap \<Rightarrow> pb_buff_t \<Rightarrow> byte list \<Rightarrow> u64 \<Rightarrow> int \<times> heap \<times> pb_buff_t" where
  "pb_add h b buf count =
     (if to_u64 (b_left b) < count then (-1, h, b_error ''buf overflow'' b)
      else (0, store_bytes h (b_ptr b) (take (unat count) buf), b_advance (unat count) b))"

definition pb_add_user :: "heap \<Rightarrow> pb_buff_t \<Rightarrow> ptr \<Rightarrow> u64 \<Rightarrow> int \<times> heap \<times> pb_buff_t" where
  "pb_add_user h b buf count = pb_add h b (bytes_at h buf (unat count)) count"

definition pb_add_dword :: "heap \<Rightarrow> pb_buff_t \<Rightarrow> u32 \<Rightarrow> int \<times> heap \<times> pb_buff_t" where
  "pb_add_dword h b val =
     (if b_left b < 4 then (-1, h, b_error ''buf overflow'' b)
      else (0, store_bytes h (b_ptr b) (le_bytes 4 val), b_advance 4 b))"

definition pb_add_ddword :: "heap \<Rightarrow> pb_buff_t \<Rightarrow> u64 \<Rightarrow> int \<times> heap \<times> pb_buff_t" where
  "pb_add_ddword h b val =
     (if b_left b < 8 then (-1, h, b_error ''buf overflow'' b)
      else (0, store_bytes h (b_ptr b) (le_bytes 8 val), b_advance 8 b))"

text \<open>The loop of \<open>pb_add_vint\<close>, which fills the local array \<open>uint8_t buffer[10]\<close>.\<close>

function pb_vint_loop :: "u64 \<Rightarrow> byte list \<Rightarrow> byte list" where
  "pb_vint_loop value buffer =
     (if value \<noteq> 0
      then pb_vint_loop (drop_bit 7 value) (buffer @ [ucast ((value AND 0x7F) OR 0x80)])
      else buffer)"
  by pat_completeness auto
termination
  by (relation "measure (\<lambda>(value, buffer). unat value)") (simp_all add: unat_drop_bit_less)

declare pb_vint_loop.simps [simp del]

definition pb_add_vint :: "heap \<Rightarrow> pb_buff_t \<Rightarrow> u64 \<Rightarrow> int \<times> heap \<times> pb_buff_t" where
  "pb_add_vint h b value =
     (if value = 0 then pb_add h b [ucast value] 1
      else
        (let buffer = pb_vint_loop value [];
             i = length buffer;
             buffer = buffer[i - 1 := (buffer ! (i - 1)) AND 0x7F]
         in pb_add h b buffer (of_nat i)))"

text \<open>\<open>wiretype | (field_number << 3)\<close> is computed in 32 bits and then widened.\<close>

definition pb_tag_word :: "pb_type_t \<Rightarrow> u32 \<Rightarrow> u64" where
  "pb_tag_word wiretype field_number =
     ucast ((of_nat (pb_type_code wiretype) :: u32) OR push_bit 3 field_number)"

definition pb_add_tag :: "heap \<Rightarrow> pb_buff_t \<Rightarrow> pb_type_t \<Rightarrow> u32 \<Rightarrow> int \<times> heap \<times> pb_buff_t" where
  "pb_add_tag h b wiretype field_number = pb_add_vint h b (pb_tag_word wiretype field_number)"

definition pb_add_field_val ::
  "heap \<Rightarrow> pb_buff_t \<Rightarrow> u32 \<Rightarrow> pb_type_t \<Rightarrow> pb_field_val_t \<Rightarrow> int \<times> heap \<times> pb_buff_t" where
  "pb_add_field_val h b tag type val =
     (let (ret, h, b) = pb_add_tag h b type tag in
      if ret \<noteq> 0 then (-1, h, b)
      else case type of
             PB_TYPE_VARINT \<Rightarrow> pb_add_vint h b (v_i64 val)
           | PB_TYPE_FIXED64 \<Rightarrow> pb_add_ddword h b (v_i64 val)
           | PB_TYPE_STRING \<Rightarrow>
               (let (ret, h, b) = pb_add_vint h b (ucast (v_len val)) in
                if ret \<noteq> 0 then (-2, h, b)
                else pb_add h b (bytes_at h (v_data val) (unat (v_len val))) (ucast (v_len val)))
           | PB_TYPE_FIXED32 \<Rightarrow> pb_add_dword h b (v_i32 val)
           | PB_TYPE_CODE _ \<Rightarrow> (-2, h, b_error ''invalid wire_type'' b))"

definition pb_add_field :: "heap \<Rightarrow> pb_buff_t \<Rightarrow> pb_field_t \<Rightarrow> int \<times> heap \<times> pb_buff_t" where
  "pb_add_field h b f = pb_add_field_val h b (f_tag f) (f_type f) (f_val f)"

definition pb_add_varint :: "heap \<Rightarrow> pb_buff_t \<Rightarrow> u32 \<Rightarrow> u64 \<Rightarrow> int \<times> heap \<times> pb_buff_t" where
  "pb_add_varint h b tag value =
     (let (ret, h, b) = pb_add_tag h b PB_TYPE_VARINT tag in
      if ret \<noteq> 0 then (-1, h, b) else pb_add_vint h b value)"

definition pb_add_string ::
  "heap \<Rightarrow> pb_buff_t \<Rightarrow> u32 \<Rightarrow> ptr \<Rightarrow> u64 \<Rightarrow> int \<times> heap \<times> pb_buff_t" where
  "pb_add_string h b tag buffer sz =
     (let (ret, h, b) = pb_add_tag h b PB_TYPE_STRING tag in
      if ret \<noteq> 0 then (-1, h, b)
      else
        (let (ret, h, b) = pb_add_vint h b sz in
         if ret \<noteq> 0 then (-2, h, b)
         else pb_add h b (bytes_at h buffer (unat sz)) sz))"

definition pb_add_string_head ::
  "heap \<Rightarrow> pb_buff_t \<Rightarrow> u32 \<Rightarrow> u64 \<Rightarrow> int \<times> heap \<times> pb_buff_t" where
  "pb_add_string_head h b tag sz =
     (let (ret, h, b) = pb_add_tag h b PB_TYPE_STRING tag in
      if ret \<noteq> 0 then (-1, h, b) else pb_add_vint h b sz)"

definition pb_add_fixed32 :: "heap \<Rightarrow> pb_buff_t \<Rightarrow> u32 \<Rightarrow> u32 \<Rightarrow> int \<times> heap \<times> pb_buff_t" where
  "pb_add_fixed32 h b tag value =
     (let (ret, h, b) = pb_add_tag h b PB_TYPE_FIXED32 tag in
      if ret \<noteq> 0 then (-1, h, b) else pb_add_dword h b value)"

definition pb_add_fixed64 :: "heap \<Rightarrow> pb_buff_t \<Rightarrow> u32 \<Rightarrow> u64 \<Rightarrow> int \<times> heap \<times> pb_buff_t" where
  "pb_add_fixed64 h b tag value =
     (let (ret, h, b) = pb_add_tag h b PB_TYPE_FIXED64 tag in
      if ret \<noteq> 0 then (-1, h, b) else pb_add_ddword h b value)"

definition pb_get_encoded_length :: "pb_buff_t \<Rightarrow> int" where
  "pb_get_encoded_length b = to_int32 (uint (b_size b - to_u64 (b_left b)))"

subsection \<open>Length evaluation\<close>

function pb_eval_vint_loop :: "u64 \<Rightarrow> int \<Rightarrow> int" where
  "pb_eval_vint_loop value eval_length =
     (if value \<noteq> 0 then pb_eval_vint_loop (drop_bit 7 value) (eval_length + 1) else eval_length)"
  by pat_completeness auto
termination
  by (relation "measure (\<lambda>(value, eval_length). unat value)") (simp_all add: unat_drop_bit_less)

declare pb_eval_vint_loop.simps [simp del]

definition pb_eval_vint_length :: "u64 \<Rightarrow> int" where
  "pb_eval_vint_length value = (if value = 0 then 1 else pb_eval_vint_loop value 0)"

definition pb_eval_tag_length :: "pb_type_t \<Rightarrow> u32 \<Rightarrow> int" where
  "pb_eval_tag_length wiretype field_number =
     pb_eval_vint_length (pb_tag_word wiretype field_number)"

text \<open>
  In the string case \<open>int + int + uint32_t\<close> is an unsigned sum, converted to the \<open>int\<close> result.
\<close>

definition pb_eval_field_length :: "u32 \<Rightarrow> pb_type_t \<Rightarrow> pb_field_val_t \<Rightarrow> int" where
  "pb_eval_field_length tag type val =
     (case type of
        PB_TYPE_VARINT \<Rightarrow> pb_eval_tag_length type tag + pb_eval_vint_length (v_i64 val)
      | PB_TYPE_FIXED64 \<Rightarrow> pb_eval_tag_length type tag + 8
      | PB_TYPE_FIXED32 \<Rightarrow> pb_eval_tag_length type tag + 4
      | _ \<Rightarrow> to_int32 (pb_eval_tag_length type tag + pb_eval_vint_length (ucast (v_len val))
               + uint (v_len val)))"

end
