(* ===== verification/Pb_Wire.thy ===== *)
theory Pb_Wire
  imports Pb
begin

text \<open>
  The writing half of the protocol-buffer wire format as functions on byte lists (\<open>varint_enc\<close>, \<open>enc_field\<close>), and
  the proof that the routines of \<open>Pb\<close> implement it: the lemmas on \<open>pb_add_*\<close> say that the writer appends exactly
  the reference encoding, those on \<open>pb_eval_*\<close> that the evaluated length is its length, and the C loops over
  varints are those of the reference.
\<close>

section \<open>Groups of seven bits\<close>

lemma and_127: "(w :: 'a::len word) AND 127 = take_bit 7 w"
  by (simp add: take_bit_eq_mask mask_eq_exp_minus_1)

lemma bit_128: "bit (128 :: int) n \<longleftrightarrow> n = 7"
proof -
  have "(128 :: int) = 2 ^ 7" by simp
  then show ?thesis by (simp only: bit_exp_iff) auto
qed

lemma bit_byte_128: "(b :: byte) AND 128 \<noteq> 0 \<longleftrightarrow> bit b 7"
proof -
  have "b AND 128 = (if bit b 7 then 128 else 0)"
    by (rule bit_word_eqI) (auto simp: bit_and_iff bit_128)
  then show ?thesis by simp
qed

lemma drop_bit_7_eq_0_iff: "drop_bit 7 (v :: u64) = 0 \<longleftrightarrow> v < 128"
proof -
  have "drop_bit 7 v = 0 \<longleftrightarrow> unat v div 128 = 0"
    unfolding unat_eq_0 [symmetric] unat_drop_bit_eq by (simp add: drop_bit_eq_div)
  also have "\<dots> \<longleftrightarrow> v < 128"
    by (simp add: word_less_nat_alt div_eq_0_iff)
  finally show ?thesis .
qed

lemma bit_high: "v < 128 \<Longrightarrow> 7 \<le> n \<Longrightarrow> \<not> bit (v :: u64) n"
proof -
  assume "v < 128" "7 \<le> n"
  then have "bit (drop_bit 7 v) (n - 7) = bit v n" by (simp add: bit_simps)
  with \<open>v < 128\<close> show ?thesis by (simp add: drop_bit_7_eq_0_iff [symmetric])
qed

lemma group_more:
  fixes v :: u64
  shows "(ucast (take_bit 7 v) OR 128 :: byte) AND 128 \<noteq> 0"
    and "ucast ((ucast (take_bit 7 v) OR 128 :: byte) AND 127) = take_bit 7 v"
proof -
  show "(ucast (take_bit 7 v) OR 128 :: byte) AND 128 \<noteq> 0"
    by (simp add: bit_byte_128 bit_simps bit_128)
  show "ucast ((ucast (take_bit 7 v) OR 128 :: byte) AND 127) = take_bit 7 v"
    by (rule bit_word_eqI) (auto simp: and_127 bit_or_iff bit_128 bit_simps)
qed

lemma group_last:
  fixes v :: u64
  assumes "v < 128"
  shows "(ucast v :: byte) AND 128 = 0"
    and "ucast ((ucast v :: byte) AND 127) = v"
proof -
  from assms have "\<not> bit (ucast v :: byte) 7" by (simp add: bit_simps bit_high)
  then show "(ucast v :: byte) AND 128 = 0" using bit_byte_128 by blast
  have "bit v n \<Longrightarrow> n < 7 \<and> n < 8" for n
    using assms bit_high [of v n] by (cases "7 \<le> n") auto
  then show "ucast ((ucast v :: byte) AND 127) = v"
    by (intro bit_word_eqI) (auto simp: and_127 bit_simps)
qed

lemma group_split:
  fixes v :: u64
  shows "push_bit p (take_bit 7 v) OR push_bit (p + 7) (drop_bit 7 v) = push_bit p v"
proof (rule bit_word_eqI)
  fix n
  assume "n < LENGTH(64)"
  show "bit (push_bit p (take_bit 7 v) OR push_bit (p + 7) (drop_bit 7 v)) n = bit (push_bit p v) n"
  proof (cases "p + 7 \<le> n")
    case True
    then have "7 + (n - (p + 7)) = n - p" by simp
    with True show ?thesis by (auto simp: bit_simps)
  qed (auto simp: bit_simps)
qed

lemma group_store:
  fixes v :: u64
  shows "ucast ((v AND 0x7F) OR 0x80) = (ucast (take_bit 7 v) OR 128 :: byte)"
  by (rule bit_word_eqI) (auto simp: and_127 bit_simps bit_or_iff bit_128)

lemma group_store_last:
  fixes v :: u64
  assumes "v < 128"
  shows "(ucast (take_bit 7 v) OR 128 :: byte) AND 0x7F = ucast v"
proof -
  have "bit v n \<Longrightarrow> n < 7 \<and> n < 8" for n
    using assms bit_high [of v n] by (cases "7 \<le> n") auto
  then show ?thesis
    by (intro bit_word_eqI) (auto simp: and_127 bit_simps bit_or_iff bit_128)
qed

section \<open>Varints\<close>

function varint_enc :: "u64 \<Rightarrow> byte list" where
  "varint_enc v =
     (if v < 128 then [ucast v] else (ucast (take_bit 7 v) OR 128) # varint_enc (drop_bit 7 v))"
  by pat_completeness auto
termination
proof (relation "measure unat")
  fix v :: u64
  assume "\<not> v < 128"
  then have "v \<noteq> 0" by auto
  then show "(drop_bit 7 v, v) \<in> measure unat"
    using unat_drop_bit_less [of v 7] by (simp only: in_measure) simp
qed simp

declare varint_enc.simps [simp del]

fun varint_dec :: "nat \<Rightarrow> u64 \<Rightarrow> byte list \<Rightarrow> (u64 \<times> byte list) option" where
  "varint_dec p r [] = None"
| "varint_dec p r (b # bs) =
     (if p \<ge> 64 then None
      else let r = r OR push_bit p (ucast (b AND 0x7F)) in
           if b AND 0x80 \<noteq> 0 then varint_dec (p + 7) r bs else Some (r, bs))"

lemma varint_enc_small: "v < 128 \<Longrightarrow> varint_enc v = [ucast v]"
  by (simp add: varint_enc.simps [of v])

lemma varint_enc_large:
  "\<not> v < 128 \<Longrightarrow> varint_enc v = (ucast (take_bit 7 v) OR 128) # varint_enc (drop_bit 7 v)"
  by (simp add: varint_enc.simps [of v])

lemma varint_enc_ne: "varint_enc v \<noteq> []"
  by (subst varint_enc.simps) simp

lemma varint_dec_enc_gen:
  "p < 64 \<Longrightarrow> unat v < 2 ^ (64 - p) \<Longrightarrow>
   varint_dec p r (varint_enc v @ rest) = Some (r OR push_bit p v, rest)"
proof (induction v arbitrary: p r rule: varint_enc.induct)
  case (1 v)
  show ?case
  proof (cases "v < 128")
    case True
    with "1.prems" show ?thesis by (simp add: varint_enc_small group_last)
  next
    case False
    then have v: "128 \<le> unat v" by (simp add: word_less_nat_alt)
    have p7: "p + 7 < 64"
    proof (rule ccontr)
      assume "\<not> p + 7 < 64"
      then have "(2::nat) ^ (64 - p) \<le> 2 ^ 7" by (intro power_increasing) auto
      with "1.prems"(2) v show False by simp
    qed
    from p7 have "64 - p = (64 - (p + 7)) + 7" by simp
    then have "(2::nat) ^ (64 - p) = 2 ^ (64 - (p + 7)) * 2 ^ 7" by (metis power_add)
    with "1.prems"(2) have "unat v div 128 < 2 ^ (64 - (p + 7))"
      by (simp add: less_mult_imp_div_less)
    then have "unat (drop_bit 7 v) < 2 ^ (64 - (p + 7))"
      unfolding unat_drop_bit_eq by (simp add: drop_bit_eq_div)
    with False p7 "1.IH" show ?thesis
      by (simp add: varint_enc_large group_more "1.prems"(1) or.assoc group_split)
  qed
qed

theorem varint_dec_enc: "varint_dec 0 0 (varint_enc v @ rest) = Some (v, rest)"
  using varint_dec_enc_gen [of 0 v 0 rest] unsigned_less [of v] by simp

lemma length_varint_enc_le: "unat v < 2 ^ (7 * Suc n) \<Longrightarrow> length (varint_enc v) \<le> Suc n"
proof (induction n arbitrary: v)
  case 0
  then show ?case by (simp add: varint_enc_small word_less_nat_alt)
next
  case (Suc n)
  show ?case
  proof (cases "v < 128")
    case True
    then show ?thesis by (simp add: varint_enc_small)
  next
    case False
    have "(2::nat) ^ (7 * Suc (Suc n)) = 2 ^ (7 * Suc n) * 2 ^ 7"
      by (simp only: power_add [symmetric]) simp
    with Suc.prems have "unat v < 2 ^ (7 * Suc n) * 2 ^ 7" by (simp only:)
    then have "unat (drop_bit 7 v) < 2 ^ (7 * Suc n)"
      unfolding unat_drop_bit_eq by (simp add: drop_bit_eq_div less_mult_imp_div_less)
    with Suc.IH False show ?thesis by (simp add: varint_enc_large)
  qed
qed

lemma length_varint_enc: "1 \<le> length (varint_enc v) \<and> length (varint_enc v) \<le> 10"
proof -
  have "unat v < 2 ^ (7 * Suc 9)" using less_le_trans [OF unsigned_less [of v], of "2 ^ (7 * Suc 9)"] by simp
  from length_varint_enc_le [OF this] varint_enc_ne [of v] show ?thesis
    by (cases "varint_enc v") auto
qed

subsection \<open>The C loops\<close>

lemma pb_vint_loop_append: "pb_vint_loop v (xs @ buf) = xs @ pb_vint_loop v buf"
  by (induction v buf rule: pb_vint_loop.induct)
     (simp add: pb_vint_loop.simps [of v "xs @ buf" for v xs buf] pb_vint_loop.simps)

lemma pb_vint_loop_Cons:
  "v \<noteq> 0 \<Longrightarrow> pb_vint_loop v [] = (ucast (take_bit 7 v) OR 128) # pb_vint_loop (drop_bit 7 v) []"
  using pb_vint_loop_append [of "drop_bit 7 v" "[ucast (take_bit 7 v) OR 128]" "[]"]
  by (simp add: pb_vint_loop.simps [of v "[]"] group_store)

lemma pb_vint_loop_0 [simp]: "pb_vint_loop 0 xs = xs"
  by (simp add: pb_vint_loop.simps)

lemma pb_vint_loop_ne: "v \<noteq> 0 \<Longrightarrow> pb_vint_loop v [] \<noteq> []"
  by (simp add: pb_vint_loop_Cons)

text \<open>Clearing the top bit of the last byte turns the loop's bytes into the varint.\<close>

lemma pb_vint_buffer:
  "v \<noteq> 0 \<Longrightarrow>
   (let buffer = pb_vint_loop v []; i = length buffer
    in buffer[i - 1 := (buffer ! (i - 1)) AND 0x7F]) = varint_enc v"
proof (induction v rule: varint_enc.induct)
  case (1 v)
  show ?case
  proof (cases "v < 128")
    case True
    then have "drop_bit 7 v = 0" by (simp only: drop_bit_7_eq_0_iff)
    with True "1.prems" show ?thesis
      by (simp add: pb_vint_loop_Cons varint_enc_small group_store_last)
  next
    case False
    then have nz: "drop_bit 7 v \<noteq> 0" by (simp only: drop_bit_7_eq_0_iff not_False_eq_True)
    let ?r = "pb_vint_loop (drop_bit 7 v) []"
    have "length ?r - 1 < length ?r" using pb_vint_loop_ne [OF nz] by simp
    with "1.IH" [OF False nz] pb_vint_loop_ne [OF nz] show ?thesis
      by (cases ?r) (simp_all add: pb_vint_loop_Cons [OF "1.prems"] varint_enc_large [OF False] Let_def)
  qed
qed

lemma pb_eval_vint_loop_eq: "pb_eval_vint_loop v n = n + int (length (pb_vint_loop v []))"
proof (induction v n rule: pb_eval_vint_loop.induct)
  case (1 v n)
  then show ?case
    by (cases "v = 0") (simp_all add: pb_eval_vint_loop.simps [of v n] pb_eval_vint_loop.simps [of 0] pb_vint_loop_Cons)
qed

lemma pb_eval_vint_length_eq: "pb_eval_vint_length v = int (length (varint_enc v))"
proof (cases "v = 0")
  case True
  then show ?thesis by (simp add: pb_eval_vint_length_def varint_enc_small)
next
  case False
  have "length (varint_enc v) = length (pb_vint_loop v [])"
    by (subst pb_vint_buffer [OF False, symmetric]) (simp add: Let_def)
  with False show ?thesis by (simp add: pb_eval_vint_length_def pb_eval_vint_loop_eq)
qed

text \<open>The local array of ten bytes is never overrun.\<close>

lemma length_pb_vint_loop: "length (pb_vint_loop v []) \<le> 10"
proof (cases "v = 0")
  case False
  have "length (varint_enc v) = length (pb_vint_loop v [])"
    by (subst pb_vint_buffer [OF False, symmetric]) (simp add: Let_def)
  then show ?thesis using length_varint_enc [of v] by simp
qed simp

section \<open>Writing\<close>

text \<open>The part of the buffer that is still to be written is a valid region.\<close>

definition wr_ok :: "heap \<Rightarrow> pb_buff_t \<Rightarrow> bool" where
  "wr_ok h b \<longleftrightarrow> 0 \<le> b_left b \<and> b_left b < 2 ^ 31 \<and> valid_region h (b_ptr b) (nat (b_left b))"

definition wr_room :: "pb_buff_t \<Rightarrow> nat" where
  "wr_room b = nat (b_left b)"

lemma to_u64_less:
  assumes "0 \<le> i" "i < 2 ^ 31" "n < 2 ^ 64"
  shows "to_u64 i < of_nat n \<longleftrightarrow> nat i < n"
proof -
  from assms have "nat i < 2 ^ 64" by simp
  with assms(3) show ?thesis
    unfolding to_u64_nat [OF assms(1)] of_nat_word_less_iff by (simp add: take_bit_nat_eq_self)
qed

lemma pb_add_eq:
  assumes "wr_ok h b" "length bs < 2 ^ 64"
  shows "pb_add h b bs (of_nat (length bs)) =
     (if wr_room b < length bs then (-1, h, b_error ''buf overflow'' b)
      else (0, store_bytes h (b_ptr b) bs, b_advance (length bs) b))"
  using assms
  by (simp add: pb_add_def wr_ok_def wr_room_def to_u64_less unat_of_nat)

lemma pb_add_vint_eq:
  "pb_add_vint h b v = pb_add h b (varint_enc v) (of_nat (length (varint_enc v)))"
proof (cases "v = 0")
  case True
  then show ?thesis by (simp add: pb_add_vint_def varint_enc_small)
next
  case False
  have "length (varint_enc v) = length (pb_vint_loop v [])"
    by (subst pb_vint_buffer [OF False, symmetric]) (simp add: Let_def)
  with pb_vint_buffer [OF False] False show ?thesis
    by (simp add: pb_add_vint_def Let_def)
qed

subsection \<open>Wire values and fields\<close>

datatype wval = WVarint u64 | WFixed64 u64 | WFixed32 u32 | WString "byte list"

fun wval_type :: "wval \<Rightarrow> pb_type_t" where
  "wval_type (WVarint _) = PB_TYPE_VARINT"
| "wval_type (WFixed64 _) = PB_TYPE_FIXED64"
| "wval_type (WFixed32 _) = PB_TYPE_FIXED32"
| "wval_type (WString _) = PB_TYPE_STRING"

fun enc_val :: "wval \<Rightarrow> byte list" where
  "enc_val (WVarint x) = varint_enc x"
| "enc_val (WFixed64 x) = le_bytes 8 x"
| "enc_val (WFixed32 x) = le_bytes 4 x"
| "enc_val (WString bs) = varint_enc (of_nat (length bs)) @ bs"

definition enc_field :: "u32 \<Rightarrow> wval \<Rightarrow> byte list" where
  "enc_field tag v = varint_enc (pb_tag_word (wval_type v) tag) @ enc_val v"

text \<open>The value a union holds when it is read at a given wire type.\<close>

definition wval_of :: "heap \<Rightarrow> pb_type_t \<Rightarrow> pb_field_val_t \<Rightarrow> wval" where
  "wval_of h type v =
     (case type of
        PB_TYPE_VARINT \<Rightarrow> WVarint (v_i64 v)
      | PB_TYPE_FIXED64 \<Rightarrow> WFixed64 (v_i64 v)
      | PB_TYPE_FIXED32 \<Rightarrow> WFixed32 (v_i32 v)
      | _ \<Rightarrow> WString (bytes_at h (v_data v) (unat (v_len v))))"

definition named_type :: "pb_type_t \<Rightarrow> bool" where
  "named_type type \<longleftrightarrow> (\<forall>n. type \<noteq> PB_TYPE_CODE n)"

lemma wval_type_wval_of [simp]: "named_type type \<Longrightarrow> wval_type (wval_of h type v) = type"
  by (cases type) (auto simp: wval_of_def named_type_def)

lemma wr_ok_advance:
  "wr_ok h b \<Longrightarrow> length bs \<le> wr_room b \<Longrightarrow>
   wr_ok (store_bytes h (b_ptr b) bs) (b_advance (length bs) b)"
proof -
  assume ok: "wr_ok h b" and le: "length bs \<le> wr_room b"
  then have reg: "valid_region h (b_ptr b) (length bs)"
    and "valid_region h (ptr_add (b_ptr b) (length bs)) (wr_room b - length bs)"
    unfolding wr_ok_def wr_room_def
    by (auto intro: valid_region_mono valid_region_add [where m = "length bs"])
  then have "valid_region (store_bytes h (b_ptr b) bs) (ptr_add (b_ptr b) (length bs))
      (wr_room b - length bs)"
    by (simp add: valid_region_store_bytes)
  with ok le show ?thesis by (auto simp: wr_ok_def wr_room_def b_advance_def nat_diff_distrib)
qed

lemma wr_room_advance [simp]: "wr_room (b_advance n b) = wr_room b - n"
  by (simp add: wr_room_def b_advance_def nat_diff_distrib')

lemma b_advance_add [simp]: "b_advance n (b_advance m b) = b_advance (m + n) b"
  by (simp add: b_advance_def)

lemma b_ptr_advance [simp]:
  "b_ptr (b_advance n b) = ptr_add (b_ptr b) n" "b_left (b_advance n b) = b_left b - int n"
  by (simp_all add: b_advance_def)

text \<open>
  The contract of a writer call that is to append the bytes \<open>bs\<close>: when they fit it returns 0 and
  appends exactly \<open>bs\<close>; when they do not it returns an error code and has written a prefix region of
  the free space at most.
\<close>

definition wr_res :: "heap \<Rightarrow> pb_buff_t \<Rightarrow> byte list \<Rightarrow> int \<times> heap \<times> pb_buff_t \<Rightarrow> bool" where
  "wr_res h b bs r \<longleftrightarrow>
     (if length bs \<le> wr_room b
      then r = (0, store_bytes h (b_ptr b) bs, b_advance (length bs) b)
      else fst r \<noteq> 0 \<and>
        (\<exists>ks. length ks \<le> wr_room b \<and> fst (snd r) = store_bytes h (b_ptr b) ks \<and>
           b_ptr (snd (snd r)) = ptr_add (b_ptr b) (length ks) \<and>
           b_left (snd (snd r)) = b_left b - int (length ks)))"

lemma wr_res_fits:
  "wr_res h b bs r \<Longrightarrow> length bs \<le> wr_room b \<Longrightarrow>
   r = (0, store_bytes h (b_ptr b) bs, b_advance (length bs) b)"
  by (simp add: wr_res_def)

lemma wr_res_full: "wr_res h b bs r \<Longrightarrow> fst r = 0 \<Longrightarrow> length bs \<le> wr_room b"
  by (auto simp: wr_res_def split: if_splits)

lemma b_error_simps [simp]:
  "b_ptr (b_error m b) = b_ptr b" "b_left (b_error m b) = b_left b"
  by (simp_all add: b_error_def)

text \<open>A call that fails at once has written nothing.\<close>

lemma wr_res_failed:
  "wr_room b < length bs \<Longrightarrow> e \<noteq> 0 \<Longrightarrow> wr_res h b bs (e, h, b_error m b)"
  by (auto simp: wr_res_def intro!: exI [of _ "[]"])

text \<open>Two calls in sequence, the second only after the first succeeded.\<close>

lemma wr_res_seq:
  assumes ok: "wr_ok h b" and fst: "wr_res h b xs r"
    and snd: "length xs \<le> wr_room b \<Longrightarrow>
       wr_res (store_bytes h (b_ptr b) xs) (b_advance (length xs) b) ys
         (k (store_bytes h (b_ptr b) xs) (b_advance (length xs) b))"
    and e: "e \<noteq> 0"
  shows "wr_res h b (xs @ ys) (let (ret, h, b) = r in if ret \<noteq> 0 then (e, h, b) else k h b)"
proof (cases "length xs \<le> wr_room b")
  case False
  with fst e show ?thesis by (cases r) (auto simp: wr_res_def)
next
  case True
  let ?h = "store_bytes h (b_ptr b) xs" and ?b = "b_advance (length xs) b"
  have r: "r = (0, ?h, ?b)" using fst True by (rule wr_res_fits)
  note k = snd [OF True]
  have app: "store_bytes ?h (b_ptr ?b) zs = store_bytes h (b_ptr b) (xs @ zs)"
    if "length zs \<le> wr_room ?b" for zs
  proof -
    from ok True that have "valid_region h (b_ptr b) (length xs + length zs)"
      by (auto simp: wr_ok_def wr_room_def b_advance_def intro!: valid_region_mono [of h "b_ptr b" "nat (b_left b)"])
    then show ?thesis by (simp add: store_bytes_append)
  qed
  show ?thesis
  proof (cases "length ys \<le> wr_room ?b")
    case fits: True
    with wr_res_fits [OF k fits] True app [OF fits] show ?thesis by (simp add: r wr_res_def)
  next
    case fails: False
    with k obtain ks where ks: "length ks \<le> wr_room ?b" "fst (k ?h ?b) \<noteq> 0"
      "fst (snd (k ?h ?b)) = store_bytes ?h (b_ptr ?b) ks"
      "b_ptr (snd (snd (k ?h ?b))) = ptr_add (b_ptr ?b) (length ks)"
      "b_left (snd (snd (k ?h ?b))) = b_left ?b - int (length ks)"
      unfolding wr_res_def by auto
    with fails True app [OF ks(1)] show ?thesis
      by (auto simp: r wr_res_def intro!: exI [of _ "xs @ ks"])
  qed
qed

lemma pb_add_res:
  "wr_ok h b \<Longrightarrow> length bs < 2 ^ 64 \<Longrightarrow> wr_res h b bs (pb_add h b bs (of_nat (length bs)))"
  using wr_res_failed [of b bs "-1" h "''buf overflow''"] pb_add_eq [of h b bs]
  by (cases "wr_room b < length bs") (simp_all add: wr_res_def)

lemma varint_enc_lt: "length (varint_enc v) < 2 ^ 64"
  using length_varint_enc [of v] by simp

lemma pb_add_vint_res: "wr_ok h b \<Longrightarrow> wr_res h b (varint_enc v) (pb_add_vint h b v)"
  unfolding pb_add_vint_eq by (rule pb_add_res [OF _ varint_enc_lt])

lemma pb_add_dword_res: "wr_ok h b \<Longrightarrow> wr_res h b (le_bytes 4 x) (pb_add_dword h b x)"
  using wr_res_failed [of b "le_bytes 4 x" "-1" h "''buf overflow''"]
  by (cases "b_left b < 4") (auto simp: wr_res_def pb_add_dword_def wr_ok_def wr_room_def)

lemma pb_add_ddword_res: "wr_ok h b \<Longrightarrow> wr_res h b (le_bytes 8 x) (pb_add_ddword h b x)"
  using wr_res_failed [of b "le_bytes 8 x" "-1" h "''buf overflow''"]
  by (cases "b_left b < 8") (auto simp: wr_res_def pb_add_ddword_def wr_ok_def wr_room_def)

text \<open>
  A string is read from memory after the tag and the length have been written, so its bytes must
  not lie in the block being written.
\<close>

definition src_ok :: "pb_buff_t \<Rightarrow> pb_type_t \<Rightarrow> pb_field_val_t \<Rightarrow> bool" where
  "src_ok b type v \<longleftrightarrow>
     type = PB_TYPE_STRING \<longrightarrow> ptr_blk (v_data v) \<noteq> ptr_blk (b_ptr b) \<or> v_len v = 0"

lemma bytes_at_src:
  "src_ok b PB_TYPE_STRING v \<Longrightarrow> ptr_blk p = ptr_blk (b_ptr b) \<Longrightarrow>
   bytes_at (store_bytes h p bs) (v_data v) (unat (v_len v)) = bytes_at h (v_data v) (unat (v_len v))"
  by (rule bytes_at_store_other_blk) (auto simp: src_ok_def)

lemma pb_add_string_val_res:
  assumes ok: "wr_ok h b" and src: "src_ok b PB_TYPE_STRING v"
  shows "wr_res h b (enc_val (wval_of h PB_TYPE_STRING v))
     (let (ret, h, b) = pb_add_vint h b (ucast (v_len v)) in
      if ret \<noteq> 0 then (-2, h, b)
      else pb_add h b (bytes_at h (v_data v) (unat (v_len v))) (ucast (v_len v)))"
proof -
  let ?l = "varint_enc (ucast (v_len v))" and ?s = "bytes_at h (v_data v) (unat (v_len v))"
  let ?h = "store_bytes h (b_ptr b) ?l" and ?b = "b_advance (length ?l) b"
  have val: "enc_val (wval_of h PB_TYPE_STRING v) = ?l @ ?s" by (simp add: wval_of_def)
  show ?thesis
    unfolding val
  proof (rule wr_res_seq [OF ok pb_add_vint_res [OF ok]])
    assume "length ?l \<le> wr_room b"
    with ok have "wr_ok ?h ?b" by (rule wr_ok_advance)
    moreover have "bytes_at ?h (v_data v) (unat (v_len v)) = ?s"
      using src by (simp add: bytes_at_src)
    ultimately show "wr_res ?h ?b ?s
        (pb_add ?h ?b (bytes_at ?h (v_data v) (unat (v_len v))) (ucast (v_len v)))"
      using pb_add_res [of ?h ?b ?s] unat_u32_less [of "v_len v"] by simp
  qed simp
qed

lemma pb_add_field_val_res:
  assumes ok: "wr_ok h b" and ty: "named_type type" and src: "src_ok b type v"
  shows "wr_res h b (enc_field tag (wval_of h type v)) (pb_add_field_val h b tag type v)"
proof -
  let ?t = "varint_enc (pb_tag_word type tag)" and ?w = "enc_val (wval_of h type v)"
  let ?h = "store_bytes h (b_ptr b) ?t" and ?b = "b_advance (length ?t) b"
  have enc: "enc_field tag (wval_of h type v) = ?t @ ?w"
    using ty by (simp add: enc_field_def)
  show ?thesis
    unfolding enc pb_add_field_val_def
  proof (rule wr_res_seq [OF ok])
    show "wr_res h b ?t (pb_add_tag h b type tag)"
      unfolding pb_add_tag_def by (rule pb_add_vint_res [OF ok])
    assume "length ?t \<le> wr_room b"
    with ok have ok': "wr_ok ?h ?b" by (rule wr_ok_advance)
    have "wval_of ?h type v = wval_of h type v" "src_ok ?b type v"
      using src ty by (cases type; simp add: wval_of_def bytes_at_src src_ok_def named_type_def)+
    with ok' ty pb_add_string_val_res [OF ok', of v]
    show "wr_res ?h ?b ?w
        (case type of
           PB_TYPE_VARINT \<Rightarrow> pb_add_vint ?h ?b (v_i64 v)
         | PB_TYPE_FIXED64 \<Rightarrow> pb_add_ddword ?h ?b (v_i64 v)
         | PB_TYPE_STRING \<Rightarrow>
             (let (ret, h, b) = pb_add_vint ?h ?b (ucast (v_len v)) in
              if ret \<noteq> 0 then (-2, h, b)
              else pb_add h b (bytes_at h (v_data v) (unat (v_len v))) (ucast (v_len v)))
         | PB_TYPE_FIXED32 \<Rightarrow> pb_add_dword ?h ?b (v_i32 v)
         | PB_TYPE_CODE _ \<Rightarrow> (-2, ?h, b_error ''invalid wire_type'' ?b))"
      by (cases type) (simp_all add: wval_of_def pb_add_vint_res pb_add_ddword_res pb_add_dword_res
          named_type_def)
  qed simp
qed

subsection \<open>Evaluated lengths\<close>

lemma pb_eval_field_length_eq:
  assumes "named_type type" "length (enc_field tag (wval_of h type v)) < 2 ^ 31"
  shows "pb_eval_field_length tag type v = int (length (enc_field tag (wval_of h type v)))"
proof (cases type)
  case PB_TYPE_STRING
  with assms(2) to_int32_nat [of "length (varint_enc (pb_tag_word type tag)) +
      length (varint_enc (ucast (v_len v))) + unat (v_len v)"] show ?thesis
    by (simp add: pb_eval_field_length_def pb_eval_tag_length_def pb_eval_vint_length_eq
        enc_field_def wval_of_def add.assoc)
next
  case (PB_TYPE_CODE n)
  with assms(1) show ?thesis by (simp add: named_type_def)
qed (simp_all add: pb_eval_field_length_def pb_eval_tag_length_def pb_eval_vint_length_eq
       enc_field_def wval_of_def)

end
