(* ===== verification/Pb_Parse.thy ===== *)
theory Pb_Parse
  imports Pb_Wire
begin

text \<open>
  The reading half of the wire format: the reference parser \<open>parse_field\<close>, \<open>parse_msg\<close> and the proof
  that the field iterator of \<open>Pb\<close> computes it, reads nothing outside the message and always ends.
\<close>

section \<open>The reference parser\<close>

definition parse_val :: "pb_type_t \<Rightarrow> byte list \<Rightarrow> (wval \<times> byte list) option" where
  "parse_val type bs =
     (case type of
        PB_TYPE_VARINT \<Rightarrow> map_option (\<lambda>(x, r). (WVarint x, r)) (varint_dec 0 0 bs)
      | PB_TYPE_FIXED64 \<Rightarrow>
          (if length bs < 8 then None else Some (WFixed64 (le_word (take 8 bs)), drop 8 bs))
      | PB_TYPE_FIXED32 \<Rightarrow>
          (if length bs < 4 then None else Some (WFixed32 (le_word (take 4 bs)), drop 4 bs))
      | PB_TYPE_STRING \<Rightarrow>
          (case varint_dec 0 0 bs of
             None \<Rightarrow> None
           | Some (n, r) \<Rightarrow>
               if length r < unat n then None else Some (WString (take (unat n) r), drop (unat n) r))
      | PB_TYPE_CODE _ \<Rightarrow> None)"

definition tag_type :: "u64 \<Rightarrow> pb_type_t" where
  "tag_type t = pb_type_of_code (unat ((ucast t :: u32) AND 7))"

definition parse_field :: "byte list \<Rightarrow> ((u32 \<times> wval) \<times> byte list) option" where
  "parse_field bs =
     (case varint_dec 0 0 bs of
        None \<Rightarrow> None
      | Some (t, r) \<Rightarrow>
          if t = 0 then None
          else map_option (\<lambda>(v, r). ((ucast (drop_bit 3 t), v), r)) (parse_val (tag_type t) r))"

text \<open>Whether the iterator, stopping in front of these bytes, reports the end of the message.\<close>

definition parse_eom :: "byte list \<Rightarrow> bool" where
  "parse_eom bs = (case varint_dec 0 0 bs of None \<Rightarrow> length bs \<le> 10 | Some (t, _) \<Rightarrow> t = 0)"

lemma varint_dec_suffix: "varint_dec p r bs = Some (x, rest) \<Longrightarrow> \<exists>k. 0 < k \<and> k \<le> length bs \<and> rest = drop k bs"
proof (induction p r bs rule: varint_dec.induct)
  case (2 p r b bs)
  show ?case
  proof (cases "b AND 0x80 = 0")
    case True
    with "2.prems" show ?thesis by (intro exI [of _ 1]) (auto simp: Let_def split: if_splits)
  next
    case False
    with "2.prems" "2.IH" obtain k where "0 < k" "k \<le> length bs" "rest = drop k bs"
      by (auto simp: Let_def split: if_splits)
    then show ?thesis by (intro exI [of _ "Suc k"]) auto
  qed
qed simp

lemma varint_dec_shorter: "varint_dec p r bs = Some (x, rest) \<Longrightarrow> length rest < length bs"
  by (drule varint_dec_suffix) auto

lemma parse_val_suffix: "parse_val type bs = Some (v, rest) \<Longrightarrow> \<exists>k \<le> length bs. rest = drop k bs"
proof (cases type)
  case PB_TYPE_STRING
  assume "parse_val type bs = Some (v, rest)"
  with PB_TYPE_STRING obtain n r where dec: "varint_dec 0 0 bs = Some (n, r)"
    and "unat n \<le> length r" "rest = drop (unat n) r"
    by (auto simp: parse_val_def split: option.splits if_splits)
  moreover from varint_dec_suffix [OF dec] obtain k where "k \<le> length bs" "r = drop k bs" by auto
  ultimately show ?thesis by (intro exI [of _ "unat n + k"]) auto
qed (auto simp: parse_val_def not_less split: if_splits dest!: varint_dec_suffix)

lemma parse_field_shorter: "parse_field bs = Some (f, rest) \<Longrightarrow> length rest < length bs"
  by (auto simp: parse_field_def split: option.splits if_splits
      dest!: parse_val_suffix varint_dec_shorter)

function parse_msg :: "byte list \<Rightarrow> (u32 \<times> wval) list \<times> bool" where
  "parse_msg bs =
     (case parse_field bs of
        None \<Rightarrow> ([], parse_eom bs)
      | Some (f, rest) \<Rightarrow> (let (fs, eom) = parse_msg rest in (f # fs, eom)))"
  by pat_completeness auto
termination
  by (relation "measure length") (auto simp: parse_field_shorter)

declare parse_msg.simps [simp del]

section \<open>Round trip on byte lists\<close>

lemma pb_type_code_less: "named_type type \<Longrightarrow> pb_type_code type < 8"
  by (cases type) (auto simp: named_type_def)

lemma pb_type_of_code_code: "named_type type \<Longrightarrow> pb_type_of_code (pb_type_code type) = type"
  by (cases type) (auto simp: named_type_def pb_type_of_code_def)

lemma tag_word_sum:
  assumes "c < 8"
  shows "(of_nat c :: u32) OR push_bit 3 tag = of_nat c + 8 * tag"
proof -
  have "\<not> bit c n" if "3 \<le> n" for n
  proof -
    have "(2::nat) ^ 3 \<le> 2 ^ n" using that by (rule power_increasing) simp
    with assms show ?thesis by (simp add: bit_iff_odd)
  qed
  then have "\<not> bit (of_nat c :: u32) n \<or> \<not> bit (push_bit 3 tag) n" for n
    by (auto simp: bit_push_bit_iff bit_of_nat_iff)
  then have "of_nat c + push_bit 3 tag = (of_nat c :: u32) OR push_bit 3 tag"
    by (rule disjunctive_add)
  then show ?thesis by (simp add: push_bit_eq_mult mult.commute)
qed

lemma unat_pb_tag_word:
  assumes "unat tag < 2 ^ 29" "named_type type"
  shows "unat (pb_tag_word type tag) = pb_type_code type + 8 * unat tag"
proof -
  let ?c = "pb_type_code type"
  have c: "?c < 8" using assms(2) by (rule pb_type_code_less)
  then have "unat (of_nat ?c + 8 * tag :: u32) = ?c + 8 * unat tag" and "?c + 8 * unat tag < 2 ^ 64"
    using assms(1) by (simp_all add: unat_word_ariths unat_of_nat)
  then show ?thesis
    by (simp add: pb_tag_word_def tag_word_sum [OF c] unsigned_ucast_eq take_bit_nat_eq_self)
qed

lemma tag_word_parts:
  assumes "unat tag < 2 ^ 29" "named_type type"
  shows "ucast (drop_bit 3 (pb_tag_word type tag)) = tag"
    and "tag_type (pb_tag_word type tag) = type"
    and "tag \<noteq> 0 \<Longrightarrow> pb_tag_word type tag \<noteq> 0"
proof -
  note u = unat_pb_tag_word [OF assms] and c = pb_type_code_less [OF assms(2)]
  have "unat (drop_bit 3 (pb_tag_word type tag)) = unat tag"
    unfolding unat_drop_bit_eq u using c by (simp add: drop_bit_eq_div)
  then have "of_nat (unat (drop_bit 3 (pb_tag_word type tag))) = tag" by simp
  then show "ucast (drop_bit 3 (pb_tag_word type tag)) = tag" by simp
  have "(ucast (pb_tag_word type tag) :: u32) AND 7 = take_bit 3 (ucast (pb_tag_word type tag))"
    by (simp add: take_bit_eq_mask mask_eq_exp_minus_1)
  then have "unat ((ucast (pb_tag_word type tag) :: u32) AND 7) =
      take_bit 3 (take_bit LENGTH(32) (pb_type_code type + 8 * unat tag))"
    by (simp only: unsigned_take_bit_eq unsigned_ucast_eq u)
  also have "\<dots> = pb_type_code type" using c assms(1) by (simp add: take_bit_eq_mod)
  finally have "unat ((ucast (pb_tag_word type tag) :: u32) AND 7) = pb_type_code type" .
  then show "tag_type (pb_tag_word type tag) = type"
    using assms(2) by (simp add: tag_type_def pb_type_of_code_code)
  show "tag \<noteq> 0 \<Longrightarrow> pb_tag_word type tag \<noteq> 0"
    using u by (metis add_is_0 mult_is_0 unat_eq_0 zero_neq_numeral)
qed

lemma parse_val_enc:
  "(\<forall>bs. v = WString bs \<longrightarrow> length bs < 2 ^ 64) \<Longrightarrow> parse_val (wval_type v) (enc_val v @ rest) = Some (v, rest)"
  by (cases v) (auto simp: parse_val_def varint_dec_enc unat_of_nat)

section \<open>Reading\<close>

definition rd_ok :: "pb_field_t \<Rightarrow> bool" where
  "rd_ok f \<longleftrightarrow> 0 \<le> f_left f \<and> f_left f < 2 ^ 31"

definition pending :: "heap \<Rightarrow> pb_field_t \<Rightarrow> byte list" where
  "pending h f = bytes_at h (f_ptr f) (nat (f_left f))"

lemma length_pending [simp]: "length (pending h f) = nat (f_left f)"
  by (simp add: pending_def)

lemma pending_advance:
  "0 \<le> f_left f \<Longrightarrow> int n \<le> f_left f \<Longrightarrow> pending h (f_advance n f) = drop n (pending h f)"
  by (simp add: pending_def f_advance_def drop_bytes_at nat_diff_distrib)

lemma pending_Cons:
  "1 \<le> f_left f \<Longrightarrow> pending h f = load h (f_ptr f) # pending h (f_advance 1 f)"
  using bytes_at_Suc [of h "f_ptr f" "nat (f_left f) - 1"]
  by (simp add: pending_def f_advance_def nat_diff_distrib)

lemma f_advance_simps [simp]:
  "f_left (f_advance n f) = f_left f - int n" "f_ptr (f_advance n f) = ptr_add (f_ptr f) n"
  "f_val (f_advance n f) = f_val f" "f_tag (f_advance n f) = f_tag f"
  "f_type (f_advance n f) = f_type f" "f_eom (f_advance n f) = f_eom f"
  "f_errmsg (f_advance n f) = f_errmsg f" "f_start (f_advance n f) = f_start f"
  "f_size (f_advance n f) = f_size f" "f_advance m (f_advance n f) = f_advance (n + m) f"
  "f_advance 0 f = f"
  by (simp_all add: f_advance_def)

lemma f_advance_val: "f_advance n (f\<lparr>f_val := v\<rparr>) = (f_advance n f)\<lparr>f_val := v\<rparr>"
  by (simp add: f_advance_def)

lemma f_error_simps [simp]:
  "f_left (f_error m f) = f_left f" "f_ptr (f_error m f) = f_ptr f" "f_eom (f_error m f) = f_eom f"
  by (simp_all add: f_error_def)

abbreviation set_i64 :: "u64 \<Rightarrow> pb_field_t \<Rightarrow> pb_field_t" where
  "set_i64 x f \<equiv> f\<lparr>f_val := (f_val f)\<lparr>v_i64 := x\<rparr>\<rparr>"

lemma decode_varint_loop_Some:
  "0 \<le> f_left f \<Longrightarrow> varint_dec p r (pending h f) = Some (x, rest) \<Longrightarrow>
   pb_decode_varint_loop h f p r =
     (0, set_i64 x (f_advance (nat (f_left f) - length rest) f))"
proof (induction h f p r rule: pb_decode_varint_loop.induct)
  case (1 h f p r)
  from "1.prems"(2) have ne: "pending h f \<noteq> []" by auto
  then have "length (pending h f) \<noteq> 0" by (simp only: length_0_conv not_False_eq_True)
  then have left: "1 \<le> f_left f" by simp
  from "1.prems"(2) ne have p: "p < 64" by (cases "pending h f") (auto split: if_splits)
  let ?b = "load h (f_ptr f)" and ?f = "f_advance 1 f"
  let ?r = "r OR push_bit p (ucast (?b AND 0x7F)) :: u64"
  have get: "pb_get_byte h f = (0, ?b, ?f)" using left by (simp add: pb_get_byte_def)
  show ?case
  proof (cases "?b AND 0x80 = 0")
    case True
    with "1.prems" p left have "x = ?r" "rest = pending h ?f"
      by (auto simp: pending_Cons)
    with True p left get show ?thesis
      by (simp add: pb_decode_varint_loop.simps [of h f p r] nat_diff_distrib)
  next
    case False
    with "1.prems" p left have dec: "varint_dec (p + 7) ?r (pending h ?f) = Some (x, rest)"
      by (auto simp: pending_Cons Let_def)
    have "length rest < nat (f_left ?f)"
      using varint_dec_shorter [OF dec] by simp
    moreover have "pb_decode_varint_loop h ?f ((p + 7) mod 256) ?r =
        (0, set_i64 x (f_advance (nat (f_left ?f) - length rest) ?f))"
      using "1.IH" [OF _ get [symmetric] refl refl _ refl False] p left dec by simp
    moreover from calculation(1) left
    have "Suc (nat (f_left f) - Suc (length rest)) = nat (f_left f) - length rest" by simp
    ultimately show ?thesis
      using False p left get by (simp add: pb_decode_varint_loop.simps [of h f p r] nat_diff_distrib)
  qed
qed

lemma decode_varint_loop_None:
  "0 \<le> f_left f \<Longrightarrow> j \<le> 10 \<Longrightarrow> varint_dec (7 * j) r (pending h f) = None \<Longrightarrow>
   \<exists>e m k. pb_decode_varint_loop h f (7 * j) r = (e, f_error m (f_advance k f)) \<and> e \<noteq> 0 \<and>
     int k \<le> f_left f \<and> (int k = f_left f \<longleftrightarrow> nat (f_left f) \<le> 10 - j)"
proof (induction "10 - j" arbitrary: f j r)
  case 0
  then have "pb_decode_varint_loop h f (7 * j) r = (-1, f_error ''varint overflow'' (f_advance 0 f))"
    by (simp add: pb_decode_varint_loop.simps)
  with 0 show ?case by (intro exI conjI) auto
next
  case (Suc d)
  then have p: "7 * j < 64" by simp
  show ?case
  proof (cases "f_left f < 1")
    case True
    then have "pb_decode_varint_loop h f (7 * j) r = (-2, f_error ''end of buffer'' (f_advance 0 f))"
      using p by (simp add: pb_decode_varint_loop.simps [of h f] pb_get_byte_def)
    with True Suc.prems show ?thesis
      by (intro exI [of _ "-2"] exI [of _ "''end of buffer''"] exI [of _ 0]) simp
  next
    case False
    then have left: "1 \<le> f_left f" by simp
    let ?b = "load h (f_ptr f)" and ?f = "f_advance 1 f"
    let ?r = "r OR push_bit (7 * j) (ucast (?b AND 0x7F)) :: u64"
    have get: "pb_get_byte h f = (0, ?b, ?f)" using left by (simp add: pb_get_byte_def)
    from Suc.prems p left have more: "?b AND 0x80 \<noteq> 0"
      and dec: "varint_dec (7 * Suc j) ?r (pending h ?f) = None"
      by (auto simp: pending_Cons Let_def add.commute split: if_splits)
    have "\<exists>e m k. pb_decode_varint_loop h ?f (7 * Suc j) ?r = (e, f_error m (f_advance k ?f)) \<and> e \<noteq> 0 \<and>
        int k \<le> f_left ?f \<and> (int k = f_left ?f \<longleftrightarrow> nat (f_left ?f) \<le> 10 - Suc j)"
      using Suc.hyps(2) left dec by (intro Suc.hyps(1)) auto
    then obtain e m k where "pb_decode_varint_loop h ?f (7 * Suc j) ?r = (e, f_error m (f_advance k ?f))"
      "e \<noteq> 0" "int k \<le> f_left ?f" "int k = f_left ?f \<longleftrightarrow> nat (f_left ?f) \<le> 10 - Suc j" by blast
    with p left get more show ?thesis
      by (intro exI [of _ e] exI [of _ m] exI [of _ "Suc k"])
         (auto simp: pb_decode_varint_loop.simps [of h f] add.commute [of 7])
  qed
qed

lemmas pb_decode_varint_Some = decode_varint_loop_Some [of _ 0 0, folded pb_decode_varint_def]
lemmas pb_decode_varint_None = decode_varint_loop_None [of _ 0 0, simplified, folded pb_decode_varint_def]

lemma pb_decode_varint_ok:
  assumes "0 \<le> f_left f" "varint_dec 0 0 (pending h f) = Some (x, rest)"
  shows "\<exists>k. pb_decode_varint h f = (0, set_i64 x (f_advance k f)) \<and> int k \<le> f_left f \<and>
     rest = drop k (pending h f)"
proof -
  from varint_dec_suffix [OF assms(2)] obtain k where k: "k \<le> nat (f_left f)" "rest = drop k (pending h f)"
    by auto
  then have "nat (f_left f) - length rest = k" by simp
  with pb_decode_varint_Some [OF assms] k assms(1) show ?thesis by auto
qed

subsection \<open>Values and fields\<close>

text \<open>
  \<open>read_ok h f v rest r\<close>: the call returned 0, the value now in \<open>f\<close> is \<open>v\<close>, and the bytes not yet read
  are \<open>rest\<close>; the tag, the start and the end of the message are as before.
\<close>

definition moved :: "pb_field_t \<Rightarrow> pb_field_t \<Rightarrow> bool" where
  "moved f f' \<longleftrightarrow> f_left f' \<le> f_left f \<and> f_ptr f' = ptr_add (f_ptr f) (nat (f_left f - f_left f')) \<and>
     f_eom f' = f_eom f \<and> f_errmsg f' = f_errmsg f \<and> f_start f' = f_start f \<and> f_size f' = f_size f"

definition read_ok :: "heap \<Rightarrow> pb_field_t \<Rightarrow> wval \<Rightarrow> byte list \<Rightarrow> int \<times> pb_field_t \<Rightarrow> bool" where
  "read_ok h f v rest r \<longleftrightarrow>
     (\<exists>f'. r = (0, f') \<and> f_tag f' = f_tag f \<and> f_type f' = f_type f \<and>
        wval_of h (f_type f) (f_val f') = v \<and> pending h f' = rest \<and> rd_ok f' \<and> moved f f')"

lemma pending_upd [simp]:
  "pending h (f\<lparr>f_val := v\<rparr>) = pending h f" "pending h (f\<lparr>f_tag := t\<rparr>) = pending h f"
  "pending h (f\<lparr>f_type := ty\<rparr>) = pending h f" "pending h (f\<lparr>f_eom := e\<rparr>) = pending h f"
  by (simp_all add: pending_def)

lemma rd_ok_advance: "rd_ok f \<Longrightarrow> int k \<le> f_left f \<Longrightarrow> rd_ok (f_advance k f)"
  by (simp add: rd_ok_def)

lemma moved_advance: "int k \<le> f_left f \<Longrightarrow> moved f ((f_advance k f)\<lparr>f_val := v\<rparr>)"
  by (simp add: moved_def)

lemma set_low32_low: "ucast (set_low32 w x) = x"
proof -
  have mask: "(0xFFFFFFFF00000000 :: u64) = push_bit 32 (mask 32)"
    by (simp add: mask_eq_exp_minus_1)
  show ?thesis
    unfolding set_low32_def mask by (intro bit_word_eqI) (auto simp: bit_simps)
qed

lemma read_fixed:
  assumes "rd_ok f" "n \<le> length (pending h f)" "wval_of h (f_type f) v = w"
  shows "read_ok h f w (drop n (pending h f)) (0, (f_advance n f)\<lparr>f_val := v\<rparr>)"
proof -
  from assms(1,2) have n: "int n \<le> f_left f" by (simp add: rd_ok_def le_nat_iff)
  with assms show ?thesis
    by (auto simp: read_ok_def pending_advance rd_ok_def moved_advance)
qed

lemma pb_decode_string_read:
  assumes rd: "rd_ok f" and ty: "f_type f = PB_TYPE_STRING"
    and dec: "varint_dec 0 0 (pending h f) = Some (n, r)" and n: "unat n \<le> length r"
  shows "read_ok h f (WString (take (unat n) r)) (drop (unat n) r) (pb_decode_string h f)"
proof -
  from rd have left: "0 \<le> f_left f" "f_left f < 2 ^ 31" by (simp_all add: rd_ok_def)
  from pb_decode_varint_ok [OF left(1) dec] obtain k where
    call: "pb_decode_varint h f = (0, set_i64 n (f_advance k f))"
    and k: "int k \<le> f_left f" and r: "r = drop k (pending h f)" by blast
  from n r k left have fit: "k + unat n \<le> nat (f_left f)" by auto
  moreover have "nat (f_left f) < 2 ^ 31" using left by simp
  ultimately have small: "unat n < 2 ^ 31" by (rule order_le_less_trans [OF le_trans [OF le_add2]])
  then have n32: "unat (ucast n :: u32) = unat n"
    by (simp add: unsigned_ucast_eq take_bit_nat_eq_self)
  then have u32: "uint (ucast n :: u32) = uint n" by (metis uint_nat)
  have "\<not> to_u64 (f_left f - int k) < n"
  proof -
    have "to_u64 (f_left f - int k) < n \<longleftrightarrow> nat (f_left f - int k) < unat n"
      using to_u64_less [of "f_left f - int k" "unat n"] k left small by simp
    with fit k show ?thesis by simp
  qed
  moreover have "bytes_at h (ptr_add (f_ptr f) k) (unat n) = take (unat n) r"
    unfolding r pending_def using fit k
    by (simp add: drop_bytes_at take_bytes_at nat_diff_distrib)
  moreover define v where
    "v = (f_val f)\<lparr>v_i64 := set_low32 n (ucast n), v_data := ptr_add (f_ptr f) k\<rparr>"
  ultimately have "pb_decode_string h f = (0, (f_advance (k + unat n) f)\<lparr>f_val := v\<rparr>)"
    and val: "wval_of h (f_type f) v = WString (take (unat n) r)"
    using ty by (simp_all add: pb_decode_string_def call f_advance_def Let_def set_v_len_def n32
        wval_of_def v_len_def set_low32_low u32)
  moreover have "read_ok h f (WString (take (unat n) r)) (drop (k + unat n) (pending h f))
      (0, (f_advance (k + unat n) f)\<lparr>f_val := v\<rparr>)"
    using rd fit val by (intro read_fixed) simp_all
  ultimately show ?thesis by (simp add: r add.commute)
qed

text \<open>The switch over the wire type at the end of \<open>pb_decode_tag\<close>.\<close>

abbreviation decode_switch :: "heap \<Rightarrow> pb_field_t \<Rightarrow> int \<times> pb_field_t" where
  "decode_switch h f \<equiv>
     (case f_type f of
        PB_TYPE_VARINT \<Rightarrow> pb_decode_varint h f
      | PB_TYPE_FIXED64 \<Rightarrow> pb_decode_fixed64 h f
      | PB_TYPE_STRING \<Rightarrow> pb_decode_string h f
      | PB_TYPE_FIXED32 \<Rightarrow> pb_decode_fixed32 h f
      | PB_TYPE_CODE _ \<Rightarrow> (-3, f_error ''invalid type'' f))"

lemma parse_val_read:
  assumes rd: "rd_ok f" and val: "parse_val (f_type f) (pending h f) = Some (v, rest)"
  shows "read_ok h f v rest (decode_switch h f)"
proof (cases "f_type f")
  case PB_TYPE_VARINT
  with val obtain x where v: "v = WVarint x" and dec: "varint_dec 0 0 (pending h f) = Some (x, rest)"
    by (auto simp: parse_val_def)
  from rd have left: "0 \<le> f_left f" by (simp add: rd_ok_def)
  from pb_decode_varint_ok [OF left dec] obtain k where
    "pb_decode_varint h f = (0, set_i64 x (f_advance k f))" "int k \<le> f_left f"
    "rest = drop k (pending h f)" by blast
  with PB_TYPE_VARINT v rd read_fixed [of f k h "(f_val f)\<lparr>v_i64 := x\<rparr>" v] show ?thesis
    by (simp add: wval_of_def le_nat_iff rd_ok_def)
next
  case PB_TYPE_FIXED64
  with val have v: "v = WFixed64 (le_word (take 8 (pending h f)))" "rest = drop 8 (pending h f)"
    and len: "8 \<le> length (pending h f)" by (auto simp: parse_val_def split: if_splits)
  from len have "take 8 (pending h f) = bytes_at h (f_ptr f) 8" "\<not> f_left f < 8"
    by (simp_all add: pending_def take_bytes_at)
  with PB_TYPE_FIXED64 v rd len show ?thesis
    using read_fixed [of f 8 h "(f_val f)\<lparr>v_i64 := le_word (bytes_at h (f_ptr f) 8)\<rparr>" v]
    by (simp add: wval_of_def pb_decode_fixed64_def pb_get_ddword_def)
next
  case PB_TYPE_FIXED32
  with val have v: "v = WFixed32 (le_word (take 4 (pending h f)))" "rest = drop 4 (pending h f)"
    and len: "4 \<le> length (pending h f)" by (auto simp: parse_val_def split: if_splits)
  from len have "take 4 (pending h f) = bytes_at h (f_ptr f) 4" "\<not> f_left f < 4"
    by (simp_all add: pending_def take_bytes_at)
  with PB_TYPE_FIXED32 v rd len show ?thesis
    using read_fixed [of f 4 h "set_v_i32 (le_word (bytes_at h (f_ptr f) 4)) (f_val f)" v]
    by (simp add: wval_of_def pb_decode_fixed32_def pb_get_dword_def v_i32_def set_v_i32_def
        set_low32_low)
next
  case PB_TYPE_STRING
  with val obtain n r where "varint_dec 0 0 (pending h f) = Some (n, r)" "unat n \<le> length r"
    "v = WString (take (unat n) r)" "rest = drop (unat n) r"
    by (auto simp: parse_val_def split: option.splits if_splits)
  with PB_TYPE_STRING rd show ?thesis by (simp add: pb_decode_string_read)
next
  case (PB_TYPE_CODE n)
  with val show ?thesis by (simp add: parse_val_def)
qed

text \<open>A call that fails moves forward inside the message and does not touch \<open>eom\<close>.\<close>

definition read_fail :: "pb_field_t \<Rightarrow> int \<times> pb_field_t \<Rightarrow> bool" where
  "read_fail f r \<longleftrightarrow> fst r \<noteq> 0 \<and> f_eom (snd r) = f_eom f \<and>
     0 \<le> f_left (snd r) \<and> f_left (snd r) \<le> f_left f"

lemma parse_val_fail:
  assumes rd: "rd_ok f" and val: "parse_val (f_type f) (pending h f) = None"
  shows "read_fail f (decode_switch h f)"
proof -
  from rd have left: "0 \<le> f_left f" "f_left f < 2 ^ 31" by (simp_all add: rd_ok_def)
  have varint: "read_fail f (pb_decode_varint h f)" if "varint_dec 0 0 (pending h f) = None"
    using pb_decode_varint_None [OF left(1) that] left by (auto simp: read_fail_def)
  show ?thesis
  proof (cases "f_type f")
    case PB_TYPE_STRING
    show ?thesis
    proof (cases "varint_dec 0 0 (pending h f)")
      case None
      then have "read_fail f (pb_decode_varint h f)" by (rule varint)
      with PB_TYPE_STRING show ?thesis
        by (auto simp: pb_decode_string_def read_fail_def split: prod.splits)
    next
      case (Some nr)
      obtain n r where nr: "nr = (n, r)" by (cases nr)
      with Some val PB_TYPE_STRING have short: "length r < unat n"
        by (auto simp: parse_val_def split: if_splits)
      from pb_decode_varint_ok [OF left(1)] Some nr obtain k where
        call: "pb_decode_varint h f = (0, set_i64 n (f_advance k f))"
        and k: "int k \<le> f_left f" and r: "r = drop k (pending h f)" by blast
      have "to_u64 (f_left f - int k) < n"
        using to_u64_less [of "f_left f - int k" "unat n"] k left short r unat_u64_less [of n]
        by (simp add: nat_diff_distrib)
      with PB_TYPE_STRING k left show ?thesis
        by (simp add: pb_decode_string_def call read_fail_def)
    qed
  qed (use val varint left in \<open>auto simp: parse_val_def read_fail_def pb_decode_fixed64_def
      pb_get_ddword_def pb_decode_fixed32_def pb_get_dword_def split: if_splits\<close>)
qed
lemma pb_decode_tag_dispatch:
  assumes "pb_decode_varint h f = (0, set_i64 x (f_advance k f))" "x \<noteq> 0"
  shows "pb_decode_tag h f =
     decode_switch h ((set_i64 x (f_advance k f))\<lparr>f_tag := ucast (drop_bit 3 x), f_type := tag_type x\<rparr>)"
  using assms by (auto simp: pb_decode_tag_def tag_type_def v_i32_def Let_def split: pb_type_t.splits)

lemma pb_decode_tag_Some:
  assumes rd: "rd_ok f" and parse: "parse_field (pending h f) = Some ((t, v), rest)"
  shows "\<exists>f'. pb_decode_tag h f = (0, f') \<and> f_tag f' = t \<and> f_type f' = wval_type v \<and>
     wval_of h (f_type f') (f_val f') = v \<and> pending h f' = rest \<and> rd_ok f' \<and> moved f f'"
proof -
  from parse obtain x r where dec: "varint_dec 0 0 (pending h f) = Some (x, r)" and x: "x \<noteq> 0"
    and t: "t = ucast (drop_bit 3 x)" and val: "parse_val (tag_type x) r = Some (v, rest)"
    by (auto simp: parse_field_def split: option.splits if_splits)
  from rd have left: "0 \<le> f_left f" by (simp add: rd_ok_def)
  from pb_decode_varint_ok [OF left dec] obtain k where
    call: "pb_decode_varint h f = (0, set_i64 x (f_advance k f))"
    and k: "int k \<le> f_left f" and r: "r = drop k (pending h f)" by blast
  define g where "g = (set_i64 x (f_advance k f))\<lparr>f_tag := t, f_type := tag_type x\<rparr>"
  have g: "rd_ok g" "pending h g = r" "f_type g = tag_type x" "f_tag g = t"
    using rd k left by (simp_all add: g_def rd_ok_def r pending_advance)
  have "pb_decode_tag h f = decode_switch h g"
    using x unfolding g_def t by (rule pb_decode_tag_dispatch [OF call])
  with parse_val_read [OF g(1), of h v rest] val g have "read_ok h g v rest (pb_decode_tag h f)"
    by simp
  then obtain f' where
    f': "pb_decode_tag h f = (0, f')" "f_tag f' = t" "f_type f' = tag_type x"
      "wval_of h (tag_type x) (f_val f') = v" "pending h f' = rest" "rd_ok f'" "moved g f'"
    unfolding read_ok_def g by blast
  have "wval_type v = tag_type x"
    using val by (auto simp: parse_val_def split: pb_type_t.splits option.splits if_splits)
  moreover from f'(7) have "f_left f' \<le> f_left f - int k" by (simp add: moved_def g_def)
  then have "k + nat (f_left f - int k - f_left f') = nat (f_left f - f_left f')" by linarith
  with f'(7) k have "moved f f'" by (auto simp: moved_def g_def)
  ultimately show ?thesis using f' by auto
qed

lemma pb_decode_tag_None:
  assumes rd: "rd_ok f" and parse: "parse_field (pending h f) = None"
  shows "\<exists>e f'. pb_decode_tag h f = (e, f') \<and> e \<noteq> 0 \<and> 
     f_eom f' = (f_eom f \<or> parse_eom (pending h f))"
proof -
  from rd have left: "0 \<le> f_left f" by (simp add: rd_ok_def)
  show ?thesis
  proof (cases "varint_dec 0 0 (pending h f)")
    case None
    with pb_decode_varint_None [OF left] obtain e m k where
      "pb_decode_varint h f = (e, f_error m (f_advance k f))" "e \<noteq> 0"
      "int k = f_left f \<longleftrightarrow> nat (f_left f) \<le> 10" by blast
    with None show ?thesis by (auto simp: pb_decode_tag_def parse_eom_def)
  next
    case (Some xr)
    obtain x r where xr: "xr = (x, r)" by (cases xr)
    from pb_decode_varint_ok [OF left] Some xr obtain k where
      call: "pb_decode_varint h f = (0, set_i64 x (f_advance k f))"
      and k: "int k \<le> f_left f" and r: "r = drop k (pending h f)" by blast
    show ?thesis
    proof (cases "x = 0")
      case True
      with Some xr show ?thesis by (simp add: pb_decode_tag_def call parse_eom_def)
    next
      case False
      define g where "g = (set_i64 x (f_advance k f))\<lparr>f_tag := ucast (drop_bit 3 x), f_type := tag_type x\<rparr>"
      have g: "rd_ok g" "pending h g = r" "f_type g = tag_type x" "f_eom g = f_eom f"
        using rd k left by (simp_all add: g_def rd_ok_def r pending_advance)
      have "pb_decode_tag h f = decode_switch h g"
        using False unfolding g_def by (rule pb_decode_tag_dispatch [OF call])
      moreover have "parse_val (f_type g) (pending h g) = None"
        using parse Some xr False g by (simp add: parse_field_def)
      ultimately have "read_fail g (pb_decode_tag h f)"
        using parse_val_fail [OF g(1)] by simp
      with Some xr False g show ?thesis
        by (cases "pb_decode_tag h f") (auto simp: read_fail_def parse_eom_def)
    qed
  qed
qed



section \<open>Whole messages\<close>

text \<open>
  The loop every client writes, \<open>pf = pb_begin(...); do { ... } while((pf = pb_next(pf)))\<close>, collecting
  the fields and the final \<open>eom\<close> flag.  \<open>None\<close> is running out of fuel.
\<close>

fun pb_collect :: "nat \<Rightarrow> heap \<Rightarrow> bool \<times> pb_field_t \<Rightarrow> ((u32 \<times> wval) list \<times> bool) option" where
  "pb_collect 0 h r = None"
| "pb_collect (Suc n) h (pf, f) =
     (if pf
      then map_option (\<lambda>(xs, e). ((f_tag f, wval_of h (f_type f) (f_val f)) # xs, e))
             (pb_collect n h (pb_next h f))
      else Some ([], f_eom f))"

lemma parse_msg_Some:
  "parse_field bs = Some (x, rest) \<Longrightarrow>
   parse_msg bs = (x # fst (parse_msg rest), snd (parse_msg rest))"
  by (simp add: parse_msg.simps [of bs] split: prod.split)

lemma parse_msg_None: "parse_field bs = None \<Longrightarrow> parse_msg bs = ([], parse_eom bs)"
  by (simp add: parse_msg.simps [of bs])

lemma pb_collect_parse_msg:
  "rd_ok f \<Longrightarrow> \<not> f_eom f \<Longrightarrow> length (pending h f) < n \<Longrightarrow>
   pb_collect n h (pb_next h f) = Some (parse_msg (pending h f))"
proof (induction n arbitrary: f)
  case 0
  then show ?case by simp
next
  case (Suc n)
  show ?case
  proof (cases "parse_field (pending h f)")
    case None
    from pb_decode_tag_None [OF Suc.prems(1) None] Suc.prems(2) None show ?thesis
      by (auto simp: pb_next_def parse_msg_None)
  next
    case (Some r)
    obtain t v rest where r: "r = ((t, v), rest)" by (metis surj_pair)
    from pb_decode_tag_Some [OF Suc.prems(1)] Some r obtain f' where
      f': "pb_decode_tag h f = (0, f')" "f_tag f' = t" "wval_of h (f_type f') (f_val f') = v"
        "pending h f' = rest" "rd_ok f'" "moved f f'" by blast
    have "length rest < length (pending h f)" using parse_field_shorter Some r by blast
    with f' Suc.prems have "pb_collect n h (pb_next h f') = Some (parse_msg rest)"
      using Suc.IH [of f'] by (simp add: moved_def)
    moreover have "pb_next h f = (True, f')" using f' by (simp add: pb_next_def)
    ultimately show ?thesis using f' Some r by (simp add: parse_msg_Some split: prod.split)
  qed
qed

text \<open>\<open>pb_begin\<close> is \<open>pb_next\<close> on the iterator it initialises.\<close>

definition pb_start :: "pb_field_t \<Rightarrow> ptr \<Rightarrow> int \<Rightarrow> pb_field_t" where
  "pb_start f data dlen =
     f\<lparr>f_start := data, f_ptr := data, f_size := word_of_int dlen, f_left := dlen,
       f_eom := False, f_errmsg := None\<rparr>"

lemma pb_begin_eq: "pb_begin h f data dlen = pb_next h (pb_start f data dlen)"
  by (simp add: pb_begin_def pb_next_def pb_start_def)

lemma pb_start_simps [simp]:
  "f_eom (pb_start f p n) = False" "f_left (pb_start f p n) = n" "f_ptr (pb_start f p n) = p"
  "pending h (pb_start f p n) = bytes_at h p (nat n)"
  "f_errmsg (pb_start f p n) = None" "f_start (pb_start f p n) = p"
  by (simp_all add: pb_start_def pending_def)

lemma pb_begin_collect:
  assumes "n < 2 ^ 31"
  shows "pb_collect (Suc n) h (pb_begin h f p (int n)) = Some (parse_msg (bytes_at h p n))"
  unfolding pb_begin_eq using assms by (subst pb_collect_parse_msg) (simp_all add: rd_ok_def)

section \<open>The reader looks only at the message\<close>

lemma pb_get_byte_cong:
  "pending h f = pending h' f \<Longrightarrow> pb_get_byte h f = pb_get_byte h' f"
  by (cases "1 \<le> f_left f") (auto simp: pb_get_byte_def pending_Cons)

lemma decode_varint_loop_cong:
  "pending h f = pending h' f \<Longrightarrow> pb_decode_varint_loop h f p r = pb_decode_varint_loop h' f p r"
proof (induction h f p r rule: pb_decode_varint_loop.induct)
  case (1 h f p r)
  note get = pb_get_byte_cong [OF "1.prems"]
  show ?case
  proof (cases "p < 64 \<and> 1 \<le> f_left f \<and> load h (f_ptr f) AND 0x80 \<noteq> 0")
    case True
    then have g: "pb_get_byte h f = (0, load h (f_ptr f), f_advance 1 f)"
      and "pb_get_byte h' f = (0, load h' (f_ptr f), f_advance 1 f)"
      by (simp_all add: pb_get_byte_def)
    with get have b: "load h' (f_ptr f) = load h (f_ptr f)" by simp
    have "pending h (f_advance 1 f) = pending h' (f_advance 1 f)"
      using True "1.prems" by (simp add: pending_Cons)
    from "1.IH" [OF _ g [symmetric] refl refl _ refl _ this] True g b get show ?thesis
      by (simp add: pb_decode_varint_loop.simps [of h f p r] pb_decode_varint_loop.simps [of h' f p r])
  next
    case False
    with get show ?thesis
      by (auto simp: pb_decode_varint_loop.simps [of h f p r] pb_decode_varint_loop.simps [of h' f p r]
          pb_get_byte_def Let_def)
  qed
qed

lemma pb_decode_varint_cong:
  "pending h f = pending h' f \<Longrightarrow> pb_decode_varint h f = pb_decode_varint h' f"
  unfolding pb_decode_varint_def by (rule decode_varint_loop_cong)

lemma pb_decode_varint_fst_0:
  assumes "0 \<le> f_left f" "pb_decode_varint h f = (0, f')"
  shows "\<exists>k x. f' = set_i64 x (f_advance k f) \<and> int k \<le> f_left f"
proof (cases "varint_dec 0 0 (pending h f)")
  case None
  with pb_decode_varint_None [OF assms(1) None] assms(2) show ?thesis by auto
next
  case (Some xr)
  with pb_decode_varint_ok [OF assms(1)] assms(2) show ?thesis by (cases xr) fastforce
qed

lemma decode_switch_cong:
  assumes "rd_ok f" "pending h f = pending h' f"
  shows "decode_switch h f = decode_switch h' f"
proof -
  note v = pb_decode_varint_cong [OF assms(2)]
  have bytes: "bytes_at h (f_ptr f) n = bytes_at h' (f_ptr f) n" if "n \<le> nat (f_left f)" for n
    using arg_cong [OF assms(2), of "take n"] that by (simp only: pending_def take_bytes_at)
  have "pb_get_ddword h f = pb_get_ddword h' f" and "pb_get_dword h f = pb_get_dword h' f"
    using bytes [of 8] bytes [of 4] by (auto simp: pb_get_ddword_def pb_get_dword_def)
  with v show ?thesis
    by (cases "f_type f")
       (simp_all add: pb_decode_fixed64_def pb_decode_fixed32_def pb_decode_string_def)
qed

lemma pb_decode_tag_cong:
  assumes rd: "rd_ok f" and p: "pending h f = pending h' f"
  shows "pb_decode_tag h f = pb_decode_tag h' f"
proof -
  note v = pb_decode_varint_cong [OF p]
  obtain ret f' where call: "pb_decode_varint h f = (ret, f')" by (cases "pb_decode_varint h f")
  show ?thesis
  proof (cases "ret = 0 \<and> v_i64 (f_val f') \<noteq> 0")
    case True
    from rd have left: "0 \<le> f_left f" by (simp add: rd_ok_def)
    from True pb_decode_varint_fst_0 [OF left] call obtain k x where
      f': "f' = set_i64 x (f_advance k f)" and k: "int k \<le> f_left f" by blast
    let ?g = "f'\<lparr>f_tag := ucast (drop_bit 3 x), f_type := tag_type x\<rparr>"
    have "rd_ok ?g" "pending h ?g = pending h' ?g"
      using rd k left p by (simp_all add: f' rd_ok_def pending_advance)
    then have sw: "decode_switch h ?g = decode_switch h' ?g" by (rule decode_switch_cong)
    from True f' call have x: "x \<noteq> 0" and c: "pb_decode_varint h f = (0, set_i64 x (f_advance k f))"
      by simp_all
    show ?thesis
      using sw pb_decode_tag_dispatch [OF c x] pb_decode_tag_dispatch [OF c [unfolded v] x]
      unfolding f' by (simp only:)
  next
    case False
    with call v show ?thesis by (auto simp: pb_decode_tag_def)
  qed
qed

section \<open>Skipping\<close>

lemma pb_skip_varint_eq:
  "0 \<le> f_left f \<Longrightarrow> varint_dec p r (pending h f) = Some (x, rest) \<Longrightarrow>
   \<exists>k. pb_skip_varint h f = (0, f_advance k f) \<and> int k \<le> f_left f \<and> rest = drop k (pending h f)"
proof (induction h f arbitrary: p r rule: pb_skip_varint.induct)
  case (1 h f)
  from "1.prems"(2) have "length (pending h f) \<noteq> 0" by (cases "pending h f") auto
  then have left: "1 \<le> f_left f" by simp
  let ?b = "load h (f_ptr f)"
  have get: "pb_get_byte h f = (0, ?b, f_advance 1 f)" using left by (simp add: pb_get_byte_def)
  show ?case
  proof (cases "?b AND 0x80 = 0")
    case True
    with "1.prems" left get show ?thesis
      by (intro exI [of _ 1])
         (auto simp: pb_skip_varint.simps [of h f] pending_Cons split: if_splits)
  next
    case False
    with "1.prems" left obtain q s where
      dec: "varint_dec q s (pending h (f_advance 1 f)) = Some (x, rest)"
      by (auto simp: pending_Cons Let_def split: if_splits)
    from "1.IH" [OF get [symmetric] refl refl _ False _ dec] left obtain k where
      "pb_skip_varint h (f_advance 1 f) = (0, f_advance (Suc k) f)" "int k \<le> f_left f - 1"
      "rest = drop k (pending h (f_advance 1 f))" by auto
    with False get left show ?thesis
      by (intro exI [of _ "Suc k"]) (auto simp: pb_skip_varint.simps [of h f] pending_Cons)
  qed
qed

lemma pb_skip_string_eq:
  assumes rd: "rd_ok f" and dec: "varint_dec 0 0 (pending h f) = Some (n, r)" and n: "unat n \<le> length r"
  shows "\<exists>f'. pb_skip_string h f = (0, f') \<and> pending h f' = drop (unat n) r"
proof -
  from rd have left: "0 \<le> f_left f" "f_left f < 2 ^ 31" by (simp_all add: rd_ok_def)
  from pb_decode_varint_ok [OF left(1) dec] obtain k where
    call: "pb_decode_varint h f = (0, set_i64 n (f_advance k f))"
    and k: "int k \<le> f_left f" and r: "r = drop k (pending h f)" by blast
  from n r k left have fit: "k + unat n \<le> nat (f_left f)" by auto
  moreover have "nat (f_left f) < 2 ^ 31" using left by simp
  ultimately have small: "unat n < 2 ^ 31" by (rule order_le_less_trans [OF le_trans [OF le_add2]])
  then have n32: "unat (ucast n :: u32) = unat n"
    by (simp add: unsigned_ucast_eq take_bit_nat_eq_self)
  then have "(of_nat (unat (ucast n :: u32)) :: u64) = of_nat (unat n)" by (simp only:)
  then have cast: "ucast (ucast n :: u32) = n" by simp
  have "to_u64 (f_left f - int k) < n \<longleftrightarrow> nat (f_left f - int k) < unat n"
    using to_u64_less [of "f_left f - int k" "unat n"] k left small by simp
  moreover have "\<not> nat (f_left f - int k) < unat n" using fit k by linarith
  moreover have "pending h (f_advance (k + unat n) f) = drop (k + unat n) (pending h f)"
    by (rule pending_advance) (use fit left in linarith)+
  ultimately show ?thesis using r
    by (simp add: pb_skip_string_def call pb_get_def v_i32_def pending_advance cast
        f_advance_val add.commute)
qed

lemma parse_field_enc:
  assumes "tag \<noteq> 0" "unat tag < 2 ^ 29" "\<And>bs. v = WString bs \<Longrightarrow> length bs < 2 ^ 64"
  shows "parse_field (enc_field tag v @ rest) = Some ((tag, v), rest)"
proof -
  have ty: "named_type (wval_type v)" by (cases v) (simp_all add: named_type_def)
  from assms(3) have "parse_val (wval_type v) (enc_val v @ rest) = Some (v, rest)"
    by (intro parse_val_enc) simp
  with tag_word_parts [OF assms(2) ty] assms(1) show ?thesis
    by (simp add: parse_field_def enc_field_def varint_dec_enc)
qed

text \<open>The fields the library can write: a nonzero tag of 29 bits and a string of 32-bit length.\<close>

definition wf_field :: "u32 \<times> wval \<Rightarrow> bool" where
  "wf_field x \<longleftrightarrow> fst x \<noteq> 0 \<and> unat (fst x) < 2 ^ 29 \<and>
     (case snd x of WString bs \<Rightarrow> length bs < 2 ^ 32 | _ \<Rightarrow> True)"

definition enc_msg :: "(u32 \<times> wval) list \<Rightarrow> byte list" where
  "enc_msg fs = concat (map (\<lambda>(t, v). enc_field t v) fs)"

lemma wf_field_parse: "wf_field (t, v) \<Longrightarrow> parse_field (enc_field t v @ rest) = Some ((t, v), rest)"
  by (rule parse_field_enc) (auto simp: wf_field_def)

lemma parse_msg_Nil: "parse_msg [] = ([], True)"
  by (subst parse_msg.simps) (simp add: parse_field_def parse_eom_def)

lemma parse_msg_enc_msg: "\<forall>x \<in> set fs. wf_field x \<Longrightarrow> parse_msg (enc_msg fs) = (fs, True)"
proof (induction fs)
  case Nil
  then show ?case by (simp add: enc_msg_def parse_msg_Nil)
next
  case (Cons x fs)
  obtain t v where x: "x = (t, v)" by (cases x)
  with Cons have "parse_msg (enc_msg fs) = (fs, True)"
    and "parse_field (enc_field t v @ enc_msg fs) = Some ((t, v), enc_msg fs)"
    by (simp_all add: wf_field_parse)
  with x show ?case by (simp add: enc_msg_def parse_msg_Some)
qed

end
