(* ===== verification/Pb_Correct.thy ===== *)
theory Pb_Correct
  imports Pb_Parse
begin

text \<open>
  The properties of the protocol-buffer routines: zig-zag integers, round trip of a field through the
  writer and the reader, exact length evaluation, termination and meaning of the field iteration,
  bounds of reads and writes, agreement of skipping and decoding.
\<close>

section \<open>Zig-zag integers\<close>

lemma bit_mult_2: "bit ((s :: u64) * 2) n \<longleftrightarrow> 0 < n \<and> n < 64 \<and> bit s (n - 1)"
proof -
  have "s * 2 = push_bit 1 s" by simp
  then have "bit (s * 2) n = bit (push_bit 1 s) n" by (rule arg_cong)
  also have "\<dots> \<longleftrightarrow> 0 < n \<and> n < 64 \<and> bit s (n - 1)" unfolding bit_push_bit_iff by auto
  finally show ?thesis .
qed

lemma bit_pb_int2uint:
  "n < 64 \<Longrightarrow> bit (pb_int2uint s) n \<longleftrightarrow> (sint s < 0) \<noteq> (0 < n \<and> bit s (n - 1))"
  by (auto simp: pb_int2uint_def bit_not_iff bit_mult_2)

lemma and_1_bit0: "(u :: u64) AND 1 \<noteq> 0 \<longleftrightarrow> bit u 0"
  by (simp add: and_one_eq odd_iff_mod_2_eq_one bit_0 flip: odd_iff_mod_2_eq_one)

text \<open>
  Zig-zag coding of signed 64-bit integers: \<open>pb_uint2int\<close> inverts \<open>pb_int2uint\<close> on every value, and the
  code of \<open>s\<close> is \<open>2 * s\<close> or \<open>-2 * s - 1\<close>, so that values of small magnitude get small codes.
\<close>

theorem pb_zigzag:
  "pb_uint2int (pb_int2uint s) = s \<and>
   uint (pb_int2uint s) = (if sint s < 0 then - 2 * sint s - 1 else 2 * sint s)"
proof
  show "pb_uint2int (pb_int2uint s) = s"
  proof (rule bit_word_eqI)
    fix n
    assume n: "n < LENGTH(64)"
    have "bit s 63 \<longleftrightarrow> sint s < 0" using bit_last_iff [of s] by simp
    moreover have "\<not> bit (pb_int2uint s) 64" by (rule notI) (drule bit_imp_le_length, simp)
    ultimately show "bit (pb_uint2int (pb_int2uint s)) n = bit s n"
      using n by (cases "n = 63")
        (simp_all add: pb_uint2int_def and_1_bit0 bit_pb_int2uint bit_not_iff bit_drop_bit_eq)
  qed
  have range: "- (2 ^ 63) \<le> sint s" "sint s < 2 ^ 63"
    using sint_ge [of s] sint_lt [of s] by simp_all
  have s: "s = word_of_int (sint s)" by simp
  show "uint (pb_int2uint s) = (if sint s < 0 then - 2 * sint s - 1 else 2 * sint s)"
  proof (cases "sint s < 0")
    case True
    have "pb_int2uint s = word_of_int (- 2 * sint s - 1)"
      using True by (simp add: pb_int2uint_def not_eq_complement push_bit_eq_mult)
    moreover have "uint (word_of_int (- 2 * sint s - 1) :: u64) = - 2 * sint s - 1"
      unfolding uint_word_of_int using True range by simp
    ultimately show ?thesis using True by (simp only: if_True)
  next
    case False
    have "pb_int2uint s = word_of_int (2 * sint s)"
      using False by (simp add: pb_int2uint_def push_bit_eq_mult)
    moreover have "uint (word_of_int (2 * sint s) :: u64) = 2 * sint s"
      unfolding uint_word_of_int using False range by simp
    ultimately show ?thesis using False by (simp only: if_False)
  qed
qed

section \<open>Writing and reading a field\<close>

text \<open>
  C4. Round trip of a field.  When \<open>pb_add_field_val\<close> returns 0, \<open>pb_begin\<close> on the bytes it appended
  returns a field with the same tag, type and value, and consumes all of them.  Tags have 29 bits
  because the tag word is computed in 32 bits.
\<close>

theorem pb_field_roundtrip:
  assumes "wr_ok h b" "named_type type" "src_ok b type v" "tag \<noteq> 0" "unat tag < 2 ^ 29"
    and call: "pb_add_field_val h b tag type v = (0, h', b')"
  shows "\<exists>f'. pb_begin h' f (b_ptr b) (b_left b - b_left b') = (True, f') \<and>
     f_tag f' = tag \<and> f_type f' = type \<and> wval_of h' type (f_val f') = wval_of h type v \<and>
     f_left f' = 0"
proof -
  let ?w = "wval_of h type v" and ?e = "enc_field tag (wval_of h type v)"
  have res: "wr_res h b ?e (0, h', b')"
    using pb_add_field_val_res [OF assms(1-3), of tag] call by simp
  then have fits: "length ?e \<le> wr_room b" using wr_res_full by fastforce
  from wr_res_fits [OF res fits] have h': "h' = store_bytes h (b_ptr b) ?e"
    and len: "b_left b - b_left b' = int (length ?e)" by simp_all
  from assms(1) fits have region: "valid_region h (b_ptr b) (length ?e)"
    and small: "int (length ?e) < 2 ^ 31"
    by (auto simp: wr_ok_def wr_room_def intro: valid_region_mono)
  let ?f = "pb_start f (b_ptr b) (int (length ?e))"
  have pend: "pending h' ?f = ?e" using region by (simp add: h' bytes_at_store_same)
  have parse: "parse_field ?e = Some ((tag, ?w), [])"
    using parse_field_enc [OF assms(4,5), of ?w "[]"] unat_u32_less [of "v_len v"] assms(2)
    by (cases type) (auto simp: wval_of_def named_type_def)
  have "rd_ok ?f" using small by (simp add: rd_ok_def)
  from pb_decode_tag_Some [OF this, of h' tag ?w "[]"] parse pend assms(2) obtain f' where
    "pb_decode_tag h' ?f = (0, f')" "f_tag f' = tag" "f_type f' = type"
    "wval_of h' type (f_val f') = ?w" "pending h' f' = []" "rd_ok f'" by auto
  moreover from calculation(5,6) have "f_left f' = 0"
    using length_pending [of h' f'] by (simp add: rd_ok_def)
  ultimately show ?thesis by (auto simp: pb_begin_eq pb_next_def len)
qed

text \<open>The buffer and the source string of the witnesses: twenty free bytes and a string of three.\<close>

definition demo_heap :: heap where
  "demo_heap = (\<lambda>_. [])(Ext 0 := replicate 20 0, Ext 1 := [1, 2, 3], Ext 2 := [58, 3, 1, 2, 3])"

definition demo_buff :: pb_buff_t where
  "demo_buff = \<lparr>b_start = Ptr (Ext 0) 0, b_size = 20, b_ptr = Ptr (Ext 0) 0, b_left = 20, b_errmsg = None\<rparr>"

definition demo_str :: pb_field_val_t where
  "demo_str = \<lparr>v_i64 = 3, v_data = Ptr (Ext 1) 0\<rparr>"

lemma demo_ok:
  "wr_ok demo_heap demo_buff" "named_type PB_TYPE_STRING" "src_ok demo_buff PB_TYPE_STRING demo_str"
  by (simp_all add: wr_ok_def named_type_def src_ok_def demo_heap_def demo_buff_def demo_str_def)

lemma demo_enc: "enc_field 7 (wval_of demo_heap PB_TYPE_STRING demo_str) = [58, 3, 1, 2, 3]"
  by (simp add: enc_field_def wval_of_def v_len_def pb_tag_word_def varint_enc_small
      bytes_at_def upt_rec demo_heap_def demo_str_def)

lemma demo_call:
  "pb_add_field_val demo_heap demo_buff 7 PB_TYPE_STRING demo_str =
     (0, store_bytes demo_heap (b_ptr demo_buff) [58, 3, 1, 2, 3], b_advance 5 demo_buff)"
  using wr_res_fits [OF pb_add_field_val_res [OF demo_ok, of 7]] unfolding demo_enc
  by (simp add: wr_room_def eval_nat_numeral) (simp add: demo_buff_def)

theorem pb_field_roundtrip_witness:
  "\<exists>f'. pb_begin (store_bytes demo_heap (b_ptr demo_buff) [58, 3, 1, 2, 3]) undefined (b_ptr demo_buff) 5 = (True, f') \<and>
     f_tag f' = 7 \<and> f_type f' = PB_TYPE_STRING \<and> f_left f' = 0"
  using pb_field_roundtrip [OF demo_ok _ _ demo_call, of undefined] by auto

text \<open>
  C5. The field iteration.  \<open>pb_begin\<close> followed by \<open>pb_next\<close> until it returns NULL ends after at most
  \<open>n + 1\<close> calls on any \<open>n\<close> bytes, well-formed or not, and returns the fields, in order, that the
  reference parser of the wire format finds, with the same end-of-message flag.
\<close>

theorem pb_iteration:
  assumes "n < 2 ^ 31"
  shows "pb_collect (Suc n) h (pb_begin h f p (int n)) = Some (parse_msg (bytes_at h p n))"
  using assms by (rule pb_begin_collect)

theorem pb_iteration_witness:
  "pb_collect 6 demo_heap (pb_begin demo_heap undefined (Ptr (Ext 2) 0) 5) = Some (parse_msg [58, 3, 1, 2, 3])"
  using pb_iteration [of 5 demo_heap undefined "Ptr (Ext 2) 0"]
  by (simp add: bytes_at_Ptr demo_heap_def)

definition demo_field :: pb_field_t where
  "demo_field = \<lparr>f_tag = 7, f_eom = False, f_type = PB_TYPE_STRING, f_val = demo_str, f_start = NULL,
     f_size = 0, f_ptr = NULL, f_left = 0, f_errmsg = None\<rparr>"

section \<open>Lengths and bounds\<close>

text \<open>
  C36. \<open>pb_eval_field_length\<close> is exact: it is the number of bytes \<open>pb_add_field_val\<close> takes from the
  buffer, and a buffer with that much room is always enough.
\<close>

theorem pb_eval_field_length_exact:
  assumes "wr_ok h b" "named_type type" "src_ok b type v"
    and "length (enc_field tag (wval_of h type v)) < 2 ^ 31"
  shows "case pb_add_field_val h b tag type v of (ret, h', b') \<Rightarrow>
     (ret = 0 \<longleftrightarrow> pb_eval_field_length tag type v \<le> b_left b) \<and>
     (ret = 0 \<longrightarrow> b_left b - b_left b' = pb_eval_field_length tag type v)"
proof -
  note res = pb_add_field_val_res [OF assms(1-3), of tag]
  note len = pb_eval_field_length_eq [OF assms(2,4)]
  obtain ret h' b' where call: "pb_add_field_val h b tag type v = (ret, h', b')"
    by (cases "pb_add_field_val h b tag type v")
  have "ret = 0 \<longleftrightarrow> length (enc_field tag (wval_of h type v)) \<le> wr_room b"
    using res wr_res_full [OF res] wr_res_fits [OF res] by (auto simp: call)
  with assms(1) have "ret = 0 \<longleftrightarrow> pb_eval_field_length tag type v \<le> b_left b"
    by (auto simp: len wr_room_def wr_ok_def)
  moreover have "b_left b - b_left b' = pb_eval_field_length tag type v" if "ret = 0"
    using wr_res_fits [OF res wr_res_full [OF res]] that by (simp add: len call)
  ultimately show ?thesis by (simp add: call)
qed

theorem pb_eval_field_length_exact_witness:
  "case pb_add_field_val demo_heap demo_buff 7 PB_TYPE_STRING demo_str of (ret, h', b') \<Rightarrow>
     (ret = 0 \<longleftrightarrow> pb_eval_field_length 7 PB_TYPE_STRING demo_str \<le> b_left demo_buff) \<and>
     (ret = 0 \<longrightarrow> b_left demo_buff - b_left b' = pb_eval_field_length 7 PB_TYPE_STRING demo_str)"
  by (rule pb_eval_field_length_exact [OF demo_ok]) (simp add: demo_enc)

lemma wr_res_store:
  assumes "wr_res h b bs r"
  shows "\<exists>ks. length ks \<le> wr_room b \<and> fst (snd r) = store_bytes h (b_ptr b) ks \<and>
     b_ptr (snd (snd r)) = ptr_add (b_ptr b) (length ks) \<and>
     b_left (snd (snd r)) = b_left b - int (length ks)"
proof (cases "length bs \<le> wr_room b")
  case True
  with wr_res_fits [OF assms True] show ?thesis by (intro exI [of _ bs]) simp
qed (use assms in \<open>auto simp: wr_res_def\<close>)

text \<open>
  C35. Memory safety of the writer.  Whether it succeeds or fails, \<open>pb_add_field_val\<close> writes only to the
  free part of the buffer: no block changes its size, other blocks and the bytes before the cursor
  keep their contents, and the remaining space stays a valid region of the buffer.
\<close>

theorem pb_add_in_bounds:
  assumes "wr_ok h b" "named_type type" "src_ok b type v"
    and call: "pb_add_field_val h b tag type v = (ret, h', b')"
  shows "wr_ok h' b' \<and> (\<forall>c. length (h' c) = length (h c)) \<and>
     (\<forall>c. ptr_blk (b_ptr b) \<noteq> Some c \<longrightarrow> h' c = h c) \<and>
     (\<forall>c i j. b_ptr b = Ptr c i \<longrightarrow> j < i \<or> i + wr_room b \<le> j \<and> j < length (h c) \<longrightarrow> h' c ! j = h c ! j)"
proof -
  from wr_res_store [OF pb_add_field_val_res [OF assms(1-3), of tag]] obtain ks where
    ks: "length ks \<le> wr_room b" and h': "h' = store_bytes h (b_ptr b) ks"
    and b': "b_ptr b' = b_ptr (b_advance (length ks) b)" "b_left b' = b_left (b_advance (length ks) b)"
    by (auto simp: call)
  from assms(1) ks have reg: "valid_region h (b_ptr b) (length ks)"
    by (auto simp: wr_ok_def wr_room_def intro: valid_region_mono)
  have "wr_ok h' b'" using wr_ok_advance [OF assms(1) ks] by (simp only: wr_ok_def h' b')
  moreover have "h' c ! j = h c ! j"
    if "b_ptr b = Ptr c i" "j < i \<or> i + wr_room b \<le> j \<and> j < length (h c)" for c i j
    using that ks reg by (auto simp: h' nth_append)
  ultimately show ?thesis
    using reg by (auto simp: h' length_store_bytes store_bytes_other)
qed

theorem pb_add_in_bounds_witness:
  "\<forall>c. length (store_bytes demo_heap (b_ptr demo_buff) [58, 3, 1, 2, 3] c) = length (demo_heap c)"
  using pb_add_in_bounds [OF demo_ok demo_call] by blast

lemma decode_string_in_message:
  assumes f: "0 \<le> f_left f" and call: "pb_decode_string h f = (0, f')"
  shows "\<exists>k. v_data (f_val f') = ptr_add (f_ptr f) k \<and> int k + int (unat (v_len (f_val f'))) = f_left f - f_left f'"
proof -
  obtain r f1 where v: "pb_decode_varint h f = (r, f1)" by fastforce
  with call have r: "r = 0" by (auto simp: pb_decode_string_def Let_def split: if_splits)
  then obtain x k where f1: "f1 = set_i64 x (f_advance k f)" using pb_decode_varint_fst_0 [OF f] v by blast
  then have "f' = f_advance (unat (ucast x :: u32)) (f1\<lparr>f_val := (set_v_len (ucast x) (f_val f1))\<lparr>v_data := f_ptr f1\<rparr>\<rparr>)"
    using call v r by (auto simp: pb_decode_string_def Let_def split: if_splits)
  then show ?thesis
    by (intro exI [of _ k]) (simp add: f1 v_len_def set_v_len_def set_low32_low)
qed

text \<open>
  C7. Whatever the bytes, a field the iterator returns is of one of the four types of values, the iterator has moved
  forward inside the message, and a string value is the part of the message that ends where the iterator now stands.
\<close>

theorem pb_next_well_typed:
  assumes rd: "rd_ok f" and call: "pb_next h f = (True, f')"
  shows "f_type f' \<in> {PB_TYPE_VARINT, PB_TYPE_FIXED64, PB_TYPE_FIXED32, PB_TYPE_STRING} \<and> rd_ok f' \<and> f_left f' < f_left f \<and>
     f_ptr f' = ptr_add (f_ptr f) (nat (f_left f - f_left f')) \<and>
     (f_type f' = PB_TYPE_STRING \<longrightarrow> (\<exists>k. v_data (f_val f') = ptr_add (f_ptr f) k \<and>
        int k + int (unat (v_len (f_val f'))) = f_left f - f_left f'))"
proof -
  have tag: "pb_decode_tag h f = (0, f')" using call by (auto simp: pb_next_def split: prod.splits)
  then obtain t v rest where parse: "parse_field (pending h f) = Some ((t, v), rest)"
    using pb_decode_tag_None [OF rd, of h] by (cases "parse_field (pending h f)") auto
  have f': "f_type f' = wval_type v" "pending h f' = rest" "rd_ok f'" "moved f f'"
    using pb_decode_tag_Some [OF rd parse] tag by auto
  have "nat (f_left f') < nat (f_left f)" using parse_field_shorter [OF parse] f'(2) length_pending by metis
  moreover have "\<exists>k. v_data (f_val f') = ptr_add (f_ptr f) k \<and> int k + int (unat (v_len (f_val f'))) = f_left f - f_left f'"
    if str: "f_type f' = PB_TYPE_STRING"
  proof -
    from parse obtain x r where dec: "varint_dec 0 0 (pending h f) = Some (x, r)" and x: "x \<noteq> 0" "parse_val (tag_type x) r = Some (v, rest)"
      by (auto simp: parse_field_def split: option.splits if_splits)
    from rd have left: "0 \<le> f_left f" by (simp add: rd_ok_def)
    from pb_decode_varint_ok [OF left dec] obtain k where k: "pb_decode_varint h f = (0, set_i64 x (f_advance k f))" "int k \<le> f_left f" by blast
    have "tag_type x = PB_TYPE_STRING"
      using x(2) str f'(1) by (auto simp: parse_val_def split: pb_type_t.splits option.splits if_splits)
    then have "pb_decode_string h ((set_i64 x (f_advance k f))\<lparr>f_tag := ucast (drop_bit 3 x), f_type := tag_type x\<rparr>) = (0, f')"
      using pb_decode_tag_dispatch [OF k(1) x(1)] tag by simp
    from decode_string_in_message [OF _ this] k(2) obtain j where
      "v_data (f_val f') = ptr_add (ptr_add (f_ptr f) k) j" "int j + int (unat (v_len (f_val f'))) = f_left f - int k - f_left f'" by auto
    then show ?thesis by (intro exI [of _ "k + j"]) (simp add: ptr_add_add)
  qed
  moreover have "wval_type v \<in> {PB_TYPE_VARINT, PB_TYPE_FIXED64, PB_TYPE_FIXED32, PB_TYPE_STRING}" by (cases v) simp_all
  ultimately show ?thesis using f' by (auto simp: moved_def)
qed

theorem pb_next_well_typed_witness:
  "\<exists>f' k. pb_next demo_heap (demo_field\<lparr>f_ptr := Ptr (Ext 2) 0, f_left := 5\<rparr>) = (True, f') \<and> f_type f' = PB_TYPE_STRING \<and>
     v_data (f_val f') = Ptr (Ext 2) k \<and> k + unat (v_len (f_val f')) = 5"
proof -
  let ?f = "demo_field\<lparr>f_ptr := Ptr (Ext 2) 0, f_left := 5\<rparr>"
  have rd: "rd_ok ?f" by (simp add: rd_ok_def)
  have "pending demo_heap ?f = enc_field 7 (WString [1, 2, 3]) @ []"
    by (simp add: pending_def bytes_at_Ptr demo_heap_def enc_field_def varint_enc_small pb_tag_word_def)
  then have "parse_field (pending demo_heap ?f) = Some ((7, WString [1, 2, 3]), [])" by (simp add: wf_field_parse wf_field_def del: append_Nil2)
  from pb_decode_tag_Some [OF rd this] obtain f' where f': "pb_next demo_heap ?f = (True, f')" "f_type f' = PB_TYPE_STRING" "pending demo_heap f' = []"
    by (auto simp: pb_next_def)
  have "nat (f_left f') = 0" using f'(3) length_pending [of demo_heap f'] by simp
  with pb_next_well_typed [OF rd f'(1)] f' have "f_left f' = 0" "\<exists>k. v_data (f_val f') = Ptr (Ext 2) k \<and> int k + int (unat (v_len (f_val f'))) = 5 - f_left f'"
    by (auto simp: rd_ok_def)
  then obtain k where "v_data (f_val f') = Ptr (Ext 2) k" "int (k + unat (v_len (f_val f'))) = int 5" by auto
  with f' show ?thesis by (intro exI [of _ f'] exI [of _ k]) (simp only: of_nat_eq_iff)
qed

text \<open>
  The reader depends on nothing but the message: \<open>pb_begin\<close> returns the same field on two memories
  that agree on the \<open>dlen\<close> bytes it was given, so it reads no byte outside them.
\<close>

theorem pb_begin_reads_only_message:
  assumes "n < 2 ^ 31" "bytes_at h p n = bytes_at h' p n"
  shows "pb_begin h f p (int n) = pb_begin h' f p (int n)"
  unfolding pb_begin_eq pb_next_def
  using assms by (subst pb_decode_tag_cong [of _ h h']) (simp_all add: rd_ok_def)

theorem pb_begin_reads_only_message_witness:
  "pb_begin demo_heap demo_field (Ptr (Ext 2) 0) 5 =
   pb_begin (demo_heap(Ext 0 := [])) demo_field (Ptr (Ext 2) 0) 5"
  using pb_begin_reads_only_message [of 5 demo_heap "Ptr (Ext 2) 0" "demo_heap(Ext 0 := [])" demo_field]
  by (simp add: bytes_at_Ptr demo_heap_def)

text \<open>
  \<open>pb_skip_field\<close> agrees with decoding: wherever a value of the type can be decoded, skipping
  succeeds and leaves the reader in front of the same remaining bytes.
\<close>

theorem pb_skip_field_agrees:
  assumes rd: "rd_ok f" and val: "parse_val type (pending h f) = Some (v, rest)"
  shows "\<exists>f'. pb_skip_field h f type = (0, f') \<and> pending h f' = rest"
proof -
  from rd have left: "0 \<le> f_left f" by (simp add: rd_ok_def)
  show ?thesis
  proof (cases type)
    case PB_TYPE_VARINT
    with val obtain x where "varint_dec 0 0 (pending h f) = Some (x, rest)" by (auto simp: parse_val_def)
    from pb_skip_varint_eq [OF left this] PB_TYPE_VARINT left show ?thesis
      by (auto simp: pb_skip_field_def pending_advance)
  next
    case PB_TYPE_STRING
    with val obtain n r where "varint_dec 0 0 (pending h f) = Some (n, r)" "unat n \<le> length r"
      and "rest = drop (unat n) r"
      by (auto simp: parse_val_def split: option.splits if_splits)
    with pb_skip_string_eq [OF rd] PB_TYPE_STRING show ?thesis by (auto simp: pb_skip_field_def)
  qed (use val left in \<open>auto simp: parse_val_def pb_skip_field_def pb_get_dword_def pb_get_ddword_def
        pending_advance nat_less_iff not_less split: if_splits\<close>)
qed

lemma demo_pending: "pending demo_heap (demo_field\<lparr>f_ptr := Ptr (Ext 2) 1, f_left := 4\<rparr>) = [3, 1, 2, 3]"
  by (simp add: pending_def bytes_at_Ptr demo_heap_def)

theorem pb_skip_field_agrees_witness:
  "\<exists>f'. pb_skip_field demo_heap (demo_field\<lparr>f_ptr := Ptr (Ext 2) 1, f_left := 4\<rparr>) PB_TYPE_STRING = (0, f') \<and>
     pending demo_heap f' = []"
  by (rule pb_skip_field_agrees [where v = "WString [1, 2, 3]"])
     (simp_all add: demo_pending [simplified] rd_ok_def parse_val_def)

text \<open>
  The local array of \<open>pb_add_vint\<close> holds ten bytes and is never overrun, for any 64-bit value; the
  evaluated varint length is the number of bytes written and lies between 1 and 10.
\<close>

theorem pb_vint_buffer_bound:
  "length (pb_vint_loop v []) \<le> 10 \<and> 1 \<le> pb_eval_vint_length v \<and> pb_eval_vint_length v \<le> 10 \<and>
   (v \<noteq> 0 \<longrightarrow> pb_eval_vint_length v = int (length (pb_vint_loop v [])))"
proof -
  have "pb_eval_vint_length v = int (length (pb_vint_loop v []))" if "v \<noteq> 0"
    using that by (simp add: pb_eval_vint_length_def pb_eval_vint_loop_eq)
  moreover have "1 \<le> pb_eval_vint_length v \<and> pb_eval_vint_length v \<le> 10"
    using length_varint_enc [of v] by (simp add: pb_eval_vint_length_eq)
  ultimately show ?thesis using length_pb_vint_loop [of v] by blast
qed

theorem pb_vint_buffer_bound_witness: "pb_eval_vint_length 300 = int (length (pb_vint_loop 300 []))"
  using pb_vint_buffer_bound [of 300] by simp



end
