(* ===== verification/Knv_Codec.thy ===== *)
theory Knv_Codec
  imports Pb_Correct
begin

text \<open>
  The codec interface of \<open>src/src/knv_codec.h\<close>.  The nodes never call \<open>pb_*\<close> themselves: they call the
  \<open>knv_*\<close> functions, which dispatch through the table \<open>g_knv_codecs\<close> when the library is built with
  \<open>USE_EXTERNAL_CODEC\<close> and a table is installed, and call \<open>pb_*\<close> otherwise.  The table is the argument
  \<open>g\<close>: \<open>None\<close> is the build without it (or a null table), \<open>Some pb_codecs\<close> the default table of
  \<open>src/src/knv_codec_default.c\<close>.

  The locale \<open>wire_format\<close> states what a wire format promises, \<open>knv_codec\<close> what a codec table promises
  to its clients; the lemmas that only need these promises are proved there, and both are
  interpreted on the library's own tables.
\<close>

section \<open>Definitions\<close>

type_synonym knv_type_t = pb_type_t
type_synonym knv_field_val_t = pb_field_val_t
type_synonym knv_field_t = pb_field_t
type_synonym knv_buff_t = pb_buff_t

record knv_codecs_t =
  c_begin :: "heap \<Rightarrow> knv_field_t \<Rightarrow> ptr \<Rightarrow> int \<Rightarrow> bool \<times> knv_field_t"
  c_begin_delimited :: "heap \<Rightarrow> knv_field_t \<Rightarrow> ptr \<Rightarrow> int \<Rightarrow> bool \<times> knv_field_t"
  c_next :: "heap \<Rightarrow> knv_field_t \<Rightarrow> bool \<times> knv_field_t"
  c_init_buff :: "knv_buff_t \<Rightarrow> ptr \<Rightarrow> u64 \<Rightarrow> int \<times> knv_buff_t"
  c_add_field :: "heap \<Rightarrow> knv_buff_t \<Rightarrow> knv_field_t \<Rightarrow> int \<times> heap \<times> knv_buff_t"
  c_add_field_val ::
    "heap \<Rightarrow> knv_buff_t \<Rightarrow> u32 \<Rightarrow> knv_type_t \<Rightarrow> knv_field_val_t \<Rightarrow> int \<times> heap \<times> knv_buff_t"
  c_add_varint :: "heap \<Rightarrow> knv_buff_t \<Rightarrow> u32 \<Rightarrow> u64 \<Rightarrow> int \<times> heap \<times> knv_buff_t"
  c_add_string :: "heap \<Rightarrow> knv_buff_t \<Rightarrow> u32 \<Rightarrow> ptr \<Rightarrow> u64 \<Rightarrow> int \<times> heap \<times> knv_buff_t"
  c_add_string_head :: "heap \<Rightarrow> knv_buff_t \<Rightarrow> u32 \<Rightarrow> u64 \<Rightarrow> int \<times> heap \<times> knv_buff_t"
  c_add_fixed32 :: "heap \<Rightarrow> knv_buff_t \<Rightarrow> u32 \<Rightarrow> u32 \<Rightarrow> int \<times> heap \<times> knv_buff_t"
  c_add_fixed64 :: "heap \<Rightarrow> knv_buff_t \<Rightarrow> u32 \<Rightarrow> u64 \<Rightarrow> int \<times> heap \<times> knv_buff_t"
  c_add_user :: "heap \<Rightarrow> knv_buff_t \<Rightarrow> ptr \<Rightarrow> u64 \<Rightarrow> int \<times> heap \<times> knv_buff_t"
  c_get_encoded_length :: "knv_buff_t \<Rightarrow> int"
  c_eval_field_length :: "u32 \<Rightarrow> knv_type_t \<Rightarrow> knv_field_val_t \<Rightarrow> int"

type_synonym codecs = "knv_codecs_t option"

definition my_pb_init_buff :: "pb_buff_t \<Rightarrow> ptr \<Rightarrow> u64 \<Rightarrow> int \<times> pb_buff_t" where
  "my_pb_init_buff b buf sz = pb_init_buff b buf sz"

definition my_pb_get_encoded_length :: "pb_buff_t \<Rightarrow> int" where
  "my_pb_get_encoded_length b = pb_get_encoded_length b"

definition my_pb_eval_field_length :: "u32 \<Rightarrow> knv_type_t \<Rightarrow> knv_field_val_t \<Rightarrow> int" where
  "my_pb_eval_field_length tag type val = pb_eval_field_length tag type val"

text \<open>The static table \<open>codecs\<close> of the default implementation.\<close>

definition pb_codecs :: knv_codecs_t where
  "pb_codecs = \<lparr>
     c_begin = pb_begin,
     c_begin_delimited = pb_begin_delimited,
     c_next = pb_next,
     c_init_buff = my_pb_init_buff,
     c_add_field = pb_add_field,
     c_add_field_val = pb_add_field_val,
     c_add_varint = pb_add_varint,
     c_add_string = pb_add_string,
     c_add_string_head = pb_add_string_head,
     c_add_fixed32 = pb_add_fixed32,
     c_add_fixed64 = pb_add_fixed64,
     c_add_user = pb_add_user,
     c_get_encoded_length = my_pb_get_encoded_length,
     c_eval_field_length = my_pb_eval_field_length\<rparr>"

definition knv_begin :: "codecs \<Rightarrow> heap \<Rightarrow> knv_field_t \<Rightarrow> ptr \<Rightarrow> int \<Rightarrow> bool \<times> knv_field_t" where
  "knv_begin g h f data dlen =
     (case g of Some c \<Rightarrow> c_begin c h f data dlen | None \<Rightarrow> pb_begin h f data dlen)"

definition knv_begin_delimited ::
  "codecs \<Rightarrow> heap \<Rightarrow> knv_field_t \<Rightarrow> ptr \<Rightarrow> int \<Rightarrow> bool \<times> knv_field_t" where
  "knv_begin_delimited g h f data dlen =
     (case g of Some c \<Rightarrow> c_begin_delimited c h f data dlen | None \<Rightarrow> pb_begin_delimited h f data dlen)"

definition knv_next :: "codecs \<Rightarrow> heap \<Rightarrow> knv_field_t \<Rightarrow> bool \<times> knv_field_t" where
  "knv_next g h f = (case g of Some c \<Rightarrow> c_next c h f | None \<Rightarrow> pb_next h f)"

definition knv_init_buff :: "codecs \<Rightarrow> knv_buff_t \<Rightarrow> ptr \<Rightarrow> u64 \<Rightarrow> int \<times> knv_buff_t" where
  "knv_init_buff g b buf sz =
     (case g of Some c \<Rightarrow> c_init_buff c b buf sz | None \<Rightarrow> pb_init_buff b buf sz)"

definition knv_add_field ::
  "codecs \<Rightarrow> heap \<Rightarrow> knv_buff_t \<Rightarrow> knv_field_t \<Rightarrow> int \<times> heap \<times> knv_buff_t" where
  "knv_add_field g h b field =
     (case g of Some c \<Rightarrow> c_add_field c h b field | None \<Rightarrow> pb_add_field h b field)"

definition knv_add_field_val ::
  "codecs \<Rightarrow> heap \<Rightarrow> knv_buff_t \<Rightarrow> u32 \<Rightarrow> knv_type_t \<Rightarrow> knv_field_val_t \<Rightarrow> int \<times> heap \<times> knv_buff_t" where
  "knv_add_field_val g h b tag type val =
     (case g of Some c \<Rightarrow> c_add_field_val c h b tag type val
      | None \<Rightarrow> pb_add_field_val h b tag type val)"

definition knv_add_varint ::
  "codecs \<Rightarrow> heap \<Rightarrow> knv_buff_t \<Rightarrow> u32 \<Rightarrow> u64 \<Rightarrow> int \<times> heap \<times> knv_buff_t" where
  "knv_add_varint g h b tag val =
     (case g of Some c \<Rightarrow> c_add_varint c h b tag val | None \<Rightarrow> pb_add_varint h b tag val)"

definition knv_add_string ::
  "codecs \<Rightarrow> heap \<Rightarrow> knv_buff_t \<Rightarrow> u32 \<Rightarrow> ptr \<Rightarrow> u64 \<Rightarrow> int \<times> heap \<times> knv_buff_t" where
  "knv_add_string g h b tag buffer sz =
     (case g of Some c \<Rightarrow> c_add_string c h b tag buffer sz | None \<Rightarrow> pb_add_string h b tag buffer sz)"

definition knv_add_string_head ::
  "codecs \<Rightarrow> heap \<Rightarrow> knv_buff_t \<Rightarrow> u32 \<Rightarrow> u64 \<Rightarrow> int \<times> heap \<times> knv_buff_t" where
  "knv_add_string_head g h b tag sz =
     (case g of Some c \<Rightarrow> c_add_string_head c h b tag sz | None \<Rightarrow> pb_add_string_head h b tag sz)"

definition knv_add_fixed32 ::
  "codecs \<Rightarrow> heap \<Rightarrow> knv_buff_t \<Rightarrow> u32 \<Rightarrow> u32 \<Rightarrow> int \<times> heap \<times> knv_buff_t" where
  "knv_add_fixed32 g h b tag val =
     (case g of Some c \<Rightarrow> c_add_fixed32 c h b tag val | None \<Rightarrow> pb_add_fixed32 h b tag val)"

definition knv_add_fixed64 ::
  "codecs \<Rightarrow> heap \<Rightarrow> knv_buff_t \<Rightarrow> u32 \<Rightarrow> u64 \<Rightarrow> int \<times> heap \<times> knv_buff_t" where
  "knv_add_fixed64 g h b tag val =
     (case g of Some c \<Rightarrow> c_add_fixed64 c h b tag val | None \<Rightarrow> pb_add_fixed64 h b tag val)"

definition knv_add_user ::
  "codecs \<Rightarrow> heap \<Rightarrow> knv_buff_t \<Rightarrow> ptr \<Rightarrow> u64 \<Rightarrow> int \<times> heap \<times> knv_buff_t" where
  "knv_add_user g h b buf count =
     (case g of Some c \<Rightarrow> c_add_user c h b buf count | None \<Rightarrow> pb_add_user h b buf count)"

definition knv_get_encoded_length :: "codecs \<Rightarrow> knv_buff_t \<Rightarrow> int" where
  "knv_get_encoded_length g b =
     (case g of Some c \<Rightarrow> c_get_encoded_length c b | None \<Rightarrow> pb_get_encoded_length b)"

definition knv_eval_field_length :: "codecs \<Rightarrow> u32 \<Rightarrow> knv_type_t \<Rightarrow> knv_field_val_t \<Rightarrow> int" where
  "knv_eval_field_length g tag type val =
     (case g of Some c \<Rightarrow> c_eval_field_length c tag type val | None \<Rightarrow> pb_eval_field_length tag type val)"

section \<open>The wire format and the codec as interfaces\<close>

text \<open>
  What a wire format promises: a field can be parsed back whatever follows it, parsing consumes
  bytes, and a string field is a head followed by the bytes of the string.
\<close>

locale wire_format =
  fixes enc :: "u32 \<Rightarrow> wval \<Rightarrow> byte list"
    and head :: "u32 \<Rightarrow> u64 \<Rightarrow> byte list"
    and parse :: "byte list \<Rightarrow> ((u32 \<times> wval) \<times> byte list) option"
  assumes parse_enc: "wf_field (t, v) \<Longrightarrow> parse (enc t v @ rest) = Some ((t, v), rest)"
    and parse_shorter: "parse bs = Some (x, rest) \<Longrightarrow> length rest < length bs"
    and parse_type: "parse bs = Some ((t, v), rest) \<Longrightarrow> named_type (wval_type v)"
    and enc_string: "enc t (WString bs) = head t (of_nat (length bs)) @ bs"
begin

lemma parse_Nil: "parse [] = None"
  using parse_shorter [of "[]"] by (cases "parse []") auto

lemma enc_ne: "wf_field (t, v) \<Longrightarrow> enc t v \<noteq> []"
  using parse_enc [of t v "[]"] parse_Nil by auto

end

text \<open>
  The fields of a message as the iteration finds them: all fields up to the first position where
  no field can be parsed.  A message of \<open>n\<close> bytes has at most \<open>n\<close> fields, which bounds the fuel.
\<close>

fun fields_of :: "(byte list \<Rightarrow> ((u32 \<times> wval) \<times> byte list) option) \<Rightarrow> nat \<Rightarrow> byte list \<Rightarrow> (u32 \<times> wval) list" where
  "fields_of parse 0 bs = []"
| "fields_of parse (Suc n) bs =
     (case parse bs of None \<Rightarrow> [] | Some (x, rest) \<Rightarrow> x # fields_of parse n rest)"

definition enc_all :: "(u32 \<Rightarrow> wval \<Rightarrow> byte list) \<Rightarrow> (u32 \<times> wval) list \<Rightarrow> byte list" where
  "enc_all enc fs = concat (map (\<lambda>(t, v). enc t v) fs)"

lemma enc_all_simps [simp]:
  "enc_all enc [] = []" "enc_all enc (x # fs) = enc (fst x) (snd x) @ enc_all enc fs"
  by (simp_all add: enc_all_def split: prod.split)

context wire_format
begin

lemma fields_of_enc_all:
  "\<forall>x \<in> set fs. wf_field x \<Longrightarrow> length (enc_all enc fs) \<le> n \<Longrightarrow> fields_of parse n (enc_all enc fs) = fs"
proof (induction fs arbitrary: n)
  case Nil
  then show ?case by (cases n) (simp_all add: parse_Nil)
next
  case (Cons x fs)
  obtain t v where x: "x = (t, v)" by (cases x)
  from Cons.prems x have "enc t v \<noteq> []" by (intro enc_ne) auto
  then obtain m where n: "n = Suc m" using Cons.prems(2) x by (cases n) auto
  have "length (enc_all enc fs) \<le> m"
    using Cons.prems(2) \<open>enc t v \<noteq> []\<close> x n by (cases "enc t v") auto
  with Cons x n show ?case by (simp add: parse_enc)
qed

lemma fields_of_enough:
  "length bs \<le> m \<Longrightarrow> length bs \<le> n \<Longrightarrow> fields_of parse m bs = fields_of parse n bs"
proof (induction m arbitrary: n bs)
  case 0
  then show ?case by (cases n) (simp_all add: parse_Nil)
next
  case (Suc m)
  show ?case
  proof (cases n)
    case 0
    with Suc.prems show ?thesis by (simp add: parse_Nil)
  next
    case (Suc k)
    have "fields_of parse m rest = fields_of parse k rest" if "parse bs = Some (x, rest)" for x rest
      using parse_shorter [OF that] Suc.prems Suc by (intro Suc.IH) auto
    with Suc show ?thesis by (auto split: option.split)
  qed
qed

end

text \<open>
  What a codec table promises to the nodes: the iterator returns the fields of the wire format and
  moves over them, the writers append its encodings or fail inside the buffer, and the evaluated
  length is the length of the encoding.
\<close>

text \<open>A client that iterates with \<open>knv_next\<close> until it returns NULL: the fields and the last \<open>eom\<close>.\<close>

fun knv_collect :: "codecs \<Rightarrow> nat \<Rightarrow> heap \<Rightarrow> bool \<times> knv_field_t \<Rightarrow> ((u32 \<times> wval) list \<times> bool) option" where
  "knv_collect g 0 h r = None"
| "knv_collect g (Suc n) h (pf, f) =
     (if pf
      then map_option (\<lambda>(xs, e). ((f_tag f, wval_of h (f_type f) (f_val f)) # xs, e))
             (knv_collect g n h (knv_next g h f))
      else Some ([], f_eom f))"

text \<open>A client that adds a list of fields and stops at the first error.\<close>

fun knv_add_all :: "codecs \<Rightarrow> heap \<Rightarrow> knv_buff_t \<Rightarrow> knv_field_t list \<Rightarrow> int \<times> heap \<times> knv_buff_t" where
  "knv_add_all g h b [] = (0, h, b)"
| "knv_add_all g h b (f # fs) =
     (let (ret, h, b) = knv_add_field g h b f in if ret \<noteq> 0 then (ret, h, b) else knv_add_all g h b fs)"

definition field_of :: "heap \<Rightarrow> knv_field_t \<Rightarrow> u32 \<times> wval" where
  "field_of h f = (f_tag f, wval_of h (f_type f) (f_val f))"

definition addable :: "knv_buff_t \<Rightarrow> knv_field_t \<Rightarrow> bool" where
  "addable b f \<longleftrightarrow> named_type (f_type f) \<and> src_ok b (f_type f) (f_val f)"

lemma addable_advance [simp]: "addable (b_advance n b) f = addable b f"
  by (simp add: addable_def src_ok_def)

lemma field_of_store:
  "addable b f \<Longrightarrow> ptr_blk p = ptr_blk (b_ptr b) \<Longrightarrow> field_of (store_bytes h p bs) f = field_of h f"
  by (cases "f_type f")
     (auto simp: field_of_def wval_of_def addable_def bytes_at_src named_type_def)

locale knv_codec = wire_format enc head parse
  for enc :: "u32 \<Rightarrow> wval \<Rightarrow> byte list"
    and head :: "u32 \<Rightarrow> u64 \<Rightarrow> byte list"
    and parse :: "byte list \<Rightarrow> ((u32 \<times> wval) \<times> byte list) option" +
  fixes g :: codecs
  assumes begin_next: "knv_begin g h f p n = knv_next g h (pb_start f p n)"
    and next_Some: "rd_ok f \<Longrightarrow> parse (pending h f) = Some ((t, v), rest) \<Longrightarrow>
       \<exists>f'. knv_next g h f = (True, f') \<and> f_tag f' = t \<and> f_type f' = wval_type v \<and>
         wval_of h (f_type f') (f_val f') = v \<and> pending h f' = rest \<and> rd_ok f' \<and> moved f f'"
    and next_None: "rd_ok f \<Longrightarrow> parse (pending h f) = None \<Longrightarrow> \<exists>f'. knv_next g h f = (False, f')"
    and next_end: "rd_ok f \<Longrightarrow> pending h f = [] \<Longrightarrow> \<exists>f'. knv_next g h f = (False, f') \<and> f_eom f'"
    and init_buff: "knv_init_buff g b p sz = pb_init_buff b p sz"
    and add_field: "knv_add_field g h b f = knv_add_field_val g h b (f_tag f) (f_type f) (f_val f)"
    and add_field_val: "wr_ok h b \<Longrightarrow> named_type ty \<Longrightarrow> src_ok b ty val \<Longrightarrow>
       wr_res h b (enc tag (wval_of h ty val)) (knv_add_field_val g h b tag ty val)"
    and add_string_head: "wr_ok h b \<Longrightarrow> wr_res h b (head tag sz) (knv_add_string_head g h b tag sz)"
    and add_user: "wr_ok h b \<Longrightarrow>
       wr_res h b (bytes_at h p (unat (len :: u32))) (knv_add_user g h b p (ucast len))"
    and eval_field_length: "named_type ty \<Longrightarrow> length (enc tag (wval_of h ty val)) < 2 ^ 31 \<Longrightarrow>
       knv_eval_field_length g tag ty val = int (length (enc tag (wval_of h ty val)))"
    and get_encoded_length: "knv_get_encoded_length g b = pb_get_encoded_length b"
begin

lemma collect_fields:
  "rd_ok f \<Longrightarrow> length (pending h f) < n \<Longrightarrow>
   \<exists>e. knv_collect g n h (knv_next g h f) = Some (fields_of parse (length (pending h f)) (pending h f), e)"
proof (induction n arbitrary: f)
  case 0
  then show ?case by simp
next
  case (Suc n)
  let ?b = "pending h f"
  show ?case
  proof (cases "parse ?b")
    case None
    with next_None [OF Suc.prems(1) None] show ?thesis by (cases "length ?b") auto
  next
    case (Some x)
    obtain t v rest where x: "x = ((t, v), rest)" by (metis surj_pair)
    from next_Some [OF Suc.prems(1)] Some x obtain f' where
      f': "knv_next g h f = (True, f')" "f_tag f' = t" "wval_of h (f_type f') (f_val f') = v"
      "pending h f' = rest" "rd_ok f'" by blast
    have short: "length rest < length ?b" using parse_shorter Some x by blast
    then obtain m where m: "length ?b = Suc m" by (cases "length ?b") auto
    have "length (pending h f') < n" using short Suc.prems(2) f'(4) by simp
    from Suc.IH [OF f'(5) this] obtain e where
      e: "knv_collect g n h (knv_next g h f') = Some (fields_of parse (length rest) rest, e)"
      unfolding f'(4) by blast
    have "fields_of parse (length rest) rest = fields_of parse m rest"
      using short m by (intro fields_of_enough) auto
    with e f' Some x m show ?thesis by (simp del: length_pending)
  qed
qed

text \<open>A well-formed message is iterated to its end, and the end is reported.\<close>

lemma collect_message:
  "rd_ok f \<Longrightarrow> pending h f = enc_all enc fs \<Longrightarrow> \<forall>x \<in> set fs. wf_field x \<Longrightarrow> length (pending h f) < n \<Longrightarrow>
   knv_collect g n h (knv_next g h f) = Some (fs, True)"
proof (induction fs arbitrary: f n)
  case Nil
  with next_end [OF Nil.prems(1), of h] show ?case by (cases n) auto
next
  case (Cons x fs)
  obtain t v where x: "x = (t, v)" by (cases x)
  with Cons.prems have p: "parse (pending h f) = Some ((t, v), enc_all enc fs)"
    by (simp add: parse_enc)
  from next_Some [OF Cons.prems(1) p] obtain f' where
    f': "knv_next g h f = (True, f')" "f_tag f' = t" "wval_of h (f_type f') (f_val f') = v"
      "pending h f' = enc_all enc fs" "rd_ok f'" by blast
  obtain m where n: "n = Suc m" using Cons.prems(4) by (cases n) auto
  have "length (pending h f') < m"
    using parse_shorter [OF p] Cons.prems(4) f'(4) n by simp
  with Cons.IH [OF f'(5,4)] Cons.prems(3) f' x n show ?case by simp
qed

lemma add_all_ok:
  "wr_ok h b \<Longrightarrow> \<forall>f \<in> set fs. addable b f \<Longrightarrow>
   length (enc_all enc (map (field_of h) fs)) \<le> wr_room b \<Longrightarrow>
   knv_add_all g h b fs =
     (0, store_bytes h (b_ptr b) (enc_all enc (map (field_of h) fs)),
      b_advance (length (enc_all enc (map (field_of h) fs))) b)"
proof (induction fs arbitrary: h b)
  case Nil
  then show ?case by (simp add: b_advance_def)
next
  case (Cons f fs)
  let ?e = "enc (f_tag f) (wval_of h (f_type f) (f_val f))"
  let ?h = "store_bytes h (b_ptr b) ?e" and ?b = "b_advance (length ?e) b"
  let ?m = "enc_all enc (map (field_of h) fs)"
  have msg: "enc_all enc (map (field_of h) (f # fs)) = ?e @ ?m" by (simp add: field_of_def)
  with Cons.prems have fits: "length ?e \<le> wr_room b" "length ?m \<le> wr_room b - length ?e" by simp_all
  from Cons.prems fits have call: "knv_add_field g h b f = (0, ?h, ?b)"
    by (auto simp: add_field addable_def intro!: wr_res_fits add_field_val)
  have same: "map (field_of ?h) fs = map (field_of h) fs"
    using Cons.prems(2) by (auto intro: field_of_store)
  have "knv_add_all g ?h ?b fs = (0, store_bytes ?h (b_ptr ?b) ?m, b_advance (length ?m) ?b)"
    using Cons.IH [OF wr_ok_advance [OF Cons.prems(1) fits(1)]] Cons.prems(2) fits(2)
    unfolding same by simp
  moreover have "valid_region h (b_ptr b) (length ?e + length ?m)"
    using Cons.prems(1) fits
    by (auto simp: wr_ok_def wr_room_def intro!: valid_region_mono [of h "b_ptr b" "nat (b_left b)"])
  ultimately show ?case unfolding msg by (simp add: call store_bytes_append)
qed

lemma message_roundtrip:
  assumes "wr_ok h b" "\<forall>f \<in> set fs. addable b f" "\<forall>f \<in> set fs. wf_field (field_of h f)"
    and "length (enc_all enc (map (field_of h) fs)) \<le> wr_room b"
  shows "\<exists>h' b'. knv_add_all g h b fs = (0, h', b') \<and>
     (let n = nat (b_left b - b_left b')
      in knv_collect g (Suc n) h' (knv_begin g h' f0 (b_ptr b) (int n)) = Some (map (field_of h) fs, True))"
proof -
  let ?m = "enc_all enc (map (field_of h) fs)"
  let ?h = "store_bytes h (b_ptr b) ?m" and ?b = "b_advance (length ?m) b"
  from assms(1,4) have reg: "valid_region h (b_ptr b) (length ?m)" and small: "length ?m < 2 ^ 31"
    by (auto simp: wr_ok_def wr_room_def intro!: valid_region_mono [of h "b_ptr b" "nat (b_left b)"])
  have n: "nat (b_left b - b_left ?b) = length ?m" by simp
  let ?f = "pb_start f0 (b_ptr b) (int (length ?m))"
  have pend: "pending ?h ?f = ?m" using reg by (simp add: bytes_at_store_same)
  moreover have "rd_ok ?f" using small by (simp add: rd_ok_def)
  moreover have "\<forall>x \<in> set (map (field_of h) fs). wf_field x" using assms(3) by simp
  ultimately have "knv_collect g (Suc (length ?m)) ?h (knv_begin g ?h f0 (b_ptr b) (int (length ?m))) =
      Some (map (field_of h) fs, True)"
    unfolding begin_next by (intro collect_message) simp_all
  then show ?thesis
    using add_all_ok [OF assms(1,2,4)] n
    by (intro exI [of _ ?h] exI [of _ ?b]) (simp only: Let_def simp_thms)
qed

end

section \<open>The library's tables satisfy the interface\<close>

definition pb_head :: "u32 \<Rightarrow> u64 \<Rightarrow> byte list" where
  "pb_head tag sz = varint_enc (pb_tag_word PB_TYPE_STRING tag) @ varint_enc sz"

lemma parse_field_type: "parse_field bs = Some ((t, v), rest) \<Longrightarrow> named_type (wval_type v)"
  by (cases v) (simp_all add: named_type_def)

lemma parse_field_Nil: "parse_field [] = None"
  by (simp add: parse_field_def)

lemma pb_add_string_head_res:
  assumes ok: "wr_ok h b"
  shows "wr_res h b (pb_head tag sz) (pb_add_string_head h b tag sz)"
  unfolding pb_head_def pb_add_string_head_def
proof (rule wr_res_seq [OF ok])
  show "wr_res h b (varint_enc (pb_tag_word PB_TYPE_STRING tag)) (pb_add_tag h b PB_TYPE_STRING tag)"
    unfolding pb_add_tag_def by (rule pb_add_vint_res [OF ok])
qed (auto intro!: pb_add_vint_res wr_ok_advance ok)

lemma pb_add_user_res:
  "wr_ok h b \<Longrightarrow> wr_res h b (bytes_at h p (unat (len :: u32))) (pb_add_user h b p (ucast len))"
  using pb_add_res [of h b "bytes_at h p (unat len)"] unat_u32_less [of len]
  by (simp add: pb_add_user_def unsigned_ucast_eq take_bit_nat_eq_self)

lemma enc_field_string: "enc_field t (WString bs) = pb_head t (of_nat (length bs)) @ bs"
  by (simp add: enc_field_def pb_head_def)

interpretation pb: wire_format enc_field pb_head parse_field
  by unfold_locales
     (simp_all add: wf_field_parse parse_field_shorter parse_field_type enc_field_string)

text \<open>All \<open>knv_*\<close> functions are the \<open>pb_*\<close> functions for both tables of the library.\<close>

lemma knv_is_pb:
  assumes "g = None \<or> g = Some pb_codecs"
  shows "knv_begin g = pb_begin" "knv_next g = pb_next" "knv_init_buff g = pb_init_buff"
    "knv_add_field g = pb_add_field" "knv_add_field_val g = pb_add_field_val"
    "knv_add_string_head g = pb_add_string_head" "knv_add_user g = pb_add_user"
    "knv_eval_field_length g = pb_eval_field_length" "knv_get_encoded_length g = pb_get_encoded_length"
  using assms
  by (auto simp: fun_eq_iff knv_begin_def knv_next_def knv_init_buff_def knv_add_field_def
      knv_add_field_val_def knv_add_string_head_def knv_add_user_def knv_eval_field_length_def
      knv_get_encoded_length_def pb_codecs_def my_pb_init_buff_def my_pb_eval_field_length_def
      my_pb_get_encoded_length_def)

lemma pb_knv_codec:
  assumes "g = None \<or> g = Some pb_codecs"
  shows "knv_codec enc_field pb_head parse_field g"
proof
  fix h f t v rest
  assume "rd_ok f" "parse_field (pending h f) = Some ((t, v), rest)"
  from pb_decode_tag_Some [OF this] show "\<exists>f'. knv_next g h f = (True, f') \<and> f_tag f' = t \<and>
      f_type f' = wval_type v \<and> wval_of h (f_type f') (f_val f') = v \<and> pending h f' = rest \<and>
      rd_ok f' \<and> moved f f'"
    by (auto simp: knv_is_pb [OF assms] pb_next_def)
next
  fix h f
  assume rd: "rd_ok f" and "parse_field (pending h f) = None"
  from pb_decode_tag_None [OF this] show "\<exists>f'. knv_next g h f = (False, f')"
    by (auto simp: knv_is_pb [OF assms] pb_next_def)
next
  fix h f
  assume rd: "rd_ok f" and pend: "pending h f = []"
  from pb_decode_tag_None [OF rd, of h] show "\<exists>f'. knv_next g h f = (False, f') \<and> f_eom f'"
    unfolding pend by (auto simp: knv_is_pb [OF assms] pb_next_def parse_field_Nil parse_eom_def)
qed (simp_all add: knv_is_pb [OF assms] pb_begin_eq pb_add_field_def pb_add_field_val_res
      pb_add_string_head_res pb_add_user_res pb_eval_field_length_eq)

interpretation direct: knv_codec enc_field pb_head parse_field None
  by (rule pb_knv_codec) simp

interpretation table: knv_codec enc_field pb_head parse_field "Some pb_codecs"
  by (rule pb_knv_codec) simp

text \<open>
  C6. Round trip of a message through the codec interface.  Fields added one after the other through
  the default codec table to a buffer with enough room are read back by the iteration as the same
  list of tags and values, and the iteration reports the end of the message and no other field.
\<close>

theorem knv_message_roundtrip:
  assumes "wr_ok h b" "\<forall>f \<in> set fs. addable b f" "\<forall>f \<in> set fs. wf_field (field_of h f)"
    and "length (enc_all enc_field (map (field_of h) fs)) \<le> wr_room b"
  shows "\<exists>h' b'. knv_add_all (Some pb_codecs) h b fs = (0, h', b') \<and>
     (let n = nat (b_left b - b_left b')
      in knv_collect (Some pb_codecs) (Suc n) h' (knv_begin (Some pb_codecs) h' f0 (b_ptr b) (int n)) =
           Some (map (field_of h) fs, True))"
  using assms by (rule table.message_roundtrip)

lemma demo_field_of: "field_of demo_heap demo_field = (7, WString [1, 2, 3])"
  by (simp add: field_of_def demo_field_def wval_of_def demo_str_def v_len_def demo_heap_def bytes_at_Ptr)

lemma demo_addable: "addable demo_buff demo_field"
  using demo_ok by (simp add: addable_def demo_field_def)

lemma demo_room: "wr_room demo_buff = 20"
  by (simp add: wr_room_def demo_buff_def)

lemma demo_msg: "enc_field 7 (WString [1, 2, 3]) = [58, 3, 1, 2, 3]"
  using demo_enc demo_field_of by (simp add: field_of_def demo_field_def)

theorem knv_message_roundtrip_witness:
  "\<exists>h' b'. knv_add_all (Some pb_codecs) demo_heap demo_buff [demo_field, demo_field] = (0, h', b') \<and>
     (let n = nat (b_left demo_buff - b_left b')
      in knv_collect (Some pb_codecs) (Suc n) h'
           (knv_begin (Some pb_codecs) h' demo_field (b_ptr demo_buff) (int n)) =
           Some ([(7, WString [1, 2, 3]), (7, WString [1, 2, 3])], True))"
  using knv_message_roundtrip [of demo_heap demo_buff "[demo_field, demo_field]" demo_field]
  by (simp add: demo_ok demo_addable demo_field_of demo_msg demo_room wf_field_def)

text \<open>
  Installing the default table does not change the behaviour of the library: every \<open>knv_*\<close> function
  dispatched through it returns what the build without external codecs returns.
\<close>

theorem default_table_is_builtin:
  "knv_begin (Some pb_codecs) = knv_begin None \<and>
   knv_begin_delimited (Some pb_codecs) = knv_begin_delimited None \<and>
   knv_next (Some pb_codecs) = knv_next None \<and> knv_init_buff (Some pb_codecs) = knv_init_buff None \<and>
   knv_add_field (Some pb_codecs) = knv_add_field None \<and>
   knv_add_field_val (Some pb_codecs) = knv_add_field_val None \<and>
   knv_add_varint (Some pb_codecs) = knv_add_varint None \<and>
   knv_add_string (Some pb_codecs) = knv_add_string None \<and>
   knv_add_string_head (Some pb_codecs) = knv_add_string_head None \<and>
   knv_add_fixed32 (Some pb_codecs) = knv_add_fixed32 None \<and>
   knv_add_fixed64 (Some pb_codecs) = knv_add_fixed64 None \<and>
   knv_add_user (Some pb_codecs) = knv_add_user None \<and>
   knv_get_encoded_length (Some pb_codecs) = knv_get_encoded_length None \<and>
   knv_eval_field_length (Some pb_codecs) = knv_eval_field_length None"
  by (simp add: fun_eq_iff knv_is_pb knv_begin_delimited_def knv_add_varint_def knv_add_string_def
      knv_add_fixed32_def knv_add_fixed64_def pb_codecs_def)

end
