(* ===== verification/Obj_Pool.thy ===== *)
theory Obj_Pool
  imports Knv_Prelude "HOL-Library.Multiset"
begin

text \<open>
  The object pool of \<open>src/src/obj_pool.h\<close>: objects carry \<open>prev\<close> and \<open>next\<close> pointers, a list is
  represented by its first object, whose \<open>prev\<close> is the last object, and released objects are chained
  through \<open>next\<close> in a free list.  The operations below move pointers exactly as the code does; a
  dereference of a null pointer is \<open>None\<close>.

  The second part shows that they implement operations on lists of objects, and states that as
  the interface \<open>object_pool\<close>, which the other components use.
\<close>

section \<open>Definitions\<close>

text \<open>
  \<open>o_count\<close> is the number of objects created so far, \<open>o_released\<close> records the calls of the virtual
  \<open>ReleaseObject\<close>, newest first.  Whether \<open>new\<close> throws in a call is the argument \<open>oom\<close>.
\<close>

record obj_pool =
  o_next :: "nat \<Rightarrow> nat option"
  o_prev :: "nat \<Rightarrow> nat option"
  obj_freelist :: "nat option"
  o_count :: nat
  o_released :: "nat list"

definition set_next :: "nat \<Rightarrow> nat option \<Rightarrow> obj_pool \<Rightarrow> obj_pool" where
  "set_next p v s = s\<lparr>o_next := (o_next s)(p := v)\<rparr>"

definition set_prev :: "nat \<Rightarrow> nat option \<Rightarrow> obj_pool \<Rightarrow> obj_pool" where
  "set_prev p v s = s\<lparr>o_prev := (o_prev s)(p := v)\<rparr>"

text \<open>The head of the free list, or a new object: the common first half of the three constructors.\<close>

definition take_obj :: "bool \<Rightarrow> obj_pool \<Rightarrow> nat option \<times> obj_pool" where
  "take_obj oom s =
     (case obj_freelist s of
        Some q \<Rightarrow> (Some q, s\<lparr>obj_freelist := o_next s q\<rparr>)
      | None \<Rightarrow> if oom then (None, s) else (Some (o_count s), s\<lparr>o_count := Suc (o_count s)\<rparr>))"

definition pool_New :: "bool \<Rightarrow> obj_pool \<Rightarrow> nat option \<times> obj_pool" where
  "pool_New oom s =
     (case take_obj oom s of
        (None, s) \<Rightarrow> (None, s)
      | (Some q, s) \<Rightarrow> (Some q, set_prev q (Some q) (set_next q None s)))"

definition pool_Delete :: "nat \<Rightarrow> obj_pool \<Rightarrow> obj_pool" where
  "pool_Delete obj s =
     (let s = s\<lparr>o_released := obj # o_released s\<rparr>;
          s = set_next obj (obj_freelist s) s
      in s\<lparr>obj_freelist := Some obj\<rparr>)"

definition pool_New_list ::
  "bool \<Rightarrow> nat option \<Rightarrow> obj_pool \<Rightarrow> (nat option \<times> nat option \<times> obj_pool) option" where
  "pool_New_list oom first s =
     (case take_obj oom s of
        (None, s) \<Rightarrow> Some (None, first, s)
      | (Some q, s) \<Rightarrow>
          (let s = set_next q None s in
           case first of
             Some f \<Rightarrow>
               (case o_prev s f of
                  None \<Rightarrow> None
                | Some lst \<Rightarrow>
                    Some (Some q, first, set_prev f (Some q) (set_prev q (Some lst) (set_next lst (Some q) s))))
           | None \<Rightarrow> Some (Some q, Some q, set_prev q (Some q) s)))"

definition pool_NewFront ::
  "bool \<Rightarrow> nat option \<Rightarrow> obj_pool \<Rightarrow> nat option \<times> nat option \<times> obj_pool" where
  "pool_NewFront oom first s =
     (case take_obj oom s of
        (None, s) \<Rightarrow> (None, first, s)
      | (Some q, s) \<Rightarrow>
          (let s = set_next q first s;
               s = (case first of
                      Some f \<Rightarrow> set_prev f (Some q) (set_prev q (o_prev s f) s)
                    | None \<Rightarrow> set_prev q (Some q) s)
           in (Some q, Some q, s)))"

text \<open>The common first half of \<open>Delete(first, obj)\<close> and \<open>Detach\<close>.\<close>

definition unlink :: "nat option \<Rightarrow> nat \<Rightarrow> obj_pool \<Rightarrow> (nat option \<times> obj_pool) option" where
  "unlink first obj s =
     (if Some obj = first
      then Some (o_next s obj,
             case o_next s obj of Some n \<Rightarrow> set_prev n (o_prev s obj) s | None \<Rightarrow> s)
      else
        (case o_prev s obj of
           None \<Rightarrow> None
         | Some p \<Rightarrow>
             (let n = o_next s obj; s = set_next p n s in
              case n of
                Some n \<Rightarrow> Some (first, set_prev n (Some p) s)
              | None \<Rightarrow> (case first of None \<Rightarrow> None | Some f \<Rightarrow> Some (first, set_prev f (Some p) s)))))"

definition pool_Delete_list :: "nat option \<Rightarrow> nat \<Rightarrow> obj_pool \<Rightarrow> (nat option \<times> obj_pool) option" where
  "pool_Delete_list first obj s =
     (case unlink first obj s of None \<Rightarrow> None | Some (first, s) \<Rightarrow> Some (first, pool_Delete obj s))"

definition pool_Detach :: "nat option \<Rightarrow> nat \<Rightarrow> obj_pool \<Rightarrow> (nat option \<times> obj_pool) option" where
  "pool_Detach first obj s =
     (case unlink first obj s of
        None \<Rightarrow> None
      | Some (first, s) \<Rightarrow> Some (first, set_next obj None (set_prev obj None s)))"

definition pool_AddToFreeList :: "nat option \<Rightarrow> obj_pool \<Rightarrow> obj_pool option" where
  "pool_AddToFreeList obj s =
     (case obj of
        None \<Rightarrow> None
      | Some f \<Rightarrow>
          (case o_prev s f of
             None \<Rightarrow> None
           | Some lst \<Rightarrow> Some ((set_next lst (obj_freelist s) s)\<lparr>obj_freelist := Some f\<rparr>)))"

text \<open>The loop of \<open>DeleteAll\<close>: it follows \<open>next\<close>, and does not return on a cycle.\<close>

partial_function (option) release_list :: "nat option \<Rightarrow> obj_pool \<Rightarrow> obj_pool option" where
  "release_list q s =
     (case q of
        None \<Rightarrow> Some s
      | Some p \<Rightarrow> release_list (o_next s p) (s\<lparr>o_released := p # o_released s\<rparr>))"

definition pool_DeleteAll :: "nat option \<Rightarrow> obj_pool \<Rightarrow> (nat option \<times> obj_pool) option" where
  "pool_DeleteAll first s =
     (case release_list first s of
        None \<Rightarrow> None
      | Some s \<Rightarrow> map_option (\<lambda>s. (None, s)) (pool_AddToFreeList first s))"

section \<open>Chains of pointers\<close>

definition first_of :: "nat list \<Rightarrow> nat option \<Rightarrow> nat option" where
  "first_of xs e = (case xs of [] \<Rightarrow> e | x # _ \<Rightarrow> Some x)"

lemma first_of_simps [simp]: "first_of [] e = e" "first_of (x # xs) e = Some x"
  by (simp_all add: first_of_def)

lemma first_of_append: "first_of (xs @ ys) e = first_of xs (first_of ys e)"
  by (cases xs) simp_all

lemma first_of_ne: "xs \<noteq> [] \<Longrightarrow> first_of xs e = Some (hd xs)"
  by (cases xs) simp_all

lemma first_of_rev: "xs \<noteq> [] \<Longrightarrow> first_of (rev xs) e = Some (last xs)"
  by (simp add: first_of_ne hd_rev)

text \<open>\<open>chain nx xs e\<close>: following the pointers \<open>nx\<close> visits \<open>xs\<close> and then \<open>e\<close>.\<close>

fun chain :: "(nat \<Rightarrow> nat option) \<Rightarrow> nat list \<Rightarrow> nat option \<Rightarrow> bool" where
  "chain nx [] e = True"
| "chain nx (x # xs) e = (nx x = first_of xs e \<and> chain nx xs e)"

lemma chain_append: "chain nx (xs @ ys) e \<longleftrightarrow> chain nx xs (first_of ys e) \<and> chain nx ys e"
  by (induction xs) (auto simp: first_of_append)

lemma chain_upd [simp]: "x \<notin> set xs \<Longrightarrow> chain (nx(x := v)) xs e = chain nx xs e"
  by (induction xs) auto

lemma chain_cong: "\<forall>x \<in> set xs. nx x = nx' x \<Longrightarrow> chain nx xs e = chain nx' xs e"
  by (induction xs) auto

lemma chain_upd2: "q \<notin> set xs \<Longrightarrow> chain (nx(q := v, y := w)) xs e = chain (nx(y := w)) xs e"
  by (rule chain_cong) auto

lemma chain_redirect:
  "chain nx xs e \<Longrightarrow> distinct xs \<Longrightarrow> xs \<noteq> [] \<Longrightarrow> chain (nx(last xs := e')) xs e'"
  by (cases xs rule: rev_cases) (auto simp: chain_append)

text \<open>The \<open>prev\<close> pointer of the first object is the last object.\<close>

lemma chain_rev_first:
  "chain pv (rev xs) (first_of (rev xs) None) \<Longrightarrow> xs \<noteq> [] \<Longrightarrow> pv (hd xs) = Some (last xs)"
  by (cases xs) (auto simp: chain_append first_of_append first_of_rev)

text \<open>The list that starts at \<open>first\<close>, and the free list.\<close>

definition is_list :: "obj_pool \<Rightarrow> nat option \<Rightarrow> nat list \<Rightarrow> bool" where
  "is_list s first xs \<longleftrightarrow> distinct xs \<and> first = first_of xs None \<and> chain (o_next s) xs None \<and>
     chain (o_prev s) (rev xs) (first_of (rev xs) None)"

definition is_free :: "obj_pool \<Rightarrow> nat list \<Rightarrow> bool" where
  "is_free s ys \<longleftrightarrow> distinct ys \<and> obj_freelist s = first_of ys None \<and> chain (o_next s) ys None"

text \<open>A pool with one list: both are chains, share no object, and consist of created objects.\<close>

definition pool_rep :: "obj_pool \<Rightarrow> nat option \<Rightarrow> nat list \<Rightarrow> nat list \<Rightarrow> bool" where
  "pool_rep s first xs ys \<longleftrightarrow> is_list s first xs \<and> is_free s ys \<and> set xs \<inter> set ys = {} \<and>
     (\<forall>x \<in> set xs \<union> set ys. x < o_count s)"

lemma set_link_simps [simp]:
  "o_next (set_next p v s) = (o_next s)(p := v)" "o_prev (set_next p v s) = o_prev s"
  "o_next (set_prev p v s) = o_next s" "o_prev (set_prev p v s) = (o_prev s)(p := v)"
  "obj_freelist (set_next p v s) = obj_freelist s" "obj_freelist (set_prev p v s) = obj_freelist s"
  "o_count (set_next p v s) = o_count s" "o_count (set_prev p v s) = o_count s"
  "o_released (set_next p v s) = o_released s" "o_released (set_prev p v s) = o_released s"
  by (simp_all add: set_next_def set_prev_def)

text \<open>What \<open>take_obj\<close> returns, on lists.\<close>

definition abs_take :: "bool \<Rightarrow> nat \<Rightarrow> nat list \<Rightarrow> (nat \<times> nat \<times> nat list) option" where
  "abs_take oom n ys =
     (case ys of y # ys' \<Rightarrow> Some (y, n, ys') | [] \<Rightarrow> if oom then None else Some (n, Suc n, []))"

lemma take_obj_None:
  "pool_rep s first xs ys \<Longrightarrow> abs_take oom (o_count s) ys = None \<Longrightarrow> take_obj oom s = (None, s)"
  by (auto simp: take_obj_def abs_take_def pool_rep_def is_free_def split: list.splits if_splits)

lemma take_obj_Some:
  assumes "pool_rep s first xs ys" "abs_take oom (o_count s) ys = Some (q, n, ys')"
  shows "\<exists>s'. take_obj oom s = (Some q, s') \<and> o_next s' = o_next s \<and> o_prev s' = o_prev s \<and>
     o_released s' = o_released s \<and> o_count s' = n \<and> q < n \<and> q \<notin> set xs \<and>
     q \<notin> set ys' \<and> pool_rep s' first xs ys'"
  using assms
  by (auto simp: take_obj_def abs_take_def pool_rep_def is_free_def is_list_def split: list.splits if_splits)

section \<open>The operations on lists\<close>

lemma pool_rep_cong:
  assumes "pool_rep s first xs ys" "\<forall>x \<in> set xs \<union> set ys. o_next s' x = o_next s x"
    "\<forall>x \<in> set xs. o_prev s' x = o_prev s x" "obj_freelist s' = obj_freelist s" "o_count s \<le> o_count s'"
  shows "pool_rep s' first xs ys"
proof -
  have "chain (o_next s') xs None = chain (o_next s) xs None"
    "chain (o_next s') ys None = chain (o_next s) ys None"
    "chain (o_prev s') (rev xs) e = chain (o_prev s) (rev xs) e" for e
    using assms(2,3) by (auto intro!: chain_cong)
  with assms(1,4,5) show ?thesis by (simp add: pool_rep_def is_list_def is_free_def) (meson less_le_trans)
qed

lemma pool_New_rep:
  assumes "pool_rep s first xs ys" "abs_take oom (o_count s) ys = Some (q, n, ys')"
  shows "\<exists>s'. pool_New oom s = (Some q, s') \<and> pool_rep s' first xs ys' \<and> q \<notin> set xs \<and> q \<notin> set ys' \<and>
     is_list s' (Some q) [q] \<and> o_count s' = n \<and> o_released s' = o_released s"
proof -
  from take_obj_Some [OF assms] obtain s1 where s1: "take_obj oom s = (Some q, s1)"
    "o_released s1 = o_released s" "o_count s1 = n" "q \<notin> set xs" "q \<notin> set ys'" "pool_rep s1 first xs ys'"
    by blast
  then have "pool_rep (set_prev q (Some q) (set_next q None s1)) first xs ys'"
    by (intro pool_rep_cong [OF s1(6)]) auto
  with s1 show ?thesis by (simp add: pool_New_def is_list_def)
qed

lemma pool_New_list_rep:
  assumes "pool_rep s first xs ys" "abs_take oom (o_count s) ys = Some (q, n, ys')"
  shows "\<exists>s'. pool_New_list oom first s = Some (Some q, first_of (xs @ [q]) None, s') \<and>
     pool_rep s' (first_of (xs @ [q]) None) (xs @ [q]) ys' \<and> o_count s' = n \<and> o_released s' = o_released s"
proof -
  from take_obj_Some [OF assms] obtain s1 where s1: "take_obj oom s = (Some q, s1)"
    "o_released s1 = o_released s" "o_count s1 = n" "q < n" "q \<notin> set xs" "q \<notin> set ys'" "pool_rep s1 first xs ys'"
    by blast
  from s1(7) have l: "distinct xs" "chain (o_next s1) xs None" "first = first_of xs None"
    "chain (o_prev s1) (rev xs) (first_of (rev xs) None)"
    and fr: "distinct ys'" "obj_freelist s1 = first_of ys' None" "chain (o_next s1) ys' None"
    and disj: "set xs \<inter> set ys' = {}" "\<forall>x \<in> set xs \<union> set ys'. x < o_count s1"
    by (simp_all add: pool_rep_def is_list_def is_free_def)
  show ?thesis
  proof (cases "xs = []")
    case True
    with s1 l fr disj show ?thesis
      by (auto simp: pool_New_list_def pool_rep_def is_list_def is_free_def)
  next
    case False
    let ?f = "hd xs" and ?l = "last xs"
    have hl: "?f \<in> set xs" "?l \<in> set xs" using False by simp_all
    have pf: "o_prev s1 ?f = Some ?l" using l(4) False by (rule chain_rev_first)
    let ?s = "set_prev ?f (Some q) (set_prev q (Some ?l) (set_next ?l (Some q) (set_next q None s1)))"
    have "pool_New_list oom first s = Some (Some q, first_of (xs @ [q]) None, ?s)"
      using s1 False pf l(3) by (simp add: pool_New_list_def first_of_ne)
    moreover have "chain (o_next ?s) (xs @ [q]) None"
      using chain_redirect [OF l(2,1) False, of "Some q"] s1(5) hl by (auto simp: chain_append chain_upd2)
    moreover have "chain (o_prev ?s) (q # rev xs) (Some q)"
      using chain_redirect [OF l(4), of "Some q"] l(1) s1(5) hl False
      by (auto simp: first_of_rev last_rev chain_upd2)
    moreover have "?l \<notin> set ys'" using hl disj(1) by auto
    then have "chain (o_next ?s) ys' None" using fr(3) s1(6) by (simp add: chain_upd2)
    ultimately show ?thesis
      using l(1) s1 fr(1,2) disj by (auto simp: pool_rep_def is_list_def is_free_def)
  qed
qed

lemma pool_NewFront_rep:
  assumes "pool_rep s first xs ys" "abs_take oom (o_count s) ys = Some (q, n, ys')"
  shows "\<exists>s'. pool_NewFront oom first s = (Some q, Some q, s') \<and>
     pool_rep s' (Some q) (q # xs) ys' \<and> o_count s' = n \<and> o_released s' = o_released s"
proof -
  from take_obj_Some [OF assms] obtain s1 where s1: "take_obj oom s = (Some q, s1)"
    "o_released s1 = o_released s" "o_count s1 = n" "q < n" "q \<notin> set xs" "q \<notin> set ys'" "pool_rep s1 first xs ys'"
    by blast
  from s1(7) have l: "distinct xs" "chain (o_next s1) xs None" "first = first_of xs None"
    "chain (o_prev s1) (rev xs) (first_of (rev xs) None)"
    and fr: "distinct ys'" "obj_freelist s1 = first_of ys' None" "chain (o_next s1) ys' None"
    and disj: "set xs \<inter> set ys' = {}" "\<forall>x \<in> set xs \<union> set ys'. x < o_count s1"
    by (simp_all add: pool_rep_def is_list_def is_free_def)
  show ?thesis
  proof (cases "xs = []")
    case True
    with s1 l fr disj show ?thesis
      by (auto simp: pool_NewFront_def pool_rep_def is_list_def is_free_def)
  next
    case False
    let ?f = "hd xs"
    have hl: "?f \<in> set xs" using False by simp
    have pf: "o_prev s1 ?f = Some (last xs)" using l(4) False by (rule chain_rev_first)
    let ?s = "set_prev ?f (Some q) (set_prev q (Some (last xs)) (set_next q (Some ?f) s1))"
    have "pool_NewFront oom first s = (Some q, Some q, ?s)"
      using s1 False pf l(3) by (simp add: pool_NewFront_def first_of_ne)
    moreover have "chain (o_next ?s) (q # xs) None" using l(2) s1(5) False by (auto simp: first_of_ne)
    moreover have "chain (o_prev ?s) (rev xs @ [q]) (Some (last xs))"
      using chain_redirect [OF l(4), of "Some q"] l(1) s1(5) hl False
      by (auto simp: chain_append last_rev chain_upd2)
    moreover have "chain (o_next ?s) ys' None" using fr(3) s1(6) by auto
    ultimately show ?thesis
      using l(1) s1 fr(1,2) disj False
      by (auto simp: pool_rep_def is_list_def is_free_def first_of_append first_of_rev)
  qed
qed

lemma unlink_rep:
  assumes rep: "pool_rep s first xs ys" and xs: "xs = as @ obj # bs"
  shows "\<exists>s'. unlink first obj s = Some (first_of (as @ bs) None, s') \<and>
     pool_rep s' (first_of (as @ bs) None) (as @ bs) ys \<and> o_count s' = o_count s \<and>
     o_released s' = o_released s \<and> obj_freelist s' = obj_freelist s"
proof -
  from rep xs have l: "distinct (as @ obj # bs)" "first = first_of (as @ obj # bs) None"
    "chain (o_next s) as (Some obj)" "o_next s obj = first_of bs None" "chain (o_next s) bs None"
    and p: "chain (o_prev s) (rev bs) (Some obj)" "o_prev s obj = first_of (rev as) (first_of (rev xs) None)"
    "chain (o_prev s) (rev as) (first_of (rev xs) None)"
    and fr: "is_free s ys" "set xs \<inter> set ys = {}" "\<forall>x \<in> set xs \<union> set ys. x < o_count s"
    by (simp_all add: pool_rep_def is_list_def chain_append)
  have free: "is_free s' ys" if "obj_freelist s' = obj_freelist s" "\<forall>x \<in> set ys. o_next s' x = o_next s x" for s'
    using fr(1) that chain_cong [of ys "o_next s'" "o_next s" None] by (simp add: is_free_def)
  show ?thesis
  proof (cases as)
    case Nil
    show ?thesis
    proof (cases "bs = []")
      case True
      with Nil l fr show ?thesis by (auto simp: unlink_def pool_rep_def is_list_def)
    next
      case False
      let ?s = "set_prev (hd bs) (Some (last bs)) s"
      have e: "first_of (rev xs) None = Some (last bs)" using False xs Nil by (simp add: first_of_append first_of_rev)
      have "chain (o_prev ?s) (rev bs) (Some (last bs))"
        using chain_redirect [OF p(1), of "Some (last bs)"] l(1) False by (simp add: last_rev)
      moreover have "unlink first obj s = Some (first_of (as @ bs) None, ?s)"
        using Nil l p False e by (simp add: unlink_def first_of_ne)
      ultimately show ?thesis
        using Nil l fr False xs free [of ?s] by (auto simp: pool_rep_def is_list_def first_of_rev)
    qed
  next
    case (Cons a as')
    let ?p = "last as"
    have ne: "as \<noteq> []" "Some obj \<noteq> first" "first = Some (hd as)" using Cons l(1,2) by auto
    have po: "o_prev s obj = Some ?p" using p(2) ne by (simp add: first_of_rev)
    let ?s1 = "set_next ?p (first_of bs None) s"
    have in_as: "?p \<in> set as" "hd as \<in> set as" using ne by simp_all
    have "?p \<notin> set bs" using in_as l(1) by auto
    then have next1: "chain (o_next ?s1) (as @ bs) None"
      using chain_redirect [OF l(3), of "first_of bs None"] l(1,5) ne by (simp add: chain_append)
    have "?p \<notin> set ys" using in_as fr(2) xs by auto
    then have free1: "is_free (set_prev n v ?s1) ys" for n v by (intro free) auto
    show ?thesis
    proof (cases "bs = []")
      case True
      let ?s = "set_prev (hd as) (Some ?p) ?s1"
      have "chain (o_prev ?s) (rev as) (Some ?p)"
        using chain_redirect [OF p(3), of "Some ?p"] l(1) ne by (simp add: last_rev)
      moreover have "unlink first obj s = Some (first_of (as @ bs) None, ?s)"
        using True l(4) po ne by (simp add: unlink_def first_of_ne)
      ultimately show ?thesis
        using True next1 l(1) fr ne in_as xs free1 [of "hd as" "Some ?p"]
        by (auto simp: pool_rep_def is_list_def first_of_rev)
    next
      case False
      let ?s = "set_prev (hd bs) (Some ?p) ?s1"
      have e: "first_of (rev xs) None = Some (last bs)" using False xs by (simp add: first_of_append first_of_rev)
      have in_bs: "hd bs \<in> set bs" using False by simp
      have "hd bs \<notin> set as" using in_bs l(1) by auto
      then have "chain (o_prev ?s) (rev (as @ bs)) (Some (last bs))"
        using chain_redirect [OF p(1), of "Some ?p"] p(3) l(1) ne False e
        by (simp add: last_rev chain_append first_of_rev)
      moreover have "unlink first obj s = Some (first_of (as @ bs) None, ?s)"
        using False l(4) po ne by (simp add: unlink_def first_of_ne first_of_append)
      ultimately show ?thesis
        using False next1 l(1) fr ne in_as in_bs xs free1 [of "hd bs" "Some ?p"]
        by (auto simp: pool_rep_def is_list_def first_of_rev first_of_append)
    qed
  qed
qed

lemma pool_Delete_rep:
  assumes "pool_rep s first xs ys" "obj \<notin> set xs" "obj \<notin> set ys" "obj < o_count s"
  shows "pool_rep (pool_Delete obj s) first xs (obj # ys)"
  using assms by (auto simp: pool_Delete_def pool_rep_def is_list_def is_free_def)

lemma release_list_eq:
  "chain (o_next s) xs None \<Longrightarrow>
   release_list (first_of xs None) s = Some (s\<lparr>o_released := rev xs @ o_released s\<rparr>)"
proof (induction xs arbitrary: s)
  case Nil
  then show ?case by (simp add: release_list.simps)
next
  case (Cons x xs)
  then show ?case by (subst release_list.simps) simp
qed

lemma pool_DeleteAll_rep:
  assumes rep: "pool_rep s first xs ys" and ne: "xs \<noteq> []"
  shows "\<exists>s'. pool_DeleteAll first s = Some (None, s') \<and> pool_rep s' None [] (xs @ ys) \<and>
     o_count s' = o_count s \<and> o_released s' = rev xs @ o_released s"
proof -
  from rep have l: "distinct xs" "first = first_of xs None" "chain (o_next s) xs None"
    "chain (o_prev s) (rev xs) (first_of (rev xs) None)"
    and fr: "distinct ys" "obj_freelist s = first_of ys None" "chain (o_next s) ys None"
    and disj: "set xs \<inter> set ys = {}" "\<forall>x \<in> set xs \<union> set ys. x < o_count s"
    by (simp_all add: pool_rep_def is_list_def is_free_def)
  have pf: "o_prev s (hd xs) = Some (last xs)" using l(4) ne by (rule chain_rev_first)
  have "last xs \<notin> set ys" using disj(1) ne last_in_set by blast
  then have "chain ((o_next s)(last xs := first_of ys None)) (xs @ ys) None"
    using chain_redirect [OF l(3,1) ne, of "first_of ys None"] fr(3) by (simp add: chain_append)
  then show ?thesis
    using ne pf l fr disj release_list_eq [OF l(3)]
    by (auto simp: pool_DeleteAll_def pool_AddToFreeList_def pool_rep_def is_list_def is_free_def
        first_of_ne first_of_append)
qed

section \<open>The pool as an abstract data type\<close>

text \<open>
  The list-level view of a pool with one list and some standalone (created by \<open>New()\<close> or detached)
  objects.  An operation with a violated precondition, such as deleting an object that is not in
  the list, is \<open>None\<close>.
\<close>

record pool_view =
  a_list :: "nat list"
  a_loose :: "nat list"
  a_free :: "nat list"
  a_count :: nat
  a_released :: "nat list"

datatype pool_op =
  OpNew bool | OpDelete nat | OpNewList bool | OpNewFront bool | OpDeleteList nat | OpDetach nat | OpDeleteAll

definition view_new :: "bool \<Rightarrow> (nat \<Rightarrow> pool_view \<Rightarrow> pool_view) \<Rightarrow> pool_view \<Rightarrow> pool_view" where
  "view_new oom ins a =
     (case abs_take oom (a_count a) (a_free a) of
        None \<Rightarrow> a
      | Some (q, n, ys) \<Rightarrow> ins q (a\<lparr>a_count := n, a_free := ys\<rparr>))"

fun view_step :: "pool_op \<Rightarrow> pool_view \<Rightarrow> pool_view option" where
  "view_step (OpNew oom) a = Some (view_new oom (\<lambda>q. a_loose_update (Cons q)) a)"
| "view_step (OpDelete q) a =
     (if q \<in> set (a_loose a)
      then Some (a\<lparr>a_loose := remove1 q (a_loose a), a_free := q # a_free a, a_released := q # a_released a\<rparr>)
      else None)"
| "view_step (OpNewList oom) a = Some (view_new oom (\<lambda>q. a_list_update (\<lambda>xs. xs @ [q])) a)"
| "view_step (OpNewFront oom) a = Some (view_new oom (\<lambda>q. a_list_update (Cons q)) a)"
| "view_step (OpDeleteList q) a =
     (if q \<in> set (a_list a)
      then Some (a\<lparr>a_list := remove1 q (a_list a), a_free := q # a_free a, a_released := q # a_released a\<rparr>)
      else None)"
| "view_step (OpDetach q) a =
     (if q \<in> set (a_list a)
      then Some (a\<lparr>a_list := remove1 q (a_list a), a_loose := q # a_loose a\<rparr>) else None)"
| "view_step OpDeleteAll a =
     (if a_list a = [] then None
      else Some (a\<lparr>a_list := [], a_free := a_list a @ a_free a, a_released := rev (a_list a) @ a_released a\<rparr>))"

text \<open>The same operations on the pointer structure and the variable \<open>first\<close> of the list.\<close>

fun pool_step :: "pool_op \<Rightarrow> nat option \<times> obj_pool \<Rightarrow> (nat option \<times> obj_pool) option" where
  "pool_step (OpNew oom) (first, s) = Some (first, snd (pool_New oom s))"
| "pool_step (OpDelete q) (first, s) = Some (first, pool_Delete q s)"
| "pool_step (OpNewList oom) (first, s) = map_option snd (pool_New_list oom first s)"
| "pool_step (OpNewFront oom) (first, s) = Some (snd (pool_NewFront oom first s))"
| "pool_step (OpDeleteList q) (first, s) = pool_Delete_list first q s"
| "pool_step (OpDetach q) (first, s) = pool_Detach first q s"
| "pool_step OpDeleteAll (first, s) = pool_DeleteAll first s"

fun run_ops :: "('op \<Rightarrow> 's \<Rightarrow> 's option) \<Rightarrow> 'op list \<Rightarrow> 's \<Rightarrow> 's option" where
  "run_ops step [] s = Some s"
| "run_ops step (x # xs) s = (case step x s of None \<Rightarrow> None | Some s \<Rightarrow> run_ops step xs s)"

definition view_ok :: "pool_view \<Rightarrow> bool" where
  "view_ok a \<longleftrightarrow> distinct (a_list a @ a_loose a @ a_free a) \<and>
     set (a_list a @ a_loose a @ a_free a) = {..<a_count a}"

text \<open>Every created object is in exactly one of the three places.\<close>

lemma view_ok_perm:
  assumes "view_ok a" "a_count a' = a_count a"
    and "mset (a_list a') + mset (a_loose a') + mset (a_free a') =
      mset (a_list a) + mset (a_loose a) + mset (a_free a)"
  shows "view_ok a'"
proof -
  have m: "mset (a_list a' @ a_loose a' @ a_free a') = mset (a_list a @ a_loose a @ a_free a)"
    using assms(3) by (simp add: add.assoc)
  from assms(1,2) show ?thesis
    unfolding view_ok_def mset_eq_setD [OF m] mset_eq_imp_distinct_iff [OF m] by simp
qed

lemma view_ok_new:
  assumes ok: "view_ok a" and ins: "\<And>q a. a_count (ins q a) = a_count a \<and>
    mset (a_list (ins q a)) + mset (a_loose (ins q a)) + mset (a_free (ins q a)) =
      add_mset q (mset (a_list a) + mset (a_loose a) + mset (a_free a))"
  shows "view_ok (view_new oom ins a)"
proof (cases "a_free a")
  case (Cons y ys)
  then have "view_new oom ins a = ins y (a\<lparr>a_free := ys\<rparr>)" by (simp add: view_new_def abs_take_def)
  with ins [of y "a\<lparr>a_free := ys\<rparr>"] Cons show ?thesis by (intro view_ok_perm [OF ok]) simp_all
next
  case Nil
  have "view_ok (a\<lparr>a_count := Suc (a_count a), a_loose := a_count a # a_loose a\<rparr>)"
    using ok by (auto simp: view_ok_def lessThan_Suc)
  moreover have "view_new False ins a = ins (a_count a) (a\<lparr>a_count := Suc (a_count a), a_free := []\<rparr>)"
    using Nil by (simp add: view_new_def abs_take_def)
  ultimately have "view_ok (view_new False ins a)"
    using ins [of "a_count a" "a\<lparr>a_count := Suc (a_count a), a_free := []\<rparr>"] Nil
    by (auto elim!: view_ok_perm)
  then show ?thesis using ok Nil by (cases oom) (simp_all add: view_new_def abs_take_def)
qed

lemma view_step_ok: "view_ok a \<Longrightarrow> view_step x a = Some a' \<Longrightarrow> view_ok a'"
proof (cases "\<exists>oom. x = OpNew oom \<or> x = OpNewList oom \<or> x = OpNewFront oom")
  case True
  assume "view_ok a" "view_step x a = Some a'"
  with True show ?thesis by (auto intro!: view_ok_new)
next
  case False
  assume "view_ok a" "view_step x a = Some a'"
  with False show ?thesis
    by (cases x) (auto elim!: view_ok_perm split: if_splits)
qed

text \<open>What an implementation of the pool has to show: each step keeps it in line with the view.\<close>

locale object_pool =
  fixes rep :: "'s \<Rightarrow> pool_view \<Rightarrow> bool" and step :: "pool_op \<Rightarrow> 's \<Rightarrow> 's option"
  assumes step_sim: "rep s a \<Longrightarrow> view_ok a \<Longrightarrow> view_step x a = Some a' \<Longrightarrow>
     \<exists>s'. step x s = Some s' \<and> rep s' a'"
begin

lemma run_sim:
  "rep s a \<Longrightarrow> view_ok a \<Longrightarrow> run_ops view_step xs a = Some a' \<Longrightarrow>
   \<exists>s'. run_ops step xs s = Some s' \<and> rep s' a' \<and> view_ok a'"
proof (induction xs arbitrary: s a)
  case Nil
  then show ?case by simp
next
  case (Cons x xs)
  then obtain a1 where a1: "view_step x a = Some a1" "run_ops view_step xs a1 = Some a'"
    by (auto split: option.splits)
  from step_sim [OF Cons.prems(1,2) a1(1)] obtain s1 where "step x s = Some s1" "rep s1 a1" by blast
  with Cons.IH [OF this(2) view_step_ok [OF Cons.prems(2) a1(1)] a1(2)] show ?case by auto
qed

end

definition view_rep :: "nat option \<times> obj_pool \<Rightarrow> pool_view \<Rightarrow> bool" where
  "view_rep c a \<longleftrightarrow> pool_rep (snd c) (fst c) (a_list a) (a_free a) \<and> o_count (snd c) = a_count a \<and>
     o_released (snd c) = a_released a"

lemma abs_take_view_new:
  "abs_take oom (a_count a) (a_free a) = None \<Longrightarrow> view_new oom ins a = a"
  "abs_take oom (a_count a) (a_free a) = Some (q, n, ys) \<Longrightarrow>
     view_new oom ins a = ins q (a\<lparr>a_count := n, a_free := ys\<rparr>)"
  by (simp_all add: view_new_def)

lemma pool_step_sim:
  assumes rep: "view_rep c a" and ok: "view_ok a" and step: "view_step x a = Some a'"
  shows "\<exists>c'. pool_step x c = Some c' \<and> view_rep c' a'"
proof -
  obtain first s where c: "c = (first, s)" by (cases c)
  from rep c have r: "pool_rep s first (a_list a) (a_free a)" and n: "o_count s = a_count a"
    and rel: "o_released s = a_released a"
    by (simp_all add: view_rep_def)
  have lt: "q < o_count s" if "q \<in> set (a_list a @ a_loose a @ a_free a)" for q
    using that ok n by (auto simp: view_ok_def)
  show ?thesis
  proof (cases x)
    case (OpNew oom)
    show ?thesis
    proof (cases "abs_take oom (a_count a) (a_free a)")
      case None
      with step OpNew take_obj_None [OF r] n rep c show ?thesis
        by (simp add: pool_New_def abs_take_view_new)
    next
      case (Some z)
      then show ?thesis
        using step OpNew pool_New_rep [OF r, of oom] n rel c
        by (cases z) (auto simp: view_rep_def abs_take_view_new)
    qed
  next
    case (OpNewList oom)
    show ?thesis
    proof (cases "abs_take oom (a_count a) (a_free a)")
      case None
      with step OpNewList take_obj_None [OF r] n rep c show ?thesis
        by (simp add: pool_New_list_def abs_take_view_new)
    next
      case (Some z)
      then show ?thesis
        using step OpNewList pool_New_list_rep [OF r, of oom] n rel c
        by (cases z) (auto simp: view_rep_def abs_take_view_new)
    qed
  next
    case (OpNewFront oom)
    show ?thesis
    proof (cases "abs_take oom (a_count a) (a_free a)")
      case None
      with step OpNewFront take_obj_None [OF r] n rep c show ?thesis
        by (simp add: pool_NewFront_def abs_take_view_new)
    next
      case (Some z)
      then show ?thesis
        using step OpNewFront pool_NewFront_rep [OF r, of oom] n rel c
        by (cases z) (auto simp: view_rep_def abs_take_view_new)
    qed
  next
    case (OpDelete q)
    with step have q: "q \<in> set (a_loose a)" by (auto split: if_splits)
    with ok have "q \<notin> set (a_list a)" "q \<notin> set (a_free a)" "q < o_count s"
      using lt by (auto simp: view_ok_def)
    from pool_Delete_rep [OF r this] step OpDelete q n rel c show ?thesis
      by (auto simp: view_rep_def pool_Delete_def)
  next
    case (OpDeleteList q)
    with step have q: "q \<in> set (a_list a)" by (auto split: if_splits)
    then obtain as bs where xs: "a_list a = as @ q # bs" "q \<notin> set as" by (meson split_list_first)
    from unlink_rep [OF r xs(1)] obtain s' where s': "unlink first q s = Some (first_of (as @ bs) None, s')"
      "pool_rep s' (first_of (as @ bs) None) (as @ bs) (a_free a)" "o_count s' = o_count s"
      "o_released s' = o_released s" by blast
    have "q \<notin> set (as @ bs)" "q \<notin> set (a_free a)" using ok xs by (auto simp: view_ok_def)
    from pool_Delete_rep [OF s'(2) this] lt q s'(3)
    have "pool_rep (pool_Delete q s') (first_of (as @ bs) None) (as @ bs) (q # a_free a)" by simp
    with s' step OpDeleteList q xs n rel c show ?thesis
      by (auto simp: view_rep_def pool_Delete_list_def pool_Delete_def remove1_append)
  next
    case (OpDetach q)
    with step have q: "q \<in> set (a_list a)" by (auto split: if_splits)
    then obtain as bs where xs: "a_list a = as @ q # bs" "q \<notin> set as" by (meson split_list_first)
    from unlink_rep [OF r xs(1)] obtain s' where s': "unlink first q s = Some (first_of (as @ bs) None, s')"
      "pool_rep s' (first_of (as @ bs) None) (as @ bs) (a_free a)" "o_count s' = o_count s"
      "o_released s' = o_released s" by blast
    have "q \<notin> set (as @ bs)" "q \<notin> set (a_free a)" using ok xs by (auto simp: view_ok_def)
    then have "pool_rep (set_next q None (set_prev q None s')) (first_of (as @ bs) None) (as @ bs) (a_free a)"
      by (intro pool_rep_cong [OF s'(2)]) auto
    with s' step OpDetach q xs n rel c show ?thesis
      by (auto simp: view_rep_def pool_Detach_def remove1_append)
  next
    case OpDeleteAll
    with step have ne: "a_list a \<noteq> []" by (auto split: if_splits)
    from pool_DeleteAll_rep [OF r ne] step OpDeleteAll ne n rel c show ?thesis
      by (auto simp: view_rep_def)
  qed
qed

interpretation objs: object_pool view_rep pool_step
  by unfold_locales (rule pool_step_sim)

definition empty_pool :: "nat option \<times> obj_pool" where
  "empty_pool = (None, \<lparr>o_next = (\<lambda>_. None), o_prev = (\<lambda>_. None), obj_freelist = None, o_count = 0, o_released = []\<rparr>)"

definition empty_view :: pool_view where
  "empty_view = \<lparr>a_list = [], a_loose = [], a_free = [], a_count = 0, a_released = []\<rparr>"

lemma empty_rep: "view_rep empty_pool empty_view" "view_ok empty_view"
  by (simp_all add: view_rep_def empty_pool_def empty_view_def pool_rep_def is_list_def is_free_def view_ok_def)

text \<open>
  C9. The object pool refines lists.  Starting from an empty pool, every sequence of \<open>New\<close>, \<open>Delete\<close>,
  \<open>NewFront\<close>, \<open>Detach\<close> and \<open>DeleteAll\<close> calls that deletes only objects which are there runs without
  dereferencing a null pointer, terminates, and leaves a pointer structure whose list, free list and
  released objects are those of the list-level operations; each object ever created is in exactly
  one of the list, the free list and the standalone objects.
\<close>

theorem obj_pool_refines_lists:
  assumes "run_ops view_step ops empty_view = Some a"
  shows "\<exists>first s. run_ops pool_step ops empty_pool = Some (first, s) \<and>
     is_list s first (a_list a) \<and> is_free s (a_free a) \<and> o_released s = a_released a \<and>
     distinct (a_list a @ a_loose a @ a_free a) \<and> set (a_list a @ a_loose a @ a_free a) = {..<o_count s}"
  using objs.run_sim [OF empty_rep assms] by (auto simp: view_rep_def view_ok_def pool_rep_def)

theorem obj_pool_refines_lists_witness:
  "\<exists>first s. run_ops pool_step
      [OpNewList False, OpNewList False, OpNewFront False, OpDeleteList 0, OpNew False, OpDeleteAll, OpNewList True]
      empty_pool = Some (first, s) \<and>
     is_list s first [2] \<and> is_free s [1] \<and> o_released s = [1, 2, 0]"
proof -
  have "run_ops view_step
      [OpNewList False, OpNewList False, OpNewFront False, OpDeleteList 0, OpNew False, OpDeleteAll, OpNewList True]
      empty_view = Some \<lparr>a_list = [2], a_loose = [0], a_free = [1], a_count = 3, a_released = [1, 2, 0]\<rparr>"
    by (simp add: empty_view_def view_new_def abs_take_def)
  from obj_pool_refines_lists [OF this] show ?thesis by (simp only: pool_view.simps) blast
qed

end
