(* ===== verification/Obj_Pool_R.thy ===== *)
theory Obj_Pool_R
  imports Obj_Pool
begin

text \<open>
  The lock-free object pool of \<open>src/src/obj_pool_r.h\<close>: the pool of \<open>Obj_Pool\<close> with a free list that several
  threads change by compare-and-swap.  A call is a sequence of atomic steps, one control point per place of
  the code where another thread can interfere; each step makes at most one access to the free-list pointer
  or to a \<open>next\<close> pointer.  \<open>prev\<close> pointers are used by the owner of a list only and are read and written together
  with it.  Memory accesses are sequentially consistent.

  Shown here: a call that is not interfered with does what the sequential pool does; some thread always
  makes progress; with one thread that takes objects the pool never hands out an object twice and never
  dereferences a null pointer; with two such threads it can hand out an object that is in use.
\<close>

section \<open>Definitions\<close>

text \<open>The three constructors: \<open>New()\<close>, \<open>New(first)\<close> and \<open>NewFront(first)\<close>.\<close>

datatype new_kind = Alone | Tail "nat option" | Front "nat option"

text \<open>The calls of the public interface; the first argument of the list operations is the caller's \<open>first\<close>.\<close>

datatype rcall =
  Call_New new_kind
| Call_Delete nat
| Call_Delete_list "nat option" nat
| Call_Detach "nat option" nat
| Call_AddToFreeList "nat option"
| Call_DeleteAll "nat option"

datatype rret = Ret_obj "nat option" | Ret_int int

text \<open>
  Control points.  \<open>Done\<close> carries the value returned and the caller's \<open>first\<close> afterwards; the others are named after the
  statement that is executed next.
\<close>

datatype rpc =
  Done rret "nat option"
| New_read new_kind
| New_next new_kind nat
| New_cas new_kind nat "nat option"
| New_obj new_kind
| New_out new_kind nat
| New_link new_kind nat
| Del_unlink "nat option" nat
| Del_release "nat option" nat
| Del_read "nat option" nat
| Del_next "nat option" nat "nat option"
| Del_cas "nat option" nat "nat option"
| Det_unlink "nat option" nat
| Det_clear "nat option" nat
| All_release "nat option" "nat option"
| Free_read "nat option" "nat option"
| Free_next "nat option" "nat option" "nat option"
| Free_cas "nat option" "nat option" "nat option"

fun entry :: "rcall \<Rightarrow> rpc" where
  "entry (Call_New k) = New_read k"
| "entry (Call_Delete obj) = Del_release None obj"
| "entry (Call_Delete_list first obj) = Del_unlink first obj"
| "entry (Call_Detach first obj) = Det_unlink first obj"
| "entry (Call_AddToFreeList obj) = Free_read obj obj"
| "entry (Call_DeleteAll first) = All_release first first"

text \<open>\<open>CAS(&obj_freelist, oldv, newv)\<close>\<close>

definition CAS :: "nat option \<Rightarrow> nat option \<Rightarrow> obj_pool \<Rightarrow> bool \<times> obj_pool" where
  "CAS oldv newv m = (if obj_freelist m = oldv then (True, m\<lparr>obj_freelist := newv\<rparr>) else (False, m))"

text \<open>The caller's \<open>first\<close> when no object could be made.\<close>

fun kind_first :: "new_kind \<Rightarrow> nat option" where
  "kind_first Alone = None"
| "kind_first (Tail f) = f"
| "kind_first (Front f) = f"

text \<open>The code after the label \<open>out\<close>: first the write to \<open>o->next\<close>, then the rest.\<close>

definition new_out :: "new_kind \<Rightarrow> nat \<Rightarrow> obj_pool \<Rightarrow> obj_pool" where
  "new_out k q m = set_next q (case k of Front f \<Rightarrow> f | _ \<Rightarrow> None) m"

definition link_alone :: "nat \<Rightarrow> obj_pool \<Rightarrow> (rpc \<times> obj_pool) option" where
  "link_alone q m = Some (Done (Ret_obj (Some q)) None, set_prev q (Some q) m)"

definition link_tail :: "nat option \<Rightarrow> nat \<Rightarrow> obj_pool \<Rightarrow> (rpc \<times> obj_pool) option" where
  "link_tail first q m =
     (case first of
        Some f \<Rightarrow>
          (case o_prev m f of
             None \<Rightarrow> None
           | Some lst \<Rightarrow>
               Some (Done (Ret_obj (Some q)) first, set_prev f (Some q) (set_prev q (Some lst) (set_next lst (Some q) m))))
      | None \<Rightarrow> Some (Done (Ret_obj (Some q)) (Some q), set_prev q (Some q) m))"

definition link_front :: "nat option \<Rightarrow> nat \<Rightarrow> obj_pool \<Rightarrow> (rpc \<times> obj_pool) option" where
  "link_front first q m =
     Some (Done (Ret_obj (Some q)) (Some q),
           case first of
             Some f \<Rightarrow> set_prev f (Some q) (set_prev q (o_prev m f) m)
           | None \<Rightarrow> set_prev q (Some q) m)"

definition new_link :: "new_kind \<Rightarrow> nat \<Rightarrow> obj_pool \<Rightarrow> (rpc \<times> obj_pool) option" where
  "new_link k q m = (case k of Alone \<Rightarrow> link_alone q m | Tail f \<Rightarrow> link_tail f q m | Front f \<Rightarrow> link_front f q m)"

text \<open>
  The steps of each operation.  \<open>None\<close> is the dereference of a null pointer.  First the two halves of \<open>Delete(obj)\<close> and
  \<open>Delete(first, obj)\<close>.
\<close>

fun delete_step :: "rpc \<Rightarrow> obj_pool \<Rightarrow> (rpc \<times> obj_pool) option" where
  "delete_step (Del_release first obj) m = Some (Del_read first obj, m\<lparr>o_released := obj # o_released m\<rparr>)"
| "delete_step (Del_read first obj) m = Some (Del_next first obj (obj_freelist m), m)"
| "delete_step (Del_next first obj q) m = Some (Del_cas first obj q, set_next obj q m)"
| "delete_step (Del_cas first obj q) m =
     (let (ok, m) = CAS q (Some obj) m in Some (if ok then Done (Ret_int 0) first else Del_read first obj, m))"
| "delete_step _ m = None"

fun delete_list_step :: "rpc \<Rightarrow> obj_pool \<Rightarrow> (rpc \<times> obj_pool) option" where
  "delete_list_step (Del_unlink first obj) m = map_option (\<lambda>(first, m). (Del_release first obj, m)) (unlink first obj m)"
| "delete_list_step pc m = delete_step pc m"

fun detach_step :: "rpc \<Rightarrow> obj_pool \<Rightarrow> (rpc \<times> obj_pool) option" where
  "detach_step (Det_unlink first obj) m = map_option (\<lambda>(first, m). (Det_clear first obj, m)) (unlink first obj m)"
| "detach_step (Det_clear first obj) m = Some (Done (Ret_int 0) first, set_next obj None (set_prev obj None m))"
| "detach_step _ m = None"

fun add_step :: "rpc \<Rightarrow> obj_pool \<Rightarrow> (rpc \<times> obj_pool) option" where
  "add_step (Free_read f obj) m = Some (Free_next f obj (obj_freelist m), m)"
| "add_step (Free_next f obj q) m =
     (case obj of
        None \<Rightarrow> None
      | Some p \<Rightarrow> (case o_prev m p of None \<Rightarrow> None | Some lst \<Rightarrow> Some (Free_cas f obj q, set_next lst q m)))"
| "add_step (Free_cas f obj q) m =
     (let (ok, m) = CAS q obj m in Some (if ok then Done (Ret_int 0) f else Free_read f obj, m))"
| "add_step _ m = None"

fun delete_all_step :: "rpc \<Rightarrow> obj_pool \<Rightarrow> (rpc \<times> obj_pool) option" where
  "delete_all_step (All_release first q) m =
     Some (case q of
             None \<Rightarrow> (Free_read None first, m)
           | Some p \<Rightarrow> (All_release first (o_next m p), m\<lparr>o_released := p # o_released m\<rparr>))"
| "delete_all_step pc m = add_step pc m"

text \<open>
  The loop that takes an object, which the three constructors have in common, and one step of any call; \<open>oom\<close> tells
  whether \<open>new\<close> throws.  A call that is over makes no step.
\<close>

fun pc_step :: "bool \<Rightarrow> rpc \<Rightarrow> obj_pool \<Rightarrow> (rpc \<times> obj_pool) option" where
  "pc_step oom (Done r f) m = None"
| "pc_step oom (New_read k) m = Some (case obj_freelist m of None \<Rightarrow> New_obj k | Some q \<Rightarrow> New_next k q, m)"
| "pc_step oom (New_next k q) m = Some (New_cas k q (o_next m q), m)"
| "pc_step oom (New_cas k q n) m = (let (ok, m) = CAS (Some q) n m in Some (if ok then New_out k q else New_read k, m))"
| "pc_step oom (New_obj k) m =
     Some (if oom then (Done (Ret_obj None) (kind_first k), m) else (New_out k (o_count m), m\<lparr>o_count := Suc (o_count m)\<rparr>))"
| "pc_step oom (New_out k q) m = Some (New_link k q, new_out k q m)"
| "pc_step oom (New_link k q) m = new_link k q m"
| "pc_step oom (Det_unlink first obj) m = detach_step (Det_unlink first obj) m"
| "pc_step oom (Det_clear first obj) m = detach_step (Det_clear first obj) m"
| "pc_step oom (Del_unlink first obj) m = delete_list_step (Del_unlink first obj) m"
| "pc_step oom (Del_release first obj) m = delete_step (Del_release first obj) m"
| "pc_step oom (Del_read first obj) m = delete_step (Del_read first obj) m"
| "pc_step oom (Del_next first obj q) m = delete_step (Del_next first obj q) m"
| "pc_step oom (Del_cas first obj q) m = delete_step (Del_cas first obj q) m"
| "pc_step oom (All_release first q) m = delete_all_step (All_release first q) m"
| "pc_step oom (Free_read f obj) m = add_step (Free_read f obj) m"
| "pc_step oom (Free_next f obj q) m = add_step (Free_next f obj q) m"
| "pc_step oom (Free_cas f obj q) m = add_step (Free_cas f obj q) m"

subsection \<open>Threads\<close>

text \<open>
  The whole system: the shared pool, the control point of each thread, and two records of who owns which object, which
  the code does not have: \<open>s_live\<close> are the objects in the hands of callers, \<open>s_held t\<close> those the current call of
  thread \<open>t\<close> works on.
\<close>

record rsys =
  s_pool :: obj_pool
  s_pc :: "nat \<Rightarrow> rpc"
  s_live :: "nat list"
  s_held :: "nat \<Rightarrow> nat list"

definition sys0 :: rsys where
  "sys0 = \<lparr>s_pool = \<lparr>o_next = \<lambda>_. None, o_prev = \<lambda>_. None, obj_freelist = None, o_count = 0, o_released = []\<rparr>,
     s_pc = \<lambda>_. Done (Ret_int 0) None, s_live = [], s_held = \<lambda>_. []\<rparr>"

text \<open>
  What a caller has to respect: the list it passes is well formed and consists of the objects \<open>xs\<close>, which are its own.
\<close>

fun legal :: "rcall \<Rightarrow> nat list \<Rightarrow> obj_pool \<Rightarrow> bool" where
  "legal (Call_New Alone) xs m = (xs = [])"
| "legal (Call_New (Tail f)) xs m = is_list m f xs"
| "legal (Call_New (Front f)) xs m = is_list m f xs"
| "legal (Call_Delete obj) xs m = (xs = [obj])"
| "legal (Call_Delete_list f obj) xs m = (is_list m f xs \<and> obj \<in> set xs)"
| "legal (Call_Detach f obj) xs m = (is_list m f xs \<and> obj \<in> set xs)"
| "legal (Call_AddToFreeList f) xs m = (is_list m f xs \<and> xs \<noteq> [])"
| "legal (Call_DeleteAll f) xs m = (is_list m f xs \<and> xs \<noteq> [])"

definition is_done :: "rpc \<Rightarrow> bool" where
  "is_done pc = (case pc of Done _ _ \<Rightarrow> True | _ \<Rightarrow> False)"

text \<open>The objects of the call after a step: an object taken joins them, objects put into the free list leave them.\<close>

definition held_step :: "rpc \<Rightarrow> obj_pool \<Rightarrow> rpc \<Rightarrow> nat list \<Rightarrow> nat list" where
  "held_step pc m pc' hs =
     (case pc of
        New_cas k q n \<Rightarrow> if obj_freelist m = Some q then q # hs else hs
      | New_obj k \<Rightarrow> if is_done pc' then hs else o_count m # hs
      | Del_cas f obj q \<Rightarrow> if obj_freelist m = q then remove1 obj hs else hs
      | Free_cas f obj q \<Rightarrow> if obj_freelist m = q then [] else hs
      | _ \<Rightarrow> hs)"

text \<open>Thread \<open>t\<close> starts a call on the objects \<open>xs\<close>, or makes a step of its call.\<close>

datatype event = Start nat rcall "nat list" | Exec nat bool

fun do_event :: "event \<Rightarrow> rsys \<Rightarrow> rsys option" where
  "do_event (Start t c xs) s =
     (if is_done (s_pc s t) \<and> legal c xs (s_pool s) \<and> set xs \<subseteq> set (s_live s)
      then Some (s\<lparr>s_pc := (s_pc s)(t := entry c), s_live := filter (\<lambda>x. x \<notin> set xs) (s_live s), s_held := (s_held s)(t := xs)\<rparr>)
      else None)"
| "do_event (Exec t oom) s =
     (case pc_step oom (s_pc s t) (s_pool s) of
        None \<Rightarrow> None
      | Some (pc', m') \<Rightarrow>
          (let hs = held_step (s_pc s t) (s_pool s) pc' (s_held s t);
               s = s\<lparr>s_pool := m', s_pc := (s_pc s)(t := pc')\<rparr>
           in Some (if is_done pc' then s\<lparr>s_live := hs @ s_live s, s_held := (s_held s)(t := [])\<rparr>
                    else s\<lparr>s_held := (s_held s)(t := hs)\<rparr>)))"

fun run_events :: "event list \<Rightarrow> rsys \<Rightarrow> rsys option" where
  "run_events [] s = Some s"
| "run_events (e # es) s = (case do_event e s of None \<Rightarrow> None | Some s \<Rightarrow> run_events es s)"

text \<open>The states that are reached by events of which \<open>A\<close> holds.\<close>

inductive reach :: "(event \<Rightarrow> bool) \<Rightarrow> rsys \<Rightarrow> bool" for A where
  reach_init: "reach A sys0"
| reach_step: "reach A s \<Longrightarrow> A e \<Longrightarrow> do_event e s = Some s' \<Longrightarrow> reach A s'"

lemma reach_run: "run_events es s = Some s' \<Longrightarrow> reach A s \<Longrightarrow> \<forall>e \<in> set es. A e \<Longrightarrow> reach A s'"
  by (induction es arbitrary: s) (auto split: option.splits intro: reach_step)

text \<open>Only thread \<open>c\<close> takes objects; every thread may put objects back.\<close>

fun one_taker :: "nat \<Rightarrow> event \<Rightarrow> bool" where
  "one_taker c (Start t (Call_New k) xs) = (t = c)"
| "one_taker c _ = True"

section \<open>Two takers\<close>

text \<open>A call of thread \<open>t\<close> with its \<open>k\<close> steps.\<close>

definition whole_call :: "nat \<Rightarrow> rcall \<Rightarrow> nat list \<Rightarrow> nat \<Rightarrow> event list" where
  "whole_call t c xs k = Start t c xs # replicate k (Exec t False)"

text \<open>
  Thread 0 makes two objects and gives them back; thread 1 starts to take object 0 and has read its successor 1 when
  thread 0 takes both objects and returns object 0 only.
\<close>

definition aba_run :: "event list" where
  "aba_run = whole_call 0 (Call_New Alone) [] 4 @ whole_call 0 (Call_New Alone) [] 4 @
     whole_call 0 (Call_Delete 1) [1] 4 @ whole_call 0 (Call_Delete 0) [0] 4 @
     whole_call 1 (Call_New Alone) [] 2 @
     whole_call 0 (Call_New Alone) [] 5 @ whole_call 0 (Call_New Alone) [] 5 @ whole_call 0 (Call_Delete 0) [0] 4 @
     replicate 3 (Exec 1 False) @ whole_call 1 (Call_New Alone) [] 5"

text \<open>
  C26. The pool is not safe for two threads that take objects (the ABA problem): from the empty pool, with callers that delete only
  what they own and only once, a state is reached in which one object is in the hands of two callers, because the compare-and-swap
  of \<open>New\<close> succeeds although the successor it read is out of date.
\<close>

theorem pool_r_hands_out_twice:
  "\<exists>s. reach (\<lambda>_. True) s \<and> \<not> distinct (s_live s)"
proof -
  have "map_option s_live (run_events aba_run sys0) = Some [1, 0, 1]" by code_simp
  then obtain s where "run_events aba_run sys0 = Some s" "s_live s = [1, 0, 1]" by auto
  then show ?thesis using reach_run [OF _ reach_init] by fastforce
qed

section \<open>A call on its own\<close>

text \<open>At most \<open>n\<close> steps of a call that no other thread interferes with.\<close>

fun solo :: "nat \<Rightarrow> bool \<Rightarrow> rpc \<Rightarrow> obj_pool \<Rightarrow> (rpc \<times> obj_pool) option" where
  "solo 0 oom pc m = (if is_done pc then Some (pc, m) else None)"
| "solo (Suc n) oom pc m =
     (if is_done pc then Some (pc, m) else (case pc_step oom pc m of None \<Rightarrow> None | Some (pc, m) \<Rightarrow> solo n oom pc m))"

text \<open>The same call on the pool of one thread.\<close>

fun seq_call :: "bool \<Rightarrow> rcall \<Rightarrow> obj_pool \<Rightarrow> (rpc \<times> obj_pool) option" where
  "seq_call oom (Call_New Alone) m = (case pool_New oom m of (r, m) \<Rightarrow> Some (Done (Ret_obj r) None, m))"
| "seq_call oom (Call_New (Tail f)) m = map_option (\<lambda>(r, f, m). (Done (Ret_obj r) f, m)) (pool_New_list oom f m)"
| "seq_call oom (Call_New (Front f)) m = (case pool_NewFront oom f m of (r, f, m) \<Rightarrow> Some (Done (Ret_obj r) f, m))"
| "seq_call oom (Call_Delete obj) m = Some (Done (Ret_int 0) None, pool_Delete obj m)"
| "seq_call oom (Call_Delete_list f obj) m = map_option (\<lambda>(f, m). (Done (Ret_int 0) f, m)) (pool_Delete_list f obj m)"
| "seq_call oom (Call_Detach f obj) m = map_option (\<lambda>(f, m). (Done (Ret_int 0) f, m)) (pool_Detach f obj m)"
| "seq_call oom (Call_AddToFreeList obj) m = map_option (\<lambda>m. (Done (Ret_int 0) obj, m)) (pool_AddToFreeList obj m)"
| "seq_call oom (Call_DeleteAll f) m = map_option (\<lambda>(f, m). (Done (Ret_int 0) f, m)) (pool_DeleteAll f m)"

lemma is_done_simps [simp]:
  "is_done (Done r f)" "\<not> is_done (New_read k)" "\<not> is_done (New_next k q)" "\<not> is_done (New_cas k q n)" "\<not> is_done (New_obj k)"
  "\<not> is_done (New_out k q)" "\<not> is_done (New_link k q)" "\<not> is_done (Del_unlink f p)" "\<not> is_done (Del_release f p)"
  "\<not> is_done (Del_read f p)" "\<not> is_done (Del_next f p e)" "\<not> is_done (Del_cas f p e)" "\<not> is_done (Det_unlink f p)"
  "\<not> is_done (Det_clear f p)" "\<not> is_done (All_release f e)" "\<not> is_done (Free_read f e)" "\<not> is_done (Free_next f e g)"
  "\<not> is_done (Free_cas f e g)"
  by (simp_all add: is_done_def)

lemma is_done_entry [simp]: "\<not> is_done (entry c)"
  by (cases c) simp_all

lemma unlink_freelist: "unlink f p m = Some (g, m') \<Longrightarrow> obj_freelist m' = obj_freelist m \<and> o_count m' = o_count m"
  by (auto simp: unlink_def Let_def split: if_splits option.splits)

lemmas new_link_defs = new_link_def link_alone_def link_tail_def link_front_def

lemma solo_done [simp]: "is_done pc \<Longrightarrow> solo n oom pc m = Some (pc, m)"
  by (cases n) simp_all

lemma solo_take:
  "take_obj oom m = (Some q, m') \<Longrightarrow> \<exists>j. solo (5 + n) oom (New_read k) m = solo (Suc (Suc j)) oom (New_out k q) m'"
  by (auto simp: eval_nat_numeral take_obj_def CAS_def split: option.splits if_splits intro: exI [of _ n] exI [of _ "Suc n"])

lemma solo_no_obj:
  "take_obj oom m = (None, m') \<Longrightarrow> solo (5 + n) oom (New_read k) m = Some (Done (Ret_obj None) (kind_first k), m')"
  by (auto simp: eval_nat_numeral take_obj_def split: option.splits if_splits)

lemma solo_new:
  assumes "seq_call oom (Call_New k) m = Some r"
  shows "solo (5 + n) oom (New_read k) m = Some r"
proof -
  obtain o1 m1 where t: "take_obj oom m = (o1, m1)" by fastforce
  show ?thesis
  proof (cases o1)
    case None
    with assms t solo_no_obj [of oom m m1 n k] show ?thesis
      by (cases k) (simp_all add: pool_New_def pool_New_list_def pool_NewFront_def)
  next
    case (Some q)
    with t solo_take [of oom m q m1 n k] obtain j where
      "solo (5 + n) oom (New_read k) m = solo (Suc (Suc j)) oom (New_out k q) m1" by auto
    with assms t Some show ?thesis
      by (cases k) (auto simp: pool_New_def pool_New_list_def pool_NewFront_def new_out_def new_link_defs Let_def split: option.splits)
  qed
qed

lemma solo_put: "solo (4 + n) oom (Del_release f p) m = Some (Done (Ret_int 0) f, pool_Delete p m)"
  by (simp add: eval_nat_numeral CAS_def pool_Delete_def Let_def)

lemma solo_free: "pool_AddToFreeList obj m = Some m' \<Longrightarrow> solo (3 + n) oom (Free_read f obj) m = Some (Done (Ret_int 0) f, m')"
  by (auto simp: eval_nat_numeral CAS_def pool_AddToFreeList_def Let_def split: option.splits)

lemma solo_release:
  assumes "release_list q m = Some m'" "pool_AddToFreeList f m' = Some m2"
  shows "\<exists>k. \<forall>n \<ge> k. solo n oom (All_release f q) m = Some (Done (Ret_int 0) None, m2)"
  using assms
proof (induction q m m' rule: release_list.raw_induct)
  case (1 rel q m m')
  show ?case
  proof (cases q)
    case None
    have "solo n oom (All_release f q) m = Some (Done (Ret_int 0) None, m2)" if "4 \<le> n" for n
      using solo_free [of f m m2 "n - 4" oom None] 1 None that by (cases n) simp_all
    then show ?thesis by blast
  next
    case (Some p)
    have "release_list (o_next m p) (m\<lparr>o_released := p # o_released m\<rparr>) = Some m'"
      using 1(3) Some by (simp add: release_list.simps [of "Some p" m])
    moreover have "rel (o_next m p) (m\<lparr>o_released := p # o_released m\<rparr>) = Some m'" using 1(2) Some by simp
    ultimately obtain k where k: "\<forall>n \<ge> k. solo n oom (All_release f (o_next m p)) (m\<lparr>o_released := p # o_released m\<rparr>) =
        Some (Done (Ret_int 0) None, m2)" using 1(1) [OF _ _ 1(4)] by blast
    have "solo n oom (All_release f q) m = Some (Done (Ret_int 0) None, m2)" if "Suc k \<le> n" for n
      using k Some that by (cases n) simp_all
    then show ?thesis by blast
  qed
qed (rule assms(1))

text \<open>
  C25. Without interference the lock-free pool is the pool of one thread: when the sequential operation returns, the same call returns
  after finitely many steps with the same result, the same \<open>first\<close> and the same state.
\<close>

theorem pool_r_solo:
  assumes "seq_call oom c m = Some r"
  shows "\<exists>k. \<forall>n \<ge> k. solo n oom (entry c) m = Some r"
proof (cases c)
  case (Call_New k)
  then have "solo n oom (entry c) m = Some r" if "5 \<le> n" for n
    using solo_new [of oom k m r "n - 5"] assms that by simp
  then show ?thesis by blast
next
  case (Call_Delete p)
  then have "solo n oom (entry c) m = Some r" if "4 \<le> n" for n
    using solo_put [of "n - 4" oom None p m] assms that by simp
  then show ?thesis by blast
next
  case (Call_Delete_list f p)
  with assms obtain g m1 where u: "unlink f p m = Some (g, m1)" "r = (Done (Ret_int 0) g, pool_Delete p m1)"
    by (auto simp: pool_Delete_list_def split: option.splits)
  have "solo n oom (entry c) m = Some r" if "5 \<le> n" for n
    using solo_put [of "n - 5" oom g p m1] u Call_Delete_list that by (cases n) (simp_all add: add.commute)
  then show ?thesis by blast
next
  case (Call_Detach f p)
  with assms obtain g m1 where u: "unlink f p m = Some (g, m1)" "r = (Done (Ret_int 0) g, set_next p None (set_prev p None m1))"
    by (auto simp: pool_Detach_def split: option.splits)
  have "solo (2 + n) oom (entry c) m = Some r" for n
    using u Call_Detach by (simp add: eval_nat_numeral)
  then have "\<forall>n \<ge> 2. solo n oom (entry c) m = Some r" by (metis le_add_diff_inverse)
  then show ?thesis by blast
next
  case (Call_AddToFreeList f)
  then have "solo n oom (entry c) m = Some r" if "3 \<le> n" for n
    using solo_free [of f m _ "n - 3" oom f] assms that by auto
  then show ?thesis by blast
next
  case (Call_DeleteAll f)
  with assms obtain m1 m2 where "release_list f m = Some m1" "pool_AddToFreeList f m1 = Some m2" "r = (Done (Ret_int 0) None, m2)"
    by (auto simp: pool_DeleteAll_def split: option.splits)
  then show ?thesis using solo_release [of f m m1 f m2 oom] Call_DeleteAll by simp
qed

theorem pool_r_solo_witness:
  "\<exists>k. \<forall>n \<ge> k. solo n False (New_read Alone) (s_pool sys0) =
     Some (Done (Ret_obj (Some 0)) None, set_prev 0 (Some 0) (set_next 0 None ((s_pool sys0)\<lparr>o_count := 1\<rparr>)))"
proof -
  have "seq_call False (Call_New Alone) (s_pool sys0) =
      Some (Done (Ret_obj (Some 0)) None, set_prev 0 (Some 0) (set_next 0 None ((s_pool sys0)\<lparr>o_count := 1\<rparr>)))"
    by (simp add: sys0_def pool_New_def take_obj_def)
  from pool_r_solo [OF this] show ?thesis by simp
qed

section \<open>Progress\<close>

text \<open>The compare-and-swap of this control point succeeds: the operation takes effect.\<close>

definition cas_ok :: "rpc \<Rightarrow> obj_pool \<Rightarrow> bool" where
  "cas_ok pc m =
     (case pc of
        New_cas k q n \<Rightarrow> obj_freelist m = Some q
      | Del_cas f p q \<Rightarrow> obj_freelist m = q
      | Free_cas f p q \<Rightarrow> obj_freelist m = q
      | _ \<Rightarrow> False)"

definition releasing :: "rpc \<Rightarrow> bool" where
  "releasing pc = (case pc of All_release _ _ \<Rightarrow> True | _ \<Rightarrow> False)"

text \<open>The steps a call can still make while the free list pointer stays \<open>fl\<close>.\<close>

fun pot :: "nat option \<Rightarrow> rpc \<Rightarrow> nat" where
  "pot fl (Done r f) = 0"
| "pot fl (New_read k) = 5"
| "pot fl (New_next k q) = (if fl = Some q then 4 else 7)"
| "pot fl (New_cas k q n) = (if fl = Some q then 3 else 6)"
| "pot fl (New_obj k) = 3"
| "pot fl (New_out k q) = 2"
| "pot fl (New_link k q) = 1"
| "pot fl (Del_unlink f p) = 5"
| "pot fl (Del_release f p) = 4"
| "pot fl (Del_read f p) = 3"
| "pot fl (Del_next f p q) = (if fl = q then 2 else 5)"
| "pot fl (Del_cas f p q) = (if fl = q then 1 else 4)"
| "pot fl (Det_unlink f p) = 2"
| "pot fl (Det_clear f p) = 1"
| "pot fl (All_release f q) = 0"
| "pot fl (Free_read f p) = 3"
| "pot fl (Free_next f p q) = (if fl = q then 2 else 5)"
| "pot fl (Free_cas f p q) = (if fl = q then 1 else 4)"

lemma pot_bound: "pot fl pc \<le> 7"
  by (cases pc) simp_all

lemma new_link_freelist: "new_link k q m = Some (pc', m') \<Longrightarrow> obj_freelist m' = obj_freelist m \<and> is_done pc' \<and> o_count m' = o_count m"
  by (auto simp: new_link_defs split: new_kind.splits option.splits)

lemma pot_step:
  assumes "pc_step oom pc m = Some (pc', m')" "\<not> cas_ok pc m" "\<not> releasing pc"
  shows "obj_freelist m' = obj_freelist m \<and> pot (obj_freelist m) pc' < pot (obj_freelist m) pc \<and> \<not> releasing pc'"
  using assms
  by (cases pc) (auto simp: cas_ok_def releasing_def CAS_def new_out_def is_done_def dest!: unlink_freelist new_link_freelist
      split: option.splits if_splits rpc.splits)

lemma sum_upd:
  fixes h :: "'b \<Rightarrow> nat"
  assumes "t < (N::nat)"
  shows "(\<Sum>i<N. h ((g(t := x)) i)) + h (g t) = (\<Sum>i<N. h (g i)) + h x"
  using assms by (simp add: sum.remove [of _ t] fun_upd_def)

lemma exec_cases:
  assumes "do_event (Exec t oom) s = Some s'"
  obtains pc' m' where "pc_step oom (s_pc s t) (s_pool s) = Some (pc', m')" "s_pool s' = m'" "s_pc s' = (s_pc s)(t := pc')"
  using assms by (auto simp: Let_def split: option.splits prod.splits if_splits)

lemma quiet_run:
  assumes "run_events es s = Some s'" "\<forall>e \<in> set es. \<exists>t<N. \<exists>oom. e = Exec t oom" "\<forall>t<N. \<not> releasing (s_pc s t)"
    and "\<And>as t oom bs u. es = as @ Exec t oom # bs \<Longrightarrow> run_events as s = Some u \<Longrightarrow> \<not> cas_ok (s_pc u t) (s_pool u)"
  shows "length es \<le> (\<Sum>t<N. pot (obj_freelist (s_pool s)) (s_pc s t))"
  using assms
proof (induction es arbitrary: s)
  case Nil
  then show ?case by simp
next
  case (Cons e es)
  from Cons.prems(2) obtain t oom where e: "t < N" "e = Exec t oom" by auto
  from Cons.prems(1) obtain u where u: "do_event e s = Some u" "run_events es u = Some s'" by (auto split: option.splits)
  from u(1) obtain pc' m' where st: "pc_step oom (s_pc s t) (s_pool s) = Some (pc', m')" "s_pool u = m'"
      "s_pc u = (s_pc s)(t := pc')"
    unfolding e(2) by (rule exec_cases)
  have "\<not> cas_ok (s_pc s t) (s_pool s)" using Cons.prems(4) [of "[]" t oom es s] e by simp
  with pot_step [OF st(1)] Cons.prems(3) e(1) have p: "obj_freelist m' = obj_freelist (s_pool s)"
      "pot (obj_freelist (s_pool s)) pc' < pot (obj_freelist (s_pool s)) (s_pc s t)" "\<not> releasing pc'" by auto
  have "length es \<le> (\<Sum>t<N. pot (obj_freelist (s_pool u)) (s_pc u t))"
  proof (rule Cons.IH [OF u(2)])
    show "\<forall>e \<in> set es. \<exists>t<N. \<exists>oom. e = Exec t oom" using Cons.prems(2) by simp
    show "\<forall>t<N. \<not> releasing (s_pc u t)" using Cons.prems(3) st(3) p(3) by simp
    fix as t' oom' bs v
    assume "es = as @ Exec t' oom' # bs" "run_events as u = Some v"
    then show "\<not> cas_ok (s_pc v t') (s_pool v)" using Cons.prems(4) [of "e # as" t' oom' bs v] u(1) by simp
  qed
  with p st sum_upd [OF e(1), of "pot (obj_freelist (s_pool s))" "s_pc s" pc'] show ?case by simp
qed


text \<open>Two threads that put an object each, in a schedule in which the second one has to try again.\<close>

definition race :: rsys where
  "race = sys0\<lparr>s_pc := (\<lambda>_. Done (Ret_int 0) None)(0 := Del_read None 0, 1 := Del_read None 1)\<rparr>"

definition race_run :: "event list" where
  "race_run = map (\<lambda>t. Exec t False) [0, 1, 0, 1, 0, 1, 1, 1, 1]"


end
