(* ===== verification/Obj_Pool_R_Safe.thy ===== *)
theory Obj_Pool_R_Safe
  imports Obj_Pool_R "HOL-Library.Sublist"
begin

text \<open>
  The lock-free pool with one thread that takes objects: an invariant of all interleavings, kept by every step of every call, from
  which follows that no object is handed out twice.
\<close>

section \<open>One taker\<close>

lemma chain_succ: "chain nx xs e \<Longrightarrow> x \<in> set xs \<Longrightarrow> nx x = e \<or> (\<exists>y \<in> set xs. nx x = Some y)"
proof (induction xs)
  case (Cons a xs)
  then show ?case by (cases xs) auto
qed simp

lemma list_next: "is_list m f xs \<Longrightarrow> x \<in> set xs \<Longrightarrow> o_next m x = Some y \<Longrightarrow> y \<in> set xs"
  using chain_succ [of "o_next m" xs None x] by (auto simp: is_list_def)

lemma list_prev:
  assumes "is_list m f xs" "x \<in> set xs"
  shows "\<exists>y \<in> set xs. o_prev m x = Some y"
proof -
  have "xs \<noteq> []" using assms(2) by auto
  then have "first_of (rev xs) None = Some (last xs)" "last xs \<in> set xs" by (simp_all add: first_of_rev)
  then show ?thesis using chain_succ [of "o_prev m" "rev xs" _ x] assms by (auto simp: is_list_def)
qed

lemma list_first: "is_list m f xs \<Longrightarrow> f = Some p \<Longrightarrow> p \<in> set xs \<and> o_prev m p = Some (last xs)"
  using chain_rev_first [of "o_prev m" xs] by (cases "xs = []") (auto simp: is_list_def first_of_ne)

text \<open>\<open>m'\<close> has the links of \<open>m\<close> outside of \<open>X\<close>.\<close>

definition writes :: "nat set \<Rightarrow> obj_pool \<Rightarrow> obj_pool \<Rightarrow> bool" where
  "writes X m m' \<longleftrightarrow> (\<forall>x. x \<notin> X \<longrightarrow> o_next m' x = o_next m x \<and> o_prev m' x = o_prev m x)"

lemma writes_refl [simp]: "writes X m m" "writes X m (m\<lparr>obj_freelist := v\<rparr>)" "writes X m (m\<lparr>o_count := k\<rparr>)"
  "writes X m (m\<lparr>o_released := r\<rparr>)"
  by (simp_all add: writes_def)

lemma unlink_own:
  assumes "is_list m f hs" "p \<in> set hs"
  shows "\<exists>g m'. unlink f p m = Some (g, m') \<and> writes (set hs) m m' \<and> obj_freelist m' = obj_freelist m \<and> o_count m' = o_count m"
proof -
  obtain q where q: "q \<in> set hs" "o_prev m p = Some q" using list_prev [OF assms] by blast
  have n: "o_next m p = Some y \<Longrightarrow> y \<in> set hs" for y using list_next [OF assms] .
  obtain h where h: "f = Some h" "h \<in> set hs" using assms by (cases hs) (auto simp: is_list_def)
  show ?thesis using q n h by (auto simp: unlink_def writes_def Let_def split: option.splits)
qed

text \<open>The list to free: it ends somewhere, and its first object points to its last.\<close>

definition seg :: "obj_pool \<Rightarrow> nat option \<Rightarrow> nat list \<Rightarrow> nat option \<Rightarrow> bool" where
  "seg m f xs e \<longleftrightarrow> xs \<noteq> [] \<and> distinct xs \<and> f = first_of xs None \<and> chain (o_next m) xs e \<and> o_prev m (hd xs) = Some (last xs)"

lemma list_seg: "is_list m f xs \<Longrightarrow> xs \<noteq> [] \<Longrightarrow> seg m f xs None"
  by (auto simp: is_list_def seg_def dest: chain_rev_first)

lemma seg_redirect: "seg m f xs e \<Longrightarrow> seg (set_next (last xs) e' m) f xs e'"
  by (auto simp: seg_def chain_redirect)

fun kind_ok :: "new_kind \<Rightarrow> obj_pool \<Rightarrow> nat list \<Rightarrow> bool" where
  "kind_ok Alone m hs = (hs = [])"
| "kind_ok (Tail f) m hs = is_list m f hs"
| "kind_ok (Front f) m hs = is_list m f hs"

text \<open>What holds at each control point of the links of the objects \<open>hs\<close> of the call and of the free list \<open>ys\<close>.\<close>

fun at_ok :: "obj_pool \<Rightarrow> nat list \<Rightarrow> rpc \<Rightarrow> nat list \<Rightarrow> bool" where
  "at_ok m ys (Done r f) hs = True"
| "at_ok m ys (New_read k) hs = kind_ok k m hs"
| "at_ok m ys (New_next k q) hs = (kind_ok k m hs \<and> q \<in> set ys)"
| "at_ok m ys (New_cas k q n) hs = (kind_ok k m hs \<and> q \<in> set ys \<and> o_next m q = n)"
| "at_ok m ys (New_obj k) hs = kind_ok k m hs"
| "at_ok m ys (New_out k q) hs = (hs \<noteq> [] \<and> hd hs = q \<and> kind_ok k m (tl hs))"
| "at_ok m ys (New_link k q) hs = (hs \<noteq> [] \<and> hd hs = q \<and> kind_ok k m (tl hs))"
| "at_ok m ys (Del_unlink f p) hs = (is_list m f hs \<and> p \<in> set hs)"
| "at_ok m ys (Del_release f p) hs = (p \<in> set hs)"
| "at_ok m ys (Del_read f p) hs = (p \<in> set hs)"
| "at_ok m ys (Del_next f p q) hs = (p \<in> set hs)"
| "at_ok m ys (Del_cas f p q) hs = (p \<in> set hs \<and> o_next m p = q)"
| "at_ok m ys (Det_unlink f p) hs = (is_list m f hs \<and> p \<in> set hs)"
| "at_ok m ys (Det_clear f p) hs = (p \<in> set hs)"
| "at_ok m ys (All_release f q) hs = (is_list m f hs \<and> hs \<noteq> [] \<and> (case q of None \<Rightarrow> True | Some p \<Rightarrow> p \<in> set hs))"
| "at_ok m ys (Free_read f p) hs = (\<exists>e. seg m p hs e)"
| "at_ok m ys (Free_next f p q) hs = (\<exists>e. seg m p hs e)"
| "at_ok m ys (Free_cas f p q) hs = seg m p hs q"

definition taking :: "rpc \<Rightarrow> bool" where
  "taking pc = (case pc of New_read _ \<Rightarrow> True | New_next _ _ \<Rightarrow> True | New_cas _ _ _ \<Rightarrow> True | _ \<Rightarrow> False)"

lemma is_list_writes: "is_list m f xs \<Longrightarrow> writes X m m' \<Longrightarrow> set xs \<inter> X = {} \<Longrightarrow> is_list m' f xs"
proof -
  assume a: "is_list m f xs" "writes X m m'" "set xs \<inter> X = {}"
  then have "\<forall>x \<in> set xs. o_next m' x = o_next m x" "\<forall>x \<in> set (rev xs). o_prev m' x = o_prev m x"
    by (auto simp: writes_def)
  with a(1) show "is_list m' f xs"
    using chain_cong [of xs "o_next m'" "o_next m"] chain_cong [of "rev xs" "o_prev m'" "o_prev m"] by (auto simp: is_list_def)
qed

lemma seg_writes: "seg m f xs e \<Longrightarrow> writes X m m' \<Longrightarrow> set xs \<inter> X = {} \<Longrightarrow> seg m' f xs e"
proof -
  assume a: "seg m f xs e" "writes X m m'" "set xs \<inter> X = {}"
  then have "\<forall>x \<in> set xs. o_next m' x = o_next m x" "hd xs \<notin> X"
    by (auto simp: writes_def seg_def) (metis disjoint_iff hd_in_set)
  with a(1,2) show "seg m' f xs e" using chain_cong [of xs "o_next m'" "o_next m"] by (auto simp: seg_def writes_def)
qed

lemma kind_ok_writes: "kind_ok k m hs \<Longrightarrow> writes X m m' \<Longrightarrow> set hs \<inter> X = {} \<Longrightarrow> kind_ok k m' hs"
  by (cases k) (auto intro: is_list_writes)

lemma is_free_writes:
  assumes "is_free m ys" "writes X m m'" "set ys \<inter> X = {}" "obj_freelist m' = obj_freelist m"
  shows "is_free m' ys"
proof -
  have "\<forall>x \<in> set ys. o_next m' x = o_next m x" using assms(2,3) by (auto simp: writes_def)
  with assms(1,4) show ?thesis using chain_cong [of ys "o_next m'" "o_next m"] by (auto simp: is_free_def)
qed

lemma tl_disjoint: "set hs \<inter> X = {} \<Longrightarrow> set (tl hs) \<inter> X = {}"
  using set_mono_suffix [OF suffix_tl, of hs] by blast

text \<open>Another thread does not disturb a call, when it does not write to its objects; a taker needs its candidate to stay.\<close>

lemma at_ok_frame:
  assumes "at_ok m ys pc hs" "writes X m m'" "set hs \<inter> X = {}"
    and "taking pc \<Longrightarrow> set ys \<subseteq> set ys' \<and> set ys \<inter> X = {}"
  shows "at_ok m' ys' pc hs"
  using assms tl_disjoint [OF assms(3)]
  by (cases pc) (auto simp: taking_def writes_def [of _ m m'] intro: kind_ok_writes [OF _ assms(2)] is_list_writes [OF _ assms(2)]
      seg_writes [OF _ assms(2)] split: option.splits)

text \<open>A step of a call never dereferences a null pointer.\<close>

lemma at_ok_no_null:
  assumes "at_ok m ys pc hs" "\<not> is_done pc"
  shows "pc_step oom pc m \<noteq> None"
  using assms
proof (cases pc)
  case (New_link k q)
  with assms show ?thesis by (cases k) (auto simp: new_link_defs split: option.splits dest: list_first)
next
  case (Free_next f p q)
  with assms show ?thesis by (cases hs) (auto simp: seg_def)
qed (use assms in \<open>auto simp: CAS_def dest: unlink_own split: option.splits\<close>)


text \<open>
  One step of a call: it writes to its own objects only, the free list stays a list, and the objects of the call and of the free list
  stay apart and are those of before, or new ones.
\<close>

definition step_ok :: "obj_pool \<Rightarrow> nat list \<Rightarrow> nat list \<Rightarrow> rpc \<Rightarrow> obj_pool \<Rightarrow> nat list \<Rightarrow> nat list \<Rightarrow> rpc \<Rightarrow> bool" where
  "step_ok m ys hs pc m' ys' hs' pc' \<longleftrightarrow> writes (set hs) m m' \<and> is_free m' ys' \<and> at_ok m' ys' pc' hs' \<and> distinct hs' \<and>
     set hs' \<inter> set ys' = {} \<and> set hs' \<union> set ys' \<subseteq> set hs \<union> set ys \<union> {o_count m..<o_count m'} \<and>
     (\<not> taking pc \<longrightarrow> set ys \<subseteq> set ys') \<and> o_count m \<le> o_count m' \<and> (taking pc' \<longrightarrow> taking pc)"

lemma step_ok_quiet:
  assumes "is_free m ys" "distinct hs" "set hs \<inter> set ys = {}" "writes (set hs) m m'" "obj_freelist m' = obj_freelist m"
    "o_count m' = o_count m" "at_ok m' ys pc' hs" "taking pc' \<longrightarrow> taking pc"
  shows "step_ok m ys hs pc m' ys hs pc'"
  using assms is_free_writes [OF assms(1,4)] by (auto simp: step_ok_def)

lemma free_head: "is_free m ys \<Longrightarrow> obj_freelist m = Some q \<Longrightarrow> \<exists>zs. ys = q # zs \<and> o_next m q = first_of zs None \<and> q \<notin> set zs \<and> distinct zs \<and> chain (o_next m) zs None"
  by (cases ys) (auto simp: is_free_def)

lemma step_take:
  assumes "pc_step oom pc m = Some (pc', m')" "at_ok m ys pc hs" "is_free m ys" "distinct hs" "set hs \<inter> set ys = {}"
    and "\<forall>x \<in> set hs \<union> set ys. x < o_count m" "pc = New_read k \<or> pc = New_next k q \<or> pc = New_cas k q n \<or> pc = New_obj k"
  shows "\<exists>ys'. step_ok m ys hs pc m' ys' (held_step pc m pc' hs) pc'"
proof -
  have fl: "kind_ok k m hs \<Longrightarrow> kind_ok k (m\<lparr>obj_freelist := v\<rparr>) hs" "kind_ok k m hs \<Longrightarrow> kind_ok k (m\<lparr>o_count := c\<rparr>) hs" for v c
    using kind_ok_writes [of k m hs "{}"] by simp_all
  consider "pc = New_read k" | "pc = New_next k q" | "pc = New_obj k" | "pc = New_cas k q n" "obj_freelist m \<noteq> Some q"
    | "pc = New_cas k q n" "obj_freelist m = Some q" using assms(7) by blast
  then show ?thesis
  proof cases
    case 1
    with assms show ?thesis
      by (intro exI [of _ ys]) (auto simp: held_step_def taking_def dest: free_head intro!: step_ok_quiet split: option.splits)
  next
    case 2
    with assms show ?thesis by (intro exI [of _ ys]) (auto simp: held_step_def taking_def intro!: step_ok_quiet)
  next
    case 3
    with assms fl show ?thesis
      by (intro exI [of _ ys]) (auto simp: held_step_def step_ok_def taking_def is_free_def split: if_splits)
  next
    case 4
    with assms show ?thesis by (intro exI [of _ ys]) (auto simp: held_step_def taking_def CAS_def intro!: step_ok_quiet)
  next
    case 5
    with free_head [OF assms(3)] obtain zs where "ys = q # zs" "o_next m q = first_of zs None" "q \<notin> set zs" "distinct zs"
      "chain (o_next m) zs None" by blast
    with 5 assms fl show ?thesis
      by (intro exI [of _ zs]) (auto simp: held_step_def step_ok_def taking_def is_free_def CAS_def)
  qed
qed

lemma step_made:
  assumes "pc_step oom pc m = Some (pc', m')" "at_ok m ys pc hs" "is_free m ys" "distinct hs" "set hs \<inter> set ys = {}"
    and "pc = New_out k q \<or> pc = New_link k q"
  shows "step_ok m ys hs pc m' ys hs pc' \<and> held_step pc m pc' hs = hs"
proof (cases "pc = New_out k q")
  case True
  obtain gs where hs: "hs = q # gs" "q \<notin> set gs" "kind_ok k m gs" using True assms(2,4) by (cases hs) auto
  have w: "writes {q} m (new_out k q m)" by (auto simp: writes_def new_out_def)
  have "kind_ok k (new_out k q m) gs" using kind_ok_writes [OF hs(3) w] hs(2) by simp
  moreover have "writes (set hs) m (new_out k q m)" using w hs(1) by (auto simp: writes_def)
  ultimately show ?thesis using True assms hs(1)
    by (auto simp: held_step_def taking_def new_out_def intro!: step_ok_quiet)
next
  case False
  with assms(6) have pc: "pc = New_link k q" by simp
  obtain gs where hs: "hs = q # gs" "kind_ok k m gs" using pc assms(2) by (cases hs) auto
  have f: "f \<in> set gs \<and> o_prev m f = Some (last gs) \<and> last gs \<in> set gs" if "kind_first k = Some f" for f
    using that hs(2) list_first [of m "Some f" gs f] by (cases k; cases gs) auto
  have "writes (set hs) m m'"
  proof (cases "kind_first k")
    case None
    then show ?thesis using assms(1) pc hs(1) by (cases k) (auto simp: new_link_defs writes_def)
  next
    case (Some f)
    then show ?thesis using assms(1) pc hs(1) f [OF Some] by (cases k) (auto simp: new_link_defs writes_def)
  qed
  moreover have "is_done pc'" "obj_freelist m' = obj_freelist m" "o_count m' = o_count m"
    using new_link_freelist assms(1) pc by auto
  ultimately show ?thesis using pc assms
    by (auto simp: held_step_def taking_def is_done_def intro!: step_ok_quiet split: rpc.splits)
qed


lemma step_put:
  assumes "pc_step oom pc m = Some (pc', m')" "at_ok m ys pc hs" "is_free m ys" "distinct hs" "set hs \<inter> set ys = {}"
    and "pc = Del_release f p \<or> pc = Del_read f p \<or> pc = Del_next f p q \<or> pc = Del_cas f p q"
  shows "\<exists>ys'. step_ok m ys hs pc m' ys' (held_step pc m pc' hs) pc'"
proof -
  consider "pc = Del_release f p" | "pc = Del_read f p" | "pc = Del_next f p q" | "pc = Del_cas f p q" "obj_freelist m \<noteq> q"
    | "pc = Del_cas f p q" "obj_freelist m = q" using assms(6) by blast
  then show ?thesis
  proof cases
    case 3
    with assms show ?thesis
      by (intro exI [of _ ys]) (auto simp: held_step_def taking_def writes_def intro!: step_ok_quiet)
  next
    case 5
    with assms show ?thesis
      by (intro exI [of _ "p # ys"]) (auto simp: held_step_def step_ok_def taking_def is_free_def CAS_def)
  qed (use assms in \<open>auto simp: held_step_def taking_def CAS_def intro!: step_ok_quiet exI [of _ ys]\<close>)
qed

lemma step_detach:
  assumes "pc_step oom pc m = Some (pc', m')" "at_ok m ys pc hs" "is_free m ys" "distinct hs" "set hs \<inter> set ys = {}"
    and "pc = Del_unlink f p \<or> pc = Det_unlink f p \<or> pc = Det_clear f p"
  shows "step_ok m ys hs pc m' ys hs pc' \<and> held_step pc m pc' hs = hs"
proof (cases "pc = Det_clear f p")
  case True
  with assms show ?thesis by (auto simp: held_step_def taking_def writes_def intro!: step_ok_quiet)
next
  case False
  with assms(2,6) unlink_own [of m f hs p] obtain g m1 where "unlink f p m = Some (g, m1)" "writes (set hs) m m1"
    "obj_freelist m1 = obj_freelist m" "o_count m1 = o_count m" by auto
  with False assms show ?thesis by (auto simp: held_step_def taking_def intro!: step_ok_quiet)
qed

lemma step_free:
  assumes "pc_step oom pc m = Some (pc', m')" "at_ok m ys pc hs" "is_free m ys" "distinct hs" "set hs \<inter> set ys = {}"
    and "pc = All_release f p \<or> pc = Free_read f p \<or> pc = Free_next f p q \<or> pc = Free_cas f p q"
  shows "\<exists>ys'. step_ok m ys hs pc m' ys' (held_step pc m pc' hs) pc'"
proof -
  consider "pc = All_release f p" | "pc = Free_read f p" | "pc = Free_next f p q" | "pc = Free_cas f p q" "obj_freelist m \<noteq> q"
    | "pc = Free_cas f p q" "obj_freelist m = q" using assms(6) by blast
  then show ?thesis
  proof cases
    case 1
    have rel: "is_list m f hs \<Longrightarrow> is_list (m\<lparr>o_released := r\<rparr>) f hs" for r using is_list_writes [of m f hs "{}"] by simp
    have "is_list m f hs \<Longrightarrow> hs \<noteq> [] \<Longrightarrow> \<exists>e. seg m f hs e" using list_seg by blast
    with 1 assms rel show ?thesis
      by (intro exI [of _ ys]) (auto simp: held_step_def taking_def intro!: step_ok_quiet split: option.splits dest: list_next)
  next
    case 3
    with assms(2) obtain e where s: "seg m p hs e" by auto
    then obtain a where a: "p = Some a" "o_prev m a = Some (last hs)" "last hs \<in> set hs" by (cases hs) (auto simp: seg_def)
    with 3 assms seg_redirect [OF s, of q] show ?thesis
      by (intro exI [of _ ys]) (auto simp: held_step_def taking_def writes_def intro!: step_ok_quiet)
  next
    case 5
    with assms show ?thesis
      by (intro exI [of _ "hs @ ys"]) (auto simp: held_step_def step_ok_def taking_def is_free_def CAS_def seg_def chain_append first_of_append
          first_of_ne)
  qed (use assms in \<open>auto simp: held_step_def taking_def CAS_def intro!: step_ok_quiet exI [of _ ys]\<close>)
qed

lemma step_local:
  assumes "pc_step oom pc m = Some (pc', m')" "at_ok m ys pc hs" "is_free m ys" "distinct hs" "set hs \<inter> set ys = {}"
    and "\<forall>x \<in> set hs \<union> set ys. x < o_count m"
  shows "\<exists>ys'. step_ok m ys hs pc m' ys' (held_step pc m pc' hs) pc'"
proof -
  note mem = assms(1-5)
  show ?thesis
    by (cases pc) (use assms step_take [OF assms] step_made [OF mem] step_put [OF mem] step_detach [OF mem] step_free [OF mem]
        in \<open>fastforce+\<close>)
qed


subsection \<open>The invariant of the system\<close>

text \<open>The objects of the callers, of the calls and of the free list are apart, and have been created.\<close>

definition apart :: "nat list \<Rightarrow> (nat \<Rightarrow> nat list) \<Rightarrow> nat list \<Rightarrow> nat \<Rightarrow> bool" where
  "apart L H ys n \<longleftrightarrow> distinct L \<and> set L \<inter> set ys = {} \<and> (\<forall>t. distinct (H t)) \<and> (\<forall>t. set (H t) \<inter> set L = {}) \<and>
     (\<forall>t. set (H t) \<inter> set ys = {}) \<and> (\<forall>t u. t \<noteq> u \<longrightarrow> set (H t) \<inter> set (H u) = {}) \<and>
     (\<forall>x \<in> set L. x < n) \<and> (\<forall>x \<in> set ys. x < n) \<and> (\<forall>t. \<forall>x \<in> set (H t). x < n)"

lemma apart_start:
  assumes "apart L H ys n" "set xs \<subseteq> set L" "distinct xs"
  shows "apart (filter (\<lambda>x. x \<notin> set xs) L) (H(t := xs)) ys n"
  using assms unfolding apart_def by (simp add: disjoint_iff) blast

lemma apart_step:
  assumes "apart L H ys n" "distinct hs'" "set hs' \<inter> set ys' = {}" "set hs' \<union> set ys' \<subseteq> set (H t) \<union> set ys \<union> {n..<n'}" "n \<le> n'"
  shows "apart L (H(t := hs')) ys' n'"
proof -
  have "x \<notin> set L \<and> x < n' \<and> (\<forall>u. u \<noteq> t \<longrightarrow> x \<notin> set (H u))" if x: "x \<in> set hs' \<union> set ys'" for x
  proof -
    consider "x \<in> set (H t)" | "x \<in> set ys" | "n \<le> x" "x < n'" using assms(4) x by auto
    then show ?thesis using assms(1,5) unfolding apart_def
      by cases (force simp: disjoint_iff)+
  qed
  moreover have "x < n'" if "x < n" for x using assms(5) that by simp
  ultimately show ?thesis using assms(1-3) unfolding apart_def
    by (simp add: disjoint_iff) blast
qed

lemma apart_return: "apart L H ys n \<Longrightarrow> apart (H t @ L) (H(t := [])) ys n"
  unfolding apart_def by (simp add: disjoint_iff) blast

definition sys_inv :: "nat \<Rightarrow> rsys \<Rightarrow> nat list \<Rightarrow> bool" where
  "sys_inv c s ys \<longleftrightarrow> is_free (s_pool s) ys \<and> apart (s_live s) (s_held s) ys (o_count (s_pool s)) \<and>
     (\<forall>t. at_ok (s_pool s) ys (s_pc s t) (s_held s t)) \<and> (\<forall>t. taking (s_pc s t) \<longrightarrow> t = c)"

lemma sys_inv_init: "sys_inv c sys0 []"
  by (simp add: sys_inv_def apart_def sys0_def is_free_def taking_def)

lemma entry_ok: "legal k xs m \<Longrightarrow> is_free m ys \<Longrightarrow> at_ok m ys (entry k) xs"
proof (cases k)
  case (Call_New j)
  then show "legal k xs m \<Longrightarrow> at_ok m ys (entry k) xs" by (cases j) auto
next
  case (Call_AddToFreeList f)
  then show "legal k xs m \<Longrightarrow> at_ok m ys (entry k) xs" using list_seg [of m f xs] by auto
qed (auto split: option.splits dest: list_first)

lemma legal_distinct: "legal k xs m \<Longrightarrow> distinct xs"
proof (cases k)
  case (Call_New j)
  then show "legal k xs m \<Longrightarrow> distinct xs" by (cases j) (auto simp: is_list_def)
qed (auto simp: is_list_def)

lemma sys_inv_start:
  assumes "sys_inv c s ys" "do_event (Start t k xs) s = Some s'" "one_taker c (Start t k xs)"
  shows "sys_inv c s' ys"
proof -
  have s': "s' = s\<lparr>s_pc := (s_pc s)(t := entry k), s_live := filter (\<lambda>x. x \<notin> set xs) (s_live s), s_held := (s_held s)(t := xs)\<rparr>"
    and l: "legal k xs (s_pool s)" "set xs \<subseteq> set (s_live s)" using assms(2) by (auto split: if_splits)
  have "at_ok (s_pool s) ys (entry k) xs" using entry_ok [OF l(1)] assms(1) by (simp add: sys_inv_def)
  moreover have "taking (entry k) \<longrightarrow> t = c" using assms(3) by (cases k) (auto simp: taking_def)
  ultimately show ?thesis using assms(1) apart_start [OF _ l(2) legal_distinct [OF l(1)]] by (simp add: s' sys_inv_def)
qed

lemma sys_inv_exec:
  assumes inv: "sys_inv c s ys" and ev: "do_event (Exec t oom) s = Some s'"
  shows "\<exists>ys'. sys_inv c s' ys'"
proof -
  let ?m = "s_pool s" and ?hs = "s_held s t"
  have ap: "apart (s_live s) (s_held s) ys (o_count ?m)" and at: "at_ok ?m ys (s_pc s u) (s_held s u)"
    and fr: "is_free ?m ys" and tk: "taking (s_pc s u) \<Longrightarrow> u = c" for u
    using inv by (auto simp: sys_inv_def)
  obtain pc' m' where st: "pc_step oom (s_pc s t) ?m = Some (pc', m')" using ev by (auto split: option.splits prod.splits)
  let ?hs' = "held_step (s_pc s t) ?m pc' ?hs"
  have hs: "distinct ?hs" "set ?hs \<inter> set ys = {}" "\<forall>x \<in> set ?hs \<union> set ys. x < o_count ?m" using ap by (auto simp: apart_def)
  from step_local [OF st at fr hs] obtain ys' where ok: "step_ok ?m ys ?hs (s_pc s t) m' ys' ?hs' pc'" by blast
  have others: "at_ok m' ys' (s_pc s u) (s_held s u)" if u: "u \<noteq> t" for u
  proof (rule at_ok_frame [OF at])
    show "writes (set ?hs) ?m m'" using ok by (simp add: step_ok_def)
    show "set (s_held s u) \<inter> set ?hs = {}" using ap u by (simp add: apart_def)
    show "set ys \<subseteq> set ys' \<and> set ys \<inter> set ?hs = {}" if "taking (s_pc s u)"
      using ok hs(2) tk [of u] tk [of t] that u by (auto simp: step_ok_def)
  qed
  have ap': "apart (s_live s) ((s_held s)(t := ?hs')) ys' (o_count m')"
    using apart_step [OF ap] ok by (simp add: step_ok_def)
  have "taking pc' \<longrightarrow> t = c" using ok tk [of t] by (auto simp: step_ok_def)
  with ok others tk have rest: "is_free m' ys'" "\<forall>u. at_ok m' ys' (((s_pc s)(t := pc')) u) (((s_held s)(t := ?hs')) u)"
    "\<forall>u. taking (((s_pc s)(t := pc')) u) \<longrightarrow> u = c" by (auto simp: step_ok_def)
  show ?thesis
  proof (cases "is_done pc'")
    case True
    then have "at_ok m' ys' pc' []" by (cases pc') auto
    then show ?thesis using True ev st rest others apart_return [OF ap', of t]
      by (intro exI [of _ ys']) (auto simp: sys_inv_def)
  next
    case False
    then show ?thesis using ev st rest ap' by (intro exI [of _ ys']) (auto simp: sys_inv_def)
  qed
qed

lemma reach_inv: "reach (one_taker c) s \<Longrightarrow> \<exists>ys. sys_inv c s ys"
proof (induction rule: reach.induct)
  case reach_init
  then show ?case using sys_inv_init by blast
next
  case (reach_step s e s')
  then show ?case by (cases e) (auto simp del: do_event.simps one_taker.simps intro: sys_inv_start sys_inv_exec)
qed

text \<open>
  C23. With one thread that takes objects, and any number of threads that give objects back one by one or as lists, the lock-free pool
  is safe in every interleaving: no object is ever in the hands of two callers, the free list is a list without cycles of objects that
  no caller and no running call owns, and no step dereferences a null pointer.
\<close>

theorem pool_r_one_taker_safe:
  assumes "reach (one_taker c) s"
  shows "distinct (s_live s) \<and>
     (\<exists>ys. is_free (s_pool s) ys \<and> set ys \<inter> set (s_live s) = {} \<and> (\<forall>t. set ys \<inter> set (s_held s t) = {})) \<and>
     (\<forall>t oom. \<not> is_done (s_pc s t) \<longrightarrow> pc_step oom (s_pc s t) (s_pool s) \<noteq> None)"
proof -
  from reach_inv [OF assms] obtain ys where inv: "sys_inv c s ys" ..
  then have "distinct (s_live s)" "is_free (s_pool s) ys" "set ys \<inter> set (s_live s) = {}" "\<forall>t. set ys \<inter> set (s_held s t) = {}"
    by (auto simp: sys_inv_def apart_def)
  moreover have "\<forall>t oom. \<not> is_done (s_pc s t) \<longrightarrow> pc_step oom (s_pc s t) (s_pool s) \<noteq> None"
    using at_ok_no_null [of "s_pool s" ys] inv unfolding sys_inv_def by blast
  ultimately show ?thesis by blast
qed

text \<open>The taker makes an object and deletes it; another thread frees the second object meanwhile.\<close>

definition taker_run :: "event list" where
  "taker_run = whole_call 0 (Call_New Alone) [] 4 @ whole_call 0 (Call_New Alone) [] 4 @ whole_call 1 (Call_Delete 1) [1] 4 @
     whole_call 0 (Call_New Alone) [] 2 @ whole_call 1 (Call_AddToFreeList (Some 0)) [0] 3 @ replicate 6 (Exec 0 False)"

theorem pool_r_one_taker_safe_witness:
  "\<exists>s. run_events taker_run sys0 = Some s \<and> s_live s = [0] \<and> distinct (s_live s) \<and> (\<exists>ys. is_free (s_pool s) ys)"
proof -
  have "map_option s_live (run_events taker_run sys0) = Some [0]" by code_simp
  then obtain s where s: "run_events taker_run sys0 = Some s" "s_live s = [0]" by auto
  have "\<forall>e \<in> set taker_run. one_taker 0 e" by (auto simp: taker_run_def whole_call_def)
  from pool_r_one_taker_safe [OF reach_run [OF s(1) reach_init this]] s show ?thesis by blast
qed

end
