(* ===== verification/Mem_Pool.thy ===== *)
theory Mem_Pool
  imports Obj_Pool
begin

text \<open>
  The memory pools of \<open>src/src/mem_pool.h\<close> and \<open>src/src/mem_pool.cc\<close>.  A \<open>UcMem\<close> object owns one buffer; a
  \<open>UcMemPool\<close> keeps the released \<open>UcMem\<close> objects of one size class for reuse and counts the bytes in
  use (\<open>sz_total\<close>), kept for reuse (\<open>sz_free\<close>) and allowed (\<open>sz_max\<close>); the manager selects the size
  class, and shrinks the other pools when one has reached its limit.

  The pools hold their objects in an \<open>ObjPool\<close>, which is used through its list-level view
  (\<open>abs_take\<close>; theory \<open>Obj_Pool\<close>).  The allocator of the C library is the environment: \<open>c_fail k\<close> says
  whether request number \<open>k\<close> fails.
\<close>

section \<open>Definitions\<close>

text \<open>
  The \<open>UcMem\<close> objects with their fields \<open>mem\<close> and \<open>pool\<close>, the blocks obtained from \<open>malloc\<close> (block \<open>k\<close> is
  \<open>Mem k\<close> of the heap, empty once it is freed), and the state of the environment.
\<close>

record mem_ctx =
  c_heap :: heap
  c_mem :: "nat \<Rightarrow> ptr"
  c_pool :: "nat \<Rightarrow> nat option"
  c_objs :: nat
  c_blks :: nat
  c_fail :: "nat \<Rightarrow> bool"
  c_reqs :: nat
  c_junk :: byte

definition c_malloc :: "nat \<Rightarrow> mem_ctx \<Rightarrow> ptr \<times> mem_ctx" where
  "c_malloc n c =
     (let k = c_blks c; c' = c\<lparr>c_reqs := Suc (c_reqs c)\<rparr> in
      if c_fail c (c_reqs c) then (NULL, c')
      else (Ptr (Mem k) 0, c'\<lparr>c_heap := (c_heap c)(Mem k := replicate n (c_junk c)), c_blks := Suc k\<rparr>))"

fun c_free :: "ptr \<Rightarrow> mem_ctx \<Rightarrow> mem_ctx" where
  "c_free NULL c = c"
| "c_free (Ptr b i) c = c\<lparr>c_heap := (c_heap c)(b := [])\<rparr>"

definition set_mem :: "nat \<Rightarrow> ptr \<Rightarrow> mem_ctx \<Rightarrow> mem_ctx" where
  "set_mem m p c = c\<lparr>c_mem := (c_mem c)(m := p)\<rparr>"

definition set_pool :: "nat \<Rightarrow> nat option \<Rightarrow> mem_ctx \<Rightarrow> mem_ctx" where
  "set_pool m i c = c\<lparr>c_pool := (c_pool c)(m := i)\<rparr>"

text \<open>\<open>new UcMem\<close>: the default constructor leaves \<open>mem\<close> and \<open>pool\<close> null.  \<open>None\<close> is \<open>bad_alloc\<close>.\<close>

definition new_UcMem :: "mem_ctx \<Rightarrow> nat option \<times> mem_ctx" where
  "new_UcMem c =
     (let m = c_objs c; c' = c\<lparr>c_reqs := Suc (c_reqs c)\<rparr> in
      if c_fail c (c_reqs c) then (None, c')
      else (Some m, set_pool m None (set_mem m NULL (c'\<lparr>c_objs := Suc m\<rparr>))))"

text \<open>The constructor \<open>UcMem(sz)\<close>, which does not look at the result of \<open>malloc\<close>.\<close>

definition new_UcMem_sz :: "u64 \<Rightarrow> mem_ctx \<Rightarrow> nat option \<times> mem_ctx" where
  "new_UcMem_sz sz c =
     (case new_UcMem c of
        (None, c) \<Rightarrow> (None, c)
      | (Some m, c) \<Rightarrow> (let (p, c) = c_malloc (unat sz) c in (Some m, set_mem m p c)))"

record UcMemPool =
  p_self :: nat
  sz_each :: u64
  sz_total :: u64
  sz_free :: u64
  sz_max :: u64
  p_free :: "nat list"

text \<open>\<open>pool.New()\<close> and \<open>pool.Delete(m)\<close> of the \<open>ObjPool<UcMem>\<close> inside a pool.\<close>

definition mpool_New :: "UcMemPool \<Rightarrow> mem_ctx \<Rightarrow> nat option \<times> UcMemPool \<times> mem_ctx" where
  "mpool_New p c =
     (case p_free p of
        m # ms \<Rightarrow> (Some m, p\<lparr>p_free := ms\<rparr>, c)
      | [] \<Rightarrow> (let (r, c) = new_UcMem c in (r, p, c)))"

definition mpool_Delete :: "nat \<Rightarrow> UcMemPool \<Rightarrow> UcMemPool" where
  "mpool_Delete m p = p\<lparr>p_free := m # p_free p\<rparr>"

text \<open>\<open>UcMemPool::Alloc\<close>: the result, \<open>exceed_limit\<close>, and the changed pool and memory.\<close>

definition UcMemPool_Alloc ::
  "UcMemPool \<Rightarrow> mem_ctx \<Rightarrow> nat option \<times> bool \<times> UcMemPool \<times> mem_ctx" where
  "UcMemPool_Alloc p c =
     (case mpool_New p c of
        (None, p, c) \<Rightarrow> (None, False, p, c)
      | (Some m, p, c) \<Rightarrow>
          (let c = set_pool m (Some (p_self p)) c in
           if c_mem c m = NULL
           then if sz_total p + sz_each p > sz_max p then (None, True, mpool_Delete m p, c)
             else
               (let (q, c) = c_malloc (unat (sz_each p)) c; c = set_mem m q c in
                if q = NULL then (None, False, mpool_Delete m p, c)
                else (Some m, False, p\<lparr>sz_total := sz_total p + sz_each p\<rparr>, c))
           else
             (Some m, False,
              p\<lparr>sz_free := (if sz_free p < sz_each p then sz_free p else sz_free p - sz_each p),
                sz_total := sz_total p + sz_each p\<rparr>, c)))"

definition UcMemPool_Free :: "nat \<Rightarrow> UcMemPool \<Rightarrow> UcMemPool" where
  "UcMemPool_Free m p =
     (let p = mpool_Delete m p
      in p\<lparr>sz_free := sz_free p + sz_each p,
           sz_total := (if sz_total p < sz_each p then sz_total p else sz_total p - sz_each p)\<rparr>)"

text \<open>The loop of \<open>UcMemPool::Shrink\<close>: each round frees the buffer of one object, so it ends.\<close>

definition has_mem :: "mem_ctx \<Rightarrow> nat \<Rightarrow> bool" where
  "has_mem c m \<longleftrightarrow> c_mem c m \<noteq> NULL"

lemma c_mem_c_free [simp]: "c_mem (c_free q c) = c_mem c"
  by (cases q) auto

lemma has_mem_set_mem: "has_mem (set_mem m q c) k \<longleftrightarrow> (if k = m then q \<noteq> NULL else has_mem c k)"
  by (simp add: has_mem_def set_mem_def)

lemma filter_has_mem_le:
  "length (filter (has_mem (set_mem m NULL (c_free q c))) ms) \<le> length (filter (has_mem c) ms)"
  by (induction ms) (auto simp: has_mem_def set_mem_def)

lemma mpool_New_mem:
  "(Some m, p', c') = mpool_New p c \<Longrightarrow>
     c_mem c' m = NULL \<or> c' = c \<and> has_mem c m \<and> p_free p = m # p_free p' \<and> p' = p\<lparr>p_free := p_free p'\<rparr>"
  by (auto simp: mpool_New_def new_UcMem_def set_mem_def set_pool_def has_mem_def Let_def
      split: list.splits if_splits)

function shrink_loop ::
  "u64 \<Rightarrow> u64 \<Rightarrow> UcMemPool \<Rightarrow> mem_ctx \<Rightarrow> u64 \<times> UcMemPool \<times> mem_ctx" where
  "shrink_loop max_free shk p c =
     (if sz_free p > max_free
      then
        (case mpool_New p c of
           (None, p, c) \<Rightarrow> (shk, p, c)
         | (Some m, p, c) \<Rightarrow>
             if c_mem c m = NULL then (shk, mpool_Delete m p, c)
             else
               (let c = set_mem m NULL (c_free (c_mem c m) c);
                    p = mpool_Delete m p;
                    p = p\<lparr>sz_free := (if sz_free p < sz_each p then sz_free p else sz_free p - sz_each p)\<rparr>
                in shrink_loop max_free (shk + sz_each p) p c))
      else (shk, p, c))"
  by pat_completeness auto
termination
  by (relation "measure (\<lambda>(max_free, shk, p, c). length (filter (has_mem c) (p_free p)))")
     (auto simp: mpool_Delete_def has_mem_set_mem le_imp_less_Suc filter_has_mem_le dest!: mpool_New_mem)

declare shrink_loop.simps [simp del]

definition UcMemPool_Shrink :: "UcMemPool \<Rightarrow> mem_ctx \<Rightarrow> u64 \<times> UcMemPool \<times> mem_ctx" where
  "UcMemPool_Shrink p c =
     (let sz_allocated = sz_total p + sz_free p;
          shk = ((sz_max p - sz_allocated) div 2) AND NOT (sz_each p - 1)
      in if sz_max p > sz_allocated * 2 \<and> shk > sz_each p
         then (shk, p\<lparr>sz_max := sz_max p - shk\<rparr>, c)
         else
           (let max_free = sz_max p div 4;
                max_free = (if max_free > sz_total p then sz_total p else max_free);
                (shk, p, c) = shrink_loop max_free 0 p c
            in (shk, (if sz_max p < shk then p else p\<lparr>sz_max := sz_max p - shk\<rparr>), c)))"

subsection \<open>Size classes\<close>

definition magics :: "u64 list" where
  "magics = [64, 256, 1024, 4096, 16384, 65536, 262144, 1048576, 4194304, 16777216]"

definition biggest_magic :: u64 where
  "biggest_magic = 16777216"

abbreviation nr_magics :: nat where
  "nr_magics \<equiv> length magics"

text \<open>The binary search of \<open>get_magic\<close>.\<close>

function get_magic_loop :: "u64 \<Rightarrow> nat \<Rightarrow> nat \<Rightarrow> nat" where
  "get_magic_loop i low high =
     (if low < high
      then
        (let mid = (low + high) div 2 in
         if i = magics ! mid then mid
         else if i > magics ! mid
         then if low < mid then get_magic_loop i mid high else get_magic_loop i (low + 1) high
         else if high > mid then get_magic_loop i low mid else get_magic_loop i low (high - 1))
      else low)"
  by pat_completeness auto
termination
  by (relation "measure (\<lambda>(i, low, high). high - low)") auto

declare get_magic_loop.simps [simp del]

text \<open>\<open>None\<close> is the result -1.\<close>

definition get_magic :: "u64 \<Rightarrow> nat option" where
  "get_magic i = (if i \<le> biggest_magic then Some (get_magic_loop i 0 (nr_magics - 1)) else None)"

subsection \<open>The manager\<close>

record UcMemManager =
  mg_max :: u64
  mg_pools :: "nat \<Rightarrow> UcMemPool option"

definition put_pool :: "UcMemPool \<Rightarrow> UcMemManager \<Rightarrow> UcMemManager" where
  "put_pool p mg = mg\<lparr>mg_pools := (mg_pools mg)(p_self p \<mapsto> p)\<rparr>"

definition GetPool ::
  "nat \<Rightarrow> UcMemManager \<Rightarrow> mem_ctx \<Rightarrow> UcMemPool option \<times> UcMemManager \<times> mem_ctx" where
  "GetPool magic mg c =
     (case mg_pools mg magic of
        Some p \<Rightarrow> (Some p, mg, c)
      | None \<Rightarrow>
          (let c' = c\<lparr>c_reqs := Suc (c_reqs c)\<rparr> in
           if c_fail c (c_reqs c) then (None, mg, c')
           else
             (let p = \<lparr>p_self = magic, sz_each = magics ! magic, sz_total = 0, sz_free = 0,
                       sz_max = mg_max mg div of_nat nr_magics, p_free = []\<rparr>
              in (Some p, put_pool p mg, c'))))"

definition shrink_pool :: "nat \<Rightarrow> UcMemManager \<Rightarrow> mem_ctx \<Rightarrow> u64 \<times> UcMemManager \<times> mem_ctx" where
  "shrink_pool i mg c =
     (case GetPool i mg c of
        (None, mg, c) \<Rightarrow> (0, mg, c)
      | (Some p, mg, c) \<Rightarrow> (let (shk, p, c) = UcMemPool_Shrink p c in (shk, put_pool p mg, c)))"

text \<open>The first loop of \<open>UcMemManager::Shrink\<close>; the flag says that it returned from the function.\<close>

fun shrink_larger ::
  "nat list \<Rightarrow> u64 \<Rightarrow> u64 \<Rightarrow> UcMemManager \<Rightarrow> mem_ctx \<Rightarrow> bool \<times> u64 \<times> UcMemManager \<times> mem_ctx" where
  "shrink_larger [] sz_needed shk mg c = (False, shk, mg, c)"
| "shrink_larger (i # is) sz_needed shk mg c =
     (case GetPool i mg c of
        (None, mg, c) \<Rightarrow> shrink_larger is sz_needed shk mg c
      | (Some p, mg, c) \<Rightarrow>
          (let (s, p, c) = UcMemPool_Shrink p c; mg = put_pool p mg; shk = shk + s in
           if shk \<ge> sz_needed then (True, shk, mg, c) else shrink_larger is sz_needed shk mg c))"

fun shrink_smaller ::
  "nat list \<Rightarrow> u64 \<Rightarrow> UcMemManager \<Rightarrow> mem_ctx \<Rightarrow> u64 \<times> UcMemManager \<times> mem_ctx" where
  "shrink_smaller [] shk mg c = (shk, mg, c)"
| "shrink_smaller (i # is) shk mg c =
     (let (s, mg, c) = shrink_pool i mg c in shrink_smaller is (shk + s) mg c)"

definition Manager_Shrink :: "nat \<Rightarrow> UcMemManager \<Rightarrow> mem_ctx \<Rightarrow> u64 \<times> UcMemManager \<times> mem_ctx" where
  "Manager_Shrink magic mg c =
     (let (ret, shk, mg, c) = shrink_larger (rev [Suc magic..<nr_magics]) (magics ! magic) 0 mg c
      in if ret then (shk, mg, c) else shrink_smaller (rev [0..<magic]) shk mg c)"

definition UcMem_Alloc :: "u64 \<Rightarrow> UcMemManager \<Rightarrow> mem_ctx \<Rightarrow> nat option \<times> UcMemManager \<times> mem_ctx" where
  "UcMem_Alloc sz mg c =
     (case get_magic sz of
        None \<Rightarrow> (let (m, c) = new_UcMem_sz sz c in (m, mg, c))
      | Some magic \<Rightarrow>
          (case GetPool magic mg c of
             (None, mg, c) \<Rightarrow> (None, mg, c)
           | (Some p, mg, c) \<Rightarrow>
               (let (m, exceed_limit, p, c) = UcMemPool_Alloc p c; mg = put_pool p mg in
                if m = None \<and> exceed_limit
                then
                  (let (shk, mg, c) = Manager_Shrink magic mg c in
                   if shk \<noteq> 0
                   then
                     (case mg_pools mg magic of
                        None \<Rightarrow> (None, mg, c)
                      | Some p \<Rightarrow>
                          (let p = p\<lparr>sz_max := sz_max p + shk\<rparr>;
                               (m, _, p, c) = UcMemPool_Alloc p c
                           in (m, put_pool p mg, c)))
                   else (None, mg, c))
                else (m, mg, c))))"

text \<open>\<open>UcMemManager::Free\<close>; a directly allocated object is deleted, which frees its buffer.\<close>

definition UcMem_Free :: "nat option \<Rightarrow> UcMemManager \<Rightarrow> mem_ctx \<Rightarrow> UcMemManager \<times> mem_ctx" where
  "UcMem_Free m mg c =
     (case m of
        None \<Rightarrow> (mg, c)
      | Some m \<Rightarrow>
          (case c_pool c m of
             Some i \<Rightarrow>
               (case mg_pools mg i of
                  Some p \<Rightarrow> (put_pool (UcMemPool_Free m p) mg, c)
                | None \<Rightarrow> (mg, c))
           | None \<Rightarrow> (mg, set_mem m NULL (c_free (c_mem c m) c))))"

definition GetAllocSize :: "nat \<Rightarrow> UcMemManager \<Rightarrow> mem_ctx \<Rightarrow> u64" where
  "GetAllocSize m mg c =
     (case c_pool c m of
        None \<Rightarrow> 0
      | Some i \<Rightarrow> (case mg_pools mg i of Some p \<Rightarrow> sz_each p | None \<Rightarrow> 0))"

definition SetMaxSize :: "u64 \<Rightarrow> UcMemManager \<Rightarrow> UcMemManager" where
  "SetMaxSize sz mg = mg\<lparr>mg_max := sz\<rparr>"

definition GetInstance :: UcMemManager where
  "GetInstance = \<lparr>mg_max = 1024 * 1024 * 1024, mg_pools = (\<lambda>_. None)\<rparr>"

section \<open>Size classes\<close>

lemma magics_eq: "magics = map (\<lambda>k. 64 * 4 ^ k) [0..<10]"
  by (simp add: magics_def upt_rec)

lemma length_magics [simp]: "length magics = 10"
  by (simp add: magics_def)

lemma magics_nth: "k < 10 \<Longrightarrow> magics ! k = 64 * 4 ^ k"
  by (simp add: magics_eq)

lemma unat_magics: "k < 10 \<Longrightarrow> unat (magics ! k) = 64 * 4 ^ k"
proof -
  assume "k < 10"
  moreover have "map unat magics = map (\<lambda>k. 64 * 4 ^ k) [0..<10]" by (simp add: magics_def upt_rec)
  then have "map unat magics ! k = map (\<lambda>k. 64 * 4 ^ k) [0..<10] ! k" by (rule arg_cong)
  ultimately show ?thesis by simp
qed

lemma magics_mono: "j < k \<Longrightarrow> k < 10 \<Longrightarrow> magics ! j < magics ! k"
  unfolding word_less_nat_alt by (simp only: unat_magics less_trans) simp

text \<open>The search keeps the result between \<open>low\<close> and \<open>high\<close>: all classes below \<open>low\<close> are too small.\<close>

definition magic_between :: "u64 \<Rightarrow> nat \<Rightarrow> nat \<Rightarrow> bool" where
  "magic_between i low high \<longleftrightarrow> low \<le> high \<and> high < 10 \<and> i \<le> magics ! high \<and> (\<forall>k < low. magics ! k < i)"

lemma magic_below: "i > magics ! m \<Longrightarrow> m < 10 \<Longrightarrow> k \<le> m \<Longrightarrow> magics ! k < i"
  using magics_mono [of k m] by (cases "k = m") (auto dest: less_trans)

lemma get_magic_loop_least:
  "magic_between i low high \<Longrightarrow> magic_between i (get_magic_loop i low high) (get_magic_loop i low high)"
proof (induction i low high rule: get_magic_loop.induct)
  case (1 i low high)
  let ?mid = "(low + high) div 2"
  note step = get_magic_loop.simps [of i low high]
  show ?case
  proof (cases "low < high")
    case False
    with "1.prems" step show ?thesis by (simp add: magic_between_def)
  next
    case True
    then have mid: "low \<le> ?mid" "?mid < high" by auto
    with "1.prems" have lt: "?mid < 10" by (simp add: magic_between_def)
    consider "i = magics ! ?mid" | "i > magics ! ?mid" "low < ?mid" | "i > magics ! ?mid" "low = ?mid"
      | "i < magics ! ?mid" using mid by (metis le_neq_implies_less linorder_neqE)
    then show ?thesis
    proof cases
      case 1
      then show ?thesis using True lt step by (simp add: magic_between_def Let_def magics_mono)
    next
      case 2
      then have "magic_between i ?mid high"
        using "1.prems" mid magic_below [OF 2(1) lt] by (auto simp: magic_between_def)
      moreover have "i \<noteq> magics ! ?mid" using 2(1) by auto
      ultimately show ?thesis using "1.IH"(1) [OF True refl _ 2] 2 True step by (simp add: Let_def)
    next
      case 3
      then have "magic_between i (low + 1) high"
        using "1.prems" mid magic_below [OF 3(1) lt] True by (auto simp: magic_between_def)
      moreover have "i \<noteq> magics ! ?mid" "\<not> low < ?mid" using 3 by auto
      ultimately show ?thesis using "1.IH"(2) [OF True refl _ 3(1)] 3(1) True step by (simp add: Let_def)
    next
      case 4
      then have "magic_between i low ?mid" using "1.prems" mid by (auto simp: magic_between_def)
      moreover have "i \<noteq> magics ! ?mid" "\<not> magics ! ?mid < i" using 4 by auto
      ultimately show ?thesis using "1.IH"(3) [OF True refl _ _ mid(2)] mid(2) True step by (simp add: Let_def)
    qed
  qed
qed

text \<open>
  \<open>get_magic\<close> finds the smallest size class that holds \<open>i\<close> bytes; it returns -1 exactly for sizes
  above the largest class of 16 MB.
\<close>

theorem get_magic_least:
  "case get_magic i of
     None \<Rightarrow> i > 16777216
   | Some m \<Rightarrow> m < 10 \<and> i \<le> magics ! m \<and> (\<forall>k < m. magics ! k < i)"
proof (cases "i \<le> biggest_magic")
  case True
  then have "magic_between i 0 9"
    by (simp add: magic_between_def magics_def biggest_magic_def)
  from get_magic_loop_least [OF this] True show ?thesis by (simp add: get_magic_def magic_between_def)
qed (simp add: get_magic_def biggest_magic_def)

theorem get_magic_least_witness: "get_magic 65 = Some 1 \<and> (65::u64) \<le> magics ! 1 \<and> magics ! 0 < 65"
proof -
  have "get_magic 65 = Some 1"
    by (simp add: get_magic_def biggest_magic_def get_magic_loop.simps Let_def) (simp add: magics_def)
  with get_magic_least [of 65] show ?thesis by (simp add: magics_def)
qed

end
