(* ===== verification/Mem_Pool_Safe.thy ===== *)
theory Mem_Pool_Safe
  imports Mem_Pool
begin

text \<open>
  Safety of the memory pools: a buffer handed out is large enough and belongs to nobody else until
  it is released, and no call touches the contents of a buffer in use.  The interface \<open>allocator\<close>
  states these promises; it is interpreted on \<open>UcMemManager\<close>.
\<close>

section \<open>Ownership of buffers\<close>

fun blk_bytes :: "heap \<Rightarrow> ptr \<Rightarrow> byte list" where
  "blk_bytes h NULL = []"
| "blk_bytes h (Ptr b i) = h b"

definition buf_of :: "mem_ctx \<Rightarrow> nat \<Rightarrow> byte list" where
  "buf_of c m = blk_bytes (c_heap c) (c_mem c m)"

text \<open>Every object owns no buffer or a block of its own.\<close>

definition ctx_ok :: "mem_ctx \<Rightarrow> bool" where
  "ctx_ok c \<longleftrightarrow>
     (\<forall>m < c_objs c. c_mem c m = NULL \<or> (\<exists>k < c_blks c. c_mem c m = Ptr (Mem k) 0)) \<and>
     (\<forall>m < c_objs c. \<forall>n < c_objs c. c_mem c m = c_mem c n \<longrightarrow> c_mem c m \<noteq> NULL \<longrightarrow> m = n)"

lemma ctx_ok_mem: "ctx_ok c \<Longrightarrow> m < c_objs c \<Longrightarrow> c_mem c m = NULL \<or> (\<exists>k < c_blks c. c_mem c m = Ptr (Mem k) 0)"
  by (simp add: ctx_ok_def)

lemma ctx_ok_inj:
  "ctx_ok c \<Longrightarrow> m < c_objs c \<Longrightarrow> n < c_objs c \<Longrightarrow> c_mem c m = c_mem c n \<Longrightarrow> c_mem c m \<noteq> NULL \<Longrightarrow> m = n"
  unfolding ctx_ok_def by blast

text \<open>The free objects of a pool are not in use, and their buffers have the size of the pool.\<close>

definition pool_ok :: "mem_ctx \<Rightarrow> nat set \<Rightarrow> UcMemPool \<Rightarrow> bool" where
  "pool_ok c U p \<longleftrightarrow> p_self p < 10 \<and> sz_each p = magics ! p_self p \<and> distinct (p_free p) \<and>
     set (p_free p) \<inter> U = {} \<and>
     (\<forall>m \<in> set (p_free p). m < c_objs c \<and> (has_mem c m \<longrightarrow> length (buf_of c m) = unat (sz_each p)))"

text \<open>
  A call that works on the free objects \<open>S\<close> and on new ones leaves all other objects, their buffers
  and all memory outside the pools as they are.
\<close>

definition ctx_ext :: "nat set \<Rightarrow> mem_ctx \<Rightarrow> mem_ctx \<Rightarrow> bool" where
  "ctx_ext S c c' \<longleftrightarrow> c_objs c \<le> c_objs c' \<and>
     (\<forall>m < c_objs c. m \<notin> S \<longrightarrow>
        c_mem c' m = c_mem c m \<and> c_pool c' m = c_pool c m \<and> buf_of c' m = buf_of c m) \<and>
     (\<forall>b. (\<forall>k. b \<noteq> Mem k) \<longrightarrow> c_heap c' b = c_heap c b)"

lemma ctx_ext_refl [simp]: "ctx_ext S c c"
  by (simp add: ctx_ext_def)

lemma ctx_ext_reqs [simp]: "ctx_ext S c (c\<lparr>c_reqs := k\<rparr>)"
  by (simp add: ctx_ext_def buf_of_def)

lemma ctx_ok_reqs [simp]: "ctx_ok (c\<lparr>c_reqs := k\<rparr>) = ctx_ok c"
  by (simp add: ctx_ok_def)

lemma has_mem_reqs [simp]: "has_mem (c\<lparr>c_reqs := k\<rparr>) = has_mem c" "buf_of (c\<lparr>c_reqs := k\<rparr>) = buf_of c"
  by (simp_all add: has_mem_def buf_of_def fun_eq_iff)

lemma pool_ok_reqs [simp]: "pool_ok (c\<lparr>c_reqs := k\<rparr>) U p = pool_ok c U p"
  by (simp add: pool_ok_def)

lemma ctx_ext_trans:
  assumes "ctx_ext S c c1" "ctx_ext T c1 c2" "T \<subseteq> S \<union> {c_objs c..}"
  shows "ctx_ext S c c2"
proof -
  have "m \<notin> T" "m < c_objs c1" if "m < c_objs c" "m \<notin> S" for m
    using that assms by (auto simp: ctx_ext_def)
  with assms(1,2) show ?thesis by (auto simp: ctx_ext_def)
qed

lemma ctx_ext_mono: "ctx_ext S c c' \<Longrightarrow> S \<subseteq> T \<Longrightarrow> ctx_ext T c c'"
  unfolding ctx_ext_def by blast

text \<open>Buffers of different objects are different blocks.\<close>

lemma buf_of_upd:
  assumes "ctx_ok c" "m < c_objs c" "n < c_objs c" "m \<noteq> n" "c_mem c m = Ptr b i"
  shows "buf_of (c\<lparr>c_heap := (c_heap c)(b := v)\<rparr>) n = buf_of c n"
proof -
  from ctx_ok_mem [OF assms(1,2)] assms(5) obtain k where "b = Mem k" "i = 0" by auto
  moreover have "c_mem c n \<noteq> Ptr (Mem k) 0"
    using ctx_ok_inj [OF assms(1,2,3)] assms(4,5) calculation by auto
  ultimately show ?thesis using ctx_ok_mem [OF assms(1,3)] by (auto simp: buf_of_def)
qed

lemma c_malloc_ok:
  assumes "ctx_ok c" "m < c_objs c" "c_malloc n c = (q, c')"
  shows "ctx_ok (set_mem m q c') \<and> ctx_ext {m} c (set_mem m q c') \<and> c_objs c' = c_objs c \<and>
     c_pool c' = c_pool c \<and> (q \<noteq> NULL \<longrightarrow> length (buf_of (set_mem m q c') m) = n)"
proof (cases "c_fail c (c_reqs c)")
  case True
  with assms show ?thesis
    by (auto simp: c_malloc_def set_mem_def ctx_ok_def ctx_ext_def buf_of_def Let_def)
next
  case False
  with assms(3) have c': "q = Ptr (Mem (c_blks c)) 0"
    "c' = c\<lparr>c_reqs := Suc (c_reqs c), c_heap := (c_heap c)(Mem (c_blks c) := replicate n (c_junk c)), c_blks := Suc (c_blks c)\<rparr>"
    by (auto simp: c_malloc_def Let_def)
  have old: "c_mem c j = NULL \<or> (\<exists>k < c_blks c. c_mem c j = Ptr (Mem k) 0)" if "j < c_objs c" for j
    using assms(1) that by (simp add: ctx_ok_def)
  have "j = l"
    if "j < c_objs c" "l < c_objs c" "c_mem (set_mem m q c') j = c_mem (set_mem m q c') l"
      "c_mem (set_mem m q c') j \<noteq> NULL" for j l
    using old [OF that(1)] old [OF that(2)] ctx_ok_inj [OF assms(1) that(1,2)] that(3,4)
    by (auto simp: set_mem_def c' split: if_splits)
  moreover have "c_mem (set_mem m q c') j = NULL \<or> (\<exists>k < c_blks c'. c_mem (set_mem m q c') j = Ptr (Mem k) 0)"
    if "j < c_objs c" for j
    using old [OF that] by (auto simp: set_mem_def c')
  moreover have "buf_of (set_mem m q c') j = buf_of c j" if "j < c_objs c" "j \<noteq> m" for j
    using old [OF that(1)] that(2) by (auto simp: buf_of_def set_mem_def c')
  moreover have "buf_of (set_mem m q c') m = replicate n (c_junk c)"
    by (simp add: buf_of_def set_mem_def c')
  ultimately show ?thesis
    by (auto simp: ctx_ok_def ctx_ext_def set_mem_def c')
qed

lemma c_free_ok:
  assumes "ctx_ok c" "m < c_objs c"
  shows "ctx_ok (set_mem m NULL (c_free (c_mem c m) c)) \<and>
     ctx_ext {m} c (set_mem m NULL (c_free (c_mem c m) c)) \<and>
     c_objs (set_mem m NULL (c_free (c_mem c m) c)) = c_objs c"
proof (cases "c_mem c m")
  case NULL
  then have "set_mem m NULL (c_free (c_mem c m) c) = c" by (simp add: set_mem_def fun_upd_idem)
  with assms show ?thesis by simp
next
  case (Ptr b i)
  from ctx_ok_mem [OF assms] Ptr obtain k where b: "b = Mem k" by auto
  let ?c = "set_mem m NULL (c_free (c_mem c m) c)"
  have "buf_of ?c n = buf_of c n" if "n < c_objs c" "n \<noteq> m" for n
    using buf_of_upd [OF assms that(1) _ Ptr, of "[]"] that Ptr by (simp add: buf_of_def set_mem_def)
  moreover have "c_mem ?c = (c_mem c)(m := NULL)" "c_objs ?c = c_objs c" "c_blks ?c = c_blks c"
    "c_pool ?c = c_pool c" "\<And>b. (\<forall>k. b \<noteq> Mem k) \<Longrightarrow> c_heap ?c b = c_heap c b"
    using Ptr b by (simp_all add: set_mem_def)
  ultimately show ?thesis using assms(1) by (auto simp: ctx_ok_def ctx_ext_def)
qed

lemma set_pool_ok:
  "ctx_ok (set_pool m i c) = ctx_ok c" "m \<in> S \<Longrightarrow> ctx_ext S c (set_pool m i c)"
  "buf_of (set_pool m i c) = buf_of c" "c_mem (set_pool m i c) = c_mem c" "c_objs (set_pool m i c) = c_objs c"
  "has_mem (set_pool m i c) = has_mem c"
  by (auto simp: set_pool_def ctx_ok_def ctx_ext_def buf_of_def has_mem_def)

lemma new_UcMem_ok:
  assumes "ctx_ok c" "new_UcMem c = (r, c')"
  shows "ctx_ok c' \<and> ctx_ext {} c c' \<and>
     (case r of None \<Rightarrow> c_objs c' = c_objs c
      | Some m \<Rightarrow> m = c_objs c \<and> c_objs c' = Suc m \<and> c_mem c' m = NULL \<and> c_pool c' m = None)"
  using assms
  by (auto simp: new_UcMem_def Let_def set_mem_def set_pool_def ctx_ok_def ctx_ext_def buf_of_def
      less_Suc_eq split: if_splits)

subsection \<open>One pool\<close>

text \<open>What a call on pool \<open>p\<close> does, seen from outside.\<close>

definition pool_moves ::
  "mem_ctx \<Rightarrow> UcMemPool \<Rightarrow> nat set \<Rightarrow> mem_ctx \<Rightarrow> UcMemPool \<Rightarrow> bool" where
  "pool_moves c p U' c' p' \<longleftrightarrow> ctx_ok c' \<and> pool_ok c' U' p' \<and> ctx_ext (set (p_free p)) c c' \<and>
     p_self p' = p_self p \<and> set (p_free p') \<subseteq> set (p_free p) \<union> {c_objs c..<c_objs c'}"

lemma pool_moves_refl: "ctx_ok c \<Longrightarrow> pool_ok c U p \<Longrightarrow> pool_moves c p U c p"
  by (simp add: pool_moves_def)

lemma pool_moves_trans:
  assumes "pool_moves c p U1 c1 p1" "pool_moves c1 p1 U2 c2 p2"
  shows "pool_moves c p U2 c2 p2"
proof -
  from assms have "ctx_ext (set (p_free p)) c c2"
    by (intro ctx_ext_trans [of "set (p_free p)" c c1 "set (p_free p1)" c2]) (auto simp: pool_moves_def)
  moreover have "c_objs c \<le> c_objs c1" "c_objs c1 \<le> c_objs c2"
    using assms by (auto simp: pool_moves_def ctx_ext_def)
  ultimately show ?thesis using assms unfolding pool_moves_def by fastforce
qed

lemma pool_moves_counts:
  assumes "pool_moves c p U c' p'" "p_self q = p_self p'" "sz_each q = sz_each p'" "p_free q = p_free p'"
  shows "pool_moves c p U c' q"
  using assms by (simp add: pool_moves_def pool_ok_def)

lemma mpool_New_moves:
  assumes ok: "ctx_ok c" "pool_ok c U p" "U \<subseteq> {..<c_objs c}" and call: "mpool_New p c = (r, p', c')"
  shows "case r of None \<Rightarrow> pool_moves c p U c' p'
     | Some m \<Rightarrow> pool_moves c p (insert m U) c' p' \<and> m \<notin> U \<and> m < c_objs c' \<and>
         (m \<in> set (p_free p) \<or> c_objs c \<le> m) \<and>
         (has_mem c' m \<longrightarrow> length (buf_of c' m) = unat (sz_each p)) \<and> sz_each p' = sz_each p \<and>
         p' = p\<lparr>p_free := p_free p'\<rparr>"
proof (cases "p_free p")
  case (Cons m ms)
  with call ok show ?thesis by (auto simp: mpool_New_def pool_moves_def pool_ok_def)
next
  case Nil
  with call obtain r' where new: "new_UcMem c = (r, c')" and p': "p' = p"
    by (auto simp: mpool_New_def split: prod.splits)
  from new_UcMem_ok [OF ok(1) new] ok(2,3) Nil p' show ?thesis
    by (cases r) (auto simp: pool_moves_def pool_ok_def has_mem_def)
qed

lemma mpool_Delete_moves:
  assumes "pool_moves c p (insert m U) c' p'" "m \<notin> U" "m < c_objs c'"
    and "m \<in> set (p_free p) \<or> c_objs c \<le> m"
    and "has_mem c' m \<longrightarrow> length (buf_of c' m) = unat (sz_each p')"
  shows "pool_moves c p U c' (mpool_Delete m p')"
  using assms by (auto simp: pool_moves_def pool_ok_def mpool_Delete_def)

lemma pool_moves_ctx:
  assumes mv: "pool_moves c p (insert m U) c1 p1" and c2: "ctx_ok c2" "ctx_ext {m} c1 c2" "c_objs c2 = c_objs c1"
    and m: "m \<in> set (p_free p) \<or> c_objs c \<le> m"
  shows "pool_moves c p (insert m U) c2 p1"
proof -
  have free: "n < c_objs c1 \<and> n \<noteq> m" if "n \<in> set (p_free p1)" for n
    using mv that by (auto simp: pool_moves_def pool_ok_def)
  have same: "c_mem c2 n = c_mem c1 n \<and> buf_of c2 n = buf_of c1 n" if "n \<in> set (p_free p1)" for n
    using c2(2) free [OF that] by (auto simp: ctx_ext_def)
  have "pool_ok c2 (insert m U) p1"
    using mv c2(3) free same by (auto simp: pool_moves_def pool_ok_def has_mem_def)
  moreover have "ctx_ext (set (p_free p)) c c2"
    using mv c2(2) m by (intro ctx_ext_trans [of _ c c1 "{m}" c2]) (auto simp: pool_moves_def)
  ultimately show ?thesis using mv c2(1,3) by (simp add: pool_moves_def)
qed

lemma set_mem_NULL: "c_mem c m = NULL \<Longrightarrow> set_mem m NULL c = c"
  by (simp add: set_mem_def fun_upd_idem)

lemma UcMemPool_Alloc_moves:
  assumes ok: "ctx_ok c" "pool_ok c U p" "U \<subseteq> {..<c_objs c}"
    and call: "UcMemPool_Alloc p c = (r, ex, p', c')"
  shows "case r of None \<Rightarrow> pool_moves c p U c' p'
     | Some m \<Rightarrow> pool_moves c p (insert m U) c' p' \<and> m \<notin> U \<and> m < c_objs c' \<and>
         (m \<in> set (p_free p) \<or> c_objs c \<le> m) \<and> c_pool c' m = Some (p_self p) \<and> has_mem c' m \<and>
         length (buf_of c' m) = unat (sz_each p)"
proof -
  obtain q p1 c1 where new: "mpool_New p c = (q, p1, c1)" by (cases "mpool_New p c")
  note mv = mpool_New_moves [OF ok new]
  show ?thesis
  proof (cases q)
    case None
    with mv new call show ?thesis by (auto simp: UcMemPool_Alloc_def)
  next
    case (Some m)
    with mv have m: "pool_moves c p (insert m U) c1 p1" "m \<notin> U" "m < c_objs c1"
      "m \<in> set (p_free p) \<or> c_objs c \<le> m" "has_mem c1 m \<longrightarrow> length (buf_of c1 m) = unat (sz_each p)"
      "sz_each p1 = sz_each p" "p_self p1 = p_self p"
      by (auto simp: pool_moves_def)
    let ?c = "set_pool m (Some (p_self p1)) c1"
    have c1: "ctx_ok c1" using m(1) by (simp add: pool_moves_def)
    have mv2: "pool_moves c p (insert m U) ?c p1"
      using m(1,4) c1 by (intro pool_moves_ctx [OF m(1)]) (simp_all add: set_pool_ok)
    show ?thesis
    proof (cases "has_mem c1 m")
      case True
      then have "r = Some m" "c' = ?c" "p_self p' = p_self p1" "sz_each p' = sz_each p1" "p_free p' = p_free p1"
        using new Some call by (auto simp: UcMemPool_Alloc_def Let_def set_pool_ok has_mem_def)
      with mv2 m True show ?thesis
        using pool_moves_counts [OF mv2, of p'] by (simp add: set_pool_ok) (simp add: set_pool_def)
    next
      case False
      then have null: "c_mem ?c m = NULL" by (simp add: has_mem_def set_pool_ok)
      obtain b c2 where mal: "c_malloc (unat (sz_each p1)) ?c = (b, c2)"
        by (cases "c_malloc (unat (sz_each p1)) ?c")
      from c_malloc_ok [OF _ _ mal, of m] c1 m(3)
      have c2: "ctx_ok (set_mem m b c2)" "ctx_ext {m} ?c (set_mem m b c2)" "c_objs c2 = c_objs ?c"
        "c_pool c2 = c_pool ?c" "b \<noteq> NULL \<longrightarrow> length (buf_of (set_mem m b c2) m) = unat (sz_each p1)"
        by (simp_all add: set_pool_ok)
      have mv3: "pool_moves c p (insert m U) (set_mem m b c2) p1"
        using mv2 c2(1,2,3) m(4) by (rule_tac pool_moves_ctx) (simp_all add: set_mem_def)
      have no: "\<not> has_mem ?c m" using null by (simp add: has_mem_def)
      have objs: "c_objs (set_mem m b c2) = c_objs c1" using c2(3) by (simp add: set_mem_def set_pool_ok)
      have bm: "has_mem (set_mem m b c2) m \<longleftrightarrow> b \<noteq> NULL" by (simp add: has_mem_set_mem)
      have "c_pool (set_mem m b c2) m = Some (p_self p1)" using c2(4) by (simp add: set_mem_def set_pool_def)
      with call new Some null mal m mv2 mv3 c2(5) objs bm no
        pool_moves_counts [OF mv3, of "p1\<lparr>sz_total := sz_total p1 + sz_each p1\<rparr>"]
      show ?thesis
        by (auto simp: UcMemPool_Alloc_def Let_def set_pool_ok split: if_splits
            intro!: mpool_Delete_moves)
    qed
  qed
qed

lemma shrink_loop_moves:
  "ctx_ok c \<Longrightarrow> pool_ok c U p \<Longrightarrow> U \<subseteq> {..<c_objs c} \<Longrightarrow> shrink_loop mf s p c = (s', p', c') \<Longrightarrow>
   pool_moves c p U c' p'"
proof (induction mf s p c rule: shrink_loop.induct)
  case (1 mf s p c)
  show ?case
  proof (cases "sz_free p > mf")
    case False
    with "1.prems" show ?thesis by (auto simp: shrink_loop.simps [of mf s p c] pool_moves_refl)
  next
    case True
    obtain q p1 c1 where new: "mpool_New p c = (q, p1, c1)" by (cases "mpool_New p c")
    note mv = mpool_New_moves [OF "1.prems"(1-3) new]
    show ?thesis
    proof (cases q)
      case None
      with mv new True "1.prems"(4) show ?thesis by (simp add: shrink_loop.simps [of mf s p c])
    next
      case (Some m)
      with mv have m: "pool_moves c p (insert m U) c1 p1" "m \<notin> U" "m < c_objs c1"
        "m \<in> set (p_free p) \<or> c_objs c \<le> m" "has_mem c1 m \<longrightarrow> length (buf_of c1 m) = unat (sz_each p)"
        "sz_each p1 = sz_each p" "p_self p1 = p_self p"
        by (auto simp: pool_moves_def)
      show ?thesis
      proof (cases "c_mem c1 m = NULL")
        case null: True
        with new Some True "1.prems"(4) m show ?thesis
          by (auto simp: shrink_loop.simps [of mf s p c] has_mem_def intro!: mpool_Delete_moves)
      next
        case False
        let ?c = "set_mem m NULL (c_free (c_mem c1 m) c1)"
        let ?p = "(mpool_Delete m p1)\<lparr>sz_free := (if sz_free (mpool_Delete m p1) < sz_each (mpool_Delete m p1)
          then sz_free (mpool_Delete m p1) else sz_free (mpool_Delete m p1) - sz_each (mpool_Delete m p1))\<rparr>"
        have c1: "ctx_ok c1" using m(1) by (simp add: pool_moves_def)
        note fr = c_free_ok [OF c1 m(3)]
        then have mv2: "pool_moves c p (insert m U) ?c p1" by (intro pool_moves_ctx [OF m(1)] m(4)) auto
        have "pool_moves c p U ?c (mpool_Delete m p1)"
          using mv2 m(2,3,4) fr by (intro mpool_Delete_moves) (auto simp: has_mem_set_mem)
        then have mv3: "pool_moves c p U ?c ?p" by (rule pool_moves_counts) simp_all
        have "shrink_loop mf (s + sz_each ?p) ?p ?c = (s', p', c')"
          using "1.prems"(4) True new Some False by (simp add: shrink_loop.simps [of mf s p c] Let_def)
        moreover have "U \<subseteq> {..<c_objs ?c}" using "1.prems"(3) mv3 by (auto simp: pool_moves_def ctx_ext_def)
        ultimately have "pool_moves ?c ?p U c' p'"
          using "1.IH" [OF True new [symmetric] Some refl False refl refl refl] mv3
          by (simp add: pool_moves_def)
        with mv3 show ?thesis by (rule pool_moves_trans)
      qed
    qed
  qed
qed

lemma UcMemPool_Shrink_moves:
  assumes "ctx_ok c" "pool_ok c U p" "U \<subseteq> {..<c_objs c}" "UcMemPool_Shrink p c = (s', p', c')"
  shows "pool_moves c p U c' p'"
proof -
  obtain s1 p1 c1 where l: "shrink_loop (if sz_max p div 4 > sz_total p then sz_total p else sz_max p div 4) 0 p c = (s1, p1, c1)"
    by (metis surj_pair)
  note mv = shrink_loop_moves [OF assms(1-3) l]
  have "p_self p' = p_self p \<and> sz_each p' = sz_each p \<and> p_free p' = p_free p \<and> c' = c \<or>
      p_self p' = p_self p1 \<and> sz_each p' = sz_each p1 \<and> p_free p' = p_free p1 \<and> c' = c1"
    using assms(4) l by (auto simp: UcMemPool_Shrink_def Let_def split: if_splits)
  then show ?thesis
    using pool_moves_counts [OF mv] pool_moves_counts [OF pool_moves_refl [OF assms(1,2)]] by auto
qed


subsection \<open>The manager\<close>

text \<open>
  The invariant of the manager, with the set \<open>U\<close> of the objects in use: the pools own disjoint sets
  of free objects, and every pooled object in use has a buffer of its size class.
\<close>

definition mgr_ok :: "UcMemManager \<Rightarrow> mem_ctx \<Rightarrow> nat set \<Rightarrow> bool" where
  "mgr_ok mg c U \<longleftrightarrow> ctx_ok c \<and> U \<subseteq> {..<c_objs c} \<and>
     (\<forall>i p. mg_pools mg i = Some p \<longrightarrow> p_self p = i \<and> pool_ok c U p) \<and>
     (\<forall>i j p q. mg_pools mg i = Some p \<longrightarrow> mg_pools mg j = Some q \<longrightarrow> i \<noteq> j \<longrightarrow>
        set (p_free p) \<inter> set (p_free q) = {}) \<and>
     (\<forall>m \<in> U. \<forall>i. c_pool c m = Some i \<longrightarrow>
        mg_pools mg i \<noteq> None \<and> has_mem c m \<and> length (buf_of c m) = unat (magics ! i))"

lemma mgr_okI:
  assumes "ctx_ok c" "U \<subseteq> {..<c_objs c}"
    "\<And>i p. mg_pools mg i = Some p \<Longrightarrow> p_self p = i \<and> pool_ok c U p"
    "\<And>i j p q. mg_pools mg i = Some p \<Longrightarrow> mg_pools mg j = Some q \<Longrightarrow> i \<noteq> j \<Longrightarrow>
       set (p_free p) \<inter> set (p_free q) = {}"
    "\<And>m i. m \<in> U \<Longrightarrow> c_pool c m = Some i \<Longrightarrow>
       mg_pools mg i \<noteq> None \<and> has_mem c m \<and> length (buf_of c m) = unat (magics ! i)"
  shows "mgr_ok mg c U"
  unfolding mgr_ok_def using assms by simp

lemma mgr_okD:
  assumes "mgr_ok mg c U"
  shows "ctx_ok c" "U \<subseteq> {..<c_objs c}"
    "mg_pools mg i = Some p \<Longrightarrow> p_self p = i \<and> pool_ok c U p"
    "mg_pools mg i = Some p \<Longrightarrow> mg_pools mg j = Some q \<Longrightarrow> i \<noteq> j \<Longrightarrow> set (p_free p) \<inter> set (p_free q) = {}"
    "m \<in> U \<Longrightarrow> c_pool c m = Some i \<Longrightarrow>
       mg_pools mg i \<noteq> None \<and> has_mem c m \<and> length (buf_of c m) = unat (magics ! i)"
  using assms unfolding mgr_ok_def by simp_all

text \<open>The buffers in use, and all memory outside the pools, survive.\<close>

definition keeps :: "nat set \<Rightarrow> mem_ctx \<Rightarrow> mem_ctx \<Rightarrow> bool" where
  "keeps U c c' \<longleftrightarrow>
     (\<forall>m \<in> U. c_mem c' m = c_mem c m \<and> c_pool c' m = c_pool c m \<and> buf_of c' m = buf_of c m) \<and>
     (\<forall>b. (\<forall>k. b \<noteq> Mem k) \<longrightarrow> c_heap c' b = c_heap c b)"

lemma keeps_refl [simp]: "keeps U c c"
  by (simp add: keeps_def)

lemma keeps_reqs [simp]: "keeps U c (c\<lparr>c_reqs := k\<rparr>)"
  by (simp add: keeps_def)

lemma keeps_trans: "keeps U c c1 \<Longrightarrow> keeps V c1 c2 \<Longrightarrow> U \<subseteq> V \<Longrightarrow> keeps U c c2"
  unfolding keeps_def by (simp add: subset_iff)

lemma mgr_ok_reqs [simp]: "mgr_ok mg (c\<lparr>c_reqs := k\<rparr>) U = mgr_ok mg c U"
  by (simp add: mgr_ok_def)

text \<open>A call on one pool keeps the invariant of the manager.\<close>

lemma mgr_ok_put:
  assumes ok: "mgr_ok mg c U" and p: "mg_pools mg i = Some p" and mv: "pool_moves c p V c' p'"
    and V: "U \<subseteq> V" "V \<subseteq> {..<c_objs c'}" "\<And>m. m \<in> V - U \<Longrightarrow> m \<in> set (p_free p) \<or> c_objs c \<le> m"
    and new: "\<And>m. m \<in> V - U \<Longrightarrow> c_pool c' m = Some i \<and> has_mem c' m \<and> length (buf_of c' m) = unat (magics ! i)"
  shows "mgr_ok (put_pool p' mg) c' V \<and> keeps U c c'"
proof -
  have self: "p_self p = i" "p_self p' = i" and ext: "ctx_ext (set (p_free p)) c c'"
    and sub: "set (p_free p') \<subseteq> set (p_free p) \<union> {c_objs c..<c_objs c'}"
    and pok: "pool_ok c U p" "pool_ok c' V p'"
    using mgr_okD(3) [OF ok p] mv by (simp_all add: pool_moves_def)
  have oU: "m < c_objs c" "m \<notin> set (p_free p)" if "m \<in> U" for m
    using that mgr_okD(2) [OF ok] pok(1) unfolding pool_ok_def by blast+
  have keep: "keeps U c c'" using ext oU by (auto simp: keeps_def ctx_ext_def)
  have other: "pool_ok c' V q \<and> set (p_free q) \<inter> set (p_free p') = {}"
    if q: "mg_pools mg j = Some q" "j \<noteq> i" for j q
  proof -
    have qok: "pool_ok c U q" and dis: "set (p_free q) \<inter> set (p_free p) = {}"
      using mgr_okD(3) [OF ok q(1)] mgr_okD(4) [OF ok q(1) p q(2)] by simp_all
    have old: "m < c_objs c" "m \<notin> set (p_free p)" if "m \<in> set (p_free q)" for m
      using that qok dis by (auto simp: pool_ok_def)
    have "c_mem c' m = c_mem c m" "buf_of c' m = buf_of c m" "m < c_objs c'" "m \<notin> V" if "m \<in> set (p_free q)" for m
      using ext old [OF that] V(3) [of m] qok that by (auto simp: ctx_ext_def pool_ok_def)
    then have "pool_ok c' V q" using qok by (auto simp: pool_ok_def has_mem_def)
    moreover have "m \<notin> set (p_free p')" if "m \<in> set (p_free q)" for m
      using sub old [OF that] by auto
    ultimately show ?thesis by blast
  qed
  have used: "mg_pools (put_pool p' mg) k \<noteq> None \<and> has_mem c' m \<and> length (buf_of c' m) = unat (magics ! k)"
    if "m \<in> V" "c_pool c' m = Some k" for m k
  proof (cases "m \<in> U")
    case True
    with keep that mgr_okD(5) [OF ok True] show ?thesis by (auto simp: keeps_def put_pool_def has_mem_def)
  next
    case False
    with new [of m] that self show ?thesis by (auto simp: put_pool_def)
  qed
  have pools: "mg_pools (put_pool p' mg) k = (if k = i then Some p' else mg_pools mg k)" for k
    using self by (simp add: put_pool_def)
  have c': "ctx_ok c'" using mv by (simp add: pool_moves_def)
  have p1: "p_self q = k \<and> pool_ok c' V q" if "mg_pools (put_pool p' mg) k = Some q" for k q
    using that self pok(2) other [of k q] mgr_okD(3) [OF ok, of k q] by (cases "k = i") (auto simp: pools)
  have p2: "set (p_free q) \<inter> set (p_free q') = {}"
    if kq: "mg_pools (put_pool p' mg) k = Some q" "mg_pools (put_pool p' mg) k' = Some q'" "k \<noteq> k'" for k k' q q'
  proof -
    note kq' = kq(1,2) [unfolded pools]
    show ?thesis
    proof (cases "k = i")
      case True
      with kq' kq(3) other [of k' q'] show ?thesis by auto
    next
      case False
      with kq' kq(3) other [of k q] mgr_okD(4) [OF ok, of k q k' q'] show ?thesis
        by (cases "k' = i") simp_all
    qed
  qed
  have "mgr_ok (put_pool p' mg) c' V" using c' V(2) p1 p2 used by (rule mgr_okI)
  with keep show ?thesis by blast
qed

lemma mgr_ok_new_pool:
  assumes ok: "mgr_ok mg c U" and p: "p_self p < 10" "sz_each p = magics ! p_self p" "p_free p = []"
    and none: "mg_pools mg (p_self p) = None"
  shows "mgr_ok (put_pool p mg) c U"
proof -
  have "pool_ok c U p" using p by (simp add: pool_ok_def)
  then have p1: "p_self q = i \<and> pool_ok c U q" if "mg_pools (put_pool p mg) i = Some q" for i q
    using that mgr_okD(3) [OF ok, of i q] by (auto simp: put_pool_def split: if_splits)
  have p2: "set (p_free q) \<inter> set (p_free q') = {}"
    if "mg_pools (put_pool p mg) i = Some q" "mg_pools (put_pool p mg) j = Some q'" "i \<noteq> j" for i j q q'
  proof (cases "q = p \<or> q' = p")
    case False
    then have "mg_pools mg i = Some q" "mg_pools mg j = Some q'"
      using that by (auto simp: put_pool_def split: if_splits)
    then show ?thesis using mgr_okD(4) [OF ok] that(3) by blast
  qed (use p(3) in auto)
  have "mg_pools (put_pool p mg) i \<noteq> None" if "mg_pools mg i \<noteq> None" for i
    using that by (simp add: put_pool_def)
  then show ?thesis using mgr_okD [OF ok] p1 p2 by (intro mgr_okI) auto
qed

lemma GetPool_ok:
  assumes "mgr_ok mg c U" "i < 10" "GetPool i mg c = (r, mg', c')"
  shows "mgr_ok mg' c' U \<and> keeps U c c' \<and> mg_pools mg' i = r"
proof (cases "mg_pools mg i")
  case (Some p)
  with assms show ?thesis by (auto simp: GetPool_def)
next
  case None
  let ?p = "\<lparr>p_self = i, sz_each = magics ! i, sz_total = 0, sz_free = 0,
                       sz_max = mg_max mg div of_nat nr_magics, p_free = []\<rparr>"
  have "mgr_ok (put_pool ?p mg) c U" using mgr_ok_new_pool [OF assms(1), of ?p] assms(2) None by simp
  with assms None show ?thesis by (auto simp: GetPool_def Let_def put_pool_def split: if_splits)
qed

lemma mgr_ok_pool: "mgr_ok mg c U \<Longrightarrow> mg_pools mg i = Some p \<Longrightarrow> p_self p = i \<and> pool_ok c U p \<and> ctx_ok c \<and> U \<subseteq> {..<c_objs c}"
  by (simp add: mgr_ok_def)

lemma mgr_pool_moves:
  assumes "mgr_ok mg c U" "mg_pools mg i = Some p" "pool_moves c p U c' p'"
  shows "mgr_ok (put_pool p' mg) c' U \<and> keeps U c c'"
proof -
  have "c_objs c \<le> c_objs c'" using assms(3) by (simp add: pool_moves_def ctx_ext_def)
  then show ?thesis using assms mgr_ok_pool [OF assms(1,2)] by (intro mgr_ok_put) auto
qed

lemma shrink_pool_ok:
  assumes "mgr_ok mg c U" "mg_pools mg i = Some p" "UcMemPool_Shrink p c = (s, p', c')"
  shows "mgr_ok (put_pool p' mg) c' U \<and> keeps U c c'"
  using mgr_ok_pool [OF assms(1,2)] UcMemPool_Shrink_moves [of c U p s p' c'] assms
  by (intro mgr_pool_moves) auto

lemma shrink_larger_ok:
  "mgr_ok mg c U \<Longrightarrow> \<forall>i \<in> set is. i < 10 \<Longrightarrow> shrink_larger is n s mg c = (d, s', mg', c') \<Longrightarrow>
   mgr_ok mg' c' U \<and> keeps U c c'"
proof (induction "is" n s mg c rule: shrink_larger.induct)
  case (2 i "is" n s mg c)
  obtain r mg1 c1 where g: "GetPool i mg c = (r, mg1, c1)" by (cases "GetPool i mg c")
  from GetPool_ok [OF "2.prems"(1) _ g] "2.prems"(2)
  have g1: "mgr_ok mg1 c1 U" "keeps U c c1" "mg_pools mg1 i = r" by auto
  show ?case
  proof (cases r)
    case None
    with "2.IH"(1) [OF g [symmetric]] g g1 "2.prems" show ?thesis by (auto dest: keeps_trans)
  next
    case (Some p)
    obtain s1 p1 c2 where sh: "UcMemPool_Shrink p c1 = (s1, p1, c2)" by (cases "UcMemPool_Shrink p c1")
    from shrink_pool_ok [OF g1(1) _ sh] g1(3) Some have s2: "mgr_ok (put_pool p1 mg1) c2 U" "keeps U c1 c2" by auto
    have k: "keeps U c c2" using g1(2) s2(2) by (rule keeps_trans) simp
    show ?thesis
    proof (cases "n \<le> s + s1")
      case True
      with "2.prems"(3) g Some sh s2 k show ?thesis by auto
    next
      case False
      then have "shrink_larger is n (s + s1) (put_pool p1 mg1) c2 = (d, s', mg', c')"
        using "2.prems"(3) g Some sh by simp
      with "2.IH"(2) [OF g [symmetric] Some refl sh [symmetric] refl refl refl refl] False s2(1) "2.prems"(2)
      have "mgr_ok mg' c' U \<and> keeps U c2 c'" by auto
      with k show ?thesis by (auto dest: keeps_trans)
    qed
  qed
qed simp

lemma shrink_smaller_ok:
  "mgr_ok mg c U \<Longrightarrow> \<forall>i \<in> set is. i < 10 \<Longrightarrow> shrink_smaller is s mg c = (s', mg', c') \<Longrightarrow>
   mgr_ok mg' c' U \<and> keeps U c c'"
proof (induction "is" s mg c rule: shrink_smaller.induct)
  case (2 i "is" s mg c)
  obtain r mg1 c1 where g: "GetPool i mg c = (r, mg1, c1)" by (cases "GetPool i mg c")
  from GetPool_ok [OF "2.prems"(1) _ g] "2.prems"(2)
  have g1: "mgr_ok mg1 c1 U" "keeps U c c1" "mg_pools mg1 i = r" by auto
  obtain s1 mg2 c2 where sp: "shrink_pool i mg c = (s1, mg2, c2)" by (cases "shrink_pool i mg c")
  have "mgr_ok mg2 c2 U \<and> keeps U c1 c2"
  proof (cases r)
    case None
    with sp g g1 show ?thesis by (auto simp: shrink_pool_def)
  next
    case (Some p)
    with sp g g1 shrink_pool_ok [OF g1(1)] show ?thesis
      by (auto simp: shrink_pool_def split: prod.splits)
  qed
  moreover have "shrink_smaller is (s + s1) mg2 c2 = (s', mg', c')" using "2.prems"(3) sp by simp
  ultimately have "mgr_ok mg' c' U \<and> keeps U c2 c'" "keeps U c c2"
    using "2.IH" [OF sp [symmetric]] "2.prems"(2) g1(2) by (auto dest: keeps_trans)
  then show ?case by (auto dest: keeps_trans)
qed simp

lemma Manager_Shrink_ok:
  assumes "mgr_ok mg c U" "i < 10" "Manager_Shrink i mg c = (s, mg', c')"
  shows "mgr_ok mg' c' U \<and> keeps U c c'"
proof -
  obtain d s1 mg1 c1 where l: "shrink_larger (rev [Suc i..<nr_magics]) (magics ! i) 0 mg c = (d, s1, mg1, c1)"
    by (metis surj_pair)
  have l1: "mgr_ok mg1 c1 U" "keeps U c c1" using shrink_larger_ok [OF assms(1) _ l] by auto
  show ?thesis
  proof (cases d)
    case True
    with assms(3) l l1 show ?thesis by (simp add: Manager_Shrink_def)
  next
    case False
    with assms(3) l have "shrink_smaller (rev [0..<i]) s1 mg1 c1 = (s, mg', c')"
      by (simp add: Manager_Shrink_def)
    from shrink_smaller_ok [OF l1(1) _ this] l1(2) assms(2) show ?thesis by (auto dest: keeps_trans)
  qed
qed

lemma mgr_ok_direct:
  assumes ok: "mgr_ok mg c U" and c': "ctx_ok c'" "ctx_ext {} c c'"
    and V: "U \<subseteq> V" "V \<subseteq> U \<union> {c_objs c..<c_objs c'}" "\<And>m. m \<in> V - U \<Longrightarrow> c_pool c' m = None"
  shows "mgr_ok mg c' V \<and> keeps U c c'"
proof -
  have le: "c_objs c \<le> c_objs c'" using c'(2) by (simp add: ctx_ext_def)
  have same: "c_mem c' m = c_mem c m" "c_pool c' m = c_pool c m" "buf_of c' m = buf_of c m" if "m < c_objs c" for m
    using c'(2) that by (simp_all add: ctx_ext_def)
  have pools: "p_self p = i \<and> pool_ok c' V p" if "mg_pools mg i = Some p" for i p
  proof -
    from mgr_okD(3) [OF ok that] have p: "p_self p = i" "pool_ok c U p" by simp_all
    then have "m < c_objs c \<and> m \<notin> V" if "m \<in> set (p_free p)" for m
      using that subsetD [OF V(2), of m] unfolding pool_ok_def by fastforce
    with p same le show ?thesis by (fastforce simp: pool_ok_def has_mem_def)
  qed
  have used: "mg_pools mg i \<noteq> None \<and> has_mem c' m \<and> length (buf_of c' m) = unat (magics ! i)"
    if "m \<in> V" "c_pool c' m = Some i" for m i
  proof (cases "m \<in> U")
    case True
    then have "m < c_objs c" using mgr_okD(2) [OF ok] by auto
    with same that True mgr_okD(5) [OF ok True, of i] show ?thesis by (simp add: has_mem_def)
  next
    case False
    with V(3) [of m] that show ?thesis by simp
  qed
  have "U \<union> {c_objs c..<c_objs c'} \<subseteq> {..<c_objs c'}" using mgr_okD(2) [OF ok] le by auto
  with V(2) have "V \<subseteq> {..<c_objs c'}" by (rule order_trans)
  with c'(1) have "mgr_ok mg c' V" using pools mgr_okD(4) [OF ok] used by (rule mgr_okI)
  moreover have "keeps U c c'" using c'(2) mgr_okD(2) [OF ok] by (auto simp: keeps_def ctx_ext_def)
  ultimately show ?thesis by blast
qed

lemma new_UcMem_sz_ok:
  assumes ok: "mgr_ok mg c U" and call: "new_UcMem_sz sz c = (r, c')"
  shows "keeps U c c' \<and>
     (case r of None \<Rightarrow> mgr_ok mg c' U | Some m \<Rightarrow> m \<notin> U \<and> mgr_ok mg c' (insert m U))"
proof -
  obtain q c1 where new: "new_UcMem c = (q, c1)" by (cases "new_UcMem c")
  note n = new_UcMem_ok [OF mgr_okD(1) [OF ok] new]
  show ?thesis
  proof (cases q)
    case None
    with new call n mgr_ok_direct [OF ok, of c1 U] show ?thesis by (auto simp: new_UcMem_sz_def)
  next
    case (Some m)
    with n have m: "m = c_objs c" "c_objs c1 = Suc m" "c_pool c1 m = None" "ctx_ok c1" "ctx_ext {} c c1" by auto
    obtain p c2 where mal: "c_malloc (unat sz) c1 = (p, c2)" by (cases "c_malloc (unat sz) c1")
    from c_malloc_ok [OF m(4) _ mal, of m] m(2)
    have c2: "ctx_ok (set_mem m p c2)" "ctx_ext {m} c1 (set_mem m p c2)" "c_objs c2 = c_objs c1" "c_pool c2 = c_pool c1"
      by auto
    have "ctx_ext {} c (set_mem m p c2)" using m(1,5) c2(2) by (auto intro: ctx_ext_trans)
    then have "mgr_ok mg (set_mem m p c2) (insert m U) \<and> keeps U c (set_mem m p c2)"
      using c2 m by (intro mgr_ok_direct [OF ok c2(1)]) (auto simp: set_mem_def)
    moreover have "m \<notin> U" using m(1) mgr_okD(2) [OF ok] by auto
    ultimately show ?thesis using call new Some mal by (auto simp: new_UcMem_sz_def)
  qed
qed

lemma pool_Alloc_ok:
  assumes ok: "mgr_ok mg c U" and p: "mg_pools mg i = Some p" and call: "UcMemPool_Alloc p c = (r, ex, p', c')"
  shows "keeps U c c' \<and>
     (case r of None \<Rightarrow> mgr_ok (put_pool p' mg) c' U
      | Some m \<Rightarrow> m \<notin> U \<and> mgr_ok (put_pool p' mg) c' (insert m U) \<and> c_pool c' m = Some i)"
proof -
  from mgr_okD(1-3) [OF ok] p have c: "ctx_ok c" "U \<subseteq> {..<c_objs c}" "pool_ok c U p" "p_self p = i" by auto
  note mv = UcMemPool_Alloc_moves [OF c(1,3,2) call]
  show ?thesis
  proof (cases r)
    case None
    with mv mgr_pool_moves [OF ok p] show ?thesis by simp
  next
    case (Some m)
    with mv have m: "pool_moves c p (insert m U) c' p'" "m \<notin> U" "m < c_objs c'" "m \<in> set (p_free p) \<or> c_objs c \<le> m"
      "c_pool c' m = Some i" "has_mem c' m" "length (buf_of c' m) = unat (sz_each p)" using c(4) by auto
    have "c_objs c \<le> c_objs c'" using m(1) by (simp add: pool_moves_def ctx_ext_def)
    moreover have "sz_each p = magics ! i" using c(3,4) by (simp add: pool_ok_def)
    ultimately have "mgr_ok (put_pool p' mg) c' (insert m U) \<and> keeps U c c'"
      using m c(2) by (intro mgr_ok_put [OF ok p m(1)]) auto
    with Some m(2,5) show ?thesis by simp
  qed
qed

lemma put_pool_at: "p_self p = i \<Longrightarrow> mg_pools (put_pool p mg) i = Some p"
  by (simp add: put_pool_def)

lemma mgr_ok_max: "mgr_ok mg c U \<Longrightarrow> mg_pools mg i = Some p \<Longrightarrow> mgr_ok (put_pool (p\<lparr>sz_max := n\<rparr>) mg) c U"
  using mgr_pool_moves [of mg c U i p c "p\<lparr>sz_max := n\<rparr>"] mgr_ok_pool [of mg c U i p]
  by (simp add: pool_moves_def pool_ok_def)

text \<open>The central lemma on \<open>Alloc\<close>; \<open>c_pool\<close> of a pooled object gives the size of its buffer.\<close>

lemma UcMem_Alloc_ok:
  assumes ok: "mgr_ok mg c U" and call: "UcMem_Alloc sz mg c = (r, mg', c')"
  shows "keeps U c c' \<and>
     (case r of None \<Rightarrow> mgr_ok mg' c' U
      | Some m \<Rightarrow> m \<notin> U \<and> mgr_ok mg' c' (insert m U) \<and> (sz \<le> 16777216 \<longrightarrow> c_pool c' m = get_magic sz))"
proof (cases "get_magic sz")
  case None
  obtain q c1 where new: "new_UcMem_sz sz c = (q, c1)" by (cases "new_UcMem_sz sz c")
  from None get_magic_least [of sz] have "\<not> sz \<le> 16777216" by simp
  with None new call new_UcMem_sz_ok [OF ok new] show ?thesis
    by (auto simp: UcMem_Alloc_def split: option.splits)
next
  case (Some i)
  with get_magic_least [of sz] have i: "i < 10" by simp
  obtain q mg1 c1 where g: "GetPool i mg c = (q, mg1, c1)" by (cases "GetPool i mg c")
  from GetPool_ok [OF ok i g] have g1: "mgr_ok mg1 c1 U" "keeps U c c1" "mg_pools mg1 i = q" by auto
  show ?thesis
  proof (cases q)
    case None
    with Some g g1 call show ?thesis by (auto simp: UcMem_Alloc_def)
  next
    case q: (Some p)
    obtain r1 ex p1 c2 where al: "UcMemPool_Alloc p c1 = (r1, ex, p1, c2)" by (metis surj_pair)
    note a = pool_Alloc_ok [OF g1(1) g1(3) [unfolded q] al]
    let ?mg = "put_pool p1 mg1"
    have k: "keeps U c c2" using g1(2) a by (auto dest: keeps_trans)
    show ?thesis
    proof (cases "r1 = None \<and> ex")
      case False
      with Some g q al call have "r = r1 \<and> mg' = ?mg \<and> c' = c2" by (auto simp: UcMem_Alloc_def)
      with a k Some show ?thesis by (auto split: option.splits)
    next
      case True
      with a have ok2: "mgr_ok ?mg c2 U" by simp
      obtain s mg3 c3 where sh: "Manager_Shrink i ?mg c2 = (s, mg3, c3)" by (metis surj_pair)
      from Manager_Shrink_ok [OF ok2 i sh] k have s3: "mgr_ok mg3 c3 U" "keeps U c c3" by (auto dest: keeps_trans)
      show ?thesis
      proof (cases "s = 0 \<or> mg_pools mg3 i = None")
        case none: True
        with Some g q al True sh call have "r = None \<and> mg' = mg3 \<and> c' = c3"
          by (auto simp: UcMem_Alloc_def split: if_splits)
        with s3 show ?thesis by simp
      next
        case False
        then obtain p3 where p3: "mg_pools mg3 i = Some p3" "s \<noteq> 0" by auto
        let ?p = "p3\<lparr>sz_max := sz_max p3 + s\<rparr>"
        obtain r4 ex4 p4 c4 where al4: "UcMemPool_Alloc ?p c3 = (r4, ex4, p4, c4)" by (metis surj_pair)
        have self: "p_self p3 = i" using mgr_okD(3) [OF s3(1) p3(1)] by simp
        from pool_Alloc_ok [OF mgr_ok_max [OF s3(1) p3(1)] _ al4, where i = i] self
        have a4: "keeps U c3 c4" "case r4 of None \<Rightarrow> mgr_ok (put_pool p4 (put_pool ?p mg3)) c4 U
          | Some m \<Rightarrow> m \<notin> U \<and> mgr_ok (put_pool p4 (put_pool ?p mg3)) c4 (insert m U) \<and> c_pool c4 m = Some i"
          by (auto simp: put_pool_at)
        have "p_self p4 = i"
          using UcMemPool_Alloc_moves [OF mgr_okD(1) [OF s3(1)] _ mgr_okD(2) [OF s3(1)] al4]
            mgr_okD(3) [OF s3(1) p3(1)] by (auto simp: pool_moves_def pool_ok_def split: option.splits)
        then have "put_pool p4 (put_pool ?p mg3) = put_pool p4 mg3" using self by (simp add: put_pool_def)
        moreover have "r = r4 \<and> mg' = put_pool p4 mg3 \<and> c' = c4"
          using Some g q al True sh call p3 al4 by (auto simp: UcMem_Alloc_def)
        ultimately show ?thesis using a4 s3(2) Some by (auto split: option.splits dest: keeps_trans)
      qed
    qed
  qed
qed

lemma UcMem_Free_ok:
  assumes ok: "mgr_ok mg c U" and m: "m \<in> U" and call: "UcMem_Free (Some m) mg c = (mg', c')"
  shows "mgr_ok mg' c' (U - {m}) \<and> keeps (U - {m}) c c'"
proof (cases "c_pool c m")
  case (Some i)
  with mgr_okD(5) [OF ok m] obtain p where p: "mg_pools mg i = Some p" and hm: "has_mem c m"
    and len: "length (buf_of c m) = unat (magics ! i)" by auto
  from mgr_okD(3) [OF ok p] have pok: "p_self p = i" "pool_ok c U p" by auto
  have r: "mg' = put_pool (UcMemPool_Free m p) mg" "c' = c" using call Some p by (simp_all add: UcMem_Free_def)
  let ?p = "UcMemPool_Free m p"
  have f: "p_self ?p = i" "sz_each ?p = sz_each p" "p_free ?p = m # p_free p"
    using pok(1) by (simp_all add: UcMemPool_Free_def mpool_Delete_def Let_def)
  have mlt: "m < c_objs c" using mgr_okD(2) [OF ok] m by auto
  have sub: "pool_ok c (U - {m}) q \<and> m \<notin> set (p_free q)" if "mg_pools mg j = Some q" for j q
    using mgr_okD(3) [OF ok that] m by (auto simp: pool_ok_def)
  have "pool_ok c (U - {m}) ?p"
    using sub [OF p] f mlt len pok(1) by (auto simp: pool_ok_def)
  then have p1: "p_self q = j \<and> pool_ok c (U - {m}) q" if "mg_pools mg' j = Some q" for j q
    using that f(1) sub [of j q] mgr_okD(3) [OF ok, of j q] by (auto simp: r put_pool_def split: if_splits)
  have p2: "set (p_free q) \<inter> set (p_free q') = {}"
    if "mg_pools mg' j = Some q" "mg_pools mg' k = Some q'" "j \<noteq> k" for j k q q'
    using that f(1,3) sub [of j q] sub [of k q'] mgr_okD(4) [OF ok p, of k q'] mgr_okD(4) [OF ok _ p, of j q]
      mgr_okD(4) [OF ok, of j q k q'] by (simp add: r put_pool_def split: if_splits)
  have "mgr_ok mg' c' (U - {m})"
  proof (rule mgr_okI)
    show "ctx_ok c'" "U - {m} \<subseteq> {..<c_objs c'}" using mgr_okD(1,2) [OF ok] by (auto simp: r)
    show "mg_pools mg' k \<noteq> None \<and> has_mem c' n \<and> length (buf_of c' n) = unat (magics ! k)"
      if "n \<in> U - {m}" "c_pool c' n = Some k" for n k
      using that mgr_okD(5) [OF ok, of n k] by (auto simp: r put_pool_def)
  qed (use p1 p2 r in auto)
  then show ?thesis by (simp add: r)
next
  case None
  then have r: "mg' = mg" "c' = set_mem m NULL (c_free (c_mem c m) c)" using call by (simp_all add: UcMem_Free_def)
  have mlt: "m < c_objs c" using mgr_okD(2) [OF ok] m by auto
  note fr = c_free_ok [OF mgr_okD(1) [OF ok] mlt, folded r(2)]
  have same: "c_mem c' n = c_mem c n \<and> c_pool c' n = c_pool c n \<and> buf_of c' n = buf_of c n"
    if "n < c_objs c" "n \<noteq> m" for n
    using fr that by (auto simp: ctx_ext_def)
  have objs: "c_objs c' = c_objs c" using fr by simp
  have p1: "p_self q = j \<and> pool_ok c' (U - {m}) q" if "mg_pools mg j = Some q" for j q
  proof -
    from mgr_okD(3) [OF ok that] have q: "p_self q = j" "pool_ok c U q" by auto
    have "n < c_objs c \<and> n \<noteq> m" if "n \<in> set (p_free q)" for n using q(2) m that by (auto simp: pool_ok_def)
    with q same objs show ?thesis by (auto simp: pool_ok_def has_mem_def)
  qed
  have "mgr_ok mg c' (U - {m})"
  proof (rule mgr_okI)
    show "ctx_ok c'" "U - {m} \<subseteq> {..<c_objs c'}" using fr mgr_okD(2) [OF ok] objs by auto
    show "mg_pools mg k \<noteq> None \<and> has_mem c' n \<and> length (buf_of c' n) = unat (magics ! k)"
      if "n \<in> U - {m}" "c_pool c' n = Some k" for n k
      using that same [of n] mgr_okD(2) [OF ok] mgr_okD(5) [OF ok, of n k] by (auto simp: has_mem_def)
  qed (use p1 mgr_okD(4) [OF ok] in auto)
  moreover have "keeps (U - {m}) c c'"
    using fr same mgr_okD(2) [OF ok] by (auto simp: keeps_def ctx_ext_def)
  ultimately show ?thesis by (simp add: r(1))
qed

section \<open>The interface\<close>

text \<open>A client run: allocations (of the sizes given) and releases, in any order.\<close>

fun client_run ::
  "(u64 \<Rightarrow> 's \<Rightarrow> nat option \<times> 's) \<Rightarrow> (nat \<Rightarrow> 's \<Rightarrow> 's) \<Rightarrow> (u64 + nat) list \<Rightarrow> 's \<times> nat set \<Rightarrow> 's \<times> nat set" where
  "client_run alloc release [] (s, U) = (s, U)"
| "client_run alloc release (Inl sz # xs) (s, U) =
     (case alloc sz s of
        (None, s') \<Rightarrow> client_run alloc release xs (s', U)
      | (Some m, s') \<Rightarrow> client_run alloc release xs (s', insert m U))"
| "client_run alloc release (Inr m # xs) (s, U) =
     (if m \<in> U then client_run alloc release xs (release m s, U - {m}) else client_run alloc release xs (s, U))"

text \<open>
  What the rest of the library relies on: \<open>ok s U\<close> is the allocator's invariant with the objects \<open>U\<close> in
  use, \<open>data s m\<close> the bytes of the buffer of object \<open>m\<close>, \<open>outside s b\<close> the memory that is not the
  allocator's.
\<close>

locale allocator =
  fixes ok :: "'s \<Rightarrow> nat set \<Rightarrow> bool" and data :: "'s \<Rightarrow> nat \<Rightarrow> byte list"
    and alloc :: "u64 \<Rightarrow> 's \<Rightarrow> nat option \<times> 's" and release :: "nat \<Rightarrow> 's \<Rightarrow> 's"
  assumes alloc_None: "ok s U \<Longrightarrow> alloc sz s = (None, s') \<Longrightarrow> ok s' U"
    and alloc_Some: "ok s U \<Longrightarrow> alloc sz s = (Some m, s') \<Longrightarrow> m \<notin> U \<and> ok s' (insert m U)"
    and alloc_size: "ok s U \<Longrightarrow> alloc sz s = (Some m, s') \<Longrightarrow> sz \<le> 16777216 \<Longrightarrow> unat sz \<le> length (data s' m)"
    and alloc_keeps: "ok s U \<Longrightarrow> alloc sz s = (r, s') \<Longrightarrow> u \<in> U \<Longrightarrow> data s' u = data s u"
    and release_ok: "ok s U \<Longrightarrow> m \<in> U \<Longrightarrow> ok (release m s) (U - {m})"
    and release_keeps: "ok s U \<Longrightarrow> m \<in> U \<Longrightarrow> u \<in> U - {m} \<Longrightarrow> data (release m s) u = data s u"
begin

lemma run_ok:
  "ok s U \<Longrightarrow> client_run alloc release xs (s, U) = (s', U') \<Longrightarrow> ok s' U'"
proof (induction xs arbitrary: s U)
  case (Cons x xs)
  show ?case
  proof (cases x)
    case (Inl sz)
    obtain r s1 where al: "alloc sz s = (r, s1)" by (cases "alloc sz s")
    with Cons Inl show ?thesis by (cases r) (auto dest: alloc_None alloc_Some)
  next
    case (Inr m)
    with Cons show ?thesis by (auto dest: release_ok split: if_splits)
  qed
qed simp

text \<open>A buffer that is not released keeps its contents through any run of other calls.\<close>

lemma run_keeps:
  "ok s U \<Longrightarrow> client_run alloc release xs (s, U) = (s', U') \<Longrightarrow> u \<in> U \<Longrightarrow> Inr u \<notin> set xs \<Longrightarrow>
   data s' u = data s u \<and> u \<in> U'"
proof (induction xs arbitrary: s U)
  case (Cons x xs)
  show ?case
  proof (cases x)
    case (Inl sz)
    obtain r s1 where al: "alloc sz s = (r, s1)" by (cases "alloc sz s")
    with Cons Inl alloc_keeps [OF Cons.prems(1) al Cons.prems(3)] show ?thesis
      by (cases r) (auto dest: alloc_None alloc_Some)
  next
    case (Inr m)
    with Cons.prems(4) have "u \<noteq> m" by auto
    with Cons Inr release_ok [OF Cons.prems(1), of m] release_keeps [OF Cons.prems(1), of m u] show ?thesis
      by (cases "m \<in> U") auto
  qed
qed simp

end

definition mem_alloc :: "u64 \<Rightarrow> UcMemManager \<times> mem_ctx \<Rightarrow> nat option \<times> UcMemManager \<times> mem_ctx" where
  "mem_alloc sz s = UcMem_Alloc sz (fst s) (snd s)"

definition mem_release :: "nat \<Rightarrow> UcMemManager \<times> mem_ctx \<Rightarrow> UcMemManager \<times> mem_ctx" where
  "mem_release m s = UcMem_Free (Some m) (fst s) (snd s)"

abbreviation mem_ok :: "UcMemManager \<times> mem_ctx \<Rightarrow> nat set \<Rightarrow> bool" where
  "mem_ok s U \<equiv> mgr_ok (fst s) (snd s) U"

abbreviation mem_data :: "UcMemManager \<times> mem_ctx \<Rightarrow> nat \<Rightarrow> byte list" where
  "mem_data s m \<equiv> buf_of (snd s) m"

lemma mem_alloc_ok:
  assumes "mem_ok s U" "mem_alloc sz s = (r, s')"
  shows "keeps U (snd s) (snd s') \<and>
     (case r of None \<Rightarrow> mem_ok s' U
      | Some m \<Rightarrow> m \<notin> U \<and> mem_ok s' (insert m U) \<and>
          (sz \<le> 16777216 \<longrightarrow> has_mem (snd s') m \<and> unat sz \<le> length (mem_data s' m)))"
proof -
  obtain mg c mg' c' where s: "s = (mg, c)" "s' = (mg', c')" by (cases s; cases s')
  with assms UcMem_Alloc_ok [of mg c U sz r mg' c']
  have a: "keeps U c c'" "case r of None \<Rightarrow> mgr_ok mg' c' U
    | Some m \<Rightarrow> m \<notin> U \<and> mgr_ok mg' c' (insert m U) \<and> (sz \<le> 16777216 \<longrightarrow> c_pool c' m = get_magic sz)"
    by (simp_all add: mem_alloc_def)
  have "has_mem c' m \<and> unat sz \<le> length (buf_of c' m)" if "r = Some m" "sz \<le> 16777216" for m
  proof -
    from that(2) obtain i where i: "get_magic sz = Some i" by (simp add: get_magic_def biggest_magic_def)
    with get_magic_least [of sz] have "sz \<le> magics ! i" by simp
    moreover from a that i mgr_okD(5) [of mg' c' "insert m U" m i]
    have "has_mem c' m" "length (buf_of c' m) = unat (magics ! i)" by auto
    ultimately show ?thesis by (simp add: word_le_nat_alt)
  qed
  with a show ?thesis by (auto simp: s split: option.splits)
qed

interpretation ucmem: allocator mem_ok mem_data mem_alloc mem_release
proof
  fix s U m
  assume "mem_ok s U" "m \<in> U"
  from UcMem_Free_ok [OF this prod.collapse [symmetric]] show "mem_ok (mem_release m s) (U - {m})"
    by (simp add: mem_release_def)
next
  fix s U m u
  assume "mem_ok s U" "m \<in> U" and u: "u \<in> U - {m}"
  from UcMem_Free_ok [OF this(1,2) prod.collapse [symmetric]] u
  show "mem_data (mem_release m s) u = mem_data s u" by (simp add: mem_release_def keeps_def)
next
  fix s U sz s'
  assume "mem_ok s U" "mem_alloc sz s = (None, s')"
  from mem_alloc_ok [OF this] show "mem_ok s' U" by simp
next
  fix s U sz m s'
  assume "mem_ok s U" "mem_alloc sz s = (Some m, s')"
  from mem_alloc_ok [OF this] show "m \<notin> U \<and> mem_ok s' (insert m U)" by simp
next
  fix s U sz m s'
  assume "mem_ok s U" "mem_alloc sz s = (Some m, s')" "sz \<le> 16777216"
  from mem_alloc_ok [OF this(1,2)] this(3) show "unat sz \<le> length (mem_data s' m)" by simp
next
  fix s U sz r s' u
  assume "mem_ok s U" "mem_alloc sz s = (r, s')" "u \<in> U"
  from mem_alloc_ok [OF this(1,2)] this(3) show "mem_data s' u = mem_data s u" by (simp add: keeps_def)
qed

definition start_ctx :: mem_ctx where
  "start_ctx = \<lparr>c_heap = (\<lambda>_. []), c_mem = (\<lambda>_. NULL), c_pool = (\<lambda>_. None), c_objs = 0, c_blks = 0,
     c_fail = (\<lambda>_. False), c_reqs = 0, c_junk = 0\<rparr>"

lemma start_ok: "c_objs c = 0 \<Longrightarrow> mgr_ok GetInstance c {}"
  by (simp add: mgr_ok_def ctx_ok_def GetInstance_def)


lemma start_Alloc: "fst (UcMem_Alloc 100 GetInstance start_ctx) = Some 0"
proof -
  have "get_magic 100 = Some 1"
    by (simp add: get_magic_def biggest_magic_def get_magic_loop.simps Let_def) (simp add: magics_def)
  then show ?thesis
    by (simp add: UcMem_Alloc_def GetPool_def GetInstance_def start_ctx_def UcMemPool_Alloc_def
        mpool_New_def new_UcMem_def c_malloc_def set_mem_def set_pool_def put_pool_def Let_def magics_def)
qed


text \<open>
  C37. \<open>UcMemManager::Free\<close> keeps the invariant, puts the object out of use and leaves the contents of all
  other buffers in use alone.
\<close>

theorem mem_free_safe:
  assumes "mgr_ok mg c U" "m \<in> U" "UcMem_Free (Some m) mg c = (mg', c')"
  shows "mgr_ok mg' c' (U - {m}) \<and> keeps (U - {m}) c c'"
  using assms by (rule UcMem_Free_ok)

theorem mem_free_safe_witness:
  "\<exists>mg' c' mg'' c''. UcMem_Alloc 100 GetInstance start_ctx = (Some 0, mg', c') \<and>
     UcMem_Free (Some 0) mg' c' = (mg'', c'') \<and> mgr_ok mg'' c'' {}"
proof -
  obtain r mg' c' where a: "UcMem_Alloc 100 GetInstance start_ctx = (r, mg', c')"
    by (cases "UcMem_Alloc 100 GetInstance start_ctx")
  with start_Alloc have r: "r = Some 0" by simp
  have "mgr_ok GetInstance start_ctx {}" by (rule start_ok) (simp add: start_ctx_def)
  from UcMem_Alloc_ok [OF this a] r have ok: "mgr_ok mg' c' {0}" by simp
  obtain mg'' c'' where f: "UcMem_Free (Some 0) mg' c' = (mg'', c'')" by (cases "UcMem_Free (Some 0) mg' c'")
  from mem_free_safe [OF ok _ f] have "mgr_ok mg'' c'' {}" by simp
  with a r f show ?thesis by blast
qed

text \<open>
  C38. Over any sequence of allocations and releases, starting from the empty manager and whatever
  requests the environment refuses, the invariant holds, and a buffer that the sequence does not
  release keeps its contents.
\<close>

theorem mem_run_keeps_buffers:
  assumes "c_objs c = 0" "client_run mem_alloc mem_release xs ((GetInstance, c), {}) = (s, U)"
    and "u \<in> U" "client_run mem_alloc mem_release ys (s, U) = (s', U')" "Inr u \<notin> set ys"
  shows "mem_ok s' U' \<and> u \<in> U' \<and> mem_data s' u = mem_data s u"
proof -
  have "mem_ok s U" by (rule ucmem.run_ok [OF _ assms(2)]) (simp add: start_ok assms(1))
  with ucmem.run_ok [OF this assms(4)] ucmem.run_keeps [OF this assms(4,3,5)] show ?thesis by simp
qed

theorem mem_run_keeps_buffers_witness:
  "\<exists>s. client_run mem_alloc mem_release [Inl 100] ((GetInstance, start_ctx), {}) = (s, {0}) \<and>
     mem_data (fst (client_run mem_alloc mem_release [Inl 100, Inl 300] (s, {0}))) 0 = mem_data s 0"
proof -
  obtain mg' c' where a: "mem_alloc 100 (GetInstance, start_ctx) = (Some 0, mg', c')"
    using start_Alloc by (cases "UcMem_Alloc 100 GetInstance start_ctx") (simp add: mem_alloc_def)
  have r: "client_run mem_alloc mem_release [Inl 100] ((GetInstance, start_ctx), {}) = ((mg', c'), {0})"
    by (simp add: a)
  obtain s' U' where r': "client_run mem_alloc mem_release [Inl 100, Inl 300] ((mg', c'), {0}) = (s', U')"
    by (metis surj_pair)
  from mem_run_keeps_buffers [OF _ r _ r', of 0] have "mem_data s' 0 = mem_data (mg', c') 0"
    by (simp add: start_ctx_def)
  with r r' show ?thesis by (intro exI [of _ "(mg', c')"]) simp
qed

section \<open>Releasing free buffers\<close>

lemma shrink_loop_stops:
  "p_free p = m # ms \<Longrightarrow> c_mem c m = NULL \<Longrightarrow> fst (shrink_loop mf s p c) = s"
  by (subst shrink_loop.simps) (simp add: mpool_New_def)

text \<open>
  C39. One call of the releasing loop of \<open>UcMemPool::Shrink\<close> gives back at most one buffer, however much free
  memory exceeds the limit: the object whose buffer was just freed is put back in front of the free
  list, and the next round takes it, finds no buffer and leaves the loop.
\<close>

theorem shrink_frees_at_most_one: "fst (shrink_loop mf 0 p c) = 0 \<or> fst (shrink_loop mf 0 p c) = sz_each p"
proof (cases "sz_free p > mf")
  case False
  then show ?thesis by (subst (1) shrink_loop.simps) simp
next
  case True
  obtain q p1 c1 where new: "mpool_New p c = (q, p1, c1)" by (cases "mpool_New p c")
  show ?thesis
  proof (cases "\<exists>m. q = Some m \<and> c_mem c1 m \<noteq> NULL")
    case False
    with True new show ?thesis by (subst (1) shrink_loop.simps) (auto split: option.splits)
  next
    case *: True
    then obtain m where m: "q = Some m" "c_mem c1 m \<noteq> NULL" by blast
    let ?c = "set_mem m NULL (c_free (c_mem c1 m) c1)"
    have "c_mem ?c m = NULL" by (simp add: set_mem_def)
    moreover have "sz_each p1 = sz_each p"
      using new by (auto simp: mpool_New_def split: list.splits prod.splits)
    ultimately have "fst (shrink_loop mf 0 p c) = sz_each p"
      using True new m by (subst shrink_loop.simps) (simp add: shrink_loop_stops [of _ m "p_free p1"] mpool_Delete_def Let_def)
    then show ?thesis by simp
  qed
qed
end
