(* ===== verification/Knv_Key.thy ===== *)
theory Knv_Key
  imports Knv_Codec Mem_Pool_Safe
begin

text \<open>
  Dynamic buffers and keys of nodes (\<open>knv_dynamic_data_t\<close>, \<open>knv_key_t\<close> of \<open>src/src/knv_node.h\<close>, and their
  methods and the key hash in \<open>src/src/knv_node.cc\<close>).  A dynamic buffer is the 64-byte \<open>small_buf\<close> inside
  the object or memory from the pools; \<open>small\<close> is the address of \<open>small_buf\<close>.
\<close>

section \<open>Dynamic buffers\<close>

type_synonym mem_state = "UcMemManager \<times> mem_ctx"

abbreviation heap_of :: "mem_state \<Rightarrow> heap" where
  "heap_of s \<equiv> c_heap (snd s)"

definition put_bytes :: "ptr \<Rightarrow> byte list \<Rightarrow> mem_state \<Rightarrow> mem_state" where
  "put_bytes p bs s = (fst s, (snd s)\<lparr>c_heap := store_bytes (heap_of s) p bs\<rparr>)"

definition mem_free :: "nat option \<Rightarrow> mem_state \<Rightarrow> mem_state" where
  "mem_free m s = UcMem_Free m (fst s) (snd s)"

record knv_dynamic_data_t =
  d_sz :: u32
  d_data :: ptr
  d_mem :: "nat option"

definition dyn_init :: knv_dynamic_data_t where
  "dyn_init = \<lparr>d_sz = 0, d_data = NULL, d_mem = None\<rparr>"

definition dyn_alloc ::
  "ptr \<Rightarrow> u32 \<Rightarrow> knv_dynamic_data_t \<Rightarrow> mem_state \<Rightarrow> ptr \<times> knv_dynamic_data_t \<times> mem_state" where
  "dyn_alloc small req_sz d s =
     (if req_sz \<le> 64
      then
        (let s = (if d_mem d \<noteq> None then mem_free (d_mem d) s else s)
         in (small, \<lparr>d_sz = 64, d_data = small, d_mem = None\<rparr>, s))
      else if d_data d = NULL \<or> req_sz > d_sz d \<or> push_bit 10 req_sz < d_sz d
      then
        (case mem_alloc (ucast req_sz) s of
           (None, s) \<Rightarrow> (NULL, d, s)
         | (Some m, s) \<Rightarrow>
             (let s = (if d_mem d \<noteq> None then mem_free (d_mem d) s else s);
                  data = c_mem (snd s) m;
                  sz = ucast (GetAllocSize m (fst s) (snd s));
                  sz = (if sz = 0 then req_sz else sz)
              in (data, \<lparr>d_sz = sz, d_data = data, d_mem = Some m\<rparr>, s)))
      else (d_data d, d, s))"

definition dyn_assign ::
  "nat option \<Rightarrow> u32 \<Rightarrow> knv_dynamic_data_t \<Rightarrow> mem_state \<Rightarrow> ptr \<times> knv_dynamic_data_t \<times> mem_state" where
  "dyn_assign m sz d s =
     (let s = (if d_mem d \<noteq> None then mem_free (d_mem d) s else s);
          d = d\<lparr>d_mem := None\<rparr>
      in case m of
           None \<Rightarrow> (NULL, d, s)
         | Some m \<Rightarrow>
             (let data = c_mem (snd s) m;
                  asz = ucast (GetAllocSize m (fst s) (snd s))
              in (data, \<lparr>d_sz = (if asz = 0 then sz else asz), d_data = data, d_mem = Some m\<rparr>, s)))"

definition dyn_free :: "knv_dynamic_data_t \<Rightarrow> mem_state \<Rightarrow> knv_dynamic_data_t \<times> mem_state" where
  "dyn_free d s =
     (dyn_init, if d_mem d \<noteq> None then mem_free (d_mem d) s else s)"

section \<open>Keys\<close>

abbreviation KNV_VARINT :: knv_type_t where "KNV_VARINT \<equiv> PB_TYPE_VARINT"
abbreviation KNV_FIXED64 :: knv_type_t where "KNV_FIXED64 \<equiv> PB_TYPE_FIXED64"
abbreviation KNV_STRING :: knv_type_t where "KNV_STRING \<equiv> PB_TYPE_STRING"
abbreviation KNV_FIXED32 :: knv_type_t where "KNV_FIXED32 \<equiv> PB_TYPE_FIXED32"
abbreviation KNV_NODE :: knv_type_t where "KNV_NODE \<equiv> KNV_STRING"
abbreviation KNV_DEFAULT_TYPE :: knv_type_t where "KNV_DEFAULT_TYPE \<equiv> KNV_STRING"

type_synonym knv_value_t = knv_field_val_t
type_synonym knv_tag_t = u32

definition str_value :: "u32 \<Rightarrow> ptr \<Rightarrow> knv_value_t" where
  "str_value n p = \<lparr>v_i64 = ucast n, v_data = p\<rparr>"

definition int_value :: "u64 \<Rightarrow> knv_value_t" where
  "int_value x = \<lparr>v_i64 = x, v_data = NULL\<rparr>"

record knv_key_t =
  k_type :: knv_type_t
  k_len :: u16
  k_val :: ptr
  k_dyn :: knv_dynamic_data_t

definition key_default :: knv_key_t where
  "key_default = \<lparr>k_type = KNV_DEFAULT_TYPE, k_len = 0, k_val = NULL, k_dyn = dyn_init\<rparr>"

definition key_bytes :: "heap \<Rightarrow> knv_key_t \<Rightarrow> byte list" where
  "key_bytes h k = bytes_at h (k_val k) (unat (k_len k))"

text \<open>
  \<open>GetValue\<close> returns a reference to a thread-local union; only the members it sets are read by its
  callers, the others are zero here.
\<close>

definition key_GetIntVal :: "heap \<Rightarrow> knv_key_t \<Rightarrow> u64" where
  "key_GetIntVal h k =
     (if k_val k \<noteq> NULL \<and> k_len k \<noteq> 0
      then le_word (bytes_at h (k_val k) (if unat (k_len k) > 8 then 8 else unat (k_len k)))
      else 0)"

definition key_GetValue :: "heap \<Rightarrow> knv_key_t \<Rightarrow> knv_value_t" where
  "key_GetValue h k =
     (if k_type k = KNV_STRING then str_value (ucast (k_len k)) (k_val k)
      else int_value (key_GetIntVal h k))"

definition key_GetStrVal :: "heap \<Rightarrow> knv_key_t \<Rightarrow> byte list" where
  "key_GetStrVal h k = key_bytes h k"

definition key_GetData :: "knv_key_t \<Rightarrow> ptr" where
  "key_GetData k = (if k_len k \<noteq> 0 then k_val k else NULL)"

definition key_eq :: "heap \<Rightarrow> knv_key_t \<Rightarrow> knv_key_t \<Rightarrow> bool" where
  "key_eq h j k \<longleftrightarrow> k_type j = k_type k \<and> k_len j = k_len k \<and>
     (k_len j = 0 \<or> key_bytes h j = key_bytes h k)"

text \<open>\<open>memcmp\<close> compares bytes as unsigned numbers; the second operand is read for the first one's length.\<close>

fun bytes_less :: "byte list \<Rightarrow> byte list \<Rightarrow> bool" where
  "bytes_less (x # xs) (y # ys) \<longleftrightarrow> x < y \<or> x = y \<and> bytes_less xs ys"
| "bytes_less _ _ \<longleftrightarrow> False"

definition key_less :: "heap \<Rightarrow> knv_key_t \<Rightarrow> knv_key_t \<Rightarrow> bool" where
  "key_less h j k \<longleftrightarrow> pb_type_code (k_type j) < pb_type_code (k_type k) \<or> k_len j < k_len k \<or>
     (k_len j \<noteq> 0 \<and> bytes_less (key_bytes h j) (bytes_at h (k_val k) (unat (k_len j))))"

text \<open>\<open>knv_key_t::init\<close>: 0 or -1, the key, the memory.\<close>

definition key_null :: "knv_type_t \<Rightarrow> knv_key_t \<Rightarrow> knv_key_t" where
  "key_null ktype k = k\<lparr>k_type := ktype, k_len := 0, k_val := NULL\<rparr>"

definition key_store :: "ptr \<Rightarrow> knv_type_t \<Rightarrow> byte list \<Rightarrow> knv_key_t \<Rightarrow> mem_state \<Rightarrow> knv_key_t \<times> mem_state" where
  "key_store small ktype bs k s =
     (let (p, d, s) = dyn_alloc small (of_nat (length bs)) (k_dyn k) s
      in (k\<lparr>k_type := ktype, k_len := of_nat (length bs), k_val := p, k_dyn := d\<rparr>, put_bytes p bs s))"

definition key_init ::
  "ptr \<Rightarrow> knv_type_t \<Rightarrow> knv_value_t option \<Rightarrow> bool \<Rightarrow> knv_key_t \<Rightarrow> mem_state \<Rightarrow> int \<times> knv_key_t \<times> mem_state" where
  "key_init small ktype kval own_buf k s =
     (case kval of
        None \<Rightarrow> (0, key_null ktype k, s)
      | Some v \<Rightarrow>
          (case ktype of
             PB_TYPE_STRING \<Rightarrow>
               (let len = ucast (v_len v) :: u16 in
                if own_buf
                then
                  (let (p, d, s) = dyn_alloc small (ucast len) (k_dyn k) s in
                   if p \<noteq> NULL
                   then (0, k\<lparr>k_type := KNV_STRING, k_len := len, k_val := p, k_dyn := d\<rparr>,
                         put_bytes p (bytes_at (heap_of s) (v_data v) (unat len)) s)
                   else (-1, k\<lparr>k_len := 0, k_val := NULL, k_dyn := d\<rparr>, s))
                else (0, k\<lparr>k_type := KNV_STRING, k_len := len, k_val := v_data v\<rparr>, s))
           | PB_TYPE_FIXED32 \<Rightarrow>
               (let (k, s) = key_store small KNV_FIXED32 (le_bytes 4 (v_i32 v)) k s in (0, k, s))
           | PB_TYPE_VARINT \<Rightarrow>
               (let (k, s) = key_store small ktype (le_bytes 8 (v_i64 v)) k s in (0, k, s))
           | PB_TYPE_FIXED64 \<Rightarrow>
               (let (k, s) = key_store small ktype (le_bytes 8 (v_i64 v)) k s in (0, k, s))
           | PB_TYPE_CODE _ \<Rightarrow> (0, key_null ktype k, s)))"

section \<open>The key hash\<close>

fun keyhash_tail :: "u32 \<Rightarrow> byte list \<Rightarrow> u32" where
  "keyhash_tail t [] = t"
| "keyhash_tail t (b # bs) = keyhash_tail (t + push_bit (length bs * 8) (ucast b)) bs"

fun keyhash_sum :: "u32 \<Rightarrow> byte list \<Rightarrow> u32" where
  "keyhash_sum t (a # b # c # d # bs) = keyhash_sum (t + le_word [a, b, c, d]) bs"
| "keyhash_sum t bs = keyhash_tail t bs"

definition get_keyhash :: "knv_tag_t \<Rightarrow> byte list \<Rightarrow> nat \<Rightarrow> nat" where
  "get_keyhash t k sz = unat (keyhash_sum t k AND of_nat (sz - 1))"

text \<open>For a table whose size is a power of two, the mask is the remainder.\<close>

lemma get_keyhash_mod:
  assumes "n < 32"
  shows "get_keyhash t k (2 ^ n) = unat (keyhash_sum t k) mod 2 ^ n"
proof -
  have "(of_nat (2 ^ n - 1) :: u32) = mask n" by (simp add: mask_eq_exp_minus_1 of_nat_diff)
  then have "keyhash_sum t k AND of_nat (2 ^ n - 1) = take_bit n (keyhash_sum t k)"
    by (simp add: take_bit_eq_mask)
  then show ?thesis
    unfolding get_keyhash_def by (simp only: unsigned_take_bit_eq take_bit_eq_mod [where 'a = nat])
qed

lemma get_keyhash_less: "n < 32 \<Longrightarrow> get_keyhash t k (2 ^ n) < 2 ^ n"
  by (simp add: get_keyhash_mod)

section \<open>Keys hold their values\<close>

text \<open>The bytes a value stands for when it becomes a key.\<close>

fun value_key_bytes :: "heap \<Rightarrow> knv_type_t \<Rightarrow> knv_value_t \<Rightarrow> byte list" where
  "value_key_bytes h PB_TYPE_STRING v = bytes_at h (v_data v) (unat (v_len v))"
| "value_key_bytes h PB_TYPE_FIXED32 v = le_bytes 4 (v_i32 v)"
| "value_key_bytes h PB_TYPE_VARINT v = le_bytes 8 (v_i64 v)"
| "value_key_bytes h PB_TYPE_FIXED64 v = le_bytes 8 (v_i64 v)"
| "value_key_bytes h (PB_TYPE_CODE n) v = []"

text \<open>Releasing memory leaves everything outside the pools alone.\<close>

definition owned :: "nat set \<Rightarrow> knv_dynamic_data_t \<Rightarrow> bool" where
  "owned U d \<longleftrightarrow> (\<forall>m. d_mem d = Some m \<longrightarrow> m \<in> U)"

lemma mem_free_heap:
  assumes "mem_ok s U" "owned U d" "\<forall>k. b \<noteq> Mem k"
  shows "heap_of (mem_free (d_mem d) s) b = heap_of s b"
proof (cases "d_mem d")
  case None
  then show ?thesis by (simp add: mem_free_def UcMem_Free_def)
next
  case (Some m)
  with assms UcMem_Free_ok [OF assms(1) _ prod.collapse [symmetric], of m] show ?thesis
    by (simp add: mem_free_def owned_def keeps_def)
qed

lemma dyn_alloc_small:
  "n \<le> 64 \<Longrightarrow> dyn_alloc small n d s =
     (small, \<lparr>d_sz = 64, d_data = small, d_mem = None\<rparr>, mem_free (d_mem d) s)"
  by (simp add: dyn_alloc_def mem_free_def UcMem_Free_def Let_def)

lemma key_store_bytes:
  assumes "mem_ok s U" "owned U (k_dyn k)" "length (heap_of s b) = 64" "\<forall>j. b \<noteq> Mem j" "length bs \<le> 64"
    and call: "key_store (Ptr b 0) ty bs k s = (k', s')"
  shows "key_bytes (heap_of s') k' = bs \<and> k_type k' = ty \<and> k_len k' = of_nat (length bs) \<and> k_val k' = Ptr b 0"
proof -
  have l: "(of_nat (length bs) :: u32) \<le> 64" "unat (of_nat (length bs) :: u16) = length bs"
    using assms(5) by (simp_all add: word_le_nat_alt unat_of_nat)
  let ?s = "mem_free (d_mem (k_dyn k)) s"
  have k': "k' = k\<lparr>k_type := ty, k_len := of_nat (length bs), k_val := Ptr b 0,
      k_dyn := \<lparr>d_sz = 64, d_data = Ptr b 0, d_mem = None\<rparr>\<rparr>" and s': "s' = put_bytes (Ptr b 0) bs ?s"
    using call by (auto simp: key_store_def dyn_alloc_small [OF l(1)])
  have "length (heap_of ?s b) = 64" using mem_free_heap [OF assms(1,2,4)] assms(3) by simp
  then have "bytes_at (heap_of s') (Ptr b 0) (length bs) = bs"
    using assms(5) by (simp add: s' put_bytes_def bytes_at_Ptr)
  with l(2) k' show ?thesis by (simp add: key_bytes_def)
qed

lemma le_word_le_bytes_cast:
  fixes w :: "'a::len word"
  shows "le_word (le_bytes n w) = (ucast (take_bit (8 * n) w) :: 'b::len word)"
proof (induction n arbitrary: w)
  case 0
  then show ?case by simp
next
  case (Suc n)
  then show ?case by (auto intro!: bit_word_eqI simp: bit_simps)
qed

lemma le_word_ucast: "le_word (le_bytes 4 (w :: u32)) = (ucast w :: u64)"
  by (simp add: le_word_le_bytes_cast take_bit_length_eq [where 'a = 32, simplified])

text \<open>
  A key made from an integer value gives that value back: \<open>init\<close> succeeds, stores 4 or 8 bytes in the
  key's own buffer, and \<open>GetValue\<close> returns the integer (the low 32 bits for \<open>KNV_FIXED32\<close>).
\<close>

theorem key_init_int_roundtrip:
  assumes "mem_ok s U" "owned U (k_dyn k)" "length (heap_of s (KeyBuf n)) = 64"
    and ty: "ty = KNV_VARINT \<or> ty = KNV_FIXED64 \<or> ty = KNV_FIXED32"
    and call: "key_init (Ptr (KeyBuf n) 0) ty (Some v) own k s = (r, k', s')"
  shows "r = 0 \<and> k_type k' = ty \<and> k_val k' = Ptr (KeyBuf n) 0 \<and>
     key_bytes (heap_of s') k' = value_key_bytes (heap_of s) ty v \<and>
     v_i64 (key_GetValue (heap_of s') k') = (if ty = KNV_FIXED32 then ucast (v_i32 v) else v_i64 v)"
proof (cases "ty = KNV_FIXED32")
  case True
  with call have r: "r = 0" and st: "key_store (Ptr (KeyBuf n) 0) ty (le_bytes 4 (v_i32 v)) k s = (k', s')"
    by (auto simp: key_init_def split: prod.splits)
  from key_store_bytes [OF assms(1-3) _ _ st]
  have k': "key_bytes (heap_of s') k' = le_bytes 4 (v_i32 v)" "k_type k' = ty" "k_len k' = 4" "k_val k' = Ptr (KeyBuf n) 0"
    by simp_all
  then have "le_word (bytes_at (heap_of s') (k_val k') 4) = (ucast (v_i32 v) :: u64)"
    using le_word_ucast by (simp add: key_bytes_def)
  with True k' r show ?thesis by (simp add: key_GetValue_def key_GetIntVal_def int_value_def)
next
  case False
  with call ty have r: "r = 0" and st: "key_store (Ptr (KeyBuf n) 0) ty (le_bytes 8 (v_i64 v)) k s = (k', s')"
    by (auto simp: key_init_def split: prod.splits)
  from key_store_bytes [OF assms(1-3) _ _ st]
  have k': "key_bytes (heap_of s') k' = le_bytes 8 (v_i64 v)" "k_type k' = ty" "k_len k' = 8" "k_val k' = Ptr (KeyBuf n) 0"
    by simp_all
  then have "le_word (bytes_at (heap_of s') (k_val k') 8) = v_i64 v"
    by (simp add: key_bytes_def)
  with False ty k' r show ?thesis by (auto simp: key_GetValue_def key_GetIntVal_def int_value_def)
qed

definition demo_key_heap :: heap where
  "demo_key_heap = (\<lambda>_. [])(KeyBuf 0 := replicate 64 0)"

lemma start_mem_ok: "mem_ok (GetInstance, start_ctx\<lparr>c_heap := h\<rparr>) {}"
  by (simp add: start_ok start_ctx_def)

theorem key_init_int_roundtrip_witness:
  "case key_init (Ptr (KeyBuf 0) 0) KNV_VARINT (Some (int_value 77)) True key_default
       (GetInstance, start_ctx\<lparr>c_heap := demo_key_heap\<rparr>) of
     (r, k', s') \<Rightarrow> r = 0 \<and> v_i64 (key_GetValue (heap_of s') k') = 77"
proof -
  obtain r k' s' where c: "key_init (Ptr (KeyBuf 0) 0) KNV_VARINT (Some (int_value 77)) True key_default
      (GetInstance, start_ctx\<lparr>c_heap := demo_key_heap\<rparr>) = (r, k', s')" by (metis surj_pair)
  from key_init_int_roundtrip [OF start_mem_ok _ _ _ c] have "r = 0" "v_i64 (key_GetValue (heap_of s') k') = 77"
    by (simp_all add: owned_def key_default_def dyn_init_def start_ctx_def demo_key_heap_def int_value_def)
  then show ?thesis by (simp only: c split_conv)
qed

end
