(* ===== verification/Knv_Ht.thy ===== *)
theory Knv_Ht
  imports Knv_Key
begin

text \<open>
  The hash table of a node's children, \<open>KnvHt\<close> of \<open>src/src/knv_node.h\<close> and \<open>src/src/knv_node.cc\<close>, at the level
  of its pointers.  The chains run through the member \<open>ht_next\<close> of the nodes, the function \<open>nx\<close> here.  A
  slot is \<open>None\<close> when its bit in the bitmap \<open>bm\<close> is not set and \<open>Some p\<close> with the pointer \<open>ht[hi]\<close> otherwise.
  \<open>kf c\<close> is the pair of the tag of node \<open>c\<close> and the bytes of its key: \<open>IsMatch\<close> compares exactly that.
  The loops over a chain do not return when it is a cycle: their result is then \<open>None\<close>.
\<close>

section \<open>Definitions\<close>

type_synonym key_fun = "nat \<Rightarrow> knv_tag_t \<times> byte list"
type_synonym links = "nat \<Rightarrow> nat option"

record knv_ht =
  h_nr :: int
  h_sz :: nat
  h_mem :: "nat option"
  h_tab :: "nat \<Rightarrow> nat option option"

definition KNV_DEFAULT_HT_SIZE :: nat where
  "KNV_DEFAULT_HT_SIZE = 32"

definition ht_init :: knv_ht where
  "ht_init = \<lparr>h_nr = 0, h_sz = KNV_DEFAULT_HT_SIZE, h_mem = None, h_tab = (\<lambda>_. None)\<rparr>"

definition ht_clear :: "knv_ht \<Rightarrow> mem_state \<Rightarrow> knv_ht \<times> mem_state" where
  "ht_clear ht s = (ht_init, if h_mem ht \<noteq> None then mem_free (h_mem ht) s else s)"

definition IsMatch :: "key_fun \<Rightarrow> knv_tag_t \<Rightarrow> byte list \<Rightarrow> nat \<Rightarrow> bool" where
  "IsMatch kf t k c \<longleftrightarrow> t = fst (kf c) \<and> length (snd (kf c)) = length k \<and> (length k = 0 \<or> snd (kf c) = k)"

text \<open>\<open>HtPos\<close>: the address of a slot, or of the \<open>ht_next\<close> of a node.\<close>

datatype HtPos = SlotPos nat | NextPos nat

partial_function (option) ht_walk ::
  "key_fun \<Rightarrow> links \<Rightarrow> knv_tag_t \<Rightarrow> byte list \<Rightarrow> nat option \<Rightarrow> nat option option" where
  "ht_walk kf nx t k c =
     (case c of
        None \<Rightarrow> Some None
      | Some p \<Rightarrow> if IsMatch kf t k p then Some (Some p) else ht_walk kf nx t k (nx p))"

definition ht_get :: "key_fun \<Rightarrow> links \<Rightarrow> knv_tag_t \<Rightarrow> byte list \<Rightarrow> knv_ht \<Rightarrow> nat option option" where
  "ht_get kf nx tag k ht =
     (case h_tab ht (get_keyhash tag k (h_sz ht)) of
        None \<Rightarrow> Some None
      | Some c \<Rightarrow> ht_walk kf nx tag k c)"

partial_function (option) ht_walk_pos ::
  "key_fun \<Rightarrow> links \<Rightarrow> knv_tag_t \<Rightarrow> byte list \<Rightarrow> HtPos \<Rightarrow> nat option \<Rightarrow> (nat \<times> HtPos) option option" where
  "ht_walk_pos kf nx t k pos c =
     (case c of
        None \<Rightarrow> Some None
      | Some p \<Rightarrow>
          if IsMatch kf t k p then Some (Some (p, pos)) else ht_walk_pos kf nx t k (NextPos p) (nx p))"

definition ht_get_pos ::
  "key_fun \<Rightarrow> links \<Rightarrow> knv_tag_t \<Rightarrow> byte list \<Rightarrow> knv_ht \<Rightarrow> (nat \<times> HtPos) option option" where
  "ht_get_pos kf nx tag k ht =
     (let hi = get_keyhash tag k (h_sz ht) in
      case h_tab ht hi of
        None \<Rightarrow> Some None
      | Some c \<Rightarrow> ht_walk_pos kf nx tag k (SlotPos hi) c)"

definition biggest_level :: nat where
  "biggest_level = 8192"

definition ht_levels :: "nat list" where
  "ht_levels = [256, 8192]"

definition next_level :: "nat \<Rightarrow> nat" where
  "next_level sz = (case filter (\<lambda>l. l > sz) ht_levels of [] \<Rightarrow> biggest_level | l # _ \<Rightarrow> l)"

definition bitmap_size :: "nat \<Rightarrow> nat" where
  "bitmap_size sz = (sz + 63) div 64"

text \<open>Putting a node in front of the chain of a slot, in a table and in the links.\<close>

definition slot_push :: "nat \<Rightarrow> nat \<Rightarrow> (nat \<Rightarrow> nat option option) \<times> links \<Rightarrow> (nat \<Rightarrow> nat option option) \<times> links" where
  "slot_push hi c t =
     (case fst t hi of
        None \<Rightarrow> ((fst t)(hi \<mapsto> Some c), (snd t)(c := None))
      | Some p \<Rightarrow> ((fst t)(hi \<mapsto> Some c), (snd t)(c := p)))"

text \<open>The inner and the outer loop of \<open>increase\<close>: the new table, the links, the number of nodes moved.\<close>

partial_function (option) move_chain ::
  "key_fun \<Rightarrow> nat \<Rightarrow> nat option \<Rightarrow> (nat \<Rightarrow> nat option option) \<times> links \<Rightarrow> int
     \<Rightarrow> (((nat \<Rightarrow> nat option option) \<times> links) \<times> int) option" where
  "move_chain kf new_sz c t new_nr =
     (case c of
        None \<Rightarrow> Some (t, new_nr)
      | Some p \<Rightarrow>
          move_chain kf new_sz (snd t p)
            (slot_push (get_keyhash (fst (kf p)) (snd (kf p)) new_sz) p t) (new_nr + 1))"

fun move_slots ::
  "key_fun \<Rightarrow> nat \<Rightarrow> knv_ht \<Rightarrow> nat list \<Rightarrow> (nat \<Rightarrow> nat option option) \<times> links \<Rightarrow> int
     \<Rightarrow> (((nat \<Rightarrow> nat option option) \<times> links) \<times> int) option" where
  "move_slots kf new_sz ht [] t new_nr = Some (t, new_nr)"
| "move_slots kf new_sz ht (i # is) t new_nr =
     (case h_tab ht i of
        None \<Rightarrow> move_slots kf new_sz ht is t new_nr
      | Some c \<Rightarrow>
          do {
            (t, new_nr) \<leftarrow> move_chain kf new_sz c t new_nr;
            move_slots kf new_sz ht is t new_nr
          })"

definition ht_increase ::
  "key_fun \<Rightarrow> links \<Rightarrow> knv_ht \<Rightarrow> mem_state \<Rightarrow> (int \<times> links \<times> knv_ht \<times> mem_state) option" where
  "ht_increase kf nx ht s =
     (if h_sz ht \<ge> biggest_level then Some (0, nx, ht, s)
      else
        (let new_sz = next_level (h_sz ht); new_bm_sz = bitmap_size biggest_level in
         case mem_alloc (of_nat ((new_bm_sz + new_sz) * 8)) s of
           (None, s) \<Rightarrow> Some (-1, nx, ht, s)
         | (Some m, s) \<Rightarrow>
             do {
               (t, nr) \<leftarrow> move_slots kf new_sz ht [0..<h_sz ht] ((\<lambda>_. None), nx) 0;
               let s = (if h_mem ht \<noteq> None then mem_free (h_mem ht) s else s);
               Some (0, snd t, \<lparr>h_nr = nr, h_sz = new_sz, h_mem = Some m, h_tab = fst t\<rparr>, s)
             }))"

definition ht_put ::
  "key_fun \<Rightarrow> nat \<Rightarrow> links \<Rightarrow> knv_ht \<Rightarrow> mem_state \<Rightarrow> (int \<times> links \<times> knv_ht \<times> mem_state) option" where
  "ht_put kf n nx ht s =
     do {
       (ret, nx, ht, s) \<leftarrow>
         (if h_nr ht + 1 > int (h_sz ht) then ht_increase kf nx ht s else Some (0, nx, ht, s));
       if ret \<noteq> 0 then Some (-1, nx, ht, s)
       else
         (let hi = get_keyhash (fst (kf n)) (snd (kf n)) (h_sz ht); t = slot_push hi n (h_tab ht, nx)
          in Some (0, snd t, ht\<lparr>h_tab := fst t, h_nr := h_nr ht + 1\<rparr>, s))
     }"

text \<open>\<open>remove(node, pos)\<close> writes the successor of \<open>node\<close> to the place \<open>pos\<close> points to.\<close>

definition ht_remove_pos :: "nat \<Rightarrow> HtPos \<Rightarrow> links \<Rightarrow> knv_ht \<Rightarrow> links \<times> knv_ht" where
  "ht_remove_pos node pos nx ht =
     (case pos of
        SlotPos hi \<Rightarrow> (nx, ht\<lparr>h_tab := (h_tab ht)(hi \<mapsto> nx node), h_nr := h_nr ht - 1\<rparr>)
      | NextPos p \<Rightarrow> (nx(p := nx node), ht\<lparr>h_nr := h_nr ht - 1\<rparr>))"

text \<open>The loop of \<open>remove(node)\<close>: the place to be changed, as for \<open>remove(node, pos)\<close>.\<close>

partial_function (option) ht_search :: "nat \<Rightarrow> links \<Rightarrow> nat option \<Rightarrow> HtPos \<Rightarrow> HtPos option option" where
  "ht_search node nx c pos =
     (case c of
        None \<Rightarrow> Some None
      | Some p \<Rightarrow> if p = node then Some (Some pos) else ht_search node nx (nx p) (NextPos p))"

text \<open>\<open>remove(node)\<close>: -1 when the node is not in the chain its tag and key select.\<close>

definition ht_remove :: "key_fun \<Rightarrow> nat \<Rightarrow> links \<Rightarrow> knv_ht \<Rightarrow> (int \<times> links \<times> knv_ht) option" where
  "ht_remove kf node nx ht =
     (let hi = get_keyhash (fst (kf node)) (snd (kf node)) (h_sz ht) in
      case h_tab ht hi of
        None \<Rightarrow> Some (-1, nx, ht)
      | Some c \<Rightarrow>
          do {
            r \<leftarrow> ht_search node nx c (SlotPos hi);
            case r of
              None \<Rightarrow> Some (-1, nx, ht)
            | Some pos \<Rightarrow> Some (0, ht_remove_pos node pos nx ht)
          })"

section \<open>The table as a finite set of nodes\<close>

definition slot_of :: "key_fun \<Rightarrow> nat \<Rightarrow> nat \<Rightarrow> nat" where
  "slot_of kf sz c = get_keyhash (fst (kf c)) (snd (kf c)) sz"

text \<open>The pointers of slot \<open>i\<close> form the chain \<open>xs i\<close>.\<close>

fun slot_ptr :: "nat option option \<Rightarrow> nat option" where
  "slot_ptr None = None"
| "slot_ptr (Some p) = p"

definition slots_rep :: "links \<Rightarrow> (nat \<Rightarrow> nat option option) \<Rightarrow> (nat \<Rightarrow> nat list) \<Rightarrow> bool" where
  "slots_rep nx tab xs \<longleftrightarrow>
     (\<forall>i. chain nx (xs i) None \<and> slot_ptr (tab i) = first_of (xs i) None)"

lemma first_of_None [simp]: "first_of xs None = None \<longleftrightarrow> xs = []" "None = first_of xs None \<longleftrightarrow> xs = []"
  by (cases xs; simp)+

lemma slots_repD:
  "slots_rep nx tab xs \<Longrightarrow> chain nx (xs i) None"
  "slots_rep nx tab xs \<Longrightarrow> tab i = None \<Longrightarrow> xs i = []"
  "slots_rep nx tab xs \<Longrightarrow> tab i = Some p \<Longrightarrow> p = first_of (xs i) None"
  by (auto simp: slots_rep_def dest!: spec [of _ i])

text \<open>The nodes of \<open>S\<close> are in the chains their tags and keys select, once each.\<close>

definition slots_ok :: "key_fun \<Rightarrow> nat \<Rightarrow> (nat \<Rightarrow> nat list) \<Rightarrow> nat set \<Rightarrow> bool" where
  "slots_ok kf sz xs S \<longleftrightarrow>
     (\<forall>i. distinct (xs i)) \<and> (\<forall>i c. c \<in> set (xs i) \<longleftrightarrow> c \<in> S \<and> i = slot_of kf sz c)"

definition ht_ok :: "key_fun \<Rightarrow> links \<Rightarrow> knv_ht \<Rightarrow> nat set \<Rightarrow> bool" where
  "ht_ok kf nx ht S \<longleftrightarrow> h_sz ht \<in> {32, 256, 8192} \<and> finite S \<and> h_nr ht = int (card S) \<and>
     (\<exists>xs. slots_rep nx (h_tab ht) xs \<and> slots_ok kf (h_sz ht) xs S)"

lemma IsMatch_eq: "IsMatch kf t k c \<longleftrightarrow> kf c = (t, k)"
  by (auto simp: IsMatch_def prod_eq_iff)

lemma slot_of_less: "sz \<in> {32, 256, 8192} \<Longrightarrow> slot_of kf sz c < sz"
  using get_keyhash_less [of 5] get_keyhash_less [of 8] get_keyhash_less [of 13]
  by (auto simp: slot_of_def)

lemma ht_walk_chain:
  "chain nx xs None \<Longrightarrow> ht_walk kf nx t k (first_of xs None) = Some (List.find (\<lambda>c. kf c = (t, k)) xs)"
proof (induction xs)
  case Nil
  then show ?case by (simp add: ht_walk.simps)
next
  case (Cons x xs)
  then show ?case by (subst ht_walk.simps) (auto simp: IsMatch_eq)
qed

lemma ht_get_ok:
  assumes "ht_ok kf nx ht S"
  shows "\<exists>r. ht_get kf nx t k ht = Some r \<and>
     (case r of None \<Rightarrow> (\<forall>c \<in> S. kf c \<noteq> (t, k)) | Some c \<Rightarrow> c \<in> S \<and> kf c = (t, k))"
proof -
  from assms obtain xs where rep: "slots_rep nx (h_tab ht) xs" and ok: "slots_ok kf (h_sz ht) xs S"
    by (auto simp: ht_ok_def)
  let ?hi = "get_keyhash t k (h_sz ht)"
  have "ht_get kf nx t k ht = Some (List.find (\<lambda>c. kf c = (t, k)) (xs ?hi))"
    using ht_walk_chain [OF slots_repD(1) [OF rep], of kf t k ?hi] slots_repD(2,3) [OF rep, of ?hi]
    by (cases "h_tab ht ?hi") (auto simp: ht_get_def)
  moreover have "c \<in> set (xs ?hi)" if "c \<in> S" "kf c = (t, k)" for c
    using ok that by (simp add: slots_ok_def slot_of_def)
  moreover have "c \<in> S" if "c \<in> set (xs ?hi)" for c using ok that by (simp add: slots_ok_def)
  ultimately show ?thesis
    by (cases "List.find (\<lambda>c. kf c = (t, k)) (xs ?hi)") (auto simp: find_None_iff find_Some_iff)
qed

lemma slots_rep_upd_out:
  "slots_rep nx tab xs \<Longrightarrow> \<forall>i. n \<notin> set (xs i) \<Longrightarrow> slots_rep (nx(n := v)) tab xs"
  by (simp add: slots_rep_def)

lemma slot_push_rep:
  assumes rep: "slots_rep nx tab xs" and n: "\<forall>i. n \<notin> set (xs i)"
  shows "slots_rep (snd (slot_push hi n (tab, nx))) (fst (slot_push hi n (tab, nx))) (xs(hi := n # xs hi))"
proof -
  let ?p = "first_of (xs hi) None"
  have push: "slot_push hi n (tab, nx) = (tab(hi \<mapsto> Some n), nx(n := ?p))"
    using slots_repD(2,3) [OF rep, of hi] by (cases "tab hi") (auto simp: slot_push_def)
  show ?thesis
    unfolding push using slots_rep_upd_out [OF rep n, of ?p] by (simp add: slots_rep_def)
qed

lemma slots_ok_push:
  assumes "slots_ok kf sz xs S" "n \<notin> S"
  shows "slots_ok kf sz (xs(slot_of kf sz n := n # xs (slot_of kf sz n))) (insert n S)"
  using assms by (auto simp: slots_ok_def)

lemma slots_ok_notin: "slots_ok kf sz xs S \<Longrightarrow> n \<notin> S \<Longrightarrow> n \<notin> set (xs i)"
  by (simp add: slots_ok_def)

text \<open>Moving a chain of nodes that are not in the new table yet.\<close>

lemma move_chain_ok:
  "chain (snd t) cs None \<Longrightarrow> distinct cs \<Longrightarrow> set cs \<inter> S = {} \<Longrightarrow>
   slots_rep (snd t) (fst t) xs \<Longrightarrow> slots_ok kf sz xs S \<Longrightarrow>
   \<exists>t' xs'. move_chain kf sz (first_of cs None) t nr = Some (t', nr + int (length cs)) \<and>
     slots_rep (snd t') (fst t') xs' \<and> slots_ok kf sz xs' (S \<union> set cs) \<and>
     (\<forall>c. c \<notin> set cs \<longrightarrow> snd t' c = snd t c)"
proof (induction cs arbitrary: t nr S xs)
  case Nil
  then show ?case by (subst move_chain.simps) auto
next
  case (Cons c cs)
  let ?hi = "slot_of kf sz c"
  let ?t = "slot_push ?hi c t"
  from Cons.prems have c: "c \<notin> S" "c \<notin> set cs" by auto
  have out: "\<forall>i. c \<notin> set (xs i)" using slots_ok_notin [OF Cons.prems(5) c(1)] by blast
  have rep: "slots_rep (snd ?t) (fst ?t) (xs(?hi := c # xs ?hi))"
    using slot_push_rep [OF Cons.prems(4) out, of ?hi] by simp
  have links: "snd ?t = (snd t)(c := snd ?t c)"
    by (cases "fst t ?hi") (auto simp: slot_push_def)
  have "chain (snd ?t) cs None"
    using Cons.prems(1) c(2) by (subst links) simp
  moreover have "set cs \<inter> insert c S = {}" using Cons.prems(2,3) by auto
  ultimately obtain t' xs' where
    t': "move_chain kf sz (first_of cs None) ?t (nr + 1) = Some (t', nr + 1 + int (length cs))"
      "slots_rep (snd t') (fst t') xs'" "slots_ok kf sz xs' (insert c S \<union> set cs)"
      "\<forall>d. d \<notin> set cs \<longrightarrow> snd t' d = snd ?t d"
    using Cons.IH [OF _ _ _ rep slots_ok_push [OF Cons.prems(5) c(1)], of "nr + 1"] Cons.prems(2) by auto
  have "move_chain kf sz (first_of (c # cs) None) t nr = Some (t', nr + int (length (c # cs)))"
    using Cons.prems(1) t'(1) by (subst move_chain.simps) (simp add: slot_of_def add.assoc)
  moreover have "snd t' d = snd t d" if "d \<notin> set (c # cs)" for d
    using t'(4) that by (subst (asm) links) simp
  ultimately show ?case using t'(2,3) by (intro exI [of _ t'] exI [of _ xs']) simp
qed

lemma move_slots_ok:
  assumes old: "slots_rep nx (h_tab ht) ys" "\<forall>i. distinct (ys i)" "\<forall>i j. i \<noteq> j \<longrightarrow> set (ys i) \<inter> set (ys j) = {}"
  shows "distinct is \<Longrightarrow> \<forall>i \<in> set is. set (ys i) \<inter> S = {} \<Longrightarrow> \<forall>c. c \<notin> S \<longrightarrow> snd t c = nx c \<Longrightarrow>
   slots_rep (snd t) (fst t) xs \<Longrightarrow> slots_ok kf sz xs S \<Longrightarrow>
   \<exists>t' xs'. move_slots kf sz ht is t nr = Some (t', nr + int (sum_list (map (\<lambda>i. length (ys i)) is))) \<and>
     slots_rep (snd t') (fst t') xs' \<and> slots_ok kf sz xs' (S \<union> (\<Union>i \<in> set is. set (ys i))) \<and>
     (\<forall>c. c \<notin> S \<union> (\<Union>i \<in> set is. set (ys i)) \<longrightarrow> snd t' c = nx c)"
proof (induction "is" arbitrary: t nr S xs)
  case Nil
  then show ?case by auto
next
  case (Cons i "is")
  note slot = slots_repD [OF old(1), of i]
  have "chain (snd t) (ys i) None"
    using slot(1) Cons.prems(2,3) by (subst chain_cong [of _ "snd t" nx]) auto
  from move_chain_ok [OF this _ _ Cons.prems(4,5), of nr] old(2) Cons.prems(2) obtain t1 xs1 where
    t1: "move_chain kf sz (first_of (ys i) None) t nr = Some (t1, nr + int (length (ys i)))"
      "slots_rep (snd t1) (fst t1) xs1" "slots_ok kf sz xs1 (S \<union> set (ys i))"
      "\<forall>c. c \<notin> set (ys i) \<longrightarrow> snd t1 c = snd t c" by auto
  have dis: "\<forall>j \<in> set is. set (ys j) \<inter> (S \<union> set (ys i)) = {}"
  proof
    fix j
    assume j: "j \<in> set is"
    then have "j \<noteq> i" using Cons.prems(1) by auto
    then have "set (ys j) \<inter> set (ys i) = {}" using old(3) by blast
    moreover have "set (ys j) \<inter> S = {}" using Cons.prems(2) j by simp
    ultimately show "set (ys j) \<inter> (S \<union> set (ys i)) = {}" by blast
  qed
  have "\<forall>c. c \<notin> S \<union> set (ys i) \<longrightarrow> snd t1 c = nx c" using t1(4) Cons.prems(3) by auto
  from Cons.IH [OF _ dis this t1(2,3), of "nr + int (length (ys i))"] Cons.prems(1) obtain t' xs' where
    t': "move_slots kf sz ht is t1 (nr + int (length (ys i))) =
        Some (t', nr + int (length (ys i)) + int (sum_list (map (\<lambda>i. length (ys i)) is)))"
      "slots_rep (snd t') (fst t') xs'" "slots_ok kf sz xs' (S \<union> set (ys i) \<union> (\<Union>i \<in> set is. set (ys i)))"
      "\<forall>c. c \<notin> S \<union> set (ys i) \<union> (\<Union>i \<in> set is. set (ys i)) \<longrightarrow> snd t' c = nx c" by auto
  have "move_slots kf sz ht (i # is) t nr =
      Some (t', nr + int (sum_list (map (\<lambda>i. length (ys i)) (i # is))))"
  proof (cases "h_tab ht i")
    case None
    then have "ys i = []" using slot(2) by simp
    moreover from this have "t1 = t" using t1(1) by (subst (asm) move_chain.simps) simp
    ultimately show ?thesis using None t'(1) by simp
  next
    case (Some p)
    with slot(3) t1(1) t'(1) show ?thesis by (simp add: add.assoc)
  qed
  with t' show ?case by (intro exI [of _ t'] exI [of _ xs']) (auto simp: Un_assoc)
qed

lemma slots_cover:
  assumes "slots_ok kf sz xs S" "sz \<in> {32, 256, 8192}"
  shows "(\<Union>i \<in> {0..<sz}. set (xs i)) = S"
proof -
  have "c \<in> set (xs (slot_of kf sz c)) \<and> slot_of kf sz c < sz" if "c \<in> S" for c
    using assms that slot_of_less [of sz kf c] by (simp add: slots_ok_def)
  then show ?thesis using assms(1) by (auto simp: slots_ok_def)
qed

lemma slots_disjoint: "slots_ok kf sz xs S \<Longrightarrow> i \<noteq> j \<Longrightarrow> set (xs i) \<inter> set (xs j) = {}"
  by (auto simp: slots_ok_def)

lemma slots_card:
  assumes "slots_ok kf sz xs S" "sz \<in> {32, 256, 8192}"
  shows "sum_list (map (\<lambda>i. length (xs i)) [0..<sz]) = card S"
proof -
  have "card S = card (\<Union>i \<in> {0..<sz}. set (xs i))" using slots_cover [OF assms] by simp
  also have "\<dots> = (\<Sum>i \<in> {0..<sz}. card (set (xs i)))"
    using slots_disjoint [OF assms(1)] by (intro card_UN_disjoint) auto
  also have "\<dots> = (\<Sum>i \<in> {0..<sz}. length (xs i))"
    using assms(1) by (intro sum.cong refl distinct_card) (simp add: slots_ok_def)
  finally show ?thesis by (simp add: sum_list_sum_nth atLeast0LessThan)
qed

lemma next_level_cases:
  "h \<in> {32, 256, 8192} \<Longrightarrow> h < biggest_level \<Longrightarrow> next_level h \<in> {32, 256, 8192}"
  by (auto simp: next_level_def ht_levels_def biggest_level_def)

text \<open>
  Growing the table returns, keeps the set of nodes, and changes the links of these nodes only.
\<close>

lemma ht_increase_ok:
  assumes "ht_ok kf nx ht S"
  shows "\<exists>r nx' ht' s'. ht_increase kf nx ht s = Some (r, nx', ht', s') \<and> ht_ok kf nx' ht' S \<and>
     (\<forall>c. c \<notin> S \<longrightarrow> nx' c = nx c)"
proof -
  from assms obtain xs where sz: "h_sz ht \<in> {32, 256, 8192}" and fin: "finite S"
    and rep: "slots_rep nx (h_tab ht) xs" and ok: "slots_ok kf (h_sz ht) xs S"
    by (auto simp: ht_ok_def)
  let ?n = "next_level (h_sz ht)"
  have empty: "slots_rep nx (\<lambda>_. None) (\<lambda>_. [])" "slots_ok kf ?n (\<lambda>_. []) {}"
    by (simp_all add: slots_rep_def slots_ok_def)
  have "\<forall>i. distinct (xs i)" "\<forall>i j. i \<noteq> j \<longrightarrow> set (xs i) \<inter> set (xs j) = {}"
    using ok slots_disjoint [OF ok] by (simp_all add: slots_ok_def)
  from move_slots_ok [OF rep this, of "[0..<h_sz ht]" "{}" "((\<lambda>_. None), nx)" "\<lambda>_. []" kf ?n 0]
    empty slots_cover [OF ok sz] slots_card [OF ok sz]
  obtain t' xs' where t': "move_slots kf ?n ht [0..<h_sz ht] ((\<lambda>_. None), nx) 0 = Some (t', int (card S))"
    "slots_rep (snd t') (fst t') xs'" "slots_ok kf ?n xs' S" "\<forall>c. c \<notin> S \<longrightarrow> snd t' c = nx c"
    by auto
  have "ht_ok kf (snd t') \<lparr>h_nr = int (card S), h_sz = ?n, h_mem = m, h_tab = fst t'\<rparr> S"
    if "h_sz ht < biggest_level" for m
    using next_level_cases [OF sz that] fin t'(2,3) by (auto simp: ht_ok_def)
  with assms t'(1,4) show ?thesis
    by (auto simp: ht_increase_def Let_def split: option.split prod.split)
qed

lemma ht_put_ok:
  assumes ok: "ht_ok kf nx ht S" and n: "n \<notin> S"
  shows "\<exists>r nx' ht' s'. ht_put kf n nx ht s = Some (r, nx', ht', s') \<and>
     (if r = 0 then ht_ok kf nx' ht' (insert n S) else ht_ok kf nx' ht' S) \<and>
     (\<forall>c. c \<notin> insert n S \<longrightarrow> nx' c = nx c)"
proof -
  obtain r1 nx1 ht1 s1 where
    inc: "(if h_nr ht + 1 > int (h_sz ht) then ht_increase kf nx ht s else Some (0, nx, ht, s)) = Some (r1, nx1, ht1, s1)"
    and ok1: "ht_ok kf nx1 ht1 S" and fr1: "\<forall>c. c \<notin> S \<longrightarrow> nx1 c = nx c"
    using ht_increase_ok [OF ok, of s] ok by (cases "h_nr ht + 1 > int (h_sz ht)") auto
  from ok1 obtain xs where rep: "slots_rep nx1 (h_tab ht1) xs" and so: "slots_ok kf (h_sz ht1) xs S"
    and h: "h_sz ht1 \<in> {32, 256, 8192}" "finite S" "h_nr ht1 = int (card S)" by (auto simp: ht_ok_def)
  let ?hi = "slot_of kf (h_sz ht1) n"
  let ?t = "slot_push ?hi n (h_tab ht1, nx1)"
  have out: "\<forall>i. n \<notin> set (xs i)" using slots_ok_notin [OF so n] by blast
  have "ht_ok kf (snd ?t) (ht1\<lparr>h_tab := fst ?t, h_nr := h_nr ht1 + 1\<rparr>) (insert n S)"
    using slot_push_rep [OF rep out, of ?hi] slots_ok_push [OF so n] h n by (auto simp: ht_ok_def)
  moreover have "snd ?t c = nx1 c" if "c \<noteq> n" for c
    using that by (cases "h_tab ht1 ?hi") (auto simp: slot_push_def)
  ultimately show ?thesis using inc ok1 fr1 by (auto simp: ht_put_def slot_of_def [symmetric] Let_def)
qed

text \<open>Unlinking a node at the place that points to it.\<close>

definition place :: "nat \<Rightarrow> nat list \<Rightarrow> HtPos" where
  "place hi as = (if as = [] then SlotPos hi else NextPos (last as))"

lemma slot_unlink_rep:
  assumes rep: "slots_rep nx (h_tab ht) xs" and split: "xs hi = as @ n # bs" and dis: "distinct (xs hi)"
    and disj: "\<forall>i. i \<noteq> hi \<longrightarrow> set (xs i) \<inter> set (xs hi) = {}"
  shows "slots_rep (fst (ht_remove_pos n (place hi as) nx ht)) (h_tab (snd (ht_remove_pos n (place hi as) nx ht)))
     (xs(hi := as @ bs))"
proof -
  have "chain nx (as @ n # bs) None" using slots_repD(1) [OF rep, of hi] split by simp
  then have ch: "chain nx as (Some n)" "nx n = first_of bs None" "chain nx bs None" by (simp_all add: chain_append)
  show ?thesis
  proof (cases "as = []")
    case True
    with rep ch show ?thesis by (simp add: place_def ht_remove_pos_def slots_rep_def)
  next
    case False
    let ?l = "last as"
    have l: "?l \<in> set as" using False by simp
    then have "?l \<notin> set bs" using dis split by auto
    note l = l this
    have other: "?l \<notin> set (xs i)" if "i \<noteq> hi" for i using disj that l(1) split by fastforce
    have "chain (nx(?l := first_of bs None)) (as @ bs) None"
      using chain_redirect [OF ch(1), of "first_of bs None"] ch(3) dis split False l(2) by (simp add: chain_append)
    moreover have "slot_ptr (h_tab ht hi) = first_of (as @ bs) None"
      using rep split False by (cases as) (auto simp: slots_rep_def dest: spec [of _ hi])
    moreover have "chain (nx(?l := first_of bs None)) (xs i) None" if "i \<noteq> hi" for i
      using slots_repD(1) [OF rep, of i] other [OF that] by simp
    ultimately show ?thesis
      using rep False ch(2) by (simp add: place_def ht_remove_pos_def slots_rep_def)
  qed
qed

lemma slot_unlink_ok:
  assumes so: "slots_ok kf sz xs S" and split: "xs hi = as @ n # bs"
  shows "slots_ok kf sz (xs(hi := as @ bs)) (S - {n})"
proof -
  have d: "distinct (as @ n # bs)" using so split unfolding slots_ok_def by metis
  have mem: "c \<in> set (xs i) \<longleftrightarrow> c \<in> S \<and> i = slot_of kf sz c" for i c using so by (simp add: slots_ok_def)
  have "c \<in> set (as @ bs) \<longleftrightarrow> c \<in> S - {n} \<and> hi = slot_of kf sz c" for c
    using mem [of c hi] d split by auto
  moreover have "hi = slot_of kf sz n" using mem [of n hi] split by simp
  ultimately show ?thesis using so d mem by (auto simp: slots_ok_def)
qed

lemma ht_remove_pos_ok:
  assumes ok: "ht_ok kf nx ht S" and rep: "slots_rep nx (h_tab ht) xs" and so: "slots_ok kf (h_sz ht) xs S"
    and split: "xs hi = as @ n # bs"
  shows "ht_ok kf (fst (ht_remove_pos n (place hi as) nx ht)) (snd (ht_remove_pos n (place hi as) nx ht)) (S - {n}) \<and>
     (\<forall>c. c \<notin> S \<longrightarrow> fst (ht_remove_pos n (place hi as) nx ht) c = nx c)"
proof -
  let ?r = "ht_remove_pos n (place hi as) nx ht"
  have d: "distinct (xs hi)" using so by (simp add: slots_ok_def)
  have "c \<in> S" if "c \<in> set (xs hi)" for c using so that by (simp add: slots_ok_def)
  then have nS: "n \<in> S" and asS: "set as \<subseteq> S" by (auto simp: split)
  have h: "h_sz (snd ?r) = h_sz ht" "h_nr (snd ?r) = h_nr ht - 1"
    by (simp_all add: ht_remove_pos_def split: HtPos.split)
  have "finite S" using ok by (simp add: ht_ok_def)
  from card_Suc_Diff1 [OF this nS] have "int (card (S - {n})) = int (card S) - 1" by linarith
  moreover have "slots_rep (fst ?r) (h_tab (snd ?r)) (xs(hi := as @ bs))"
    using slot_unlink_rep [OF rep split d] slots_disjoint [OF so] by blast
  ultimately have "ht_ok kf (fst ?r) (snd ?r) (S - {n})"
    using ok slot_unlink_ok [OF so split] by (auto simp: ht_ok_def h)
  moreover have "fst ?r c = nx c" if "c \<notin> S" for c
  proof (cases "as = []")
    case True
    then show ?thesis by (simp add: place_def ht_remove_pos_def)
  next
    case False
    then have "c \<noteq> last as" using that asS last_in_set by blast
    with False show ?thesis by (simp add: place_def ht_remove_pos_def)
  qed
  ultimately show ?thesis by blast
qed

lemma ht_search_chain:
  "chain nx xs None \<Longrightarrow> xs = as @ n # bs \<Longrightarrow> n \<notin> set as \<Longrightarrow>
   ht_search n nx (first_of xs None) pos = Some (Some (if as = [] then pos else NextPos (last as)))"
proof (induction as arbitrary: xs pos)
  case Nil
  then show ?case by (subst ht_search.simps) simp
next
  case (Cons a as)
  then show ?case by (subst ht_search.simps) auto
qed

lemma ht_remove_ok:
  assumes ok: "ht_ok kf nx ht S" and n: "n \<in> S"
  shows "\<exists>nx' ht'. ht_remove kf n nx ht = Some (0, nx', ht') \<and> ht_ok kf nx' ht' (S - {n}) \<and>
     (\<forall>c. c \<notin> S \<longrightarrow> nx' c = nx c)"
proof -
  from ok obtain xs where rep: "slots_rep nx (h_tab ht) xs" and so: "slots_ok kf (h_sz ht) xs S"
    by (auto simp: ht_ok_def)
  let ?hi = "slot_of kf (h_sz ht) n"
  have "n \<in> set (xs ?hi)" using so n by (simp add: slots_ok_def)
  then obtain as bs where split: "xs ?hi = as @ n # bs" "n \<notin> set as" by (meson split_list_first)
  then obtain p where p: "h_tab ht ?hi = Some p" using slots_repD(2) [OF rep, of ?hi] by (cases "h_tab ht ?hi") auto
  have "ht_search n nx p (SlotPos ?hi) = Some (Some (place ?hi as))"
    using ht_search_chain [OF slots_repD(1) [OF rep] split] slots_repD(3) [OF rep p] by (simp add: place_def)
  with p have "ht_remove kf n nx ht = Some (0, ht_remove_pos n (place ?hi as) nx ht)"
    by (simp add: ht_remove_def slot_of_def)
  with ht_remove_pos_ok [OF ok rep so split(1)] show ?thesis
    by (cases "ht_remove_pos n (place ?hi as) nx ht") auto
qed

lemma ht_walk_pos_chain:
  "chain nx xs None \<Longrightarrow> ht_walk_pos kf nx t k pos (first_of xs None) = Some (Some (c, pos')) \<Longrightarrow>
   \<exists>as bs. xs = as @ c # bs \<and> kf c = (t, k) \<and> pos' = (if as = [] then pos else NextPos (last as))"
proof (induction xs arbitrary: pos)
  case Nil
  then show ?case by (simp add: ht_walk_pos.simps)
next
  case (Cons x xs)
  show ?case
  proof (cases "kf x = (t, k)")
    case True
    with Cons.prems show ?thesis by (subst (asm) ht_walk_pos.simps) (auto simp: IsMatch_eq intro!: exI [of _ "[]"])
  next
    case False
    with Cons.prems have "ht_walk_pos kf nx t k (NextPos x) (first_of xs None) = Some (Some (c, pos'))"
      by (subst (asm) ht_walk_pos.simps) (simp add: IsMatch_eq)
    with Cons.IH [of "NextPos x"] Cons.prems(1) obtain as bs where "xs = as @ c # bs" "kf c = (t, k)"
      "pos' = (if as = [] then NextPos x else NextPos (last as))" by auto
    then show ?thesis by (intro exI [of _ "x # as"] exI [of _ bs]) auto
  qed
qed

lemma ht_get_pos_ok:
  assumes ok: "ht_ok kf nx ht S" and get: "ht_get_pos kf nx t k ht = Some (Some (c, pos))"
  shows "c \<in> S \<and> kf c = (t, k) \<and>
     ht_ok kf (fst (ht_remove_pos c pos nx ht)) (snd (ht_remove_pos c pos nx ht)) (S - {c})"
proof -
  from ok obtain xs where rep: "slots_rep nx (h_tab ht) xs" and so: "slots_ok kf (h_sz ht) xs S"
    by (auto simp: ht_ok_def)
  let ?hi = "get_keyhash t k (h_sz ht)"
  from get obtain p where p: "h_tab ht ?hi = Some p"
    and w: "ht_walk_pos kf nx t k (SlotPos ?hi) p = Some (Some (c, pos))"
    by (auto simp: ht_get_pos_def Let_def split: option.splits)
  from ht_walk_pos_chain [OF slots_repD(1) [OF rep, of ?hi]] w slots_repD(3) [OF rep p]
  have "\<exists>as bs. xs ?hi = as @ c # bs \<and> kf c = (t, k) \<and> pos = place ?hi as" unfolding place_def by metis
  then obtain as bs where c: "xs ?hi = as @ c # bs" "kf c = (t, k)" "pos = place ?hi as" by blast
  have "c \<in> S" using so c(1) unfolding slots_ok_def by (metis in_set_conv_decomp)
  with ht_remove_pos_ok [OF ok rep so c(1)] c(2,3) show ?thesis by simp
qed

section \<open>The interface\<close>

text \<open>Puts (\<open>Inl\<close>) and removals (\<open>Inr\<close>) in any order; the set follows the return codes.\<close>

fun table_run ::
  "(nat \<Rightarrow> 't \<Rightarrow> (int \<times> 't) option) \<Rightarrow> (nat \<Rightarrow> 't \<Rightarrow> (int \<times> 't) option) \<Rightarrow> (nat + nat) list \<Rightarrow> 't \<times> nat set
     \<Rightarrow> ('t \<times> nat set) option" where
  "table_run put del [] (h, S) = Some (h, S)"
| "table_run put del (Inl n # xs) (h, S) =
     (if n \<in> S then table_run put del xs (h, S)
      else do { (r, h) \<leftarrow> put n h; table_run put del xs (h, if r = 0 then insert n S else S) })"
| "table_run put del (Inr n # xs) (h, S) =
     (if n \<in> S then do { (r, h) \<leftarrow> del n h; table_run put del xs (h, S - {n}) }
      else table_run put del xs (h, S))"

text \<open>
  What the nodes rely on: a table represents a set of nodes; every call returns; a lookup finds a
  node of the set with the given tag and key whenever there is one, and nothing else.
\<close>

locale node_table =
  fixes ok :: "'t \<Rightarrow> nat set \<Rightarrow> bool" and kf :: key_fun
    and get :: "knv_tag_t \<Rightarrow> byte list \<Rightarrow> 't \<Rightarrow> nat option option"
    and put :: "nat \<Rightarrow> 't \<Rightarrow> (int \<times> 't) option" and del :: "nat \<Rightarrow> 't \<Rightarrow> (int \<times> 't) option"
  assumes get_ok: "ok h S \<Longrightarrow> \<exists>r. get t k h = Some r \<and>
       (case r of None \<Rightarrow> (\<forall>c \<in> S. kf c \<noteq> (t, k)) | Some c \<Rightarrow> c \<in> S \<and> kf c = (t, k))"
    and put_ok: "ok h S \<Longrightarrow> n \<notin> S \<Longrightarrow>
       \<exists>r h'. put n h = Some (r, h') \<and> ok h' (if r = 0 then insert n S else S)"
    and del_ok: "ok h S \<Longrightarrow> n \<in> S \<Longrightarrow> \<exists>h'. del n h = Some (0, h') \<and> ok h' (S - {n})"
begin

lemma get_iff:
  "ok h S \<Longrightarrow> \<exists>r. get t k h = Some r \<and> (r \<noteq> None \<longleftrightarrow> (\<exists>c \<in> S. kf c = (t, k))) \<and>
     (\<forall>c. r = Some c \<longrightarrow> c \<in> S \<and> kf c = (t, k))"
  using get_ok [of h S t k] by (auto split: option.splits)

lemma get_unique:
  assumes "ok h S" "n \<in> S" "\<And>c. c \<in> S \<Longrightarrow> kf c = kf n \<Longrightarrow> c = n"
  shows "get (fst (kf n)) (snd (kf n)) h = Some (Some n)"
  using get_iff [OF assms(1), of "fst (kf n)" "snd (kf n)"] assms(2,3) by auto

lemma run_ok: "ok h S \<Longrightarrow> \<exists>h' S'. table_run put del xs (h, S) = Some (h', S') \<and> ok h' S'"
proof (induction xs arbitrary: h S)
  case (Cons x xs)
  show ?case
  proof (cases x)
    case (Inl n)
    with Cons put_ok [OF Cons.prems, of n] show ?thesis by (cases "n \<in> S") fastforce+
  next
    case (Inr n)
    with Cons del_ok [OF Cons.prems, of n] show ?thesis by (cases "n \<in> S") fastforce+
  qed
qed auto

end

type_synonym table = "links \<times> knv_ht \<times> mem_state"

definition table_ok :: "key_fun \<Rightarrow> table \<Rightarrow> nat set \<Rightarrow> bool" where
  "table_ok kf h S = ht_ok kf (fst h) (fst (snd h)) S"

definition table_get :: "key_fun \<Rightarrow> knv_tag_t \<Rightarrow> byte list \<Rightarrow> table \<Rightarrow> nat option option" where
  "table_get kf t k h = ht_get kf (fst h) t k (fst (snd h))"

definition table_put :: "key_fun \<Rightarrow> nat \<Rightarrow> table \<Rightarrow> (int \<times> table) option" where
  "table_put kf n h = ht_put kf n (fst h) (fst (snd h)) (snd (snd h))"

definition table_del :: "key_fun \<Rightarrow> nat \<Rightarrow> table \<Rightarrow> (int \<times> table) option" where
  "table_del kf n h = map_option (\<lambda>(r, nx, ht). (r, nx, ht, snd (snd h))) (ht_remove kf n (fst h) (fst (snd h)))"

interpretation knvht: node_table "table_ok kf" kf "table_get kf" "table_put kf" "table_del kf" for kf
proof
  fix h S t k
  assume "table_ok kf h S"
  then show "\<exists>r. table_get kf t k h = Some r \<and>
      (case r of None \<Rightarrow> (\<forall>c \<in> S. kf c \<noteq> (t, k)) | Some c \<Rightarrow> c \<in> S \<and> kf c = (t, k))"
    unfolding table_get_def table_ok_def by (rule ht_get_ok)
next
  fix h S n
  assume "table_ok kf h S" "n \<notin> S"
  then show "\<exists>r h'. table_put kf n h = Some (r, h') \<and> table_ok kf h' (if r = 0 then insert n S else S)"
    using ht_put_ok [of kf "fst h" "fst (snd h)" S n "snd (snd h)"] unfolding table_put_def table_ok_def
    by (auto split: if_splits)
next
  fix h S n
  assume "table_ok kf h S" "n \<in> S"
  then show "\<exists>h'. table_del kf n h = Some (0, h') \<and> table_ok kf h' (S - {n})"
    using ht_remove_ok [of kf "fst h" "fst (snd h)" S n] unfolding table_del_def table_ok_def by auto
qed

lemma ht_init_ok: "ht_ok kf nx ht_init {}"
  by (auto simp: ht_ok_def ht_init_def KNV_DEFAULT_HT_SIZE_def slots_rep_def slots_ok_def intro!: exI [of _ "\<lambda>_. []"])

text \<open>
  C10. The hash table of a node is exact.  Any sequence of \<open>put\<close> and \<open>remove\<close> calls on an empty table returns,
  with the table growing from 32 to 256 and 8192 slots on the way and allocations failing or not;
  afterwards \<open>get\<close> returns a node exactly when a node with that tag and key bytes is in the table, and
  then one that has them; \<open>nr\<close> is the number of nodes.
\<close>

theorem knv_ht_exact:
  "\<exists>nx' ht s' S r. table_run (table_put kf) (table_del kf) xs ((nx, ht_init, s), {}) = Some ((nx', ht, s'), S) \<and>
     ht_get kf nx' t k ht = Some r \<and> (r \<noteq> None \<longleftrightarrow> (\<exists>c \<in> S. kf c = (t, k))) \<and>
     (\<forall>c \<in> set_option r. c \<in> S \<and> kf c = (t, k)) \<and> h_nr ht = int (card S)"
proof -
  have "table_ok kf (nx, ht_init, s) {}" by (simp add: table_ok_def ht_init_ok)
  from knvht.run_ok [OF this, of xs] obtain h S where
    r: "table_run (table_put kf) (table_del kf) xs ((nx, ht_init, s), {}) = Some (h, S)" and ok: "table_ok kf h S"
    by blast
  obtain nx' ht s' where h: "h = (nx', ht, s')" by (metis surj_pair)
  from knvht.get_iff [OF ok, of t k] obtain q where q: "ht_get kf nx' t k ht = Some q"
    "q \<noteq> None \<longleftrightarrow> (\<exists>c \<in> S. kf c = (t, k))" "\<forall>c. q = Some c \<longrightarrow> c \<in> S \<and> kf c = (t, k)"
    unfolding table_get_def h by auto
  have "h_nr ht = int (card S)" using ok by (simp add: table_ok_def h ht_ok_def)
  with r q h show ?thesis by fastforce
qed

definition demo_kf :: key_fun where
  "demo_kf n = (11, [of_nat n])"

theorem knv_ht_exact_witness:
  "\<exists>nx' ht s' S. table_run (table_put demo_kf) (table_del demo_kf) [Inl 1, Inl 33, Inl 2, Inr 1]
       (((\<lambda>_. None), ht_init, (GetInstance, start_ctx)), {}) = Some ((nx', ht, s'), S) \<and> h_nr ht = int (card S)"
  using knv_ht_exact [of demo_kf "[Inl 1, Inl 33, Inl 2, Inr 1]" "\<lambda>_. None" "(GetInstance, start_ctx)" 11 "[33]"]
  by blast

text \<open>
  \<open>get\<close> with a position returns a matching node and the place that points to it: \<open>remove\<close> at that
  place takes exactly this node out of the table.
\<close>

theorem knv_ht_remove_at_pos:
  assumes "ht_ok kf nx ht S" "ht_get_pos kf nx t k ht = Some (Some (c, pos))"
    and "ht_remove_pos c pos nx ht = (nx', ht')"
  shows "c \<in> S \<and> kf c = (t, k) \<and> ht_ok kf nx' ht' (S - {c})"
  using ht_get_pos_ok [OF assms(1,2)] assms(3) by simp

lemma demo_put:
  "ht_put demo_kf 5 (\<lambda>_. None) ht_init s =
     Some (0, (\<lambda>_. None), ht_init\<lparr>h_tab := (\<lambda>_. None)(16 \<mapsto> Some 5), h_nr := 1\<rparr>, s)"
  by (simp add: ht_put_def ht_init_def KNV_DEFAULT_HT_SIZE_def slot_push_def demo_kf_def get_keyhash_def Let_def fun_upd_idem)

lemma demo_ht_ok: "ht_ok demo_kf (\<lambda>_. None) (ht_init\<lparr>h_tab := (\<lambda>_. None)(16 \<mapsto> Some 5), h_nr := 1\<rparr>) {5}"
  using ht_put_ok [OF ht_init_ok, where n = 5 and kf = demo_kf and nx = "\<lambda>_. None"] by (auto simp: demo_put)

theorem knv_ht_remove_at_pos_witness:
  "\<exists>nx' ht'. ht_remove_pos 5 (SlotPos 16) (\<lambda>_. None) (ht_init\<lparr>h_tab := (\<lambda>_. None)(16 \<mapsto> Some 5), h_nr := 1\<rparr>) = (nx', ht') \<and>
     ht_ok demo_kf nx' ht' {}"
proof -
  let ?ht = "ht_init\<lparr>h_tab := (\<lambda>_. None)(16 \<mapsto> Some 5), h_nr := 1\<rparr>"
  have "ht_get_pos demo_kf (\<lambda>_. None) 11 [5] ?ht = Some (Some (5, SlotPos 16))"
    by (simp add: ht_get_pos_def get_keyhash_def ht_init_def KNV_DEFAULT_HT_SIZE_def ht_walk_pos.simps IsMatch_eq demo_kf_def)
  from knv_ht_remove_at_pos [OF demo_ht_ok this] show ?thesis
    by (cases "ht_remove_pos 5 (SlotPos 16) (\<lambda>_. None) ?ht") simp
qed

section \<open>A node put twice\<close>

lemma ht_walk_loop:
  assumes "ht_walk kf nx t k c = Some r"
  shows "c = Some n \<longrightarrow> nx n = Some n \<longrightarrow> kf n = (t, k)"
  by (rule ht_walk.raw_induct
      [where P = "\<lambda>kf nx t k c r. c = Some n \<longrightarrow> nx n = Some n \<longrightarrow> kf n = (t, k)", OF _ assms])
    (auto simp: IsMatch_eq split: if_splits)

text \<open>
  \<open>put\<close> relies on the node not being in the table: putting the last node put a second time makes its
  \<open>ht_next\<close> point to itself, and from then on a lookup in this slot that does not match the node never
  returns.
\<close>

theorem ht_put_twice_loops:
  assumes "h_tab ht (slot_of kf (h_sz ht) n) = Some (Some n)" "h_nr ht < int (h_sz ht)"
    and "get_keyhash t k (h_sz ht) = slot_of kf (h_sz ht) n" "kf n \<noteq> (t, k)"
  shows "\<exists>nx' ht'. ht_put kf n nx ht s = Some (0, nx', ht', s) \<and> nx' n = Some n \<and> ht_get kf nx' t k ht' = None"
proof -
  let ?hi = "slot_of kf (h_sz ht) n"
  let ?nx = "nx(n \<mapsto> n)"
  have put: "ht_put kf n nx ht s = Some (0, ?nx, ht\<lparr>h_tab := (h_tab ht)(?hi \<mapsto> Some n), h_nr := h_nr ht + 1\<rparr>, s)"
    using assms(1,2) by (simp add: ht_put_def slot_push_def slot_of_def Let_def)
  have "ht_walk kf ?nx t k (Some n) \<noteq> Some r" for r
    using ht_walk_loop [of kf ?nx t k "Some n" r n] assms(4) by auto
  then have "ht_walk kf ?nx t k (Some n) = None" by (cases "ht_walk kf ?nx t k (Some n)") auto
  with put assms(3) show ?thesis by (auto simp: ht_get_def)
qed

theorem ht_put_twice_loops_witness:
  "\<exists>nx' ht'. ht_put demo_kf 5 (\<lambda>_. None) (ht_init\<lparr>h_tab := (\<lambda>_. None)(16 \<mapsto> Some 5), h_nr := 1\<rparr>) (GetInstance, start_ctx)
       = Some (0, nx', ht', (GetInstance, start_ctx)) \<and> ht_get demo_kf nx' 11 [37] ht' = None"
  using ht_put_twice_loops [of "ht_init\<lparr>h_tab := (\<lambda>_. None)(16 \<mapsto> Some 5), h_nr := 1\<rparr>" demo_kf 5 11 "[37]"
      "\<lambda>_. None" "(GetInstance, start_ctx)"]
  by (auto simp: slot_of_def demo_kf_def get_keyhash_def ht_init_def KNV_DEFAULT_HT_SIZE_def)

end
