(* ===== verification/Knv_Node.thy ===== *)
theory Knv_Node
  imports Knv_Ht
begin

text \<open>
  The nodes of a tree: \<open>KnvLeaf\<close> and \<open>KnvNode\<close> of \<open>src/src/knv_node.h\<close>, with the constructors, the release of
  nodes and the expansion of a value into children from \<open>src/src/knv_node.cc\<close>.

  The state of the library is a \<open>world\<close>: the nodes by number, the node pool, the memory and the
  thread-local \<open>errorstr\<close>.  The lists linked by \<open>next\<close> and \<open>prev\<close> are lists of node numbers (theory
  \<open>Obj_Pool\<close> shows that the pointer structure implements them); \<open>[]\<close> is the null list.  Functions that
  follow links of the tree take the number of nodes as a bound and return \<open>None\<close> beyond it, which a
  well-formed tree never reaches.
\<close>

section \<open>State\<close>

definition UC_MAX_META_NUM :: nat where
  "UC_MAX_META_NUM = 10"

record knv_node =
  n_tag :: knv_tag_t
  n_type :: knv_type_t
  n_val :: knv_value_t
  n_dyn :: knv_dynamic_data_t
  n_key :: knv_key_t
  n_child_num :: int
  n_ht :: knv_ht
  n_childlist :: "nat list"
  n_metalist :: "nat list"
  n_metas :: "nat \<Rightarrow> nat option"
  n_subnode_dirty :: bool
  n_child_has_key :: bool
  n_no_key :: bool
  n_parent :: "nat option"
  n_eval_sz :: int
  n_eval_val_sz :: int
  n_errmsg :: "string option"

text \<open>The constructor \<open>KnvNode()\<close>.\<close>

definition KnvNode0 :: knv_node where
  "KnvNode0 = \<lparr>n_tag = 0, n_type = KNV_DEFAULT_TYPE, n_val = str_value 0 NULL, n_dyn = dyn_init,
     n_key = key_default, n_child_num = -1, n_ht = ht_init, n_childlist = [], n_metalist = [],
     n_metas = (\<lambda>_. None), n_subnode_dirty = False, n_child_has_key = False, n_no_key = False,
     n_parent = None, n_eval_sz = -1, n_eval_val_sz = 0, n_errmsg = None\<rparr>"

record world =
  w_nodes :: "nat \<Rightarrow> knv_node"
  w_ht_next :: links
  w_free :: "nat list"
  w_count :: nat
  w_pool :: bool
  w_mem :: mem_state
  w_errorstr :: "string option"

abbreviation nd :: "world \<Rightarrow> nat \<Rightarrow> knv_node" where
  "nd w n \<equiv> w_nodes w n"

abbreviation w_heap :: "world \<Rightarrow> heap" where
  "w_heap w \<equiv> heap_of (w_mem w)"

definition upd :: "nat \<Rightarrow> (knv_node \<Rightarrow> knv_node) \<Rightarrow> world \<Rightarrow> world" where
  "upd n f w = w\<lparr>w_nodes := (w_nodes w)(n := f (w_nodes w n))\<rparr>"

definition err :: "nat \<Rightarrow> string \<Rightarrow> world \<Rightarrow> world" where
  "err n msg w = upd n (n_errmsg_update (\<lambda>_. Some msg)) w"

definition copy_err :: "nat \<Rightarrow> nat \<Rightarrow> world \<Rightarrow> world" where
  "copy_err n m w = upd n (n_errmsg_update (\<lambda>_. n_errmsg (nd w m))) w"

definition set_mem_state :: "mem_state \<Rightarrow> world \<Rightarrow> world" where
  "set_mem_state s w = w\<lparr>w_mem := s\<rparr>"

definition set_errorstr :: "string \<Rightarrow> world \<Rightarrow> world" where
  "set_errorstr msg w = w\<lparr>w_errorstr := Some msg\<rparr>"

abbreviation small_buf :: "nat \<Rightarrow> ptr" where
  "small_buf n \<equiv> Ptr (NodeBuf n) 0"

abbreviation key_small_buf :: "nat \<Rightarrow> ptr" where
  "key_small_buf n \<equiv> Ptr (KeyBuf n) 0"

text \<open>Tag and key bytes of a node, as the hash table of its parent sees them.\<close>

definition node_kf :: "world \<Rightarrow> nat \<Rightarrow> knv_tag_t \<times> byte list" where
  "node_kf w c = (n_tag (nd w c), key_bytes (w_heap w) (n_key (nd w c)))"

section \<open>Buffers, keys and tables of a node\<close>

definition node_alloc :: "nat \<Rightarrow> u32 \<Rightarrow> world \<Rightarrow> ptr \<times> world" where
  "node_alloc n sz w =
     (let (p, d, s) = dyn_alloc (small_buf n) sz (n_dyn (nd w n)) (w_mem w)
      in (p, upd n (n_dyn_update (\<lambda>_. d)) (set_mem_state s w)))"

definition node_assign :: "nat \<Rightarrow> nat option \<Rightarrow> u32 \<Rightarrow> world \<Rightarrow> ptr \<times> world" where
  "node_assign n m sz w =
     (let (p, d, s) = dyn_assign m sz (n_dyn (nd w n)) (w_mem w)
      in (p, upd n (n_dyn_update (\<lambda>_. d)) (set_mem_state s w)))"

definition node_write :: "ptr \<Rightarrow> byte list \<Rightarrow> world \<Rightarrow> world" where
  "node_write p bs w = set_mem_state (put_bytes p bs (w_mem w)) w"

definition node_key_init :: "nat \<Rightarrow> knv_type_t \<Rightarrow> knv_value_t option \<Rightarrow> bool \<Rightarrow> world \<Rightarrow> int \<times> world" where
  "node_key_init n ktype kval own_buf w =
     (let (r, k, s) = key_init (key_small_buf n) ktype kval own_buf (n_key (nd w n)) (w_mem w)
      in (r, upd n (n_key_update (\<lambda>_. k)) (set_mem_state s w)))"

text \<open>
  The calls \<open>ht.put\<close>, \<open>ht.remove\<close> and \<open>ht.get\<close> of node \<open>p\<close>; \<open>None\<close> when the chain is a cycle and the loop of
  the call does not end.
\<close>

definition node_ht_put :: "nat \<Rightarrow> nat \<Rightarrow> world \<Rightarrow> (int \<times> world) option" where
  "node_ht_put p n w =
     do {
       (r, nx, ht, s) \<leftarrow> ht_put (node_kf w) n (w_ht_next w) (n_ht (nd w p)) (w_mem w);
       let w = upd p (n_ht_update (\<lambda>_. ht)) (set_mem_state s (w\<lparr>w_ht_next := nx\<rparr>));
       Some (r, if r \<noteq> 0 then set_errorstr ''UcMemManager::Alloc failed'' w else w)
     }"

definition node_ht_remove :: "nat \<Rightarrow> nat \<Rightarrow> world \<Rightarrow> (int \<times> world) option" where
  "node_ht_remove p n w =
     do {
       (r, nx, ht) \<leftarrow> ht_remove (node_kf w) n (w_ht_next w) (n_ht (nd w p));
       let w = upd p (n_ht_update (\<lambda>_. ht)) (w\<lparr>w_ht_next := nx\<rparr>);
       Some (r, if r \<noteq> 0 then set_errorstr ''tag/key not found in ht'' w else w)
     }"

definition node_ht_remove_pos :: "nat \<Rightarrow> nat \<Rightarrow> HtPos \<Rightarrow> world \<Rightarrow> world" where
  "node_ht_remove_pos p n pos w =
     (let (nx, ht) = ht_remove_pos n pos (w_ht_next w) (n_ht (nd w p))
      in upd p (n_ht_update (\<lambda>_. ht)) (w\<lparr>w_ht_next := nx\<rparr>))"

definition node_ht_get :: "nat \<Rightarrow> knv_tag_t \<Rightarrow> byte list \<Rightarrow> world \<Rightarrow> nat option option" where
  "node_ht_get p t k w = ht_get (node_kf w) (w_ht_next w) t k (n_ht (nd w p))"

definition node_ht_get_pos :: "nat \<Rightarrow> knv_tag_t \<Rightarrow> byte list \<Rightarrow> world \<Rightarrow> (nat \<times> HtPos) option option" where
  "node_ht_get_pos p t k w = ht_get_pos (node_kf w) (w_ht_next w) t k (n_ht (nd w p))"

section \<open>Releasing nodes\<close>

definition KnvLeaf_ReleaseObject :: "nat \<Rightarrow> world \<Rightarrow> world" where
  "KnvLeaf_ReleaseObject n w =
     (let (d, s) = dyn_free (n_dyn (nd w n)) (w_mem w)
      in upd n (\<lambda>x. x\<lparr>n_tag := 0, n_val := \<lparr>v_i64 = 0, v_data = NULL\<rparr>, n_dyn := d\<rparr>) (set_mem_state s w))"

definition ReleaseNode :: "nat \<Rightarrow> world \<Rightarrow> world" where
  "ReleaseNode n w =
     (let w = upd n (\<lambda>x. x\<lparr>n_subnode_dirty := False, n_child_num := -1,
                        n_key := (n_key x)\<lparr>k_len := 0, k_val := NULL\<rparr>\<rparr>) w;
          (d, s) = dyn_free (k_dyn (n_key (nd w n))) (w_mem w);
          w = upd n (\<lambda>x. x\<lparr>n_key := (n_key x)\<lparr>k_dyn := d\<rparr>\<rparr>) (set_mem_state s w);
          (ht, s) = ht_clear (n_ht (nd w n)) (w_mem w);
          w = upd n (n_ht_update (\<lambda>_. ht)) (set_mem_state s w)
      in KnvLeaf_ReleaseObject n w)"

text \<open>
  \<open>ReleaseKnvNodeList\<close>: one round releases the nodes of \<open>clist\<close> and collects their meta and child lists,
  each put in front; the next round takes the collected list.
\<close>

fun release_level :: "nat list \<Rightarrow> nat list \<Rightarrow> world \<Rightarrow> nat list \<times> world" where
  "release_level [] cclist w = (cclist, w)"
| "release_level (c # cs) cclist w =
     (let x = nd w c;
          cclist = (if n_child_num x \<ge> 0 then n_childlist x @ n_metalist x @ cclist else cclist)
      in release_level cs cclist (ReleaseNode c w))"

fun release_levels :: "nat \<Rightarrow> nat list \<Rightarrow> nat list \<Rightarrow> world \<Rightarrow> (nat list \<times> world) option" where
  "release_levels k [] fclist w = Some (fclist, w)"
| "release_levels 0 (c # cs) fclist w = None"
| "release_levels (Suc k) (c # cs) fclist w =
     (let (cclist, w) = release_level (c # cs) [] w
      in release_levels k cclist ((c # cs) @ fclist) w)"

definition ReleaseKnvNodeList :: "nat list \<Rightarrow> world \<Rightarrow> world option" where
  "ReleaseKnvNodeList xs w =
     do {
       (fclist, w) \<leftarrow> release_levels (Suc (w_count w)) xs [] w;
       Some (w\<lparr>w_free := fclist @ w_free w\<rparr>)
     }"

definition ReleaseObject :: "nat \<Rightarrow> world \<Rightarrow> world option" where
  "ReleaseObject n w =
     (if n_child_num (nd w n) < 0 then Some (ReleaseNode n w)
      else
        do {
          w \<leftarrow> ReleaseKnvNodeList (n_metalist (nd w n)) w;
          let w = upd n (n_metalist_update (\<lambda>_. [])) w;
          w \<leftarrow> ReleaseKnvNodeList (n_childlist (nd w n)) w;
          let w = upd n (n_childlist_update (\<lambda>_. [])) w;
          Some (ReleaseNode n w)
        })"

subsection \<open>The node pool\<close>

definition GetNodePool :: "world \<Rightarrow> bool \<times> world" where
  "GetNodePool w =
     (if w_pool w then (True, w)
      else
        (let c = snd (w_mem w); c' = c\<lparr>c_reqs := Suc (c_reqs c)\<rparr>; w = w\<lparr>w_mem := (fst (w_mem w), c')\<rparr> in
         if c_fail c (c_reqs c) then (False, w) else (True, w\<lparr>w_pool := True\<rparr>)))"

text \<open>\<open>nodepool->New()\<close>: a node from the free list as it was left, or a new one with its two buffers.\<close>

definition nodepool_New :: "world \<Rightarrow> nat option \<times> world" where
  "nodepool_New w =
     (case w_free w of
        q # ys \<Rightarrow> (Some q, w\<lparr>w_free := ys\<rparr>)
      | [] \<Rightarrow>
          (let c = snd (w_mem w); n = w_count w; c' = c\<lparr>c_reqs := Suc (c_reqs c)\<rparr> in
           if c_fail c (c_reqs c) then (None, w\<lparr>w_mem := (fst (w_mem w), c')\<rparr>)
           else
             (let c' = c'\<lparr>c_heap := (c_heap c')(NodeBuf n := replicate 64 (c_junk c),
                                                 KeyBuf n := replicate 64 (c_junk c))\<rparr>
              in (Some n, w\<lparr>w_nodes := (w_nodes w)(n := KnvNode0), w_ht_next := (w_ht_next w)(n := None), w_count := Suc n,
                            w_mem := (fst (w_mem w), c')\<rparr>))))"

definition nodepool_Delete :: "nat \<Rightarrow> world \<Rightarrow> world option" where
  "nodepool_Delete n w = do { w \<leftarrow> ReleaseObject n w; Some (w\<lparr>w_free := n # w_free w\<rparr>) }"

fun release_each :: "nat list \<Rightarrow> world \<Rightarrow> world option" where
  "release_each [] w = Some w"
| "release_each (x # xs) w = do { w \<leftarrow> ReleaseObject x w; release_each xs w }"

definition nodepool_DeleteAll :: "nat list \<Rightarrow> world \<Rightarrow> world option" where
  "nodepool_DeleteAll xs w = do { w \<leftarrow> release_each xs w; Some (w\<lparr>w_free := xs @ w_free w\<rparr>) }"

text \<open>\<open>if(childlist) nodepool->DeleteAll(childlist)\<close> and the same for \<open>metalist\<close>.\<close>

definition DeleteAll_children :: "nat \<Rightarrow> world \<Rightarrow> world option" where
  "DeleteAll_children n w =
     (if n_childlist (nd w n) = [] then Some w
      else do { w' \<leftarrow> nodepool_DeleteAll (n_childlist (nd w n)) w; Some (upd n (n_childlist_update (\<lambda>_. [])) w') })"

definition DeleteAll_metas :: "nat \<Rightarrow> world \<Rightarrow> world option" where
  "DeleteAll_metas n w =
     (if n_metalist (nd w n) = [] then Some w
      else do { w' \<leftarrow> nodepool_DeleteAll (n_metalist (nd w n)) w; Some (upd n (n_metalist_update (\<lambda>_. [])) w') })"

text \<open>\<open>nodepool->Delete(childlist, c)\<close>, \<open>nodepool->Delete(metalist, m)\<close>, \<open>nodepool->Detach(childlist, c)\<close>.\<close>

definition nodepool_Delete_child :: "nat \<Rightarrow> nat \<Rightarrow> world \<Rightarrow> world option" where
  "nodepool_Delete_child p c w = nodepool_Delete c (upd p (n_childlist_update (remove1 c)) w)"

definition nodepool_Delete_meta :: "nat \<Rightarrow> nat \<Rightarrow> world \<Rightarrow> world option" where
  "nodepool_Delete_meta p m w = nodepool_Delete m (upd p (n_metalist_update (remove1 m)) w)"

definition nodepool_Detach_child :: "nat \<Rightarrow> nat \<Rightarrow> world \<Rightarrow> world" where
  "nodepool_Detach_child p c w = upd p (n_childlist_update (remove1 c)) w"

section \<open>Initialization\<close>

definition field0 :: knv_field_t where
  "field0 = \<lparr>f_tag = 0, f_eom = False, f_type = PB_TYPE_VARINT, f_val = \<lparr>v_i64 = 0, v_data = NULL\<rparr>,
     f_start = NULL, f_size = 0, f_ptr = NULL, f_left = 0, f_errmsg = None\<rparr>"

definition InitChildList :: "int \<Rightarrow> nat \<Rightarrow> world \<Rightarrow> world" where
  "InitChildList childnum n w =
     upd n (\<lambda>x. x\<lparr>n_child_num := childnum, n_childlist := [], n_metalist := []\<rparr>) w"

text \<open>The first part of \<open>InitNode\<close>: the value; the result is \<open>str_len\<close>, or \<open>None\<close> when memory is short.\<close>

definition init_value :: "nat \<Rightarrow> knv_value_t option \<Rightarrow> bool \<Rightarrow> world \<Rightarrow> u32 option \<times> world" where
  "init_value n value own_buf w =
     (let ty = n_type (nd w n) in
      case value of
        None \<Rightarrow> (Some 0, upd n (n_val_update (\<lambda>_. \<lparr>v_i64 = 0, v_data = NULL\<rparr>)) w)
      | Some v \<Rightarrow>
          if ty = KNV_NODE
          then if own_buf
            then
              (if v_len v \<noteq> 0
               then
                 (let (p, w) = node_alloc n (v_len v) w in
                  if p = NULL then (None, err n ''out of memory'' w)
                  else
                    (let w = node_write p (bytes_at (w_heap w) (v_data v) (unat (v_len v))) w
                     in (Some (v_len v), upd n (n_val_update (\<lambda>u. (set_v_len (v_len v) u)\<lparr>v_data := p\<rparr>)) w)))
               else (Some 0, upd n (n_val_update (\<lambda>u. (set_v_len 0 u)\<lparr>v_data := NULL\<rparr>)) w))
            else (Some (v_len v), upd n (n_val_update (\<lambda>u. (set_v_len (v_len v) u)\<lparr>v_data := v_data v\<rparr>)) w)
          else (Some 0, upd n (n_val_update (\<lambda>u. u\<lparr>v_i64 := v_i64 v\<rparr>)) w))"

text \<open>The second part: the key in front of the value; the result is \<open>ch_nr\<close>.\<close>

definition init_key :: "codecs \<Rightarrow> nat \<Rightarrow> u32 \<Rightarrow> bool \<Rightarrow> world \<Rightarrow> int \<times> world" where
  "init_key g n str_len force_no_key w =
     (if str_len \<noteq> 0
      then if \<not> force_no_key
        then
          (let v = n_val (nd w n); (pf, f2) = knv_begin g (w_heap w) field0 (v_data v) (to_int32 (uint (v_len v))) in
           if pf \<and> f_tag f2 = 1
           then (-1, snd (node_key_init n (f_type f2) (Some (f_val f2)) False w))
           else (if pf then -1 else 0, snd (node_key_init n KNV_NODE None False w)))
        else (-1, snd (node_key_init n KNV_NODE None False w))
      else (0, snd (node_key_init n KNV_NODE None False w)))"

definition InitNode ::
  "codecs \<Rightarrow> nat \<Rightarrow> knv_tag_t \<Rightarrow> knv_type_t \<Rightarrow> knv_value_t option \<Rightarrow> bool \<Rightarrow> bool \<Rightarrow> int \<Rightarrow> bool \<Rightarrow> world
     \<Rightarrow> int \<times> world" where
  "InitNode g n tag type value own_buf update_eval field_sz force_no_key w =
     (let w = upd n (\<lambda>x. x\<lparr>n_tag := tag, n_type := type, n_parent := None\<rparr>) w;
          (str_len, w) = init_value n value own_buf w
      in case str_len of
           None \<Rightarrow> (-1, w)
         | Some str_len \<Rightarrow>
             (let (ch_nr, w) =
                (if update_eval
                 then init_key g n str_len force_no_key
                   (upd n (\<lambda>x. x\<lparr>n_eval_val_sz := to_int32 (uint str_len),
                        n_eval_sz := (if field_sz > 0 then field_sz else knv_eval_field_length g tag type (n_val x))\<rparr>) w)
                 else (0, upd n (\<lambda>x. x\<lparr>n_eval_val_sz := 0, n_eval_sz := 0\<rparr>) w));
                  w = upd n (n_no_key_update (\<lambda>_. force_no_key \<or> type \<noteq> KNV_NODE)) w
              in (0, InitChildList ch_nr n w)))"

section \<open>Expansion\<close>

abbreviation IsValid :: "world \<Rightarrow> nat \<Rightarrow> bool" where
  "IsValid w n \<equiv> n_tag (nd w n) \<noteq> 0"

abbreviation IsExpanded :: "world \<Rightarrow> nat \<Rightarrow> bool" where
  "IsExpanded w n \<equiv> n_child_num (nd w n) \<ge> 0"

definition IsBufferValid :: "knv_node \<Rightarrow> bool" where
  "IsBufferValid x \<longleftrightarrow> v_len (n_val x) > 0 \<and> v_data (n_val x) \<noteq> NULL"

text \<open>The clean-up of a failed or incomplete expansion.\<close>

definition expand_reset :: "nat \<Rightarrow> world \<Rightarrow> world option" where
  "expand_reset n w =
     do {
       w \<leftarrow> DeleteAll_children n (upd n (n_child_num_update (\<lambda>_. 0)) w);
       DeleteAll_metas n w
     }"

text \<open>
  One round of the loop: the field \<open>f\<close> becomes the last meta or the last child of \<open>n\<close>; \<open>prev_pos\<close> is the
  end of the field before.  A nonzero result is the error code of the function.
\<close>

definition expand_field ::
  "codecs \<Rightarrow> nat \<Rightarrow> bool \<Rightarrow> knv_field_t \<Rightarrow> ptr \<Rightarrow> world \<Rightarrow> (int \<times> world) option" where
  "expand_field g n force_no_key f prev_pos w =
     (let fsz = ptr_diff (f_ptr f) prev_pos in
      if unat (f_tag f) \<le> UC_MAX_META_NUM
      then
        (let w = (if n_metalist (nd w n) = [] then upd n (n_metas_update (\<lambda>_ _. None)) w else w) in
         case nodepool_New w of
           (None, w) \<Rightarrow> do { w \<leftarrow> expand_reset n (err n ''Out of memory'' w); Some (-1, w) }
         | (Some m, w) \<Rightarrow>
             (let w = upd n (n_metalist_update (\<lambda>xs. xs @ [m])) w;
                  (ret, w) = InitNode g m (f_tag f) (f_type f) (Some (f_val f)) False True fsz True w in
              if ret \<noteq> 0 then do { w \<leftarrow> expand_reset n (copy_err n m w); Some (-2, w) }
              else
                (let w = upd m (n_parent_update (\<lambda>_. Some n)) w
                 in Some (0, upd n (\<lambda>x. x\<lparr>n_metas := (n_metas x)(unat (f_tag f) \<mapsto> m)\<rparr>) w))))
      else
        (case nodepool_New w of
           (None, w) \<Rightarrow> do { w \<leftarrow> expand_reset n (err n ''Out of memory'' w); Some (-3, w) }
         | (Some c, w) \<Rightarrow>
             (let w = upd n (n_childlist_update (\<lambda>xs. xs @ [c])) w;
                  (ret, w) = InitNode g c (f_tag f) (f_type f) (Some (f_val f)) False True fsz force_no_key w in
              if ret \<noteq> 0 then do { w \<leftarrow> expand_reset n (copy_err n c w); Some (-4, w) }
              else
                (let w = (if k_len (n_key (nd w c)) > 0 then upd n (n_child_has_key_update (\<lambda>_. True)) w else w);
                     w = upd c (n_parent_update (\<lambda>_. Some n)) w
                 in do {
                   (_, w) \<leftarrow> node_ht_put n c w;
                   Some (0, upd n (n_child_num_update (\<lambda>k. k + 1)) w)
                 }))))"

text \<open>The loop; \<open>k\<close> bounds the number of fields.  The result is the code and the last state of the iterator.\<close>

fun expand_loop ::
  "codecs \<Rightarrow> nat \<Rightarrow> bool \<Rightarrow> nat \<Rightarrow> knv_field_t \<Rightarrow> ptr \<Rightarrow> world \<Rightarrow> (int \<times> knv_field_t \<times> world) option" where
  "expand_loop g n force_no_key 0 f prev_pos w = None"
| "expand_loop g n force_no_key (Suc k) f prev_pos w =
     do {
       (ret, w) \<leftarrow> expand_field g n force_no_key f prev_pos w;
       if ret \<noteq> 0 then Some (ret, f, w)
       else
         (let (pf, f') = knv_next g (w_heap w) f in
          if pf then expand_loop g n force_no_key k f' (f_ptr f) w else Some (0, f', w))
     }"

definition InnerExpand :: "codecs \<Rightarrow> nat \<Rightarrow> bool \<Rightarrow> world \<Rightarrow> (int \<times> world) option" where
  "InnerExpand g n force_no_key w =
     (if IsExpanded w n then Some (0, w)
      else
        (let w = upd n (n_child_has_key_update (\<lambda>_. False)) (InitChildList 0 n w); x = nd w n in
         if n_type x \<noteq> KNV_NODE then Some (0, w)
         else if n_tag x = 1 \<and> (case n_parent x of Some p \<Rightarrow> k_len (n_key (nd w p)) \<noteq> 0 | None \<Rightarrow> False)
         then Some (0, w)
         else
           (let data = v_data (n_val x); len = v_len (n_val x);
                (pf, f) = knv_begin g (w_heap w) field0 data (to_int32 (uint len)) in
            if \<not> pf then Some (0, w)
            else
              do {
                (ret, f, w) \<leftarrow> expand_loop g n force_no_key (Suc (unat len)) f data w;
                if ret \<noteq> 0 then Some (ret, w)
                else
                  (let w = upd n (n_subnode_dirty_update (\<lambda>_. False)) w in
                   if \<not> f_eom f then do { w \<leftarrow> expand_reset n w; Some (0, w) } else Some (0, w))
              })))"

definition Expand :: "codecs \<Rightarrow> nat \<Rightarrow> world \<Rightarrow> (int \<times> world) option" where
  "Expand g n w =
     (if \<not> IsValid w n then Some (-1, err n ''node data is invalid'' w) else InnerExpand g n False w)"

end
