(* ===== verification/Knv_Ser.thy ===== *)
theory Knv_Ser
  imports Knv_Node
begin

text \<open>
  The size and the serialized form of a tree, \<open>src/src/knv_node.cc\<close>: \<open>EvaluateSize\<close> with its caches \<open>eval_sz\<close>
  and \<open>eval_val_sz\<close>, \<open>Serialize\<close>, \<open>Fold\<close>, \<open>GetValue\<close>, and the copies made through them (\<open>Duplicate\<close>,
  \<open>DupEmptyNode\<close>) together with \<open>New\<close> from a message and \<open>Delete\<close>.

  The recursions over the tree take fuel; the public functions give one unit more than there are
  nodes, which is enough for every tree.
\<close>

section \<open>Definitions\<close>

definition set_heap :: "heap \<Rightarrow> world \<Rightarrow> world" where
  "set_heap h w = w\<lparr>w_mem := (fst (w_mem w), (snd (w_mem w))\<lparr>c_heap := h\<rparr>)\<rparr>"

definition set_err :: "nat \<Rightarrow> string option \<Rightarrow> world \<Rightarrow> world" where
  "set_err n msg w = upd n (n_errmsg_update (\<lambda>_. msg)) w"

text \<open>A leaf, a node that is not expanded, or an expanded one whose value is still up to date.\<close>

definition is_flat :: "knv_node \<Rightarrow> bool" where
  "is_flat x \<longleftrightarrow> n_type x \<noteq> KNV_NODE \<or> n_child_num x < 0 \<or> (n_child_num x = 0 \<and> n_metalist x = []) \<or>
     (IsBufferValid x \<and> \<not> n_subnode_dirty x)"

definition keyed :: "knv_node \<Rightarrow> bool" where
  "keyed x \<longleftrightarrow> \<not> n_no_key x \<and> k_len (n_key x) > 0 \<and> k_val (n_key x) \<noteq> NULL"

text \<open>The metas without the key when it comes first and is taken from \<open>key\<close> instead.\<close>

fun skip_key :: "world \<Rightarrow> bool \<Rightarrow> nat list \<Rightarrow> nat list" where
  "skip_key w has_key [] = []"
| "skip_key w has_key (f # fs) = (if has_key \<and> n_tag (nd w f) = 1 then fs else f # fs)"

subsection \<open>Evaluation of the size\<close>

text \<open>The loop \<open>eval_val_sz += f->EvaluateSize()\<close> over a list of nodes.\<close>

fun eval_each :: "(nat \<Rightarrow> world \<Rightarrow> (int \<times> world) option) \<Rightarrow> nat \<Rightarrow> nat list \<Rightarrow> world \<Rightarrow> world option" where
  "eval_each E n [] w = Some w"
| "eval_each E n (f # fs) w =
     do {
       (sz, w) \<leftarrow> E f w;
       eval_each E n fs (upd n (n_eval_val_sz_update (\<lambda>x. x + sz)) w)
     }"

primrec EvaluateSize_n :: "codecs \<Rightarrow> nat \<Rightarrow> nat \<Rightarrow> world \<Rightarrow> (int \<times> world) option" where
  "EvaluateSize_n g 0 n w = None"
| "EvaluateSize_n g (Suc k) n w =
     (let x = nd w n in
      if n_eval_sz x \<ge> 0 then Some (n_eval_sz x, w)
      else if is_flat x
      then
        (let sz = knv_eval_field_length g (n_tag x) (n_type x) (n_val x)
         in Some (sz, upd n (\<lambda>x. x\<lparr>n_eval_sz := sz,
              n_eval_val_sz := (if n_type x \<noteq> KNV_NODE then 0 else to_int32 (uint (v_len (n_val x))))\<rparr>) w))
      else
        do {
          let w = upd n (n_eval_val_sz_update (\<lambda>_.
            if keyed x then knv_eval_field_length g 1 (k_type (n_key x)) (key_GetValue (w_heap w) (n_key x)) else 0)) w;
          w \<leftarrow> eval_each (EvaluateSize_n g k) n (skip_key w (keyed x) (n_metalist x)) w;
          w \<leftarrow> eval_each (EvaluateSize_n g k) n (n_childlist x) w;
          let sz = knv_eval_field_length g (n_tag x) (n_type x) (str_value (word_of_int (n_eval_val_sz (nd w n))) NULL);
          Some (sz, upd n (n_eval_sz_update (\<lambda>_. sz)) w)
        })"

definition EvaluateSize :: "codecs \<Rightarrow> nat \<Rightarrow> world \<Rightarrow> (int \<times> world) option" where
  "EvaluateSize g n w = EvaluateSize_n g (Suc (w_count w)) n w"

subsection \<open>Serialization\<close>

text \<open>The local \<open>knv_buff_t b\<close>; the call of \<open>knv_init_buff\<close> leaves its \<open>errmsg\<close> as it is, here null.\<close>

definition buff0 :: knv_buff_t where
  "buff0 = \<lparr>b_start = NULL, b_size = 0, b_ptr = NULL, b_left = 0, b_errmsg = None\<rparr>"

text \<open>
  The loop over the metas or the children: each is serialized behind the ones before; \<open>code\<close> is the
  error code of the loop.
\<close>

fun ser_each ::
  "(nat \<Rightarrow> ptr \<Rightarrow> int \<Rightarrow> world \<Rightarrow> (int \<times> int \<times> world) option) \<Rightarrow> nat \<Rightarrow> int \<Rightarrow> ptr \<Rightarrow> int \<Rightarrow> nat list \<Rightarrow> int
     \<Rightarrow> world \<Rightarrow> (int \<times> int \<times> world) option" where
  "ser_each S n code buf sz [] cur_len w = Some (0, cur_len, w)"
| "ser_each S n code buf sz (f # fs) cur_len w =
     do {
       (ret, left, w) \<leftarrow> S f (ptr_add buf (nat cur_len)) (sz - cur_len) w;
       if ret \<noteq> 0 then Some (code, cur_len, copy_err n f w)
       else ser_each S n code buf sz fs (cur_len + left) w
     }"

text \<open>A flat node: the field, or the bytes of the value only.\<close>

definition ser_flat ::
  "codecs \<Rightarrow> nat \<Rightarrow> knv_buff_t \<Rightarrow> ptr \<Rightarrow> int \<Rightarrow> bool \<Rightarrow> world \<Rightarrow> int \<times> int \<times> world" where
  "ser_flat g n b buf len with_header w =
     (let x = nd w n in
      if with_header
      then
        (let (ret, h, b) = knv_add_field_val g (w_heap w) b (n_tag x) (n_type x) (n_val x); w = set_heap h w in
         if ret \<noteq> 0 then (-3, len, set_err n (b_errmsg b) w) else (0, knv_get_encoded_length g b, w))
      else if n_type x = KNV_STRING
      then
        (if len > to_int32 (uint (v_len (n_val x)))
         then (0, to_int32 (uint (v_len (n_val x))),
               node_write buf (bytes_at (w_heap w) (v_data (n_val x)) (unat (v_len (n_val x)))) w)
         else (-4, len, err n ''not enoug space for value'' w))
      else (-5, len, err n ''not support serializing value for non-message'' w))"

text \<open>The head of an expanded node: tag, type and length, then the key.\<close>

definition ser_head ::
  "codecs \<Rightarrow> nat \<Rightarrow> knv_buff_t \<Rightarrow> bool \<Rightarrow> world \<Rightarrow> int \<times> knv_buff_t \<times> world" where
  "ser_head g n b with_header w =
     (let x = nd w n;
          (ret, h, b) =
            (if with_header then knv_add_string_head g (w_heap w) b (n_tag x) (to_u64 (n_eval_val_sz x))
             else (0, w_heap w, b));
          w = set_heap h w in
      if ret \<noteq> 0 then (-6, b, set_err n (b_errmsg b) w)
      else if keyed x
      then
        (let (ret, h, b) = knv_add_field_val g (w_heap w) b 1 (k_type (n_key x)) (key_GetValue (w_heap w) (n_key x));
             w = set_heap h w in
         if ret \<noteq> 0 then (-7, b, set_err n (b_errmsg b) w) else (0, b, w))
      else (0, b, w))"

primrec Serialize_n ::
  "codecs \<Rightarrow> nat \<Rightarrow> nat \<Rightarrow> ptr \<Rightarrow> int \<Rightarrow> bool \<Rightarrow> world \<Rightarrow> (int \<times> int \<times> world) option" where
  "Serialize_n g 0 n buf len with_header w = None"
| "Serialize_n g (Suc k) n buf len with_header w =
     (if \<not> IsValid w n then Some (-1, len, err n ''node is invalid'' w)
      else
        (let (ret, b) = knv_init_buff g buff0 buf (to_u64 len) in
         if ret \<noteq> 0 then Some (-2, len, set_err n (b_errmsg b) w)
         else if is_flat (nd w n) then Some (ser_flat g n b buf len with_header w)
         else
           do {
             (evalsize, w) \<leftarrow> EvaluateSize g n w;
             let (ret, b, w) = ser_head g n b with_header w;
             if ret \<noteq> 0 then Some (ret, len, w)
             else
               do {
                 let x = nd w n;
                 let S = (\<lambda>f p left. Serialize_n g k f p left True);
                 (ret, cur_len, w) \<leftarrow>
                   ser_each S n (-8) buf len (skip_key w (keyed x) (n_metalist x)) (knv_get_encoded_length g b) w;
                 if ret \<noteq> 0 then Some (ret, len, w)
                 else
                   do {
                     (ret, cur_len, w) \<leftarrow> ser_each S n (-9) buf len (n_childlist x) cur_len w;
                     if ret \<noteq> 0 then Some (ret, len, w)
                     else if (with_header \<and> cur_len \<noteq> evalsize) \<or> (\<not> with_header \<and> cur_len \<noteq> n_eval_val_sz (nd w n))
                     then Some (-10, len, err n ''Bug: eval size incorrect'' w)
                     else Some (0, cur_len, w)
                   }
               }
           }))"

definition Serialize :: "codecs \<Rightarrow> nat \<Rightarrow> ptr \<Rightarrow> int \<Rightarrow> bool \<Rightarrow> world \<Rightarrow> (int \<times> int \<times> world) option" where
  "Serialize g n buf len with_header w = Serialize_n g (Suc (w_count w)) n buf len with_header w"

text \<open>
  \<open>Serialize(string &out)\<close>: \<open>out\<close> is the block of the string's characters, which \<open>resize\<close> brings to the
  evaluated length; it throws when there is no memory or the length is negative.
\<close>

definition resize :: "nat \<Rightarrow> byte list \<Rightarrow> byte list" where
  "resize n bs = take n bs @ replicate (n - length bs) 0"

definition Serialize_string :: "codecs \<Rightarrow> nat \<Rightarrow> nat \<Rightarrow> world \<Rightarrow> (int \<times> world) option" where
  "Serialize_string g n out w =
     do {
       (eval_len, w) \<leftarrow> EvaluateSize g n w;
       let c = snd (w_mem w);
       let w = set_mem_state (fst (w_mem w), c\<lparr>c_reqs := Suc (c_reqs c)\<rparr>) w;
       if c_fail c (c_reqs c) \<or> eval_len < 0 then Some (-1, err n ''expand string buffer failed'' w)
       else
         do {
           let w = set_heap ((w_heap w)(Ext out := resize (nat eval_len) (w_heap w (Ext out)))) w;
           (ret, pack_len, w) \<leftarrow> Serialize g n (Ptr (Ext out) 0) eval_len True w;
           if ret \<noteq> 0 then Some (-2, w)
           else if eval_len \<noteq> pack_len then Some (-3, err n ''bug: eval size differ from pack size'' w)
           else Some (0, w)
         }
     }"

subsection \<open>Folding\<close>

text \<open>
  The steps \<open>Fold\<close> and \<open>InnerDuplicate\<close> share: a buffer of the evaluated size filled with the serialized
  value.  The result is the buffer and its length, or the code of \<open>Fold\<close> for the step that failed.
\<close>

definition pack_value :: "codecs \<Rightarrow> nat \<Rightarrow> world \<Rightarrow> ((int + nat \<times> int) \<times> world) option" where
  "pack_value g n w =
     do {
       (sz, w) \<leftarrow> EvaluateSize g n w;
       let (m, s) = mem_alloc (to_u64 sz) (w_mem w);
       let w = set_mem_state s w;
       case m of
         None \<Rightarrow> Some (Inl (-2), err n ''Out of memory'' w)
       | Some m \<Rightarrow>
           do {
             let pack_len = to_int32 (uint (GetAllocSize m (fst (w_mem w)) (snd (w_mem w))));
             (ret, pack_len, w) \<leftarrow> Serialize g n (c_mem (snd (w_mem w)) m) pack_len False w;
             if ret \<noteq> 0 then Some (Inl (-3), set_mem_state (mem_free (Some m) (w_mem w)) w)
             else if n_eval_val_sz (nd w n) \<noteq> pack_len
             then Some (Inl (-4), err n ''bug: eval size differ from pack size'' (set_mem_state (mem_free (Some m) (w_mem w)) w))
             else Some (Inr (m, pack_len), w)
           }
     }"

definition Fold :: "codecs \<Rightarrow> nat \<Rightarrow> world \<Rightarrow> (int \<times> world) option" where
  "Fold g n w =
     (if \<not> IsValid w n then Some (-1, err n ''node is invalid'' w)
      else if is_flat (nd w n) then Some (0, w)
      else
        do {
          (r, w) \<leftarrow> pack_value g n w;
          case r of
            Inl e \<Rightarrow> Some (e, w)
          | Inr (m, pack_len) \<Rightarrow>
              do {
                let (p, w) = node_assign n (Some m) (word_of_int pack_len) w;
                let w = upd n (\<lambda>x. x\<lparr>n_val := (set_v_len (word_of_int pack_len) (n_val x))\<lparr>v_data := p\<rparr>,
                                 n_subnode_dirty := False, n_child_num := -1\<rparr>) w;
                w \<leftarrow> DeleteAll_metas n w;
                w \<leftarrow> DeleteAll_children n w;
                Some (0, w)
              }
        })"

text \<open>\<open>GetValue\<close> returns the node itself, as a leaf, or null.\<close>

definition GetValue :: "codecs \<Rightarrow> nat \<Rightarrow> world \<Rightarrow> (nat option \<times> world) option" where
  "GetValue g n w = do { (ret, w) \<leftarrow> Fold g n w; Some (if ret \<noteq> 0 then None else Some n, w) }"

definition GetStrVal :: "codecs \<Rightarrow> nat \<Rightarrow> world \<Rightarrow> (byte list \<times> world) option" where
  "GetStrVal g n w =
     do {
       (l, w) \<leftarrow> GetValue g n w;
       let v = n_val (nd w n);
       Some (if l \<noteq> None \<and> n_type (nd w n) = KNV_STRING then bytes_at (w_heap w) (v_data v) (unat (v_len v)) else [], w)
     }"

definition GetIntVal :: "nat \<Rightarrow> world \<Rightarrow> u64" where
  "GetIntVal n w =
     (let x = nd w n in
      if n_type x = KNV_VARINT \<or> n_type x = KNV_FIXED64 then v_i64 (n_val x)
      else if n_type x = KNV_FIXED32 then ucast (v_i32 (n_val x)) else 0)"

subsection \<open>Copies\<close>

definition KnvNode_Delete :: "nat option \<Rightarrow> world \<Rightarrow> world option" where
  "KnvNode_Delete tree w = (case tree of None \<Rightarrow> Some w | Some n \<Rightarrow> nodepool_Delete n w)"

text \<open>The second half of \<open>InnerDuplicate\<close>: a new node with the value \<open>v\<close>; \<open>m\<close> is its buffer when it was packed.\<close>

definition dup_node ::
  "codecs \<Rightarrow> nat \<Rightarrow> nat option \<Rightarrow> knv_value_t \<Rightarrow> bool \<Rightarrow> bool \<Rightarrow> world \<Rightarrow> (nat option \<times> world) option" where
  "dup_node g this m v own_buf force_no_key w =
     (let x = nd w this; free_m = (\<lambda>w. if m \<noteq> None then set_mem_state (mem_free m (w_mem w)) w else w) in
      case nodepool_New w of
        (None, w) \<Rightarrow> Some (None, set_errorstr ''Out of memory'' (free_m w))
      | (Some n, w) \<Rightarrow>
          (let (ret, w) = InitNode g n (n_tag x) (n_type x) (Some v) (if m \<noteq> None then False else own_buf) True
                            (n_eval_sz x) force_no_key w in
           if ret \<noteq> 0
           then do { w \<leftarrow> nodepool_Delete n ((free_m w)\<lparr>w_errorstr := n_errmsg (nd w n)\<rparr>); Some (None, w) }
           else Some (Some n, if m \<noteq> None then snd (node_assign n m (v_len v) w) else w)))"

definition InnerDuplicate :: "codecs \<Rightarrow> nat \<Rightarrow> bool \<Rightarrow> bool \<Rightarrow> world \<Rightarrow> (nat option \<times> world) option" where
  "InnerDuplicate g this own_buf force_no_key w =
     (let x = nd w this in
      if n_type x = KNV_NODE \<and> v_len (n_val x) = 0 \<and> n_child_num x \<ge> 0
      then
        do {
          (r, w) \<leftarrow> pack_value g this w;
          case r of
            Inl _ \<Rightarrow> Some (None, w)
          | Inr (m, pack_len) \<Rightarrow>
              dup_node g this (Some m) (str_value (word_of_int pack_len) (c_mem (snd (w_mem w)) m)) own_buf force_no_key w
        }
      else dup_node g this None (n_val x) own_buf force_no_key w)"

definition Duplicate :: "codecs \<Rightarrow> nat \<Rightarrow> bool \<Rightarrow> world \<Rightarrow> (nat option \<times> world) option" where
  "Duplicate g this own_buf w =
     (if \<not> IsValid w this then Some (None, err this ''Invalid node'' w)
      else InnerDuplicate g this own_buf False w)"

definition DupEmptyNode :: "codecs \<Rightarrow> nat \<Rightarrow> world \<Rightarrow> (nat option \<times> world) option" where
  "DupEmptyNode g this w =
     (case nodepool_New w of
        (None, w) \<Rightarrow> Some (None, err this ''Out of memory'' w)
      | (Some n, w) \<Rightarrow>
          (let x = nd w this; (ret, w) = InitNode g n (n_tag x) (n_type x) None False False 0 False w in
           if ret \<noteq> 0 then do { w \<leftarrow> nodepool_Delete n (copy_err this n w); Some (None, w) }
           else
             (let (d, s) = dyn_free (k_dyn (n_key (nd w n))) (w_mem w); key = n_key x;
                  w = upd n (\<lambda>y. y\<lparr>n_key := \<lparr>k_type = k_type key, k_len = k_len key, k_val = k_val key, k_dyn = d\<rparr>\<rparr>)
                    (set_mem_state s w)
              in Some (Some n,
                   if k_len key > 0
                   then upd n (n_eval_val_sz_update (\<lambda>_.
                     knv_eval_field_length g 1 (k_type key) (key_GetValue (w_heap w) key))) w
                   else w))))"

definition New_data :: "codecs \<Rightarrow> ptr \<Rightarrow> int \<Rightarrow> bool \<Rightarrow> world \<Rightarrow> (nat option \<times> world) option" where
  "New_data g data data_len own_buf w =
     (let (pool, w) = GetNodePool w in
      if \<not> pool then Some (None, set_errorstr ''Out of memory'' w)
      else
        (let (pf, f) = knv_begin g (w_heap w) field0 data data_len in
         if \<not> pf then Some (None, set_errorstr ''Invalid bin format'' w)
         else
           (let real_len = ptr_diff (f_ptr f) data in
            case nodepool_New w of
              (None, w) \<Rightarrow> Some (None, set_errorstr ''Out of memory'' w)
            | (Some n, w) \<Rightarrow>
                (let (ret, w) = InitNode g n (f_tag f) (f_type f) (Some (f_val f)) own_buf True real_len False w in
                 if ret \<noteq> 0
                 then do { w \<leftarrow> nodepool_Delete n (w\<lparr>w_errorstr := n_errmsg (nd w n)\<rparr>); Some (None, w) }
                 else Some (Some n, w)))))"

end
