(* ===== verification/Knv_Edit.thy ===== *)
theory Knv_Edit
  imports Knv_Ser
begin

text \<open>
  The operations that change a tree, \<open>src/src/knv_node.cc\<close>: values, tags, keys, metas and children, with
  the bookkeeping that keeps the cached sizes and the dirty flags of a node and its ancestors up to
  date (\<open>UPDATE_EVAL_SZ\<close>, \<open>SET_VALUE_DIRTY\<close>, \<open>UpdateParentEvalueAndSetDirty\<close>), and the lookups and iterations.
\<close>

section \<open>Sizes and dirty flags\<close>

text \<open>The macro changes its argument \<open>offset\<close>: it is the first component of the result.\<close>

definition UPDATE_EVAL_SZ :: "codecs \<Rightarrow> nat \<Rightarrow> int \<Rightarrow> world \<Rightarrow> int \<times> world" where
  "UPDATE_EVAL_SZ g n offset w =
     (if offset = 0 then (offset, w)
      else
        (let x = nd w n;
             val_sz = n_eval_val_sz x + offset;
             new_sz = knv_eval_field_length g (n_tag x) (n_type x) (str_value (word_of_int val_sz) NULL)
         in (new_sz - n_eval_sz x, upd n (\<lambda>x. x\<lparr>n_eval_val_sz := val_sz, n_eval_sz := new_sz\<rparr>) w)))"

definition SET_VALUE_DIRTY :: "nat \<Rightarrow> world \<Rightarrow> world" where
  "SET_VALUE_DIRTY n w = upd n (\<lambda>x. x\<lparr>n_val := set_v_len 0 (n_val x), n_subnode_dirty := True\<rparr>) w"

text \<open>The loop over the ancestors, with the two flags that end it.\<close>

fun update_ancestors :: "codecs \<Rightarrow> nat \<Rightarrow> nat option \<Rightarrow> bool \<Rightarrow> bool \<Rightarrow> int \<Rightarrow> world \<Rightarrow> world option" where
  "update_ancestors g k None updatedirty updateeval offset w = Some w"
| "update_ancestors g 0 (Some p) updatedirty updateeval offset w = (if \<not> updatedirty \<and> \<not> updateeval then Some w else None)"
| "update_ancestors g (Suc k) (Some p) updatedirty updateeval offset w =
     (if \<not> updatedirty \<and> \<not> updateeval then Some w
      else
        (let (updateeval, offset, w) =
               (if updateeval
                then if n_eval_sz (nd w p) < 0 \<or> offset = 0 then (False, offset, w)
                  else (let (offset, w) = UPDATE_EVAL_SZ g p offset w in (True, offset, w))
                else (False, offset, w));
             (updatedirty, w) =
               (if updatedirty
                then if n_subnode_dirty (nd w p) then (False, w) else (True, SET_VALUE_DIRTY p w)
                else (False, w))
         in update_ancestors g k (n_parent (nd w p)) updatedirty updateeval offset w))"

definition UpdateParentEvalueAndSetDirty :: "codecs \<Rightarrow> nat \<Rightarrow> int \<Rightarrow> world \<Rightarrow> world option" where
  "UpdateParentEvalueAndSetDirty g n offset w =
     update_ancestors g (Suc (w_count w)) (n_parent (nd w n)) True (offset \<noteq> 0) offset w"

text \<open>The end of every operation on the metas or the children of \<open>n\<close>.\<close>

definition finish_edit :: "codecs \<Rightarrow> nat \<Rightarrow> int \<Rightarrow> world \<Rightarrow> world option" where
  "finish_edit g n offset w =
     (let (offset, w) = (if n_eval_sz (nd w n) \<ge> 0 then UPDATE_EVAL_SZ g n offset w else (offset, w))
      in UpdateParentEvalueAndSetDirty g n offset (SET_VALUE_DIRTY n w))"

text \<open>\<open>if(parent) parent->ht.remove(this)\<close> and \<open>if(parent) parent->ht.put(this)\<close>.\<close>

definition parent_ht_remove :: "nat \<Rightarrow> world \<Rightarrow> world option" where
  "parent_ht_remove n w =
     (case n_parent (nd w n) of None \<Rightarrow> Some w | Some p \<Rightarrow> do { (_, w) \<leftarrow> node_ht_remove p n w; Some w })"

definition parent_ht_put :: "nat \<Rightarrow> world \<Rightarrow> world option" where
  "parent_ht_put n w =
     (case n_parent (nd w n) of None \<Rightarrow> Some w | Some p \<Rightarrow> do { (_, w) \<leftarrow> node_ht_put p n w; Some w })"

section \<open>Values and tags\<close>

text \<open>The key check of \<open>SetValue\<close>: it changes the key of the node; the key \<open>k\<close> it compares with is empty.\<close>

definition setvalue_key_check :: "codecs \<Rightarrow> nat \<Rightarrow> ptr \<Rightarrow> int \<Rightarrow> world \<Rightarrow> bool \<times> world" where
  "setvalue_key_check g n str_val len w =
     (let x = nd w n; k = key_default in
      if (n_child_num x > 0 \<or> (n_child_num x = 0 \<and> n_metalist x = [])) \<and> keyed x
      then
        (let (pf, f) = knv_begin g (w_heap w) field0 str_val len;
             w = (if pf \<and> f_tag f \<noteq> 1 then snd (node_key_init n (f_type f) (Some (f_val f)) False w)
                  else snd (node_key_init n KNV_NODE None False w))
         in (\<not> (k_len k \<noteq> 0 \<and> \<not> key_eq (w_heap w) k (n_key (nd w n))), w))
      else (True, w))"

definition setvalue_store :: "nat \<Rightarrow> ptr \<Rightarrow> int \<Rightarrow> bool \<Rightarrow> world \<Rightarrow> bool \<times> world" where
  "setvalue_store n str_val len own_buf w =
     (if own_buf \<and> len \<noteq> 0
      then
        (let (p, w) = node_alloc n (word_of_int len) w;
             w = upd n (n_val_update (\<lambda>v. v\<lparr>v_data := p\<rparr>)) w in
         if p = NULL then (False, err n ''out of memory'' w)
         else (True, node_write p (bytes_at (w_heap w) str_val (nat len))
                       (upd n (n_val_update (set_v_len (word_of_int len))) w)))
      else (True, upd n (n_val_update (\<lambda>v.
              (set_v_len (word_of_int len) v)\<lparr>v_data := (if len \<noteq> 0 then str_val else NULL)\<rparr>)) w))"

definition setvalue_renew_key :: "codecs \<Rightarrow> nat \<Rightarrow> int \<Rightarrow> world \<Rightarrow> world option" where
  "setvalue_renew_key g n len w =
     (if keyed (nd w n)
      then
        do {
          w \<leftarrow> parent_ht_remove n w;
          let (pf, f) = knv_begin g (w_heap w) field0 (v_data (n_val (nd w n))) len;
          let w = (if pf \<and> f_tag f = 1 then snd (node_key_init n (f_type f) (Some (f_val f)) False w)
                   else snd (node_key_init n KNV_NODE None False w));
          parent_ht_put n w
        }
      else Some w)"

definition SetValue_str :: "codecs \<Rightarrow> nat \<Rightarrow> ptr \<Rightarrow> int \<Rightarrow> bool \<Rightarrow> world \<Rightarrow> (int \<times> world) option" where
  "SetValue_str g n str_val len own_buf w =
     (if \<not> IsValid w n then Some (-1, err n ''invalid data node'' w)
      else if n_type (nd w n) \<noteq> KNV_STRING then Some (-2, err n ''node type mismatch'' w)
      else
        (let (same, w) = setvalue_key_check g n str_val len w in
         if \<not> same then Some (-3, err n ''key differ from existing data'' w)
         else
           (let (stored, w) = setvalue_store n str_val len own_buf w in
            if \<not> stored then Some (-4, w)
            else
              do {
                w \<leftarrow> setvalue_renew_key g n len w;
                w \<leftarrow> (if n_child_num (nd w n) \<ge> 0
                      then
                        do {
                          w \<leftarrow> DeleteAll_children n w;
                          w \<leftarrow> DeleteAll_metas n w;
                          Some (upd n (n_child_num_update (\<lambda>_. -1)) w)
                        }
                      else Some w);
                let w = upd n (n_subnode_dirty_update (\<lambda>_. True)) w;
                let x = nd w n;
                let (offset, w) =
                  (if n_eval_sz x \<ge> 0
                   then UPDATE_EVAL_SZ g n (to_int32 (uint (v_len (n_val x) - word_of_int (n_eval_val_sz x)))) w
                   else (0, w));
                w \<leftarrow> UpdateParentEvalueAndSetDirty g n offset w;
                Some (0, w)
              })))"

definition SetValue_int :: "codecs \<Rightarrow> nat \<Rightarrow> u64 \<Rightarrow> world \<Rightarrow> (int \<times> world) option" where
  "SetValue_int g n int_val w =
     (let x = nd w n in
      if \<not> IsValid w n then Some (-1, err n ''invalid data node'' w)
      else if n_type x \<noteq> KNV_VARINT \<and> n_type x \<noteq> KNV_FIXED64 \<and> n_type x \<noteq> KNV_FIXED32
      then Some (-2, err n ''node type mismatch'' w)
      else
        (let v = (n_val x)\<lparr>v_i64 := int_val\<rparr>; sz = knv_eval_field_length g (n_tag x) (n_type x) v in
         do {
           w \<leftarrow> UpdateParentEvalueAndSetDirty g n (sz - n_eval_sz x)
                  (upd n (\<lambda>x. x\<lparr>n_val := v, n_eval_sz := sz, n_eval_val_sz := 0, n_subnode_dirty := True\<rparr>) w);
           Some (0, w)
         }))"

definition SetValue :: "codecs \<Rightarrow> nat \<Rightarrow> knv_type_t \<Rightarrow> knv_value_t \<Rightarrow> bool \<Rightarrow> world \<Rightarrow> (int \<times> world) option" where
  "SetValue g n type new_val own_buf w =
     (if type = KNV_STRING then SetValue_str g n (v_data new_val) (to_int32 (uint (v_len new_val))) own_buf w
      else SetValue_int g n (v_i64 new_val) w)"

definition SetTag :: "codecs \<Rightarrow> nat \<Rightarrow> knv_tag_t \<Rightarrow> world \<Rightarrow> (int \<times> world) option" where
  "SetTag g n t w =
     (if t = 0 then Some (-1, err n ''Bad tag argument'' w)
      else if \<not> IsValid w n then Some (-2, err n ''Knv tree is not initialized'' w)
      else
        do {
          w \<leftarrow> parent_ht_remove n w;
          w \<leftarrow> parent_ht_put n (upd n (n_tag_update (\<lambda>_. t)) w);
          let x = nd w n;
          let (offset, w) =
            (if n_eval_sz x \<ge> 0
             then
               (let sz = knv_eval_field_length g t (n_type x)
                           (if n_type x = KNV_NODE then str_value (word_of_int (n_eval_val_sz x)) NULL else n_val x)
                in (sz - n_eval_sz x, upd n (n_eval_sz_update (\<lambda>_. sz)) w))
             else (0, w));
          w \<leftarrow> UpdateParentEvalueAndSetDirty g n offset (upd n (n_subnode_dirty_update (\<lambda>_. True)) w);
          Some (0, w)
        })"

section \<open>Lookup\<close>

definition GetChildNum :: "codecs \<Rightarrow> nat \<Rightarrow> world \<Rightarrow> (int \<times> world) option" where
  "GetChildNum g n w =
     do { (_, w) \<leftarrow> Expand g n w; Some (if n_child_num (nd w n) < 0 then 0 else n_child_num (nd w n), w) }"

definition FindChild_pos ::
  "codecs \<Rightarrow> nat \<Rightarrow> knv_tag_t \<Rightarrow> byte list \<Rightarrow> world \<Rightarrow> ((nat \<times> HtPos) option \<times> world) option" where
  "FindChild_pos g n t k w =
     (if \<not> IsValid w n then Some (None, w)
      else
        do {
          (ret, w) \<leftarrow> Expand g n w;
          if ret \<noteq> 0 \<or> n_child_num (nd w n) \<le> 0 then Some (None, w)
          else do { r \<leftarrow> node_ht_get_pos n t k w; Some (r, w) }
        })"

definition FindChild :: "codecs \<Rightarrow> nat \<Rightarrow> knv_tag_t \<Rightarrow> byte list \<Rightarrow> world \<Rightarrow> (nat option \<times> world) option" where
  "FindChild g n t k w =
     (if \<not> IsValid w n then Some (None, w)
      else
        do {
          (ret, w) \<leftarrow> Expand g n w;
          if ret \<noteq> 0 \<or> n_child_num (nd w n) \<le> 0 then Some (None, w)
          else do { r \<leftarrow> node_ht_get n t k w; Some (r, w) }
        })"

definition FindChildByTag :: "codecs \<Rightarrow> nat \<Rightarrow> knv_tag_t \<Rightarrow> world \<Rightarrow> (nat option \<times> world) option" where
  "FindChildByTag g n t w =
     (if \<not> IsValid w n then Some (None, w)
      else
        do {
          (num, w) \<leftarrow> GetChildNum g n w;
          if num \<le> 0 then Some (None, w)
          else if n_child_has_key (nd w n)
          then Some (List.find (\<lambda>c. n_tag (nd w c) = t) (n_childlist (nd w n)), w)
          else do { r \<leftarrow> node_ht_get n t [] w; Some (r, w) }
        })"

text \<open>With a position: null when the node was found in the list.\<close>

definition FindChildByTag_pos ::
  "codecs \<Rightarrow> nat \<Rightarrow> knv_tag_t \<Rightarrow> world \<Rightarrow> ((nat \<times> HtPos option) option \<times> world) option" where
  "FindChildByTag_pos g n t w =
     (if \<not> IsValid w n then Some (None, w)
      else
        do {
          (num, w) \<leftarrow> GetChildNum g n w;
          if num \<le> 0 then Some (None, w)
          else if n_child_has_key (nd w n)
          then Some (map_option (\<lambda>c. (c, None)) (List.find (\<lambda>c. n_tag (nd w c) = t) (n_childlist (nd w n))), w)
          else do { r \<leftarrow> node_ht_get_pos n t [] w; Some (map_option (\<lambda>(c, pos). (c, Some pos)) r, w) }
        })"

text \<open>\<open>child_num<0 && Expand()\<close>.\<close>

definition expand_if_folded :: "codecs \<Rightarrow> nat \<Rightarrow> world \<Rightarrow> (int \<times> world) option" where
  "expand_if_folded g n w = (if n_child_num (nd w n) < 0 then Expand g n w else Some (0, w))"

definition GetMeta :: "codecs \<Rightarrow> nat \<Rightarrow> knv_tag_t \<Rightarrow> world \<Rightarrow> (nat option \<times> world) option" where
  "GetMeta g n t w =
     (if \<not> IsValid w n \<or> unat t > UC_MAX_META_NUM then Some (None, w)
      else
        do {
          (ret, w) \<leftarrow> expand_if_folded g n w;
          Some (if ret \<noteq> 0 \<or> n_metalist (nd w n) = [] then None else n_metas (nd w n) (unat t), w)
        })"

definition IsLeaf :: "codecs \<Rightarrow> nat \<Rightarrow> world \<Rightarrow> (bool \<times> world) option" where
  "IsLeaf g n w =
     (if n_type (nd w n) \<noteq> KNV_NODE then Some (True, w)
      else
        do {
          (ret, w) \<leftarrow> expand_if_folded g n w;
          Some (ret \<noteq> 0 \<or> (n_child_num (nd w n) = 0 \<and> n_metalist (nd w n) = []), w)
        })"

section \<open>Removing children\<close>

text \<open>\<open>eval_sz>=0? -n->EvaluateSize() : 0\<close>\<close>

definition minus_size :: "codecs \<Rightarrow> nat \<Rightarrow> nat \<Rightarrow> world \<Rightarrow> (int \<times> world) option" where
  "minus_size g this n w =
     (if n_eval_sz (nd w this) \<ge> 0 then do { (sz, w) \<leftarrow> EvaluateSize g n w; Some (- sz, w) } else Some (0, w))"

definition DetachChild :: "codecs \<Rightarrow> nat \<Rightarrow> nat option \<Rightarrow> world \<Rightarrow> (bool \<times> world) option" where
  "DetachChild g this child w =
     (case child of
        None \<Rightarrow> Some (False, w)
      | Some n \<Rightarrow>
          do {
            (offset, w) \<leftarrow> minus_size g this n w;
            (_, w) \<leftarrow> node_ht_remove this n w;
            let w = nodepool_Detach_child this n w;
            w \<leftarrow> finish_edit g this offset (upd this (n_child_num_update (\<lambda>k. k - 1)) w);
            Some (True, w)
          })"

definition RemoveChildByPos :: "codecs \<Rightarrow> nat \<Rightarrow> nat option \<Rightarrow> HtPos option \<Rightarrow> world \<Rightarrow> (bool \<times> world) option" where
  "RemoveChildByPos g this child pos w =
     (case child of
        None \<Rightarrow> Some (False, w)
      | Some n \<Rightarrow>
          do {
            (offset, w) \<leftarrow> minus_size g this n w;
            w \<leftarrow> (case pos of
                   None \<Rightarrow> do { (_, w) \<leftarrow> node_ht_remove this n w; Some w }
                 | Some pos \<Rightarrow> Some (node_ht_remove_pos this n pos w));
            w \<leftarrow> nodepool_Delete_child this n w;
            w \<leftarrow> finish_edit g this offset (upd this (n_child_num_update (\<lambda>k. k - 1)) w);
            Some (True, w)
          })"

definition RemoveChild :: "codecs \<Rightarrow> nat \<Rightarrow> knv_tag_t \<Rightarrow> byte list \<Rightarrow> world \<Rightarrow> (bool \<times> world) option" where
  "RemoveChild g this t k w =
     do {
       (r, w) \<leftarrow> FindChild_pos g this t k w;
       case r of
         None \<Rightarrow> Some (False, w)
       | Some (c, pos) \<Rightarrow> RemoveChildByPos g this (Some c) (Some pos) w
     }"

text \<open>The loop of \<open>RemoveChildrenByTag\<close>; it reads \<open>next\<close> before a node is deleted.\<close>

fun remove_children ::
  "codecs \<Rightarrow> nat \<Rightarrow> knv_tag_t \<Rightarrow> nat list \<Rightarrow> int \<Rightarrow> int \<Rightarrow> world \<Rightarrow> (int \<times> int \<times> world) option" where
  "remove_children g this t [] match_nr offset w = Some (match_nr, offset, w)"
| "remove_children g this t (c # cs) match_nr offset w =
     (if n_tag (nd w c) = t
      then
        do {
          (m_sz, w) \<leftarrow> minus_size g this c w;
          (_, w) \<leftarrow> node_ht_remove this c w;
          w \<leftarrow> nodepool_Delete_child this c w;
          remove_children g this t cs (match_nr + 1) (offset + m_sz) (upd this (n_child_num_update (\<lambda>k. k - 1)) w)
        }
      else remove_children g this t cs match_nr offset w)"

definition RemoveChildrenByTag :: "codecs \<Rightarrow> nat \<Rightarrow> knv_tag_t \<Rightarrow> world \<Rightarrow> (int \<times> world) option" where
  "RemoveChildrenByTag g this t w =
     (if \<not> IsValid w this then Some (-1, err this ''Tree is invalid'' w)
      else
        do {
          (num, w) \<leftarrow> GetChildNum g this w;
          if num \<le> 0 then Some (0, w)
          else
            do {
              (match_nr, offset, w) \<leftarrow> remove_children g this t (n_childlist (nd w this)) 0 0 w;
              w \<leftarrow> (if match_nr \<noteq> 0 then finish_edit g this offset w else Some w);
              Some (match_nr, w)
            }
        })"

section \<open>Metas and keys\<close>

text \<open>A new meta: in front of the list when it is the key.\<close>

definition setmeta_new ::
  "codecs \<Rightarrow> nat \<Rightarrow> knv_tag_t \<Rightarrow> knv_type_t \<Rightarrow> knv_value_t option \<Rightarrow> bool \<Rightarrow> world \<Rightarrow> ((int + nat) \<times> world) option" where
  "setmeta_new g this t type data own_buf w =
     (let w = (if n_metalist (nd w this) = [] then upd this (n_metas_update (\<lambda>_ _. None)) w else w) in
      case nodepool_New w of
        (None, w) \<Rightarrow> Some (Inl (-5), err this ''nodepool out of memory'' w)
      | (Some m, w) \<Rightarrow>
          (let w = upd this (n_metalist_update (\<lambda>xs. if t = 1 then m # xs else xs @ [m])) w;
               (ret, w) = InitNode g m t type data own_buf True 0 True w in
           if ret \<noteq> 0 then do { w \<leftarrow> nodepool_Delete_meta this m (copy_err this m w); Some (Inl (-6), w) }
           else
             (let w = upd m (n_parent_update (\<lambda>_. Some this)) w
              in Some (Inr m, upd this (\<lambda>x. x\<lparr>n_metas := (n_metas x)(unat t \<mapsto> m)\<rparr>) w))))"

text \<open>An existing meta; its bytes go to the buffer of \<open>this\<close>, as in the source.\<close>

definition setmeta_old ::
  "nat \<Rightarrow> nat \<Rightarrow> knv_tag_t \<Rightarrow> knv_type_t \<Rightarrow> knv_value_t option \<Rightarrow> bool \<Rightarrow> world \<Rightarrow> ((int + nat) \<times> world) option" where
  "setmeta_old this m t type data own_buf w =
     (let w = upd m (n_type_update (\<lambda>_. type)) w;
          (ok, w) =
            (case data of
               None \<Rightarrow> (True, upd m (n_val_update (\<lambda>_. \<lparr>v_i64 = 0, v_data = NULL\<rparr>)) w)
             | Some v \<Rightarrow>
                 if type = KNV_STRING \<and> own_buf
                 then
                   (let (p, w) = node_alloc this (v_len v) w;
                        w = upd m (n_val_update (\<lambda>u. u\<lparr>v_data := p\<rparr>)) w in
                    if p = NULL
                    then (False, err this ''mempool out of memory'' (upd m (n_val_update (set_v_len 0)) w))
                    else (True, upd m (n_val_update (set_v_len (v_len v)))
                            (node_write p (bytes_at (w_heap w) (v_data v) (unat (v_len v))) w)))
                 else (True, upd m (n_val_update (\<lambda>_. v)) w))
      in if \<not> ok then Some (Inl (-6), w)
         else if n_child_num (nd w m) \<ge> 0
         then
           do {
             w \<leftarrow> DeleteAll_children m w;
             w \<leftarrow> DeleteAll_metas m w;
             Some (Inr m, upd m (n_child_num_update (\<lambda>_. if \<not> n_no_key (nd w this) \<and> t = 1 then 0 else -1)) w)
           }
         else Some (Inr m, w))"

definition SetMeta5 ::
  "codecs \<Rightarrow> nat \<Rightarrow> knv_tag_t \<Rightarrow> knv_type_t \<Rightarrow> knv_value_t option \<Rightarrow> bool \<Rightarrow> bool \<Rightarrow> world \<Rightarrow> (int \<times> world) option" where
  "SetMeta5 g this t type data own_buf update_parent w =
     (if \<not> IsValid w this then Some (-1, err this ''Node is not initialized'' w)
      else if n_type (nd w this) \<noteq> KNV_NODE then Some (-2, err this ''Meta not supported for non-message'' w)
      else if unat t > UC_MAX_META_NUM then Some (-3, err this ''Tag is out of range'' w)
      else
        do {
          (ret, w) \<leftarrow> expand_if_folded g this w;
          if ret \<noteq> 0 then Some (-4, w)
          else
            do {
              (m, w) \<leftarrow> GetMeta g this t w;
              (old_sz, w) \<leftarrow> (case m of None \<Rightarrow> Some (0, w) | Some m \<Rightarrow> EvaluateSize g m w);
              (r, w) \<leftarrow> (case m of
                           None \<Rightarrow> setmeta_new g this t type data own_buf w
                         | Some m \<Rightarrow> setmeta_old this m t type data own_buf w);
              case r of
                Inl e \<Rightarrow> Some (e, w)
              | Inr m \<Rightarrow>
                  do {
                    let v = n_val (nd w m);
                    let sz = knv_eval_field_length g t type v;
                    let w = upd m (\<lambda>x. x\<lparr>n_eval_val_sz := (if type = KNV_NODE then to_int32 (uint (v_len v)) else 0),
                                     n_eval_sz := sz\<rparr>) w;
                    if \<not> update_parent then Some (0, upd this (n_eval_val_sz_update (\<lambda>z. z + (sz - old_sz))) w)
                    else
                      do {
                        w \<leftarrow> finish_edit g this (if n_eval_sz (nd w this) \<ge> 0 then sz - old_sz else 0) w;
                        Some (0, w)
                      }
                  }
            }
        })"

definition InnerRemoveMeta :: "codecs \<Rightarrow> nat \<Rightarrow> knv_tag_t \<Rightarrow> world \<Rightarrow> (int \<times> world) option" where
  "InnerRemoveMeta g this t w =
     (if \<not> IsValid w this then Some (-1, err this ''Node is not initialized'' w)
      else if unat t > UC_MAX_META_NUM then Some (-2, err this ''Tag is out of range'' w)
      else
        do {
          (ret, w) \<leftarrow> expand_if_folded g this w;
          if ret \<noteq> 0 then Some (-3, w)
          else if n_metalist (nd w this) = [] then Some (0, w)
          else
            (case n_metas (nd w this) (unat t) of
               None \<Rightarrow> Some (0, w)
             | Some m \<Rightarrow>
                 do {
                   (offset, w) \<leftarrow> minus_size g this m w;
                   w \<leftarrow> nodepool_Delete_meta this m w;
                   let w = upd this (\<lambda>x. x\<lparr>n_metas := (n_metas x)(unat t := None)\<rparr>) w;
                   w \<leftarrow> finish_edit g this offset w;
                   Some (0, w)
                 })
        })"

text \<open>\<open>SetKey\<close>: the label \<open>out\<close> puts the node back into the table of its parent on every path.\<close>

definition SetKey :: "codecs \<Rightarrow> nat \<Rightarrow> knv_type_t \<Rightarrow> knv_value_t option \<Rightarrow> bool \<Rightarrow> world \<Rightarrow> (int \<times> world) option" where
  "SetKey g this keytype key own_buf w =
     do {
       w \<leftarrow> parent_ht_remove this w;
       let (r, w) = node_key_init this keytype key own_buf w;
       (ret, w) \<leftarrow>
         (if r \<noteq> 0 then Some (-1, err this ''init_key out of memory'' w)
          else if k_len (n_key (nd w this)) \<noteq> 0
          then
            do {
              (r, w) \<leftarrow> SetMeta5 g this 1 keytype (Some (key_GetValue (w_heap w) (n_key (nd w this)))) False True w;
              Some (if r < 0 then (-2, w) else (0, upd this (n_no_key_update (\<lambda>_. False)) w))
            }
          else
            do {
              (r, w) \<leftarrow> InnerRemoveMeta g this 1 w;
              Some (if r < 0 then (-3, w) else (0, upd this (n_no_key_update (\<lambda>_. False)) w))
            });
       w \<leftarrow> parent_ht_put this w;
       Some (ret, w)
     }"

definition SetMeta :: "codecs \<Rightarrow> nat \<Rightarrow> knv_tag_t \<Rightarrow> knv_type_t \<Rightarrow> knv_value_t option \<Rightarrow> world \<Rightarrow> (int \<times> world) option" where
  "SetMeta g this t type data w =
     (if \<not> n_no_key (nd w this) \<and> t = 1 then SetKey g this type data True w
      else SetMeta5 g this t type data True True w)"

definition RemoveMeta :: "codecs \<Rightarrow> nat \<Rightarrow> knv_tag_t \<Rightarrow> world \<Rightarrow> (int \<times> world) option" where
  "RemoveMeta g this t w =
     (if t = 1 then SetKey g this (k_type (n_key (nd w this))) None True w else InnerRemoveMeta g this t w)"

definition AddMeta :: "codecs \<Rightarrow> nat \<Rightarrow> knv_tag_t \<Rightarrow> knv_type_t \<Rightarrow> knv_value_t option \<Rightarrow> world \<Rightarrow> (int \<times> world) option" where
  "AddMeta g this t type data w =
     do {
       (m, w) \<leftarrow> GetMeta g this t w;
       if m = None then SetMeta g this t type data w
       else
         (case nodepool_New w of
            (None, w) \<Rightarrow> Some (-1, err this ''nodepool out of memory'' w)
          | (Some m, w) \<Rightarrow>
              (let w = upd this (n_metalist_update (\<lambda>xs. xs @ [m])) w;
                   (ret, w) = InitNode g m t type data True True 0 True w in
               if ret \<noteq> 0 then do { w \<leftarrow> nodepool_Delete_meta this m (copy_err this m w); Some (-2, w) }
               else
                 do {
                   let w = upd m (n_parent_update (\<lambda>_. Some this)) w;
                   w \<leftarrow> finish_edit g this
                          (if n_eval_sz (nd w this) \<ge> 0 then knv_eval_field_length g t type (n_val (nd w m)) else 0) w;
                   Some (0, w)
                 }))
     }"

fun remove_metas :: "codecs \<Rightarrow> nat \<Rightarrow> knv_tag_t \<Rightarrow> nat list \<Rightarrow> int \<Rightarrow> world \<Rightarrow> (int \<times> world) option" where
  "remove_metas g this t [] offset w = Some (offset, w)"
| "remove_metas g this t (m # ms) offset w =
     (if n_tag (nd w m) \<noteq> t then remove_metas g this t ms offset w
      else
        do {
          (m_sz, w) \<leftarrow> minus_size g this m w;
          w \<leftarrow> nodepool_Delete_meta this m w;
          remove_metas g this t ms (offset + m_sz) w
        })"

definition RemoveMetaByTag :: "codecs \<Rightarrow> nat \<Rightarrow> knv_tag_t \<Rightarrow> world \<Rightarrow> (int \<times> world) option" where
  "RemoveMetaByTag g this t w =
     (if \<not> IsValid w this then Some (-1, err this ''Node is not initialized'' w)
      else if unat t > UC_MAX_META_NUM then Some (-2, err this ''Tag is out of range'' w)
      else
        do {
          (ret, w) \<leftarrow> expand_if_folded g this w;
          if ret \<noteq> 0 then Some (-3, w)
          else if n_metalist (nd w this) = [] \<or> n_metas (nd w this) (unat t) = None then Some (0, w)
          else
            do {
              (ret, w) \<leftarrow>
                (if \<not> n_no_key (nd w this) \<and> t = 1
                 then SetKey g this (k_type (n_key (nd w this))) None True w else Some (0, w));
              if ret < 0 then Some (ret, w)
              else
                do {
                  (offset, w) \<leftarrow> remove_metas g this t (n_metalist (nd w this)) 0 w;
                  let w = upd this (\<lambda>x. x\<lparr>n_metas := (n_metas x)(unat t := None)\<rparr>) w;
                  w \<leftarrow> finish_edit g this offset w;
                  Some (0, w)
                }
            }
        })"

section \<open>Construction and insertion\<close>

definition New ::
  "codecs \<Rightarrow> knv_tag_t \<Rightarrow> knv_type_t \<Rightarrow> knv_type_t \<Rightarrow> knv_value_t option \<Rightarrow> knv_value_t option \<Rightarrow> bool \<Rightarrow> world
     \<Rightarrow> (nat option \<times> world) option" where
  "New g t type keytype key val own_buf w =
     (let (pool, w) = GetNodePool w in
      if \<not> pool then Some (None, set_errorstr ''Out of memory'' w)
      else if t = 0 then Some (None, set_errorstr ''Invalid tag argument'' w)
      else
        (case nodepool_New w of
           (None, w) \<Rightarrow> Some (None, set_errorstr ''Out of memory'' w)
         | (Some n, w) \<Rightarrow>
             (let (ret, w) = InitNode g n t type val own_buf True 0 False w in
              if ret \<noteq> 0
              then do { w \<leftarrow> nodepool_Delete n (w\<lparr>w_errorstr := n_errmsg (nd w n)\<rparr>); Some (None, w) }
              else if key = None then Some (Some n, w)
              else
                (let (ret, w) = node_key_init n keytype key own_buf w in
                 if ret \<noteq> 0
                 then do { w \<leftarrow> nodepool_Delete n w; Some (None, set_errorstr ''init_key out of memory'' w) }
                 else if k_len (n_key (nd w n)) = 0 then Some (Some n, w)
                 else
                   do {
                     (ret, w) \<leftarrow> SetMeta5 g n 1 keytype (Some (key_GetValue (w_heap w) (n_key (nd w n)))) False True w;
                     if ret < 0
                     then do { w \<leftarrow> nodepool_Delete n (w\<lparr>w_errorstr := n_errmsg (nd w n)\<rparr>); Some (None, w) }
                     else Some (Some n, w)
                   }))))"

definition INSERT_CHILD :: "nat \<Rightarrow> nat \<Rightarrow> bool \<Rightarrow> world \<Rightarrow> world option" where
  "INSERT_CHILD p c at_tail w =
     do {
       (_, w) \<leftarrow> node_ht_put p c (upd p (n_childlist_update (\<lambda>xs. if at_tail then xs @ [c] else c # xs)) w);
       Some (upd p (\<lambda>x. x\<lparr>n_child_has_key := (n_child_has_key x \<or> k_len (n_key (nd w c)) \<noteq> 0),
                         n_child_num := n_child_num x + 1\<rparr>) w)
     }"

definition InnerInsertChild ::
  "codecs \<Rightarrow> nat \<Rightarrow> nat \<Rightarrow> bool \<Rightarrow> bool \<Rightarrow> bool \<Rightarrow> bool \<Rightarrow> world \<Rightarrow> (int \<times> world) option" where
  "InnerInsertChild g this child take_ownership own_buf update_parent at_tail w =
     do {
       (c, w) \<leftarrow> (if take_ownership then Some (Some child, w)
                 else if update_parent then InnerDuplicate g child own_buf False w
                 else InnerDuplicate g child False True w);
       case c of
         None \<Rightarrow> Some (-1, err this ''Out of memory'' w)
       | Some c \<Rightarrow>
           do {
             w \<leftarrow> INSERT_CHILD this c at_tail (upd c (n_parent_update (\<lambda>_. Some this)) w);
             if \<not> update_parent
             then
               do {
                 (sz, w) \<leftarrow> EvaluateSize g c w;
                 Some (0, upd this (n_eval_val_sz_update (\<lambda>z. z + sz)) w)
               }
             else
               do {
                 (offset, w) \<leftarrow> (if n_eval_sz (nd w this) \<ge> 0 then EvaluateSize g c w else Some (0, w));
                 w \<leftarrow> finish_edit g this offset w;
                 Some (0, w)
               }
           }
     }"

definition InsertChild :: "codecs \<Rightarrow> nat \<Rightarrow> nat option \<Rightarrow> bool \<Rightarrow> bool \<Rightarrow> bool \<Rightarrow> world \<Rightarrow> (int \<times> world) option" where
  "InsertChild g this child take_ownership own_buf at_tail w =
     (if \<not> IsValid w this then Some (-2, err this ''invalid node'' w)
      else if n_type (nd w this) \<noteq> KNV_NODE then Some (-3, err this ''leaf cannot have child'' w)
      else
        do {
          (ret, w) \<leftarrow> expand_if_folded g this w;
          if ret \<noteq> 0 then Some (-4, w)
          else
            (case child of
               None \<Rightarrow> Some (-5, err this ''bad iterator'' w)
             | Some c \<Rightarrow> InnerInsertChild g this c take_ownership own_buf True at_tail w)
        })"

section \<open>Iteration\<close>

text \<open>
  \<open>next\<close> and \<open>prev\<close> of a node, read off the list of its parent that holds it.  In a list, \<open>prev\<close> of the
  first node is the last; a node that was never put into a list is its own \<open>prev\<close>; a detached one has none.
\<close>

definition siblings :: "world \<Rightarrow> nat \<Rightarrow> nat list" where
  "siblings w n =
     (case n_parent (nd w n) of
        None \<Rightarrow> [n]
      | Some p \<Rightarrow>
          if n \<in> set (n_metalist (nd w p)) then n_metalist (nd w p)
          else if n \<in> set (n_childlist (nd w p)) then n_childlist (nd w p) else [])"

definition node_next :: "world \<Rightarrow> nat \<Rightarrow> nat option" where
  "node_next w n = (case dropWhile (\<lambda>c. c \<noteq> n) (siblings w n) of _ # c # _ \<Rightarrow> Some c | _ \<Rightarrow> None)"

definition node_prev :: "world \<Rightarrow> nat \<Rightarrow> nat option" where
  "node_prev w n =
     (let xs = siblings w n; before = takeWhile (\<lambda>c. c \<noteq> n) xs in
      if xs = [] then None else if before = [] then Some (last xs) else Some (last before))"

definition no_err :: "nat \<Rightarrow> world \<Rightarrow> world" where
  "no_err n w = set_err n None w"

definition GetFirstChild :: "codecs \<Rightarrow> nat \<Rightarrow> world \<Rightarrow> (nat option \<times> world) option" where
  "GetFirstChild g n w =
     do {
       (ret, w) \<leftarrow> Expand g n w;
       if ret \<noteq> 0 then Some (None, w)
       else Some (if n_child_num (nd w n) \<le> 0 then None else first_of (n_childlist (nd w n)) None, no_err n w)
     }"

definition GetLastChild :: "codecs \<Rightarrow> nat \<Rightarrow> world \<Rightarrow> (nat option \<times> world) option" where
  "GetLastChild g n w =
     do {
       (ret, w) \<leftarrow> Expand g n w;
       if ret \<noteq> 0 then Some (None, w)
       else Some (if n_childlist (nd w n) = [] then None else Some (last (n_childlist (nd w n))), no_err n w)
     }"

definition GetSibling :: "nat \<Rightarrow> world \<Rightarrow> nat option \<times> world" where
  "GetSibling n w = (node_next w n, no_err n w)"

definition GetPrevSibling :: "nat \<Rightarrow> world \<Rightarrow> nat option \<times> world" where
  "GetPrevSibling n w = (node_prev w n, no_err n w)"

definition GetFirstMeta :: "codecs \<Rightarrow> nat \<Rightarrow> world \<Rightarrow> (nat option \<times> world) option" where
  "GetFirstMeta g n w =
     do {
       (ret, w) \<leftarrow> Expand g n w;
       if ret \<noteq> 0 then Some (None, w)
       else Some (if n_child_num (nd w n) < 0 then None else first_of (n_metalist (nd w n)) None, no_err n w)
     }"

definition GetNextMeta :: "nat option \<Rightarrow> world \<Rightarrow> nat option" where
  "GetNextMeta cur w = (case cur of None \<Rightarrow> None | Some m \<Rightarrow> node_next w m)"

end
