(* ===== verification/Knv_Api.thy ===== *)
theory Knv_Api
  imports Knv_Edit
begin

text \<open>
  The inline methods of \<open>KnvNode\<close> in \<open>src/src/knv_node.h\<close>: constructors, typed access to metas, children and
  fields (a field is a meta when its tag is at most 10 and a child otherwise), iteration over the
  fields, \<open>Remove\<close> and \<open>Detach\<close>.  Values of type \<open>float\<close> and \<open>double\<close> are given by their bit patterns.
\<close>

section \<open>Constructors\<close>

definition New_mem :: "codecs \<Rightarrow> knv_tag_t \<Rightarrow> knv_type_t \<Rightarrow> nat \<Rightarrow> int \<Rightarrow> world \<Rightarrow> (nat option \<times> world) option" where
  "New_mem g t type m len w =
     do {
       (p, w) \<leftarrow> New g t type KNV_DEFAULT_TYPE None (Some (str_value (word_of_int len) (c_mem (snd (w_mem w)) m))) False w;
       case p of
         None \<Rightarrow> Some (None, w)
       | Some n \<Rightarrow> Some (Some n, snd (node_assign n (Some m) (word_of_int len) w))
     }"

definition New_key ::
  "codecs \<Rightarrow> knv_tag_t \<Rightarrow> knv_type_t \<Rightarrow> knv_key_t \<Rightarrow> knv_value_t option \<Rightarrow> bool \<Rightarrow> world \<Rightarrow> (nat option \<times> world) option" where
  "New_key g t type key val own_buf w = New g t type (k_type key) (Some (key_GetValue (w_heap w) key)) val own_buf w"

definition NewTree :: "codecs \<Rightarrow> knv_tag_t \<Rightarrow> knv_key_t option \<Rightarrow> world \<Rightarrow> (nat option \<times> world) option" where
  "NewTree g t key w =
     New g t KNV_NODE (case key of Some k \<Rightarrow> k_type k | None \<Rightarrow> KNV_DEFAULT_TYPE)
       (map_option (key_GetValue (w_heap w)) key) None True w"

text \<open>From a leaf, given by the node it belongs to.\<close>

definition New_leaf :: "codecs \<Rightarrow> nat \<Rightarrow> bool \<Rightarrow> world \<Rightarrow> (nat option \<times> world) option" where
  "New_leaf g l own_buf w =
     New g (n_tag (nd w l)) (n_type (nd w l)) KNV_DEFAULT_TYPE None (Some (n_val (nd w l))) own_buf w"

text \<open>From a string, given by its characters \<open>data\<close> and its length.\<close>

definition NewFromMessage :: "codecs \<Rightarrow> ptr \<Rightarrow> nat \<Rightarrow> knv_tag_t \<Rightarrow> world \<Rightarrow> (nat option \<times> world) option" where
  "NewFromMessage g data len t w =
     New g t KNV_STRING KNV_STRING None (Some (str_value (of_nat len) data)) True w"

definition New_string :: "codecs \<Rightarrow> ptr \<Rightarrow> nat \<Rightarrow> bool \<Rightarrow> world \<Rightarrow> (nat option \<times> world) option" where
  "New_string g data len own_buf w = New_data g data (to_int32 (int len)) own_buf w"

section \<open>Children\<close>

text \<open>The end of the three insertions: \<open>c\<close> is the new child, or null.\<close>

definition insert_new ::
  "codecs \<Rightarrow> nat \<Rightarrow> bool \<Rightarrow> nat option \<times> world \<Rightarrow> (nat option \<times> world) option" where
  "insert_new g this own_buf r =
     (case r of
        (None, w) \<Rightarrow> Some (None, set_err this (w_errorstr w) w)
      | (Some c, w) \<Rightarrow>
          do {
            (ret, w) \<leftarrow> InsertChild g this (Some c) True own_buf True w;
            if ret \<noteq> 0 then do { w \<leftarrow> KnvNode_Delete (Some c) w; Some (None, w) } else Some (Some c, w)
          })"

definition InsertChild_val ::
  "codecs \<Rightarrow> nat \<Rightarrow> knv_tag_t \<Rightarrow> knv_type_t \<Rightarrow> knv_value_t option \<Rightarrow> bool \<Rightarrow> world \<Rightarrow> (nat option \<times> world) option" where
  "InsertChild_val g this t type data own_buf w =
     do { r \<leftarrow> New g t type KNV_DEFAULT_TYPE None data own_buf w; insert_new g this False r }"

definition InsertChild_key ::
  "codecs \<Rightarrow> nat \<Rightarrow> knv_tag_t \<Rightarrow> knv_type_t \<Rightarrow> knv_key_t \<Rightarrow> knv_value_t option \<Rightarrow> bool \<Rightarrow> world
     \<Rightarrow> (nat option \<times> world) option" where
  "InsertChild_key g this t type key data own_buf w =
     do { r \<leftarrow> New_key g t type key data own_buf w; insert_new g this False r }"

definition InsertSubNode :: "codecs \<Rightarrow> nat \<Rightarrow> knv_tag_t \<Rightarrow> knv_key_t option \<Rightarrow> world \<Rightarrow> (nat option \<times> world) option" where
  "InsertSubNode g this t key w = do { r \<leftarrow> NewTree g t key w; insert_new g this True r }"

definition InsertIntLeaf :: "codecs \<Rightarrow> nat \<Rightarrow> knv_tag_t \<Rightarrow> u64 \<Rightarrow> world \<Rightarrow> (nat option \<times> world) option" where
  "InsertIntLeaf g this t val w = InsertChild_val g this t KNV_VARINT (Some (int_value val)) True w"

definition InsertStrLeaf :: "codecs \<Rightarrow> nat \<Rightarrow> knv_tag_t \<Rightarrow> ptr \<Rightarrow> int \<Rightarrow> world \<Rightarrow> (nat option \<times> world) option" where
  "InsertStrLeaf g this t val len w = InsertChild_val g this t KNV_STRING (Some (str_value (word_of_int len) val)) True w"

text \<open>\<open>p? 0 : -1\<close> for a call that returns a pointer.\<close>

definition code_of :: "int \<Rightarrow> (nat option \<times> world) option \<Rightarrow> (int \<times> world) option" where
  "code_of e r = do { (p, w) \<leftarrow> r; Some (if p \<noteq> None then 0 else e, w) }"

definition AddChildInt :: "codecs \<Rightarrow> nat \<Rightarrow> knv_tag_t \<Rightarrow> u64 \<Rightarrow> world \<Rightarrow> (int \<times> world) option" where
  "AddChildInt g this t val w = code_of (-1) (InsertIntLeaf g this t val w)"

definition AddChildStr :: "codecs \<Rightarrow> nat \<Rightarrow> knv_tag_t \<Rightarrow> int \<Rightarrow> ptr \<Rightarrow> world \<Rightarrow> (int \<times> world) option" where
  "AddChildStr g this t len val w = code_of (-1) (InsertStrLeaf g this t val len w)"

definition AddChild :: "codecs \<Rightarrow> nat \<Rightarrow> knv_tag_t \<Rightarrow> knv_type_t \<Rightarrow> knv_value_t option \<Rightarrow> world \<Rightarrow> (int \<times> world) option" where
  "AddChild g this t type data w = code_of (-1) (InsertChild_val g this t type data True w)"

definition GetChildInt :: "codecs \<Rightarrow> nat \<Rightarrow> knv_tag_t \<Rightarrow> world \<Rightarrow> (u64 \<times> world) option" where
  "GetChildInt g this t w =
     do { (n, w) \<leftarrow> FindChildByTag g this t w; Some (case n of Some n \<Rightarrow> GetIntVal n w | None \<Rightarrow> 0, w) }"

definition GetChildStr :: "codecs \<Rightarrow> nat \<Rightarrow> knv_tag_t \<Rightarrow> world \<Rightarrow> (byte list \<times> world) option" where
  "GetChildStr g this t w =
     do { (n, w) \<leftarrow> FindChildByTag g this t w; case n of Some n \<Rightarrow> GetStrVal g n w | None \<Rightarrow> Some ([], w) }"

definition SetChild :: "codecs \<Rightarrow> nat \<Rightarrow> knv_tag_t \<Rightarrow> knv_type_t \<Rightarrow> knv_value_t \<Rightarrow> world \<Rightarrow> (int \<times> world) option" where
  "SetChild g this t type data w =
     do {
       (c, w) \<leftarrow> FindChildByTag g this t w;
       case c of
         Some c \<Rightarrow>
           if (type = KNV_STRING \<and> n_type (nd w c) \<noteq> type) \<or> (type \<noteq> KNV_STRING \<and> n_type (nd w c) = KNV_STRING)
           then Some (-2, err this ''Tag already exists with different type'' w)
           else
             do {
               (ret, w) \<leftarrow> SetValue g c type data True w;
               Some (if ret \<noteq> 0 then (-1, copy_err this c w) else (0, w))
             }
       | None \<Rightarrow> code_of (-3) (InsertChild_val g this t type (Some data) True w)
     }"

definition SetChildInt :: "codecs \<Rightarrow> nat \<Rightarrow> knv_tag_t \<Rightarrow> u64 \<Rightarrow> world \<Rightarrow> (int \<times> world) option" where
  "SetChildInt g this t val w = SetChild g this t KNV_VARINT (int_value val) w"

definition SetChildStr :: "codecs \<Rightarrow> nat \<Rightarrow> knv_tag_t \<Rightarrow> u32 \<Rightarrow> ptr \<Rightarrow> world \<Rightarrow> (int \<times> world) option" where
  "SetChildStr g this t len val w = SetChild g this t KNV_STRING (str_value len val) w"

section \<open>Metas\<close>

definition GetMetaInt :: "codecs \<Rightarrow> nat \<Rightarrow> knv_tag_t \<Rightarrow> world \<Rightarrow> (u64 \<times> world) option" where
  "GetMetaInt g this t w =
     do { (l, w) \<leftarrow> GetMeta g this t w; Some (case l of Some l \<Rightarrow> GetIntVal l w | None \<Rightarrow> 0, w) }"

definition GetMetaStr :: "codecs \<Rightarrow> nat \<Rightarrow> knv_tag_t \<Rightarrow> world \<Rightarrow> (byte list \<times> world) option" where
  "GetMetaStr g this t w =
     do { (l, w) \<leftarrow> GetMeta g this t w; case l of Some l \<Rightarrow> GetStrVal g l w | None \<Rightarrow> Some ([], w) }"

definition SetMetaInt :: "codecs \<Rightarrow> nat \<Rightarrow> knv_tag_t \<Rightarrow> u64 \<Rightarrow> world \<Rightarrow> (int \<times> world) option" where
  "SetMetaInt g this t val w = SetMeta g this t KNV_VARINT (Some (int_value val)) w"

definition SetMetaStr :: "codecs \<Rightarrow> nat \<Rightarrow> knv_tag_t \<Rightarrow> u32 \<Rightarrow> ptr \<Rightarrow> world \<Rightarrow> (int \<times> world) option" where
  "SetMetaStr g this t len val w = SetMeta g this t KNV_STRING (Some (str_value len val)) w"

definition AddMetaInt :: "codecs \<Rightarrow> nat \<Rightarrow> knv_tag_t \<Rightarrow> u64 \<Rightarrow> world \<Rightarrow> (int \<times> world) option" where
  "AddMetaInt g this t val w = AddMeta g this t KNV_VARINT (Some (int_value val)) w"

definition AddMetaStr :: "codecs \<Rightarrow> nat \<Rightarrow> knv_tag_t \<Rightarrow> u32 \<Rightarrow> ptr \<Rightarrow> world \<Rightarrow> (int \<times> world) option" where
  "AddMetaStr g this t len val w = AddMeta g this t KNV_STRING (Some (str_value len val)) w"

section \<open>Fields\<close>

abbreviation is_meta_tag :: "knv_tag_t \<Rightarrow> bool" where
  "is_meta_tag t \<equiv> unat t \<le> UC_MAX_META_NUM"

definition GetFieldInt :: "codecs \<Rightarrow> nat \<Rightarrow> knv_tag_t \<Rightarrow> world \<Rightarrow> (u64 \<times> world) option" where
  "GetFieldInt g this t w = (if is_meta_tag t then GetMetaInt g this t w else GetChildInt g this t w)"

definition GetFieldSInt :: "codecs \<Rightarrow> nat \<Rightarrow> knv_tag_t \<Rightarrow> world \<Rightarrow> (u64 \<times> world) option" where
  "GetFieldSInt g this t w = do { (i, w) \<leftarrow> GetFieldInt g this t w; Some (pb_uint2int i, w) }"

definition GetFieldFloat :: "codecs \<Rightarrow> nat \<Rightarrow> knv_tag_t \<Rightarrow> world \<Rightarrow> (u32 \<times> world) option" where
  "GetFieldFloat g this t w = do { (i, w) \<leftarrow> GetFieldInt g this t w; Some (ucast i, w) }"

definition GetFieldDouble :: "codecs \<Rightarrow> nat \<Rightarrow> knv_tag_t \<Rightarrow> world \<Rightarrow> (u64 \<times> world) option" where
  "GetFieldDouble g this t w = GetFieldInt g this t w"

definition GetField :: "codecs \<Rightarrow> nat \<Rightarrow> knv_tag_t \<Rightarrow> world \<Rightarrow> (nat option \<times> world) option" where
  "GetField g this t w = (if is_meta_tag t then GetMeta g this t w else FindChildByTag g this t w)"

definition GetFieldStr :: "codecs \<Rightarrow> nat \<Rightarrow> knv_tag_t \<Rightarrow> world \<Rightarrow> (byte list \<times> world) option" where
  "GetFieldStr g this t w = (if is_meta_tag t then GetMetaStr g this t w else GetChildStr g this t w)"

definition SetFieldInt :: "codecs \<Rightarrow> nat \<Rightarrow> knv_tag_t \<Rightarrow> u64 \<Rightarrow> world \<Rightarrow> (int \<times> world) option" where
  "SetFieldInt g this t val w = (if is_meta_tag t then SetMetaInt g this t val w else SetChildInt g this t val w)"

definition SetFieldSInt :: "codecs \<Rightarrow> nat \<Rightarrow> knv_tag_t \<Rightarrow> u64 \<Rightarrow> world \<Rightarrow> (int \<times> world) option" where
  "SetFieldSInt g this t val w = SetFieldInt g this t (pb_int2uint val) w"

definition SetFieldFloat :: "codecs \<Rightarrow> nat \<Rightarrow> knv_tag_t \<Rightarrow> u32 \<Rightarrow> world \<Rightarrow> (int \<times> world) option" where
  "SetFieldFloat g this t val w =
     (if is_meta_tag t then SetMeta g this t KNV_FIXED32 (Some (int_value (ucast val))) w
      else SetChild g this t KNV_FIXED32 (int_value (ucast val)) w)"

definition SetFieldDouble :: "codecs \<Rightarrow> nat \<Rightarrow> knv_tag_t \<Rightarrow> u64 \<Rightarrow> world \<Rightarrow> (int \<times> world) option" where
  "SetFieldDouble g this t val w =
     (if is_meta_tag t then SetMeta g this t KNV_FIXED64 (Some (int_value val)) w
      else SetChild g this t KNV_FIXED64 (int_value val) w)"

definition SetFieldStr :: "codecs \<Rightarrow> nat \<Rightarrow> knv_tag_t \<Rightarrow> u32 \<Rightarrow> ptr \<Rightarrow> world \<Rightarrow> (int \<times> world) option" where
  "SetFieldStr g this t len val w =
     (if is_meta_tag t then SetMetaStr g this t len val w else SetChildStr g this t len val w)"

definition AddFieldInt :: "codecs \<Rightarrow> nat \<Rightarrow> knv_tag_t \<Rightarrow> u64 \<Rightarrow> world \<Rightarrow> (int \<times> world) option" where
  "AddFieldInt g this t val w = (if is_meta_tag t then AddMetaInt g this t val w else AddChildInt g this t val w)"

definition AddFieldSInt :: "codecs \<Rightarrow> nat \<Rightarrow> knv_tag_t \<Rightarrow> u64 \<Rightarrow> world \<Rightarrow> (int \<times> world) option" where
  "AddFieldSInt g this t val w = AddFieldInt g this t (pb_int2uint val) w"

definition AddFieldStr :: "codecs \<Rightarrow> nat \<Rightarrow> knv_tag_t \<Rightarrow> u32 \<Rightarrow> ptr \<Rightarrow> world \<Rightarrow> (int \<times> world) option" where
  "AddFieldStr g this t len val w =
     (if is_meta_tag t then AddMetaStr g this t len val w else AddChildStr g this t (to_int32 (uint len)) val w)"

text \<open>
  The conversion of an unsigned integer to the bits of a floating-point number with \<open>m\<close> bits after the leading one, rounding
  to the nearest number and to the even one of two.  A carry out of the rounded number moves the exponent.
\<close>

fun top_bit :: "nat \<Rightarrow> nat" where
  "top_bit n = (if n \<le> 1 then 0 else Suc (top_bit (n div 2)))"

declare top_bit.simps [simp del]

definition round_shift :: "nat \<Rightarrow> nat \<Rightarrow> nat" where
  "round_shift s n =
     (let q = n div 2 ^ s; r = n mod 2 ^ s in if 2 * r > 2 ^ s \<or> (2 * r = 2 ^ s \<and> odd q) then q + 1 else q)"

definition float_bits :: "nat \<Rightarrow> nat \<Rightarrow> nat \<Rightarrow> nat" where
  "float_bits m bias n =
     (if n = 0 then 0
      else (let e = top_bit n in (e + bias) * 2 ^ m + ((if e \<le> m then n * 2 ^ (m - e) else round_shift (e - m) n) - 2 ^ m)))"

definition AddFieldFloat :: "codecs \<Rightarrow> nat \<Rightarrow> knv_tag_t \<Rightarrow> u64 \<Rightarrow> world \<Rightarrow> (int \<times> world) option" where
  "AddFieldFloat g this t val w =
     (let v = int_value (of_nat (float_bits 23 127 (unat val))) in
      if is_meta_tag t then AddMeta g this t KNV_FIXED32 (Some v) w else AddChild g this t KNV_FIXED32 (Some v) w)"

definition AddFieldDouble :: "codecs \<Rightarrow> nat \<Rightarrow> knv_tag_t \<Rightarrow> u64 \<Rightarrow> world \<Rightarrow> (int \<times> world) option" where
  "AddFieldDouble g this t val w =
     (let v = int_value (of_nat (float_bits 52 1023 (unat val))) in
      if is_meta_tag t then AddMeta g this t KNV_FIXED64 (Some v) w else AddChild g this t KNV_FIXED64 (Some v) w)"

definition RemoveField :: "codecs \<Rightarrow> nat \<Rightarrow> knv_tag_t \<Rightarrow> world \<Rightarrow> (int \<times> world) option" where
  "RemoveField g this t w = (if is_meta_tag t then RemoveMetaByTag g this t w else RemoveChildrenByTag g this t w)"

subsection \<open>Iteration over the fields\<close>

text \<open>The loop \<open>while(n && n->GetTag()!=_tag) n = n->GetSibling()\<close>.\<close>

fun seek_tag :: "nat \<Rightarrow> knv_tag_t \<Rightarrow> nat option \<Rightarrow> world \<Rightarrow> (nat option \<times> world) option" where
  "seek_tag k t None w = Some (None, w)"
| "seek_tag 0 t (Some n) w = None"
| "seek_tag (Suc k) t (Some n) w =
     (if n_tag (nd w n) = t then Some (Some n, w)
      else (let (n, w) = GetSibling n w in seek_tag k t n w))"

definition GetFirstField :: "codecs \<Rightarrow> nat \<Rightarrow> knv_tag_t \<Rightarrow> world \<Rightarrow> (nat option \<times> world) option" where
  "GetFirstField g this t w =
     (if t \<noteq> 0
      then
        do {
          (n, w) \<leftarrow> (if is_meta_tag t then GetFirstMeta g this w else GetFirstChild g this w);
          seek_tag (Suc (w_count w)) t n w
        }
      else
        do {
          (n, w) \<leftarrow> GetFirstMeta g this w;
          if n = None then GetFirstChild g this w else Some (n, w)
        })"

definition GetNextField :: "codecs \<Rightarrow> nat \<Rightarrow> nat option \<Rightarrow> knv_tag_t \<Rightarrow> world \<Rightarrow> (nat option \<times> world) option" where
  "GetNextField g this cur t w =
     (case cur of
        None \<Rightarrow> Some (None, w)
      | Some cur \<Rightarrow>
          if t \<noteq> 0 then (let (n, w) = GetSibling cur w in seek_tag (Suc (w_count w)) t n w)
          else if node_next w cur \<noteq> None then Some (node_next w cur, w)
          else if n_metalist (nd w this) \<noteq> [] \<and> last (n_metalist (nd w this)) = cur then GetFirstChild g this w
          else Some (None, w))"

text \<open>The loops of \<open>GetFields*\<close>: \<open>sel\<close> gives the value a field contributes, if any.\<close>

fun each_field ::
  "codecs \<Rightarrow> nat \<Rightarrow> knv_tag_t \<Rightarrow> (nat \<Rightarrow> world \<Rightarrow> ('a option \<times> world) option) \<Rightarrow> nat \<Rightarrow> nat option \<Rightarrow> 'a list \<Rightarrow> world
     \<Rightarrow> ('a list \<times> world) option" where
  "each_field g this t sel k None vals w = Some (vals, w)"
| "each_field g this t sel 0 (Some f) vals w = None"
| "each_field g this t sel (Suc k) (Some f) vals w =
     do {
       (v, w) \<leftarrow> sel f w;
       (f, w) \<leftarrow> GetNextField g this (Some f) t w;
       each_field g this t sel k f (case v of Some v \<Rightarrow> vals @ [v] | None \<Rightarrow> vals) w
     }"

definition get_fields ::
  "codecs \<Rightarrow> nat \<Rightarrow> knv_tag_t \<Rightarrow> (nat \<Rightarrow> world \<Rightarrow> ('a option \<times> world) option) \<Rightarrow> world \<Rightarrow> ('a list \<times> world) option" where
  "get_fields g this t sel w =
     do { (f, w) \<leftarrow> GetFirstField g this t w; each_field g this t sel (Suc (w_count w)) f [] w }"

text \<open>The values appended to the vector; the result of the source is their number.\<close>

definition GetFieldsInt :: "codecs \<Rightarrow> nat \<Rightarrow> knv_tag_t \<Rightarrow> world \<Rightarrow> (u64 list \<times> world) option" where
  "GetFieldsInt g this t w =
     get_fields g this t (\<lambda>f w. Some (if n_type (nd w f) \<noteq> KNV_STRING then Some (v_i64 (n_val (nd w f))) else None, w)) w"

definition GetFieldsSInt :: "codecs \<Rightarrow> nat \<Rightarrow> knv_tag_t \<Rightarrow> world \<Rightarrow> (u64 list \<times> world) option" where
  "GetFieldsSInt g this t w =
     get_fields g this t
       (\<lambda>f w. Some (if n_type (nd w f) = KNV_VARINT then Some (pb_uint2int (v_i64 (n_val (nd w f)))) else None, w)) w"

definition GetFieldsFloat :: "codecs \<Rightarrow> nat \<Rightarrow> knv_tag_t \<Rightarrow> world \<Rightarrow> (u32 list \<times> world) option" where
  "GetFieldsFloat g this t w =
     get_fields g this t (\<lambda>f w. Some (if n_type (nd w f) = KNV_FIXED32 then Some (v_i32 (n_val (nd w f))) else None, w)) w"

definition GetFieldsDouble :: "codecs \<Rightarrow> nat \<Rightarrow> knv_tag_t \<Rightarrow> world \<Rightarrow> (u64 list \<times> world) option" where
  "GetFieldsDouble g this t w =
     get_fields g this t (\<lambda>f w. Some (if n_type (nd w f) = KNV_FIXED64 then Some (v_i64 (n_val (nd w f))) else None, w)) w"

definition GetFieldsStr :: "codecs \<Rightarrow> nat \<Rightarrow> knv_tag_t \<Rightarrow> world \<Rightarrow> (byte list list \<times> world) option" where
  "GetFieldsStr g this t w =
     get_fields g this t
       (\<lambda>f w. if n_type (nd w f) = KNV_STRING then do { (s, w) \<leftarrow> GetStrVal g f w; Some (Some s, w) } else Some (None, w)) w"

definition GetFields :: "codecs \<Rightarrow> nat \<Rightarrow> knv_tag_t \<Rightarrow> world \<Rightarrow> (nat list \<times> world) option" where
  "GetFields g this t w = get_fields g this t (\<lambda>f w. Some (Some f, w)) w"

section \<open>Leaving a tree\<close>

definition Remove :: "codecs \<Rightarrow> nat \<Rightarrow> world \<Rightarrow> (int \<times> world) option" where
  "Remove g this w =
     (case n_parent (nd w this) of
        None \<Rightarrow> do { w \<leftarrow> KnvNode_Delete (Some this) w; Some (0, w) }
      | Some p \<Rightarrow>
          do {
            (r, w) \<leftarrow> RemoveChildByPos g p (Some this) None w;
            Some (if \<not> r then (-1, err this ''bug: this node not owned by parent'' w) else (0, w))
          })"

definition Detach :: "codecs \<Rightarrow> nat \<Rightarrow> world \<Rightarrow> (int \<times> world) option" where
  "Detach g this w =
     (case n_parent (nd w this) of
        None \<Rightarrow> Some (0, w)
      | Some p \<Rightarrow>
          do {
            (r, w) \<leftarrow> DetachChild g p (Some this) w;
            Some (if \<not> r then (-1, err this ''bug: this node not owned by parent'' w) else (0, w))
          })"

section \<open>Rounding\<close>

text \<open>
  The rounded quotient of \<open>float_bits\<close> is off by at most half a unit of the last place.  The bits of the number 1 given as an
  integer are converted as any other integer.
\<close>

lemma top_bit_bounds: "0 < n \<Longrightarrow> 2 ^ top_bit n \<le> n \<and> n < 2 ^ Suc (top_bit n)"
proof (induction n rule: top_bit.induct)
  case (1 n)
  show ?case
  proof (cases "n \<le> 1")
    case False
    then have "2 ^ top_bit (n div 2) \<le> n div 2" "n div 2 < 2 ^ Suc (top_bit (n div 2))" using 1 by simp_all
    then have "2 * 2 ^ top_bit (n div 2) \<le> n" "n < 2 * 2 ^ Suc (top_bit (n div 2))" by linarith+
    with False show ?thesis by (subst (1 2) top_bit.simps) simp
  qed (use 1(2) in \<open>simp add: top_bit.simps\<close>)
qed

lemma round_shift_nearest: "2 * \<bar>int (round_shift s n * 2 ^ s) - int n\<bar> \<le> 2 ^ s"
proof -
  define q r p where "q = n div 2 ^ s" and "r = n mod 2 ^ s" and "p = (2 ^ s :: nat)"
  have n: "n = q * p + r" unfolding q_def r_def p_def by (rule div_mult_mod_eq [symmetric])
  have "r < p" by (simp add: r_def p_def)
  have "round_shift s n = (if 2 * r > p \<or> (2 * r = p \<and> odd q) then q + 1 else q)" by (simp add: round_shift_def Let_def q_def r_def p_def)
  then have "2 * \<bar>int (round_shift s n * p) - int n\<bar> \<le> int p" using n \<open>r < p\<close> by (auto simp: algebra_simps)
  then show ?thesis by (simp add: p_def)
qed

lemma float_bits_examples: "float_bits 23 127 1 = 0x3F800000" "float_bits 23 127 16777217 = 0x4B800000" "float_bits 23 127 16777219 = 0x4B800002"
  "float_bits 23 127 0x3F800000 = 0x4E7E0000" "float_bits 52 1023 3 = 0x4008000000000000"
  by (simp_all add: float_bits_def top_bit.simps round_shift_def Let_def)

end
