(* ===== verification/Knv_Sub.thy ===== *)
theory Knv_Sub
  imports Knv_Api
begin

text \<open>
  Operations between two trees, \<open>src/src/knv_node.cc\<close>: \<open>GetSubTree\<close>, \<open>DeleteSubTree\<close>, \<open>UpdateSubTree\<close>,
  \<open>MakeRequestTree\<close> and \<open>Compare\<close>.  A request tree selects parts of a data tree; both are expanded as far as
  the walk needs.  The recursion of \<open>GetSubTree\<close>, \<open>DeleteSubTree\<close> and \<open>Compare\<close> follows the trees and is a partial
  function (\<open>None\<close>: the call does not return); that of \<open>UpdateSubTree\<close> and \<open>MakeRequestTree\<close> ends with
  \<open>max_level\<close>.  A loop over a list of siblings runs over the list as it is at the start of the loop: the
  bodies take out no node but the one at hand.
\<close>

section \<open>Loops with an early return\<close>

text \<open>The body returns \<open>Inl\<close> to leave the function with a result and \<open>Inr\<close> to go on with a new state.\<close>

fun loop_each :: "('a \<Rightarrow> 's \<Rightarrow> ('e + 's) option) \<Rightarrow> 'a list \<Rightarrow> 's \<Rightarrow> ('e + 's) option" where
  "loop_each f [] s = Some (Inr s)"
| "loop_each f (x # xs) s =
     do {
       r \<leftarrow> f x s;
       case r of Inl e \<Rightarrow> Some (Inl e) | Inr s \<Rightarrow> loop_each f xs s
     }"

text \<open>The same along the links of a hash chain, which the body may change; \<open>k\<close> bounds the length of the chain.\<close>

fun loop_chain :: "('s \<Rightarrow> links) \<Rightarrow> (nat \<Rightarrow> 's \<Rightarrow> ('e + 's) option) \<Rightarrow> nat \<Rightarrow> nat option \<Rightarrow> 's \<Rightarrow> ('e + 's) option" where
  "loop_chain nx f k None s = Some (Inr s)"
| "loop_chain nx f 0 (Some c) s = None"
| "loop_chain nx f (Suc k) (Some c) s =
     do {
       r \<leftarrow> f c s;
       case r of Inl e \<Rightarrow> Some (Inl e) | Inr s \<Rightarrow> loop_chain nx f k (nx s c) s
     }"

lemma mono_const: "mono_option (\<lambda>F. c)"
  by (simp add: monotone_def option.leq_refl)

lemma loop_each_mono [partial_function_mono]:
  assumes "\<And>x s. mono_option (\<lambda>F. B F x s)"
  shows "mono_option (\<lambda>F. loop_each (B F) xs s)"
proof (induction xs arbitrary: s)
  case (Cons x xs)
  have "mono_option (\<lambda>F. case r of Inl e \<Rightarrow> Some (Inl e) | Inr s \<Rightarrow> loop_each (B F) xs s)" for r
    by (cases r) (simp_all add: mono_const Cons)
  then show ?case unfolding loop_each.simps by (intro bind_mono assms)
qed (simp add: mono_const)

lemma loop_chain_mono [partial_function_mono]:
  assumes "\<And>x s. mono_option (\<lambda>F. B F x s)"
  shows "mono_option (\<lambda>F. loop_chain nx (B F) k c s)"
proof (induction k arbitrary: c s)
  case 0
  show ?case by (cases c) (simp_all add: mono_const)
next
  case (Suc k)
  have "mono_option (\<lambda>F. case r of Inl e \<Rightarrow> Some (Inl e) | Inr s \<Rightarrow> loop_chain nx (B F) k (nx s p) s)" for r p
    by (cases r) (simp_all add: mono_const Suc)
  then show ?case by (cases c) (simp_all only: loop_chain.simps mono_const bind_mono [OF assms])
qed

section \<open>GetSubTree\<close>

text \<open>The two result parameters \<open>out\<close> and \<open>empty\<close> (here \<open>emp\<close>), with the state.\<close>

type_synonym sub_state = "nat option \<times> nat option \<times> world"

type_synonym sub_result = "int \<times> sub_state"

text \<open>The common end of the failing branches of the macros.\<close>

definition sub_fail :: "int \<Rightarrow> nat \<Rightarrow> nat \<Rightarrow> sub_state \<Rightarrow> sub_result option" where
  "sub_fail ret this from s =
     (let (out, emp, w) = s in
      do {
        w \<leftarrow> KnvNode_Delete out (copy_err this from w);
        w \<leftarrow> KnvNode_Delete emp w;
        Some (ret, None, None, w)
      })"

text \<open>\<open>if(pt==NULL) DUPLICATE_NODE_META(pt, from)\<close>: the tree the next child goes to.\<close>

definition DUPLICATE_NODE_META ::
  "codecs \<Rightarrow> nat \<Rightarrow> nat option \<Rightarrow> nat \<Rightarrow> sub_state \<Rightarrow> (sub_result + nat \<times> world) option" where
  "DUPLICATE_NODE_META g this pt from s =
     (let (out, emp, w) = s in
      case pt of
        Some p \<Rightarrow> Some (Inr (p, w))
      | None \<Rightarrow>
          do {
            (p, w) \<leftarrow> DupEmptyNode g from w;
            case p of
              Some p \<Rightarrow> Some (Inr (p, w))
            | None \<Rightarrow> do { e \<leftarrow> sub_fail (-1) this from (out, emp, w); Some (Inl e) }
          })"

text \<open>
  \<open>GET_SUBDATA_SUB_TREE\<close>; \<open>F\<close> is the recursive call.
\<close>

definition GET_SUBDATA_SUB_TREE ::
  "(nat \<Rightarrow> nat \<Rightarrow> world \<Rightarrow> sub_result option) \<Rightarrow> codecs \<Rightarrow> bool \<Rightarrow> nat \<Rightarrow> nat \<Rightarrow> nat \<Rightarrow> nat \<Rightarrow> sub_state
     \<Rightarrow> (sub_result + sub_state) option" where
  "GET_SUBDATA_SUB_TREE F g no_empty this req_tree sub_req sub_data s =
     (let (out, emp, w) = s in
      do {
        (ret, o1, e1, w) \<leftarrow> F sub_data sub_req w;
        if ret \<noteq> 0 then do { e \<leftarrow> sub_fail (-2) this sub_data (out, emp, w); Some (Inl e) }
        else
          do {
            r \<leftarrow> (case o1 of
                   None \<Rightarrow> Some (Inr (out, emp, w))
                 | Some c \<Rightarrow>
                     do {
                       r \<leftarrow> DUPLICATE_NODE_META g this out this (out, emp, w);
                       case r of
                         Inl e \<Rightarrow> Some (Inl e)
                       | Inr (p, w) \<Rightarrow>
                           do { (_, w) \<leftarrow> InnerInsertChild g p c True False False True w; Some (Inr (Some p, emp, w)) }
                     });
            case r of
              Inl e \<Rightarrow> Some (Inl e)
            | Inr (out, emp, w) \<Rightarrow>
                (case e1 of
                   None \<Rightarrow> Some (Inr (out, emp, w))
                 | Some c \<Rightarrow>
                     if no_empty then Some (Inr (out, emp, w))
                     else
                       do {
                         r \<leftarrow> DUPLICATE_NODE_META g this emp req_tree (out, emp, w);
                         case r of
                           Inl e \<Rightarrow> Some (Inl e)
                         | Inr (p, w) \<Rightarrow>
                             do { (_, w) \<leftarrow> InnerInsertChild g p c True False False True w; Some (Inr (out, Some p, w)) }
                       })
          }
      })"

text \<open>One child that has the tag asked for; the flag is \<open>matched\<close>.\<close>

definition get_match ::
  "(nat \<Rightarrow> nat \<Rightarrow> world \<Rightarrow> sub_result option) \<Rightarrow> codecs \<Rightarrow> bool \<Rightarrow> nat \<Rightarrow> nat \<Rightarrow> nat \<Rightarrow> nat \<Rightarrow> bool \<times> sub_state
     \<Rightarrow> (sub_result + bool \<times> sub_state) option" where
  "get_match F g no_empty this req_tree sub_req sub_data s =
     (let (matched, out, emp, w) = s in
      if n_tag (nd w sub_data) = n_tag (nd w sub_req)
      then
        do {
          r \<leftarrow> GET_SUBDATA_SUB_TREE F g no_empty this req_tree sub_req sub_data (out, emp, w);
          Some (case r of Inl e \<Rightarrow> Inl e | Inr s \<Rightarrow> Inr (True, s))
        }
      else Some (Inr s))"

text \<open>The body of the loop over the children of the request tree.\<close>

definition get_child ::
  "(nat \<Rightarrow> nat \<Rightarrow> world \<Rightarrow> sub_result option) \<Rightarrow> codecs \<Rightarrow> bool \<Rightarrow> nat \<Rightarrow> nat \<Rightarrow> nat \<Rightarrow> sub_state
     \<Rightarrow> (sub_result + sub_state) option" where
  "get_child F g no_empty this req_tree sub_req s =
     (let (out, emp, w) = s; k = n_key (nd w sub_req); t = n_tag (nd w sub_req) in
      do {
        r \<leftarrow> (if k_len k \<noteq> 0
              then
                do {
                  c \<leftarrow> node_ht_get this t (key_bytes (w_heap w) k) w;
                  case c of
                    None \<Rightarrow> Some (Inr (False, s))
                  | Some sub_data \<Rightarrow>
                      do {
                        r \<leftarrow> GET_SUBDATA_SUB_TREE F g no_empty this req_tree sub_req sub_data s;
                        Some (case r of Inl e \<Rightarrow> Inl e | Inr s \<Rightarrow> Inr (True, s))
                      }
                }
              else if \<not> n_child_has_key (nd w this)
              then
                do {
                  c \<leftarrow> node_ht_get this t [] w;
                  loop_chain (\<lambda>(_, _, _, w). w_ht_next w) (get_match F g no_empty this req_tree sub_req)
                    (Suc (w_count w)) c (False, s)
                }
              else loop_each (get_match F g no_empty this req_tree sub_req) (n_childlist (nd w this)) (False, s));
        case r of
          Inl e \<Rightarrow> Some (Inl e)
        | Inr (matched, out, emp, w) \<Rightarrow>
            if matched \<or> no_empty then Some (Inr (out, emp, w))
            else
              do {
                r \<leftarrow> DUPLICATE_NODE_META g this emp req_tree (out, emp, w);
                case r of
                  Inl e \<Rightarrow> Some (Inl e)
                | Inr (p, w) \<Rightarrow>
                    do {
                      (ret, w) \<leftarrow> InnerInsertChild g p sub_req False False False True w;
                      if ret \<noteq> 0 then do { e \<leftarrow> sub_fail (-1) this p (out, Some p, w); Some (Inl e) }
                      else Some (Inr (out, Some p, w))
                    }
              }
      })"

text \<open>The recursive call may be any function that grows with its definition.\<close>

lemma GET_SUBDATA_SUB_TREE_mono [partial_function_mono]:
  assumes "\<And>a b w. mono_option (\<lambda>F. R F a b w)"
  shows "mono_option (\<lambda>F. GET_SUBDATA_SUB_TREE (R F) g no_empty this req_tree sub_req sub_data s)"
  unfolding GET_SUBDATA_SUB_TREE_def Let_def case_prod_beta by (intro bind_mono assms mono_const)

lemma get_match_mono [partial_function_mono]:
  assumes "\<And>a b w. mono_option (\<lambda>F. R F a b w)"
  shows "mono_option (\<lambda>F. get_match (R F) g no_empty this req_tree sub_req sub_data s)"
  unfolding get_match_def Let_def case_prod_beta
  by (intro if_mono bind_mono mono_const GET_SUBDATA_SUB_TREE_mono assms)

lemma get_child_mono [partial_function_mono]:
  assumes "\<And>a b w. mono_option (\<lambda>F. R F a b w)"
  shows "mono_option (\<lambda>F. get_child (R F) g no_empty this req_tree sub_req s)"
proof -
  have "mono_option (\<lambda>F. case c of None \<Rightarrow> Some (Inr (False, s))
      | Some d \<Rightarrow> do { r \<leftarrow> GET_SUBDATA_SUB_TREE (R F) g no_empty this req_tree sub_req d s;
          Some (case r of Inl e \<Rightarrow> Inl e | Inr s \<Rightarrow> Inr (True, s)) })" for c
    by (cases c) (simp_all only: option.case mono_const bind_mono [OF GET_SUBDATA_SUB_TREE_mono [OF assms]])
  then show ?thesis
    unfolding get_child_def Let_def case_prod_beta prod.collapse
    by (intro bind_mono if_mono mono_const loop_each_mono loop_chain_mono get_match_mono assms)
qed

text \<open>
  The body of the loop over the metas of the request tree.  \<open>metas[]\<close> of the data is read without a test of
  \<open>metalist\<close>.
\<close>

definition get_meta :: "codecs \<Rightarrow> nat \<Rightarrow> nat \<Rightarrow> sub_state \<Rightarrow> (sub_result + sub_state) option" where
  "get_meta g this m s =
     (let (out, emp, w) = s; x = nd w m in
      if n_tag x \<noteq> 1 \<and> n_type x = KNV_VARINT \<and> v_i64 (n_val x) \<noteq> 0
      then
        (case n_metas (nd w this) (unat (n_tag x)) of
           None \<Rightarrow> Some (Inr s)
         | Some md \<Rightarrow>
             do {
               r \<leftarrow> DUPLICATE_NODE_META g this out this s;
               case r of
                 Inl e \<Rightarrow> Some (Inl e)
               | Inr (p, w) \<Rightarrow>
                   do {
                     (l, w) \<leftarrow> GetValue g md w;
                     if l = None
                     then do { w \<leftarrow> KnvNode_Delete (Some p) w; Some (Inl (-4, Some p, emp, copy_err this md w)) }
                     else
                       do {
                         let y = nd w md;
                         (_, w) \<leftarrow> SetMeta5 g p (n_tag y) (n_type y) (Some (n_val y)) False False w;
                         Some (Inr (Some p, emp, w))
                       }
                   }
             })
      else Some (Inr s))"

text \<open>The size of a tree that was built without updating it.\<close>

definition close_tree :: "codecs \<Rightarrow> nat option \<Rightarrow> world \<Rightarrow> world" where
  "close_tree g t w =
     (case t of
        None \<Rightarrow> w
      | Some n \<Rightarrow>
          upd n (\<lambda>x. x\<lparr>n_eval_sz := knv_eval_field_length g (n_tag x) KNV_NODE (str_value (word_of_int (n_eval_val_sz x)) NULL)\<rparr>) w)"

text \<open>A copy that shares the bytes of \<open>from\<close> and, when \<open>from\<close> has a key, the bytes of the key.\<close>

definition dup_keyed :: "codecs \<Rightarrow> nat \<Rightarrow> world \<Rightarrow> (nat option \<times> world) option" where
  "dup_keyed g from w =
     do {
       (c, w) \<leftarrow> InnerDuplicate g from False True w;
       case c of
         None \<Rightarrow> Some (None, w)
       | Some c \<Rightarrow>
           (let k = n_key (nd w from) in
            Some (Some c, if k_len k \<noteq> 0 then upd c (n_key_update (\<lambda>j. j\<lparr>k_len := k_len k, k_val := k_val k\<rparr>)) w else w))
     }"

partial_function (option) InnerGetSubTree :: "codecs \<Rightarrow> bool \<Rightarrow> nat \<Rightarrow> nat \<Rightarrow> world \<Rightarrow> sub_result option" where
  "InnerGetSubTree g no_empty this req_tree w =
     (if n_type (nd w req_tree) \<noteq> KNV_STRING \<and> v_i64 (n_val (nd w req_tree)) = 0 then Some (0, None, None, w)
      else
        do {
          (ret, w) \<leftarrow> InnerExpand g req_tree False w;
          if ret \<noteq> 0 \<or> n_child_num (nd w req_tree) \<le> 0
          then do { (out, w) \<leftarrow> dup_keyed g this w; Some (if out = None then -2 else 0, out, None, w) }
          else
            do {
              (ret, w) \<leftarrow> InnerExpand g this (\<not> n_child_has_key (nd w req_tree)) w;
              if ret \<noteq> 0 \<or> n_child_num (nd w this) \<le> 0
              then
                (if no_empty then Some (0, None, None, w)
                 else
                   do {
                     (emp, w) \<leftarrow> dup_keyed g req_tree w;
                     Some (if emp = None then (-3, None, None, copy_err this req_tree w) else (0, None, emp, w))
                   })
              else
                do {
                  r \<leftarrow> loop_each (get_meta g this) (n_metalist (nd w req_tree)) (None, None, w);
                  case r of
                    Inl e \<Rightarrow> Some e
                  | Inr s \<Rightarrow>
                      do {
                        r \<leftarrow> loop_each (get_child (InnerGetSubTree g no_empty) g no_empty this req_tree)
                               (n_childlist (nd (snd (snd s)) req_tree)) s;
                        case r of
                          Inl e \<Rightarrow> Some e
                        | Inr (out, emp, w) \<Rightarrow> Some (0, out, emp, close_tree g out (close_tree g emp w))
                      }
                }
            }
        })"


text \<open>The public call; \<open>out\<close> and \<open>emp\<close> are the values of the result parameters before it.\<close>

definition GetSubTree :: "codecs \<Rightarrow> nat \<Rightarrow> nat option \<Rightarrow> bool \<Rightarrow> sub_state \<Rightarrow> sub_result option" where
  "GetSubTree g this req_tree no_empty s =
     (let (out, emp, w) = s in
      case req_tree of
        None \<Rightarrow> Some (-1, out, emp, err this ''Bad argument'' w)
      | Some r \<Rightarrow>
          if n_tag (nd w r) = 0 then Some (-1, out, emp, err this ''Bad argument'' w)
          else if n_tag (nd w this) \<noteq> n_tag (nd w r) \<or>
            (k_len (n_key (nd w r)) \<noteq> 0 \<and> \<not> key_eq (w_heap w) (n_key (nd w this)) (n_key (nd w r)))
          then Some (0, None, None, w)
          else InnerGetSubTree g no_empty this r w)"

section \<open>DeleteSubTree\<close>

text \<open>The result parameter \<open>match_req_tree\<close>, with the state.\<close>

type_synonym del_state = "nat option \<times> world"

type_synonym del_result = "int \<times> del_state"

text \<open>\<open>if(match_req_tree==NULL) match_req_tree = NewTree(...)\<close>\<close>

definition match_tree :: "codecs \<Rightarrow> nat \<Rightarrow> del_state \<Rightarrow> del_state option" where
  "match_tree g req_tree s =
     (let (m, w) = s in
      case m of Some p \<Rightarrow> Some (Some p, w) | None \<Rightarrow> NewTree g (n_tag (nd w req_tree)) (Some (n_key (nd w req_tree))) w)"

text \<open>\<open>DELETE_SUBDATA_SUB_TREE\<close>; \<open>F\<close> is the recursive call.\<close>

definition DELETE_SUBDATA_SUB_TREE ::
  "(nat \<Rightarrow> nat \<Rightarrow> world \<Rightarrow> del_result option) \<Rightarrow> codecs \<Rightarrow> nat \<Rightarrow> nat \<Rightarrow> nat \<Rightarrow> nat \<Rightarrow> del_state \<Rightarrow> del_result option" where
  "DELETE_SUBDATA_SUB_TREE F g this req_tree sub_req sub_data s =
     (let (m, w) = s in
      do {
        (del_ret, sub_match, w) \<leftarrow> F sub_data sub_req w;
        if del_ret < 0
        then do { w \<leftarrow> KnvNode_Delete m (copy_err this sub_data w); Some (-4, None, w) }
        else
          (case sub_match of
             None \<Rightarrow> Some (del_ret, m, w)
           | Some c \<Rightarrow>
               do {
                 (m, w) \<leftarrow> match_tree g req_tree (m, w);
                 case m of
                   None \<Rightarrow> Some (-5, None, err this ''Out of memory'' w)
                 | Some p \<Rightarrow> do { (_, w) \<leftarrow> InnerInsertChild g p c True False True True w; Some (del_ret, Some p, w) }
               })
      })"

text \<open>\<open>ret==1 || sub_data->GetChildNum()<=0\<close>: the child is taken out when nothing is left of it.\<close>

definition drop_child :: "codecs \<Rightarrow> nat \<Rightarrow> nat \<Rightarrow> HtPos option \<Rightarrow> int \<Rightarrow> world \<Rightarrow> world option" where
  "drop_child g this sub_data pos ret w =
     do {
       (num, w) \<leftarrow> (if ret = 1 then Some (0, w) else GetChildNum g sub_data w);
       if num \<le> 0 then do { (_, w) \<leftarrow> RemoveChildByPos g this (Some sub_data) pos w; Some w } else Some w
     }"

definition del_one ::
  "(nat \<Rightarrow> nat \<Rightarrow> world \<Rightarrow> del_result option) \<Rightarrow> codecs \<Rightarrow> nat \<Rightarrow> nat \<Rightarrow> nat \<Rightarrow> nat \<Rightarrow> HtPos option \<Rightarrow> del_state
     \<Rightarrow> (del_result + del_state) option" where
  "del_one F g this req_tree sub_req sub_data pos s =
     do {
       (ret, m, w) \<leftarrow> DELETE_SUBDATA_SUB_TREE F g this req_tree sub_req sub_data s;
       if ret < 0 then Some (Inl (ret, m, w))
       else do { w \<leftarrow> drop_child g this sub_data pos ret w; Some (Inr (m, w)) }
     }"

text \<open>A request for all children with a tag.\<close>

definition del_by_tag :: "codecs \<Rightarrow> nat \<Rightarrow> nat \<Rightarrow> nat \<Rightarrow> del_state \<Rightarrow> (del_result + del_state) option" where
  "del_by_tag g this req_tree sub_req s =
     (let (m, w) = s; x = nd w sub_req in
      if n_type x = KNV_NODE \<or> (n_type x = KNV_VARINT \<and> v_i64 (n_val x) \<noteq> 0)
      then
        do {
          (_, w) \<leftarrow> RemoveChildrenByTag g this (n_tag x) w;
          (m, w) \<leftarrow> match_tree g req_tree (m, w);
          case m of
            None \<Rightarrow> Some (Inl (-5, None, err this ''Out of memory'' w))
          | Some p \<Rightarrow>
              do {
                (ret, w) \<leftarrow> InnerInsertChild g p sub_req False False True True w;
                if ret \<noteq> 0
                then do { w \<leftarrow> KnvNode_Delete (Some p) (copy_err this p w); Some (Inl (-6, None, w)) }
                else Some (Inr (Some p, w))
              }
        }
      else Some (Inr s))"

text \<open>The body of the loop over the children of the request tree.\<close>

definition del_child ::
  "(nat \<Rightarrow> nat \<Rightarrow> world \<Rightarrow> del_result option) \<Rightarrow> codecs \<Rightarrow> nat \<Rightarrow> nat \<Rightarrow> nat \<Rightarrow> del_state \<Rightarrow> (del_result + del_state) option" where
  "del_child F g this req_tree sub_req s =
     (let (m, w) = s; k = n_key (nd w sub_req) in
      if k_len k \<noteq> 0
      then
        do {
          c \<leftarrow> node_ht_get_pos this (n_tag (nd w sub_req)) (key_bytes (w_heap w) k) w;
          case c of
            None \<Rightarrow> Some (Inr s)
          | Some (sub_data, pos) \<Rightarrow> del_one F g this req_tree sub_req sub_data (Some pos) s
        }
      else
        do {
          (ret, w) \<leftarrow> InnerExpand g sub_req False w;
          if ret \<noteq> 0 \<or> n_child_num (nd w sub_req) \<le> 0 then del_by_tag g this req_tree sub_req (m, w)
          else
            loop_each (\<lambda>sub_data s.
                if n_tag (nd (snd s) sub_data) = n_tag (nd (snd s) sub_req)
                then del_one F g this req_tree sub_req sub_data None s else Some (Inr s))
              (n_childlist (nd w this)) (m, w)
        })"

lemma del_one_mono [partial_function_mono]:
  assumes "\<And>a b w. mono_option (\<lambda>F. R F a b w)"
  shows "mono_option (\<lambda>F. del_one (R F) g this req_tree sub_req sub_data pos s)"
  unfolding del_one_def DELETE_SUBDATA_SUB_TREE_def Let_def case_prod_beta by (intro bind_mono assms mono_const)

lemma del_child_mono [partial_function_mono]:
  assumes "\<And>a b w. mono_option (\<lambda>F. R F a b w)"
  shows "mono_option (\<lambda>F. del_child (R F) g this req_tree sub_req s)"
proof -
  have "mono_option (\<lambda>F. case c of None \<Rightarrow> Some (Inr s)
      | Some x \<Rightarrow> del_one (R F) g this req_tree sub_req (fst x) (Some (snd x)) s)" for c
    by (cases c) (simp_all only: option.case mono_const del_one_mono [OF assms])
  then show ?thesis
    unfolding del_child_def Let_def case_prod_beta
    by (intro bind_mono if_mono mono_const loop_each_mono del_one_mono assms)
qed

text \<open>\<open>DeleteSubTree\<close> for an argument that is not null; the parameter \<open>depth\<close> is not used by the code.\<close>

partial_function (option) DeleteSubTree_at :: "codecs \<Rightarrow> nat \<Rightarrow> nat \<Rightarrow> world \<Rightarrow> del_result option" where
  "DeleteSubTree_at g this req_tree w =
     (if n_tag (nd w req_tree) = 0 then Some (-1, None, err this ''bad argument'' w)
      else if n_tag (nd w this) \<noteq> n_tag (nd w req_tree) \<or>
        (k_len (n_key (nd w req_tree)) \<noteq> 0 \<and> \<not> key_eq (w_heap w) (n_key (nd w this)) (n_key (nd w req_tree)))
      then Some (0, None, w)
      else
        do {
          (ret, w) \<leftarrow> InnerExpand g req_tree False w;
          if ret \<noteq> 0 \<or> n_child_num (nd w req_tree) \<le> 0
          then
            do {
              let x = nd w req_tree;
              (m, w) \<leftarrow> (if k_len (n_key x) \<noteq> 0 then NewTree g (n_tag x) (Some (n_key x)) w
                        else New g (n_tag x) KNV_VARINT KNV_NODE None (Some (int_value 1)) True w);
              Some (1, m, w)
            }
          else
            do {
              (ret, w) \<leftarrow> InnerExpand g this (\<not> n_child_has_key (nd w req_tree)) w;
              if ret \<noteq> 0 \<or> n_child_num (nd w this) \<le> 0 then Some (0, None, w)
              else
                do {
                  r \<leftarrow> loop_each (del_child (DeleteSubTree_at g) g this req_tree) (n_childlist (nd w req_tree)) (None, w);
                  case r of
                    Inl e \<Rightarrow> Some e
                  | Inr (m, w) \<Rightarrow> do { (num, w) \<leftarrow> GetChildNum g this w; Some (if num \<le> 0 then 1 else 0, m, w) }
                }
            }
        })"

definition DeleteSubTree :: "codecs \<Rightarrow> nat \<Rightarrow> nat option \<Rightarrow> del_state \<Rightarrow> del_result option" where
  "DeleteSubTree g this req_tree s =
     (let (m, w) = s in
      case req_tree of
        None \<Rightarrow> Some (-1, m, err this ''bad argument'' w)
      | Some r \<Rightarrow>
          if n_tag (nd w r) = 0 then Some (-1, m, err this ''bad argument'' w) else DeleteSubTree_at g this r w)"


section \<open>UpdateSubTree\<close>

text \<open>The value of the whole node is replaced.\<close>

definition update_leaf :: "codecs \<Rightarrow> nat \<Rightarrow> nat \<Rightarrow> world \<Rightarrow> (int \<times> world) option" where
  "update_leaf g this update_tree w =
     do {
       (l, w) \<leftarrow> GetValue g update_tree w;
       if l = None then Some (-2, copy_err this update_tree w)
       else
         do {
           (ret, w) \<leftarrow> SetValue g this (n_type (nd w update_tree)) (n_val (nd w update_tree)) True w;
           Some (if ret \<noteq> 0 then -3 else 0, w)
         }
     }"

definition update_meta :: "codecs \<Rightarrow> nat \<Rightarrow> nat \<Rightarrow> world \<Rightarrow> (int \<times> world + world) option" where
  "update_meta g this m w =
     (let x = nd w m in
      if n_tag x > 1
      then
        do {
          (ret, w) \<leftarrow> SetMeta5 g this (n_tag x) (n_type x) (Some (n_val x)) False True w;
          Some (if ret < 0 then Inl (-6, w) else Inr w)
        }
      else Some (Inr w))"

text \<open>
  On the last level the tags of the update replace those of the data.  The tags are collected in a set of
  the standard library, whose order of iteration is not specified: \<open>ord\<close> gives it, for the distinct tags in
  the order of their insertion.
\<close>

definition remove_tags :: "codecs \<Rightarrow> (knv_tag_t list \<Rightarrow> knv_tag_t list) \<Rightarrow> nat \<Rightarrow> nat \<Rightarrow> world \<Rightarrow> world option" where
  "remove_tags g ord this update_tree w =
     do {
       r \<leftarrow> loop_each (\<lambda>t w. do { (_, w) \<leftarrow> RemoveChildrenByTag g this t w; Some (Inr w) })
              (ord (remdups (map (\<lambda>c. n_tag (nd w c)) (n_childlist (nd w update_tree))))) w;
       case r of Inl e \<Rightarrow> Some e | Inr w \<Rightarrow> Some w
     }"

text \<open>The body of the loop over the children; \<open>deeper\<close> is \<open>max_level>=0\<close> and \<open>F\<close> the recursive call.\<close>

definition update_child ::
  "(nat \<Rightarrow> nat \<Rightarrow> world \<Rightarrow> (int \<times> world) option) \<Rightarrow> bool \<Rightarrow> codecs \<Rightarrow> nat \<Rightarrow> nat \<Rightarrow> world \<Rightarrow> (int \<times> world + world) option" where
  "update_child F deeper g this sub_update w =
     do {
       c \<leftarrow> (if deeper
             then node_ht_get this (n_tag (nd w sub_update)) (key_bytes (w_heap w) (n_key (nd w sub_update))) w else Some None);
       case c of
         Some sub_data \<Rightarrow>
           do {
             (ret, w) \<leftarrow> F sub_data sub_update w;
             Some (if ret \<noteq> 0 then Inl (-4, copy_err this sub_data w) else Inr w)
           }
       | None \<Rightarrow>
           do {
             (ret, w) \<leftarrow> InnerInsertChild g this sub_update False False True True w;
             Some (if ret \<noteq> 0 then Inl (-5, w) else Inr w)
           }
     }"

definition other_node :: "world \<Rightarrow> nat \<Rightarrow> nat \<Rightarrow> bool" where
  "other_node w this n \<longleftrightarrow> n_tag (nd w this) \<noteq> n_tag (nd w n) \<or> \<not> key_eq (w_heap w) (n_key (nd w this)) (n_key (nd w n))"

text \<open>The number is \<open>max_level+1\<close>, 0 for every negative level.\<close>

primrec UpdateSubTree_n ::
  "codecs \<Rightarrow> (knv_tag_t list \<Rightarrow> knv_tag_t list) \<Rightarrow> nat \<Rightarrow> nat \<Rightarrow> nat \<Rightarrow> world \<Rightarrow> (int \<times> world) option" where
  "UpdateSubTree_n g ord 0 this update_tree w =
     (if n_tag (nd w update_tree) = 0 then Some (-1, err this ''bad argument'' w)
      else if other_node w this update_tree then Some (0, w)
      else update_leaf g this update_tree w)"
| "UpdateSubTree_n g ord (Suc k) this update_tree w =
     (if n_tag (nd w update_tree) = 0 then Some (-1, err this ''bad argument'' w)
      else if other_node w this update_tree then Some (0, w)
      else
        do {
          w \<leftarrow> (if k = 0
                then do { (_, w) \<leftarrow> InnerExpand g this True w; (_, w) \<leftarrow> InnerExpand g update_tree True w; Some w }
                else Some w);
          (num, w) \<leftarrow> GetChildNum g update_tree w;
          (num, w) \<leftarrow> (if num \<le> 0 then Some (num, w) else GetChildNum g this w);
          if num \<le> 0 then update_leaf g this update_tree w
          else
            do {
              r \<leftarrow> loop_each (update_meta g this) (n_metalist (nd w update_tree)) w;
              case r of
                Inl e \<Rightarrow> Some e
              | Inr w \<Rightarrow>
                  do {
                    w \<leftarrow> (if k = 0 then remove_tags g ord this update_tree w else Some w);
                    r \<leftarrow> loop_each (update_child (UpdateSubTree_n g ord k) (k > 0) g this) (n_childlist (nd w update_tree)) w;
                    case r of Inl e \<Rightarrow> Some e | Inr w \<Rightarrow> Some (0, w)
                  }
            }
        })"

definition UpdateSubTree ::
  "codecs \<Rightarrow> (knv_tag_t list \<Rightarrow> knv_tag_t list) \<Rightarrow> nat \<Rightarrow> nat option \<Rightarrow> int \<Rightarrow> world \<Rightarrow> (int \<times> world) option" where
  "UpdateSubTree g ord this update_tree max_level w =
     (case update_tree of
        None \<Rightarrow> Some (-1, err this ''bad argument'' w)
      | Some u \<Rightarrow> UpdateSubTree_n g ord (nat (max_level + 1)) this u w)"

section \<open>MakeRequestTree\<close>

text \<open>A leaf becomes the integer 1, a node with metas only an empty tree with its key.\<close>

definition request_leaf :: "codecs \<Rightarrow> nat \<Rightarrow> world \<Rightarrow> (nat option \<times> world) option" where
  "request_leaf g this w =
     (let x = nd w this in
      do {
        (new_tr, w) \<leftarrow> (if n_child_num x < 0 \<or> n_metalist x = []
                       then New g (n_tag x) KNV_VARINT KNV_DEFAULT_TYPE None (Some (int_value 1)) False w
                       else NewTree g (n_tag x) (Some (n_key x)) w);
        Some (new_tr, if new_tr = None then set_err this (w_errorstr w) w else w)
      })"

definition request_child ::
  "(nat \<Rightarrow> world \<Rightarrow> (nat option \<times> world) option) \<Rightarrow> codecs \<Rightarrow> nat \<Rightarrow> nat \<Rightarrow> del_state \<Rightarrow> (world + del_state) option" where
  "request_child F g this sub_tree s =
     (let (new_tr, w) = s in
      do {
        (new_tr, w) \<leftarrow> (case new_tr of
                          None \<Rightarrow> NewTree g (n_tag (nd w this)) (Some (n_key (nd w this))) w
                        | Some t \<Rightarrow> Some (Some t, w));
        case new_tr of
          None \<Rightarrow> Some (Inl (err this ''Out of memory'' w))
        | Some t \<Rightarrow>
            do {
              (sub_req, w) \<leftarrow> F sub_tree w;
              case sub_req of
                None \<Rightarrow> Some (Inl (copy_err this sub_tree w))
              | Some c \<Rightarrow> do { (_, w) \<leftarrow> InnerInsertChild g t c True False True True w; Some (Inr (Some t, w)) }
            }
      })"

text \<open>The number is \<open>max_level+1\<close>, 0 for every negative level.\<close>

primrec MakeRequestTree_n :: "codecs \<Rightarrow> nat \<Rightarrow> nat \<Rightarrow> world \<Rightarrow> (nat option \<times> world) option" where
  "MakeRequestTree_n g 0 this w =
     (if \<not> IsValid w this then Some (None, err this ''Bad data tree'' w) else request_leaf g this w)"
| "MakeRequestTree_n g (Suc k) this w =
     (if \<not> IsValid w this then Some (None, err this ''Bad data tree'' w)
      else
        do {
          (num, w) \<leftarrow> GetChildNum g this w;
          if num \<le> 0 then request_leaf g this w
          else
            do {
              r \<leftarrow> loop_each (request_child (MakeRequestTree_n g k) g this) (n_childlist (nd w this)) (None, w);
              case r of Inl w \<Rightarrow> Some (None, w) | Inr s \<Rightarrow> Some s
            }
        })"

definition MakeRequestTree :: "codecs \<Rightarrow> nat \<Rightarrow> int \<Rightarrow> world \<Rightarrow> (nat option \<times> world) option" where
  "MakeRequestTree g this max_level w = MakeRequestTree_n g (nat (max_level + 1)) this w"

section \<open>Compare\<close>

text \<open>The result, \<open>nRetCode\<close> and the state.\<close>

type_synonym cmp_result = "nat option \<times> int \<times> world"

text \<open>
  A child or a difference is to be added to \<open>pstRetNode\<close>.  Where the tree does not exist yet it is made, and
  then the function returns a null pointer, with \<open>nRetCode\<close> as it is unless memory was short.
\<close>

definition cmp_add ::
  "codecs \<Rightarrow> nat \<Rightarrow> nat \<Rightarrow> bool \<Rightarrow> bool \<Rightarrow> del_state \<Rightarrow> (cmp_result + del_state) option" where
  "cmp_add g this c take_ownership own_buf s =
     (let (ret, w) = s in
      case ret of
        None \<Rightarrow>
          do {
            (t, w) \<leftarrow> NewTree g (n_tag (nd w this)) (Some (n_key (nd w this))) w;
            Some (Inl (if t = None then (None, 1, err this ''Out of memory'' w) else (None, 0, w)))
          }
      | Some t \<Rightarrow>
          do {
            (r, w) \<leftarrow> InsertChild g t (Some c) take_ownership own_buf True w;
            if r \<noteq> 0 then do { w \<leftarrow> KnvNode_Delete (Some t) (copy_err this t w); Some (Inl (None, 1, w)) }
            else Some (Inr (Some t, w))
          })"

text \<open>The body of the loop over the children; \<open>GetSibling\<close> at its end clears the message of the child.\<close>

definition cmp_child ::
  "(nat \<Rightarrow> nat \<Rightarrow> world \<Rightarrow> cmp_result option) \<Rightarrow> codecs \<Rightarrow> nat \<Rightarrow> nat \<Rightarrow> nat \<Rightarrow> del_state \<Rightarrow> (cmp_result + del_state) option" where
  "cmp_child F g this other c s =
     (let (ret, w) = s; go_on = (\<lambda>r. case r of Inl e \<Rightarrow> Inl e | Inr (ret, w) \<Rightarrow> Inr (ret, no_err c w)) in
      do {
        (d, w) \<leftarrow> FindChild g other (n_tag (nd w c)) (key_bytes (w_heap w) (n_key (nd w c))) w;
        case d of
          None \<Rightarrow> do { r \<leftarrow> cmp_add g this c False True (ret, w); Some (go_on r) }
        | Some d \<Rightarrow>
            do {
              (sub, code, w) \<leftarrow> F c d w;
              if code \<noteq> 0 then do { w \<leftarrow> KnvNode_Delete ret (copy_err this c w); Some (Inl (None, code, w)) }
              else
                (case sub of
                   None \<Rightarrow> Some (go_on (Inr (ret, w)))
                 | Some sub \<Rightarrow> do { r \<leftarrow> cmp_add g this sub True False (ret, w); Some (go_on r) })
            }
      })"

lemma cmp_child_mono [partial_function_mono]:
  assumes "\<And>a b w. mono_option (\<lambda>F. R F a b w)"
  shows "mono_option (\<lambda>F. cmp_child (R F) g this other c s)"
proof -
  have "mono_option (\<lambda>F. case d of None \<Rightarrow> A | Some d \<Rightarrow> R F c d w \<bind> B)" for A B d w
    by (cases d) (simp_all only: option.case mono_const bind_mono [OF assms mono_const])
  then show ?thesis unfolding cmp_child_def Let_def case_prod_beta by (intro bind_mono mono_const)
qed

partial_function (option) Compare_at :: "codecs \<Rightarrow> nat \<Rightarrow> nat \<Rightarrow> world \<Rightarrow> cmp_result option" where
  "Compare_at g this other w =
     (if \<not> key_eq (w_heap w) (n_key (nd w this)) (n_key (nd w other))
      then do { (d, w) \<leftarrow> Duplicate g this True w; Some (d, if d = None then 1 else 0, w) }
      else
        do {
          (c, w) \<leftarrow> GetFirstChild g this w;
          r \<leftarrow> loop_each (cmp_child (Compare_at g) g this other) (if c = None then [] else n_childlist (nd w this)) (None, w);
          case r of Inl e \<Rightarrow> Some e | Inr (ret, w) \<Rightarrow> Some (ret, 0, w)
        })"

definition Compare :: "codecs \<Rightarrow> nat \<Rightarrow> nat option \<Rightarrow> world \<Rightarrow> cmp_result option" where
  "Compare g this other w =
     (case other of
        None \<Rightarrow> do { (d, w) \<leftarrow> Duplicate g this True w; Some (d, if d = None then 1 else 0, w) }
      | Some n \<Rightarrow> Compare_at g this n w)"


lemma loop_each_inv:
  assumes "\<And>x s r. P s \<Longrightarrow> f x s = Some r \<Longrightarrow> (case r of Inl e \<Rightarrow> Q e | Inr s \<Rightarrow> P s)"
  shows "loop_each f xs s = Some r \<Longrightarrow> P s \<Longrightarrow> (case r of Inl e \<Rightarrow> Q e | Inr s \<Rightarrow> P s)"
proof (induction xs arbitrary: s)
  case (Cons x xs)
  from Cons.prems(1) obtain r1 where r1: "f x s = Some r1" "(case r1 of Inl e \<Rightarrow> Some (Inl e) | Inr s \<Rightarrow> loop_each f xs s) = Some r"
    by (auto simp: bind_eq_Some_conv)
  show ?case
  proof (cases r1)
    case (Inl e)
    with r1 assms [OF Cons.prems(2) r1(1)] show ?thesis by auto
  next
    case (Inr s')
    with r1 assms [OF Cons.prems(2) r1(1)] Cons.IH show ?thesis by simp
  qed
qed auto

lemma cmp_child_null:
  assumes "fst s = None" "cmp_child F g this other c s = Some r"
  shows "case r of Inl e \<Rightarrow> fst e = None | Inr s \<Rightarrow> fst s = None"
  using assms
  by (auto simp: cmp_child_def cmp_add_def Let_def bind_eq_Some_conv split: prod.splits option.splits sum.splits if_splits)

section \<open>Printing\<close>

text \<open>
  \<open>Print\<close> appends to a stream; the state is the text so far and the world.  \<open>None\<close> is also the null dereference
  of \<open>PrintLeaf\<close> when the node cannot be folded.
\<close>

fun dec_digits :: "nat \<Rightarrow> string" where
  "dec_digits n = (if n < 10 then [char_of (48 + n)] else dec_digits (n div 10) @ [char_of (48 + n mod 10)])"

declare dec_digits.simps [simp del]

definition dec_int :: "int \<Rightarrow> string" where
  "dec_int i = (if i < 0 then ''-'' @ dec_digits (nat (- i)) else dec_digits (nat i))"

definition hex_digit :: "nat \<Rightarrow> char" where
  "hex_digit n = char_of (if n < 10 then 48 + n else 55 + n)"

definition endl :: string where
  "endl = [char_of (10 :: nat)]"

definition GetTypeName :: "knv_type_t \<Rightarrow> int \<Rightarrow> nat list \<Rightarrow> string" where
  "GetTypeName t child_num metalist =
     (if t = KNV_STRING
      then if child_num < 0 \<or> (child_num < 1 \<and> metalist = []) then ''String'' else ''Node''
      else if t = KNV_VARINT then ''Int''
      else if t = KNV_FIXED32 then ''Int32''
      else if t = KNV_FIXED64 then ''Int64''
      else ''Unknown'')"

definition is_string :: "byte list \<Rightarrow> bool" where
  "is_string s \<longleftrightarrow> list_all (\<lambda>c. 32 \<le> c \<and> c \<le> 126) s"

definition PrintLeaf :: "codecs \<Rightarrow> string \<Rightarrow> nat \<Rightarrow> world \<Rightarrow> string" where
  "PrintLeaf g prefix l w =
     (let x = nd w l; v = n_val x; sz = knv_eval_field_length g (n_tag x) (n_type x) v;
          s = bytes_at (w_heap w) (v_data v) (unat (v_len v)) in
      prefix @ ''tag='' @ dec_digits (unat (n_tag x)) @ '', type='' @ GetTypeName (n_type x) 0 [] @
      (if n_type x = KNV_STRING
       then '', length='' @ dec_digits (unat (v_len v)) @ '', val='' @
         (if is_string s then map (\<lambda>c. char_of (unat c)) s
          else concat (map (\<lambda>c. [hex_digit (unat c div 16), hex_digit (unat c mod 16)]) s)) @ endl
       else '', size='' @ dec_int sz @ '', val='' @
         (if n_type x = KNV_FIXED32 then dec_digits (unat (v_i32 v)) else dec_digits (unat (v_i64 v))) @ endl))"

type_synonym text_state = "string \<times> world"

text \<open>The body of the loop over the children, with the \<open>GetSibling\<close> at its end.\<close>

definition print_child :: "(nat \<Rightarrow> text_state \<Rightarrow> text_state option) \<Rightarrow> nat \<Rightarrow> text_state \<Rightarrow> (unit + text_state) option" where
  "print_child F c s = do { (txt, w) \<leftarrow> F c s; Some (Inr (txt, no_err c w)) }"

lemma print_child_mono [partial_function_mono]:
  assumes "\<And>a s. mono_option (\<lambda>F. R F a s)"
  shows "mono_option (\<lambda>F. print_child (R F) c s)"
  unfolding print_child_def case_prod_beta by (intro bind_mono assms mono_const)

partial_function (option) Print :: "codecs \<Rightarrow> string \<Rightarrow> nat \<Rightarrow> text_state \<Rightarrow> text_state option" where
  "Print g prefix this s =
     (let (txt, w) = s in
      if \<not> IsValid w this then Some (txt @ prefix @ ''(NULL)'' @ endl, w)
      else
        do {
          (_, w) \<leftarrow> Expand g this w;
          let x = nd w this;
          if n_child_num x > 0 \<or> (n_child_num x \<ge> 0 \<and> n_metalist x \<noteq> [])
          then
            do {
              let txt = txt @ prefix @ ''[+] tag='' @ dec_digits (unat (n_tag x)) @ '', msg_size='' @ dec_int (n_eval_sz x) @
                '', parent='' @ (case n_parent x of None \<Rightarrow> ''-1'' | Some p \<Rightarrow> dec_int (sint (n_tag (nd w p)))) @ endl @
                concat (map (\<lambda>m. PrintLeaf g (prefix @ ''    [m] '') m w) (n_metalist x));
              if n_child_num x > 0
              then
                do {
                  (c, w) \<leftarrow> GetFirstChild g this w;
                  r \<leftarrow> loop_each (print_child (Print g (prefix @ ''    ''))) (if c = None then [] else n_childlist (nd w this)) (txt, w);
                  case r of Inl _ \<Rightarrow> None | Inr s \<Rightarrow> Some s
                }
              else Some (txt, w)
            }
          else
            do {
              (l, w) \<leftarrow> GetValue g this w;
              case l of None \<Rightarrow> None | Some l \<Rightarrow> Some (txt @ PrintLeaf g prefix l w, w)
            }
        })"

section \<open>Compare misses differences\<close>


definition two_leaves :: world where
  "two_leaves = \<lparr>w_nodes = (\<lambda>_. KnvNode0)(
       0 := KnvNode0\<lparr>n_tag := 12, n_type := KNV_VARINT, n_val := int_value 5, n_child_num := 0\<rparr>,
       1 := KnvNode0\<lparr>n_tag := 12, n_type := KNV_VARINT, n_val := int_value 6, n_child_num := 0\<rparr>),
     w_ht_next = (\<lambda>_. None), w_free = [], w_count = 2, w_pool = True, w_mem = (GetInstance, start_ctx), w_errorstr = None\<rparr>"


end
