(* ===== verification/Knv_Net.thy ===== *)
theory Knv_Net
  imports Knv_Sub
begin

text \<open>
  The socket helper, \<open>src/src/knv_net.h\<close> and \<open>src/src/knv_net.cc\<close>: socket addresses of both families and the
  calls that prepare a socket.  The system is a parameter: \<open>inet_ntop\<close> and \<open>inet_pton\<close> as functions, the socket
  calls as the fields of a record over a state of the system.
\<close>

unbundle bit_operations_syntax

section \<open>Numbers in network byte order\<close>

definition be_word :: "byte list \<Rightarrow> 'a::len word" where
  "be_word bs = le_word (rev bs)"

definition be_bytes :: "nat \<Rightarrow> 'a::len word \<Rightarrow> byte list" where
  "be_bytes n w = rev (le_bytes n w)"

section \<open>Addresses\<close>

text \<open>
  \<open>KnvSockAddr\<close>: the bytes of the union and the length in use.  A \<open>sockaddr_in\<close> has the family, the port and the
  4 bytes of the address at 0, 2 and 4; a \<open>sockaddr_in6\<close> the 16 bytes of its address at 8.
\<close>

record sock_addr =
  sa_bytes :: "byte list"
  sa_len :: u32

definition sizeof_in :: nat where "sizeof_in = 16"
definition sizeof_in6 :: nat where "sizeof_in6 = 28"
definition AF_INET :: u16 where "AF_INET = 2"
definition AF_INET6 :: u16 where "AF_INET6 = 10"

definition KnvSockAddr :: "bool \<Rightarrow> sock_addr" where
  "KnvSockAddr use_ipv6 = \<lparr>sa_bytes = replicate 28 0, sa_len = (if use_ipv6 then 28 else 16)\<rparr>"

text \<open>The members of the union: \<open>bs\<close> is written at \<open>i\<close>.\<close>

definition sa_put :: "nat \<Rightarrow> byte list \<Rightarrow> sock_addr \<Rightarrow> sock_addr" where
  "sa_put i bs a = a\<lparr>sa_bytes := take i (sa_bytes a) @ bs @ drop (i + length bs) (sa_bytes a)\<rparr>"

definition sa_get :: "nat \<Rightarrow> nat \<Rightarrow> sock_addr \<Rightarrow> byte list" where
  "sa_get i n a = take n (drop i (sa_bytes a))"

text \<open>From a \<open>sockaddr_in\<close> or a \<open>sockaddr_in6\<close>; \<open>j\<close> is the memory of the object before.\<close>

definition KnvSockAddr_in :: "byte list \<Rightarrow> sock_addr \<Rightarrow> sock_addr" where
  "KnvSockAddr_in a j = (sa_put 0 a j)\<lparr>sa_len := of_nat sizeof_in\<rparr>"

definition KnvSockAddr_in6 :: "byte list \<Rightarrow> sock_addr \<Rightarrow> sock_addr" where
  "KnvSockAddr_in6 a j = (sa_put 0 a j)\<lparr>sa_len := of_nat sizeof_in6\<rparr>"

definition KnvSockAddr_copy :: "sock_addr \<Rightarrow> sock_addr \<Rightarrow> sock_addr" where
  "KnvSockAddr_copy a j = \<lparr>sa_bytes = sa_bytes a, sa_len = sa_len a\<rparr>"

text \<open>
  From any \<open>sockaddr\<close> of \<open>l\<close> bytes; \<open>None\<close> when the copy would leave the source \<open>a\<close> or run past the union.
  The assignment copies all 28 bytes of the union whatever the length in use.
\<close>

definition KnvSockAddr_raw :: "byte list \<Rightarrow> u32 \<Rightarrow> sock_addr \<Rightarrow> sock_addr option" where
  "KnvSockAddr_raw a l j =
     (if unat l \<le> length a \<and> unat l \<le> sizeof_in6 then Some ((sa_put 0 (take (unat l) a) j)\<lparr>sa_len := l\<rparr>) else None)"

definition KnvSockAddr_assign :: "sock_addr \<Rightarrow> sock_addr \<Rightarrow> sock_addr" where
  "KnvSockAddr_assign this a = this\<lparr>sa_bytes := sa_bytes a, sa_len := sa_len a\<rparr>"

text \<open>From the text of an address; \<open>pton\<close> is \<open>inet_pton\<close>, which writes nothing when it fails.\<close>

type_synonym inet_pton_fn = "bool \<Rightarrow> string \<Rightarrow> byte list option"

definition put_opt :: "nat \<Rightarrow> byte list option \<Rightarrow> sock_addr \<Rightarrow> sock_addr" where
  "put_opt i bs a = (case bs of None \<Rightarrow> a | Some bs \<Rightarrow> sa_put i bs a)"

definition KnvSockAddr_str :: "inet_pton_fn \<Rightarrow> string \<Rightarrow> int \<Rightarrow> sock_addr \<Rightarrow> sock_addr" where
  "KnvSockAddr_str pton ipstr port j =
     (let v6 = CHR '':'' \<in> set ipstr;
          a = (put_opt (if v6 then 8 else 4) (pton v6 ipstr) j)\<lparr>sa_len := of_nat (if v6 then sizeof_in6 else sizeof_in)\<rparr>
      in sa_put 2 (be_bytes 2 (word_of_int port :: u16)) (sa_put 0 (le_bytes 2 (if v6 then AF_INET6 else AF_INET)) a))"

definition IsIpv4 :: "sock_addr \<Rightarrow> bool" where
  "IsIpv4 a \<longleftrightarrow> sa_len a = of_nat sizeof_in"

definition IsIpv6 :: "sock_addr \<Rightarrow> bool" where
  "IsIpv6 a \<longleftrightarrow> \<not> IsIpv4 a"

text \<open>
  \<open>ntop v6 src size\<close> is \<open>inet_ntop\<close>: the text of the address, or null when it does not fit into \<open>size\<close> bytes.
\<close>

type_synonym inet_ntop_fn = "bool \<Rightarrow> byte list \<Rightarrow> nat \<Rightarrow> string option"

definition to_str :: "inet_ntop_fn \<Rightarrow> sock_addr \<Rightarrow> string option" where
  "to_str ntop a =
     (if sa_len a = of_nat sizeof_in6 then ntop True (sa_get 8 16 a) (unat (sa_len a))
      else ntop False (sa_get 4 4 a) (unat (sa_len a)))"

text \<open>\<open>snprintf\<close> prints a null \<open>%s\<close> as \<open>(null)\<close> and keeps the first 78 characters.\<close>

definition to_str_with_port :: "inet_ntop_fn \<Rightarrow> sock_addr \<Rightarrow> string" where
  "to_str_with_port ntop a =
     (let v6 = sa_len a = of_nat sizeof_in6;
          s = (case to_str ntop a of None \<Rightarrow> ''(null)'' | Some s \<Rightarrow> s)
      in take 78 (s @ (if v6 then ''/'' else '':'') @ dec_digits (unat (be_word (sa_get 2 2 a) :: u16))))"

section \<open>Sockets\<close>

record 's net_sys =
  sys_socket :: "bool \<Rightarrow> 's \<Rightarrow> int \<times> 's"
  sys_reuse :: "int \<Rightarrow> 's \<Rightarrow> 's"
  sys_getfl :: "int \<Rightarrow> 's \<Rightarrow> int \<times> 's"
  sys_setfl :: "int \<Rightarrow> int \<Rightarrow> 's \<Rightarrow> int \<times> 's"
  sys_rcvtimeo :: "int \<Rightarrow> u64 \<Rightarrow> u64 \<Rightarrow> 's \<Rightarrow> int \<times> 's"
  sys_bind :: "int \<Rightarrow> byte list \<Rightarrow> u32 \<Rightarrow> 's \<Rightarrow> int \<times> 's"
  sys_close :: "int \<Rightarrow> 's \<Rightarrow> 's"

definition O_NONBLOCK :: int where "O_NONBLOCK = 2048"
definition O_NDELAY :: int where "O_NDELAY = 2048"

definition SetSocketNonblock :: "'s net_sys \<Rightarrow> int \<Rightarrow> bool \<Rightarrow> 's \<Rightarrow> int \<times> 's" where
  "SetSocketNonblock y sock nonblock s =
     (let (iFlags, s) = sys_getfl y sock s;
          iFlags = (if nonblock then (iFlags OR O_NONBLOCK) OR O_NDELAY else (iFlags AND NOT O_NONBLOCK) AND NOT O_NDELAY)
      in sys_setfl y sock iFlags s)"

text \<open>Seconds and microseconds of the timeout.\<close>

definition SetSocketRecvTimeout :: "'s net_sys \<Rightarrow> int \<Rightarrow> u64 \<Rightarrow> 's \<Rightarrow> int \<times> 's" where
  "SetSocketRecvTimeout y sockfd iTimeoutMs s = sys_rcvtimeo y sockfd (iTimeoutMs div 1000) (iTimeoutMs mod 1000 * 1000) s"

text \<open>The address of a listening socket: any address, with the family and the port.\<close>

definition any_addr :: "bool \<Rightarrow> int \<Rightarrow> sock_addr" where
  "any_addr use_ipv6 port =
     (let a = KnvSockAddr False;
          a = sa_put 0 (replicate (if use_ipv6 then sizeof_in6 else sizeof_in) 0) a;
          a = sa_put 0 (le_bytes 2 (if use_ipv6 then AF_INET6 else AF_INET)) a;
          a = sa_put 2 (be_bytes 2 (word_of_int port :: u16)) a;
          a = (if use_ipv6 then sa_put 8 (replicate 16 0) a else sa_put 4 (be_bytes 4 (0 :: u32)) a)
      in a\<lparr>sa_len := of_nat (if use_ipv6 then sizeof_in6 else sizeof_in)\<rparr>)"

definition CreateUdpListenSocket :: "'s net_sys \<Rightarrow> int \<Rightarrow> bool \<Rightarrow> bool \<Rightarrow> bool \<Rightarrow> 's \<Rightarrow> int \<times> 's" where
  "CreateUdpListenSocket y port reuse use_ipv6 nonblock st =
     (let (s, st) = sys_socket y use_ipv6 st in
      if s < 0 then (-1, st)
      else
        (let st = (if reuse then sys_reuse y s st else st);
             st = (if nonblock
                   then (let (flag, st) = sys_getfl y s st; flag = (if flag < 0 then 0 else flag)
                         in snd (sys_setfl y s ((flag OR O_NONBLOCK) OR O_NDELAY) st))
                   else st);
             a = any_addr use_ipv6 port;
             (r, st) = sys_bind y s (take (unat (sa_len a)) (sa_bytes a)) (sa_len a) st
         in if r < 0 then (-2, sys_close y s st) else (s, st)))"

section \<open>Properties\<close>

lemma length_be_bytes [simp]: "length (be_bytes n w) = n"
  by (simp add: be_bytes_def)

lemma be_word_be_bytes: "LENGTH('a::len) = 8 * n \<Longrightarrow> (be_word (be_bytes n w) :: 'a word) = w"
  using take_bit_length_eq [of w] by (simp add: be_word_def be_bytes_def le_word_le_bytes)

lemma sa_get_put_same: "i + length bs \<le> length (sa_bytes a) \<Longrightarrow> n = length bs \<Longrightarrow> sa_get i n (sa_put i bs a) = bs"
  by (simp add: sa_get_def sa_put_def)

lemma sa_get_put_below:
  "i + length bs \<le> j \<Longrightarrow> i + length bs \<le> length (sa_bytes a) \<Longrightarrow> sa_get j n (sa_put i bs a) = sa_get j n a"
  by (simp add: sa_get_def sa_put_def)

lemma length_sa_put [simp]: "i + length bs \<le> length (sa_bytes a) \<Longrightarrow> length (sa_bytes (sa_put i bs a)) = length (sa_bytes a)"
  by (simp add: sa_put_def)

lemma sa_len_put [simp]: "sa_len (sa_put i bs a) = sa_len a"
  by (simp add: sa_put_def)

lemma sa_bytes_len_update [simp]: "sa_get i n (a\<lparr>sa_len := l\<rparr>) = sa_get i n a"
  by (simp add: sa_get_def)

text \<open>An address handed through the system calls as a pointer and a length is the same address again.\<close>

lemma KnvSockAddr_raw_same:
  assumes "length (sa_bytes a) = 28" "length (sa_bytes j) = 28" "sa_len a = of_nat (if v6 then sizeof_in6 else sizeof_in)"
  shows "\<exists>b. KnvSockAddr_raw (take (unat (sa_len a)) (sa_bytes a)) (sa_len a) j = Some b \<and> to_str_with_port ntop b = to_str_with_port ntop a"
proof -
  let ?n = "if v6 then 28 else 16 :: nat"
  have n: "unat (sa_len a) = ?n" using assms(3) by (simp add: sizeof_in_def sizeof_in6_def)
  define b where "b = (sa_put 0 (take ?n (sa_bytes a)) j)\<lparr>sa_len := sa_len a\<rparr>"
  have raw: "KnvSockAddr_raw (take (unat (sa_len a)) (sa_bytes a)) (sa_len a) j = Some b"
    using assms n by (simp add: KnvSockAddr_raw_def b_def sizeof_in6_def)
  have get: "sa_get i m b = sa_get i m a" if "i + m \<le> ?n" for i m
    using that assms(1) by (cases v6) (simp_all add: sa_get_def sa_put_def b_def drop_take min_absorb1)
  have len: "sa_len b = sa_len a" by (simp add: b_def)
  have "to_str_with_port ntop b = to_str_with_port ntop a"
    using assms(3) by (cases v6) (simp_all add: to_str_with_port_def to_str_def Let_def get len sizeof_in_def sizeof_in6_def)
  with raw show ?thesis by blast
qed

lemma dec_digits_u16: "n < 65536 \<Longrightarrow> length (dec_digits n) \<le> 5"
proof -
  have step: "length (dec_digits m) \<le> Suc k" if "m < 10 ^ Suc k" for m k :: nat
    using that
  proof (induction k arbitrary: m)
    case 0
    then show ?case by (subst dec_digits.simps) simp
  next
    case (Suc k)
    then have "m div 10 < 10 ^ Suc k" by (simp add: less_mult_imp_div_less)
    from Suc.IH [OF this] show ?case by (subst dec_digits.simps) simp
  qed
  assume "n < 65536"
  with step [of n 4] show ?thesis by simp
qed

text \<open>
  C32. An address made from a text and a port is shown as that text and that port, as long as the text has less
  than 28 characters (16 for IPv4).  \<open>to_str\<close> passes the length of the address as the size of its buffer, so a
  longer IPv6 address is shown as \<open>(null)\<close>.  The hypotheses are what \<open>inet_pton\<close> and \<open>inet_ntop\<close> do with this address.
\<close>

theorem address_text:
  assumes "v6 = (CHR '':'' \<in> set ip)"
    and pton: "pton v6 ip = Some bs" "length bs = (if v6 then 16 else 4)"
    and ntop: "\<And>sz. ntop v6 bs sz = (if length ip < sz then Some ip else None)"
    and j: "length (sa_bytes j) = 28"
    and port: "0 \<le> port" "port < 65536"
  shows "to_str_with_port ntop (KnvSockAddr_str pton ip port j) =
     (if length ip < (if v6 then 28 else 16) then ip else ''(null)'') @ (if v6 then ''/'' else '':'') @ dec_digits (nat port)"
proof -
  let ?off = "if v6 then 8 else 4 :: nat" and ?a = "KnvSockAddr_str pton ip port j"
  have a: "?a = sa_put 2 (be_bytes 2 (word_of_int port :: u16)) (sa_put 0 (le_bytes 2 (if v6 then AF_INET6 else AF_INET))
     ((sa_put ?off bs j)\<lparr>sa_len := of_nat (if v6 then sizeof_in6 else sizeof_in)\<rparr>))"
    using pton(1) assms(1) by (simp add: KnvSockAddr_str_def put_opt_def Let_def)
  have len: "sa_len ?a = (if v6 then 28 else 16)" by (simp add: a sizeof_in_def sizeof_in6_def)
  have addr: "sa_get ?off (length bs) ?a = bs" using j pton(2)
    by (auto simp: a sa_get_put_below sa_get_put_same)
  have "sa_get 2 2 ?a = be_bytes 2 (word_of_int port :: u16)" using j pton(2)
    by (simp add: a sa_get_put_same)
  then have pt: "unat (be_word (sa_get 2 2 ?a) :: u16) = nat port" using port
    by (simp add: be_word_be_bytes unsigned_of_int take_bit_int_eq_self)
  have dec: "length (dec_digits (nat port)) \<le> 5" using port dec_digits_u16 [of "nat port"] by simp
  define shown where "shown = (if length ip < (if v6 then 28 else 16) then ip else ''(null)'')"
  define sep where "sep = (if v6 then ''/'' else '':'')"
  have "length sep = 1" and "length shown < 28" by (auto simp: shown_def sep_def)
  with dec have fits: "take 78 (shown @ sep @ dec_digits (nat port)) = shown @ sep @ dec_digits (nat port)" by simp
  have shown: "(case to_str ntop ?a of None \<Rightarrow> ''(null)'' | Some s \<Rightarrow> s) = shown"
    using len addr pton(2) ntop [of 28] ntop [of 16] by (cases v6) (simp_all add: to_str_def sizeof_in6_def shown_def)
  have sep: "(if sa_len ?a = of_nat sizeof_in6 then ''/'' else '':'') = sep"
    using len by (cases v6) (simp_all add: sizeof_in6_def sep_def)
  show ?thesis unfolding to_str_with_port_def Let_def shown sep pt fits by (simp add: shown_def sep_def)
qed

text \<open>An address that is shown and one that is not.\<close>

definition demo_pton :: inet_pton_fn where
  "demo_pton v6 ip = Some (if v6 then replicate 16 1 else [10, 0, 0, 1])"

definition demo_ntop :: "string \<Rightarrow> inet_ntop_fn" where
  "demo_ntop ip v6 bs sz = (if length ip < sz then Some ip else None)"

theorem address_text_witness:
  "to_str_with_port (demo_ntop ''10.0.0.1'') (KnvSockAddr_str demo_pton ''10.0.0.1'' 8080 (KnvSockAddr False)) = ''10.0.0.1:8080'' \<and>
   to_str_with_port (demo_ntop ''101:101:101:101:101:101:101:101'')
     (KnvSockAddr_str demo_pton ''101:101:101:101:101:101:101:101'' 8080 (KnvSockAddr True)) = ''(null)/8080''"
proof
  show "to_str_with_port (demo_ntop ''10.0.0.1'') (KnvSockAddr_str demo_pton ''10.0.0.1'' 8080 (KnvSockAddr False)) = ''10.0.0.1:8080''"
    using address_text [of False "''10.0.0.1''" demo_pton "[10, 0, 0, 1]" "demo_ntop ''10.0.0.1''" "KnvSockAddr False" 8080]
    by (simp add: demo_pton_def demo_ntop_def KnvSockAddr_def dec_digits.simps char_of_def bit_Suc_0_iff)
  show "to_str_with_port (demo_ntop ''101:101:101:101:101:101:101:101'')
     (KnvSockAddr_str demo_pton ''101:101:101:101:101:101:101:101'' 8080 (KnvSockAddr True)) = ''(null)/8080''"
    using address_text [of True "''101:101:101:101:101:101:101:101''" demo_pton "replicate 16 1"
      "demo_ntop ''101:101:101:101:101:101:101:101''" "KnvSockAddr True" 8080]
    by (simp add: demo_pton_def demo_ntop_def KnvSockAddr_def dec_digits.simps char_of_def bit_Suc_0_iff)
qed

lemma any_addr_len: "unat (sa_len (any_addr v6 port)) = (if v6 then 28 else 16)"
  by (simp add: any_addr_def Let_def sizeof_in_def sizeof_in6_def)

lemma any_addr_bytes:
  "take (unat (sa_len (any_addr v6 port))) (sa_bytes (any_addr v6 port)) = le_bytes 2 (if v6 then AF_INET6 else AF_INET) @
     be_bytes 2 (word_of_int port :: u16) @ replicate (if v6 then 24 else 12) 0"
  unfolding any_addr_len by (cases v6)
    (simp_all add: any_addr_def KnvSockAddr_def sa_put_def sizeof_in_def sizeof_in6_def Let_def be_bytes_def numeral_eq_Suc)

lemma two_bytes [simp]: "le_bytes 2 x = [ucast x, ucast (drop_bit 8 x)]"
  by (simp add: numeral_2_eq_2)

text \<open>
  C31. Sockets are not leaked: a call of \<open>CreateUdpListenSocket\<close> that fails leaves the open sockets as they were, and
  one that succeeds adds the socket it returns, bound to the any-address of the family with the port.  The hypotheses say
  what the calls of the system do to the set of open sockets and to the addresses bound.
\<close>

theorem listen_socket:
  fixes y :: "'s net_sys" and opened :: "'s \<Rightarrow> int set" and bound :: "'s \<Rightarrow> int \<Rightarrow> byte list option"
  assumes socket: "\<And>v6 st s st'. sys_socket y v6 st = (s, st') \<Longrightarrow>
      if s < 0 then opened st' = opened st else s \<notin> opened st \<and> opened st' = insert s (opened st)"
    and others: "\<And>s st. opened (sys_reuse y s st) = opened st" "\<And>s st. opened (snd (sys_getfl y s st)) = opened st"
      "\<And>s fl st. opened (snd (sys_setfl y s fl st)) = opened st"
    and bind: "\<And>s bs n st r st'. sys_bind y s bs n st = (r, st') \<Longrightarrow>
      opened st' = opened st \<and> (0 \<le> r \<longrightarrow> bound st' s = Some (take (unat n) bs))"
    and close: "\<And>s st. opened (sys_close y s st) = opened st - {s}"
    and run: "CreateUdpListenSocket y port reuse v6 nonblock st = (r, st')"
  shows "if r < 0 then opened st' = opened st
     else r \<notin> opened st \<and> opened st' = insert r (opened st) \<and>
       bound st' r = Some (le_bytes 2 (if v6 then AF_INET6 else AF_INET) @ be_bytes 2 (word_of_int port :: u16) @
         replicate (if v6 then 24 else 12) 0)"
proof -
  obtain s st1 where s: "sys_socket y v6 st = (s, st1)" by fastforce
  define st2 where "st2 = (if reuse then sys_reuse y s st1 else st1)"
  define st3 where "st3 = (if nonblock then (let (flag, st) = sys_getfl y s st2; flag = (if flag < 0 then 0 else flag)
                         in snd (sys_setfl y s ((flag OR O_NONBLOCK) OR O_NDELAY) st)) else st2)"
  define a where "a = any_addr v6 port"
  obtain rb st4 where b: "sys_bind y s (take (unat (sa_len a)) (sa_bytes a)) (sa_len a) st3 = (rb, st4)" by fastforce
  have st3: "opened st3 = opened st1" by (simp add: st3_def st2_def Let_def case_prod_beta others)
  have bytes: "take (unat (sa_len a)) (take (unat (sa_len a)) (sa_bytes a)) = le_bytes 2 (if v6 then AF_INET6 else AF_INET) @
      be_bytes 2 (word_of_int port :: u16) @ replicate (if v6 then 24 else 12) 0"
    unfolding a_def take_take min.idem by (rule any_addr_bytes)
  show ?thesis
  proof (cases "s < 0")
    case True
    with run s socket [OF s] show ?thesis by (auto simp: CreateUdpListenSocket_def)
  next
    case False
    have "(r, st') = (if rb < 0 then (-2, sys_close y s st4) else (s, st4))"
      using run False s b [unfolded st3_def st2_def a_def] by (simp add: CreateUdpListenSocket_def Let_def)
    with False socket [OF s] bind [OF b, unfolded bytes] st3 show ?thesis
      by (auto simp: close split: if_splits)
  qed
qed


text \<open>A system whose state has the open sockets and the addresses bound, and where port 80 is taken.\<close>

definition demo_sys :: "(int list \<times> (int \<Rightarrow> byte list option)) net_sys" where
  "demo_sys = \<lparr>sys_socket = (\<lambda>v6 st. (let s = 3 + (\<Sum>x\<leftarrow>fst st. \<bar>x\<bar>) in (s, (s # fst st, snd st)))),
     sys_reuse = (\<lambda>s st. st), sys_getfl = (\<lambda>s st. (0, st)), sys_setfl = (\<lambda>s fl st. (0, st)),
     sys_rcvtimeo = (\<lambda>s a b st. (0, st)),
     sys_bind = (\<lambda>s bs n st. if take 2 (drop 2 bs) = [0, 80] then (-1, st) else (0, (fst st, (snd st)(s := Some (take (unat n) bs))))),
     sys_close = (\<lambda>s st. (removeAll s (fst st), snd st))\<rparr>"

lemma demo_fresh: "s = 3 + (\<Sum>x\<leftarrow>xs. \<bar>x\<bar> :: int) \<Longrightarrow> s \<notin> set xs \<and> \<not> s < 0"
proof -
  assume s: "s = 3 + (\<Sum>x\<leftarrow>xs. \<bar>x\<bar>)"
  have "x \<in> set xs \<Longrightarrow> \<bar>x\<bar> \<le> (\<Sum>x\<leftarrow>xs. \<bar>x\<bar>)" for x
    by (rule member_le_sum_list) auto
  moreover have "0 \<le> (\<Sum>x\<leftarrow>xs. \<bar>x\<bar>)" by (rule sum_list_nonneg) auto
  ultimately show ?thesis using s by fastforce
qed

lemma demo_sys_socket:
  "sys_socket demo_sys v6 st = (s, st') \<Longrightarrow>
   if s < 0 then set (fst st') = set (fst st) else s \<notin> set (fst st) \<and> set (fst st') = insert s (set (fst st))"
  using demo_fresh [of s "fst st"] by (auto simp: demo_sys_def Let_def)

lemma demo_sys_bind:
  "sys_bind demo_sys s bs n st = (r, st') \<Longrightarrow>
   set (fst st') = set (fst st) \<and> (0 \<le> r \<longrightarrow> snd st' s = Some (take (unat n) bs))"
  by (auto simp: demo_sys_def split: if_splits)

theorem listen_socket_witness:
  "CreateUdpListenSocket demo_sys 80 True False True ([], \<lambda>_. None) = (-2, ([], \<lambda>_. None)) \<and>
   (\<exists>st'. CreateUdpListenSocket demo_sys 8080 True False True ([], \<lambda>_. None) = (3, st') \<and> set (fst st') = {3} \<and>
     snd st' 3 = Some ([2, 0, 31, 144] @ replicate 12 0))"
proof -
  define r where "r = CreateUdpListenSocket demo_sys 8080 True False True ([], \<lambda>_. None)"
  have r: "fst r = 3"
    by (simp add: r_def CreateUdpListenSocket_def demo_sys_def Let_def any_addr_bytes AF_INET_def be_bytes_def)
  have run: "CreateUdpListenSocket demo_sys 8080 True False True ([], \<lambda>_. None) = (fst r, snd r)" by (simp add: r_def)
  have "if fst r < 0 then set (fst (snd r)) = {}
     else fst r \<notin> {} \<and> set (fst (snd r)) = insert (fst r) {} \<and>
       snd (snd r) (fst r) = Some (le_bytes 2 AF_INET @ be_bytes 2 (word_of_int 8080 :: u16) @ replicate 12 0)"
    using listen_socket [where y = demo_sys and opened = "\<lambda>st. set (fst st)" and bound = snd, OF demo_sys_socket _ _ _ demo_sys_bind _ run]
    by (simp add: demo_sys_def split: if_splits)
  with r have "set (fst (snd r)) = {3} \<and> snd (snd r) 3 = Some ([2, 0, 31, 144] @ replicate 12 0)"
    by (simp add: AF_INET_def be_bytes_def)
  moreover have "CreateUdpListenSocket demo_sys 80 True False True ([], \<lambda>_. None) = (-2, ([], \<lambda>_. None))"
    by (simp add: CreateUdpListenSocket_def demo_sys_def Let_def any_addr_bytes AF_INET_def be_bytes_def)
  ultimately show ?thesis using r unfolding r_def by (metis prod.collapse)
qed

end
