(* ===== verification/Knv_Commands.thy ===== *)
theory Knv_Commands
  imports Knv_Prelude
begin

text \<open>
  The registry of command and error names, \<open>src/src/commands.h\<close> and \<open>src/src/commands.cc\<close>.  The two maps of
  the source are finite maps from numbers to names; the static objects of \<open>commands.h\<close> register the names
  in the order of the file.  A number without a name is printed in hexadecimal.
\<close>

section \<open>Hexadecimal numbers\<close>

text \<open>
  \<open>uint_to_hstr\<close> fills the array \<open>s\<close> of 32 characters from its end; \<open>i\<close> is the index of the last digit
  written and \<open>acc\<close> the digits from there on.
\<close>

definition hstr_digit :: "u64 \<Rightarrow> char" where
  "hstr_digit h = char_of (if h > 9 then unat h - 10 + 65 else unat h + 48)"

function hstr_loop :: "nat \<Rightarrow> u64 \<Rightarrow> string \<Rightarrow> nat \<times> string" where
  "hstr_loop i v acc = (if v = 0 then (i, acc) else hstr_loop (i - 1) (v div 16) (hstr_digit (v mod 16) # acc))"
  by pat_completeness auto
termination
  by (relation "measure (\<lambda>(i, v, acc). unat v)") (auto simp: unat_div_distrib unat_gt_0)

declare hstr_loop.simps [simp del]

definition uint_to_hstr :: "u64 \<Rightarrow> string" where
  "uint_to_hstr ival = (let (i, s) = hstr_loop 32 ival [] in if i = 32 then ''0x0'' else ''0x'' @ s)"

section \<open>The registry\<close>

record registry =
  g_knv_cmd_maps :: "(u64 \<rightharpoonup> string) option"
  g_knv_errcode_maps :: "(u64 \<rightharpoonup> string) option"

text \<open>Both maps are null until the first object is constructed.\<close>

definition registry0 :: registry where
  "registry0 = \<lparr>g_knv_cmd_maps = None, g_knv_errcode_maps = None\<rparr>"

definition KnvCommandRegisterer :: "string \<Rightarrow> u64 \<Rightarrow> registry \<Rightarrow> registry" where
  "KnvCommandRegisterer desc val r =
     r\<lparr>g_knv_cmd_maps := Some ((case g_knv_cmd_maps r of None \<Rightarrow> (\<lambda>_. None) | Some m \<Rightarrow> m)(val \<mapsto> desc))\<rparr>"

definition KnvErrorCodeRegisterer :: "string \<Rightarrow> u64 \<Rightarrow> registry \<Rightarrow> registry" where
  "KnvErrorCodeRegisterer desc val r =
     r\<lparr>g_knv_errcode_maps := Some ((case g_knv_errcode_maps r of None \<Rightarrow> (\<lambda>_. None) | Some m \<Rightarrow> m)(val \<mapsto> desc))\<rparr>"

definition GetCmdName :: "registry \<Rightarrow> u64 \<Rightarrow> string" where
  "GetCmdName r c =
     (case g_knv_cmd_maps r of
        None \<Rightarrow> uint_to_hstr c @ '':UnknownCommand''
      | Some m \<Rightarrow> (case m c of None \<Rightarrow> uint_to_hstr c @ '':UnknownCommand'' | Some s \<Rightarrow> s))"

definition GetErrorCodeName :: "registry \<Rightarrow> u64 \<Rightarrow> string" where
  "GetErrorCodeName r c =
     (case g_knv_errcode_maps r of
        None \<Rightarrow> uint_to_hstr c @ '':UnknownErrorCode''
      | Some m \<Rightarrow> (case m c of None \<Rightarrow> uint_to_hstr c @ '':UnknownErrorCode'' | Some s \<Rightarrow> s))"

text \<open>The registrations of \<open>commands.h\<close>.\<close>

definition knv_commands :: "(string \<times> u64) list" where
  "knv_commands =
     [(''CacheReadCommand'', 0x4001), (''CacheWriteCommand'', 0x4002), (''CacheEraseCommand'', 0x4004),
      (''CacheSyncCommand'', 0x4003), (''CacheFillbackCommand'', 0x4005), (''CacheFastSyncCommand'', 0x4006),
      (''CacheReadAllCommand'', 0x4007), (''CacheWriteAllCommand'', 0x4008), (''CacheEraseAllCommand'', 0x4009),
      (''ScSyncNoData'', 0x4101), (''ScSyncWithData'', 0x4102), (''UsReadCommand'', 0x4201),
      (''ProfileSet'', 0x4ff), (''ProfileBatchGetSimple'', 0x5e1), (''ProfileBatchGetDetail'', 0x5eb)]"

definition knv_error_codes :: "(string \<times> u64) list" where
  "knv_error_codes =
     [(''Successful'', 0), (''UC_BadKey'', 1), (''UC_BadRequest'', 2), (''UC_SystemError'', 3), (''UC_Timeout'', 4),
      (''CacheRead_FillbackError'', 101), (''CacheRead_FilterFailed'', 102), (''CacheWrite_RequestBodyEmpty'', 201),
      (''CacheWrite_WritToNonMaster'', 301)]"

definition knv_registry :: registry where
  "knv_registry = fold (\<lambda>(s, v). KnvErrorCodeRegisterer s v) knv_error_codes
     (fold (\<lambda>(s, v). KnvCommandRegisterer s v) knv_commands registry0)"

section \<open>Correctness\<close>

text \<open>The number a string of digits stands for.\<close>

definition hex_value :: "string \<Rightarrow> nat" where
  "hex_value s = foldl (\<lambda>n c. 16 * n + (if of_char c \<ge> (65 :: nat) then of_char c - 55 else of_char c - 48)) 0 s"

lemma digit_value:
  assumes "h < (16 :: u64)"
  shows "(if of_char (hstr_digit h) \<ge> (65 :: nat) then of_char (hstr_digit h) - 55 else of_char (hstr_digit h) - 48 :: nat) = unat h"
proof -
  have lt: "unat h < 16" using assms by (simp add: word_less_nat_alt)
  show ?thesis
  proof (cases "h > 9")
    case True
    then have "unat h > 9" by (simp add: word_less_nat_alt)
    with True lt show ?thesis by (simp add: hstr_digit_def)
  next
    case False
    then have "unat h \<le> 9" by (simp add: word_less_nat_alt not_less)
    with False show ?thesis by (simp add: hstr_digit_def)
  qed
qed

lemma foldl_hex: "foldl (\<lambda>n c. 16 * n + f c) (a :: nat) s = a * 16 ^ length s + foldl (\<lambda>n c. 16 * n + f c) 0 s"
proof (induction s arbitrary: a)
  case (Cons c s)
  show ?case using Cons.IH [of "16 * a + f c"] Cons.IH [of "f c"] by (simp add: algebra_simps)
qed simp

lemma hex_value_Cons: "h < 16 \<Longrightarrow> hex_value (hstr_digit h # s) = unat h * 16 ^ length s + hex_value s"
  using digit_value [of h] foldl_hex [of _ "unat h" s] by (simp add: hex_value_def)

text \<open>The loop writes one digit per step, and no more than the number has.\<close>

lemma hstr_loop_spec:
  "unat v < 16 ^ n \<Longrightarrow> n \<le> i \<Longrightarrow>
   \<exists>ds. hstr_loop i v acc = (i - length ds, ds @ acc) \<and> length ds \<le> n \<and>
     hex_value (ds @ acc) = unat v * 16 ^ length acc + hex_value acc \<and> (ds = [] \<longleftrightarrow> v = 0)"
proof (induction i v acc arbitrary: n rule: hstr_loop.induct)
  case (1 i v acc)
  show ?case
  proof (cases "v = 0")
    case True
    then show ?thesis by (subst hstr_loop.simps) (auto intro!: exI [of _ "[]"])
  next
    case False
    let ?d = "hstr_digit (v mod 16)"
    obtain m where n: "n = Suc m" using 1(2) False by (cases n) (auto simp: unat_eq_zero)
    have "unat (v div 16) < 16 ^ m" using 1(2) n by (simp add: unat_div_distrib less_mult_imp_div_less mult.commute)
    moreover have "m \<le> i - 1" using 1(3) n by simp
    ultimately obtain ds where ds:
      "hstr_loop (i - 1) (v div 16) (?d # acc) = (i - 1 - length ds, ds @ ?d # acc)" "length ds \<le> m"
      "hex_value (ds @ ?d # acc) = unat (v div 16) * 16 ^ length (?d # acc) + hex_value (?d # acc)"
      using 1(1) [OF False] by blast
    have "v mod 16 < 16" by (simp add: word_less_nat_alt unat_mod_distrib)
    then have "hex_value (ds @ ?d # acc) = (unat (v div 16) * 16 + unat (v mod 16)) * 16 ^ length acc + hex_value acc"
      using ds(3) hex_value_Cons [of "v mod 16" acc] by (simp add: algebra_simps)
    also have "unat (v div 16) * 16 + unat (v mod 16) = unat v" by (simp add: unat_div_distrib unat_mod_distrib)
    finally show ?thesis
      using ds(1,2) n False 1(3) by (subst hstr_loop.simps) (auto intro!: exI [of _ "ds @ [?d]"])
  qed
qed

text \<open>
  A number without a name is printed as \<open>0x\<close>, the hexadecimal digits of exactly this number, and the
  note that it is unknown; the digits need at most 16 of the 32 characters of the array, and the whole
  text fits the static buffer of 128 characters.
\<close>

theorem unknown_command_name:
  assumes "g_knv_cmd_maps r = None \<or> (\<exists>m. g_knv_cmd_maps r = Some m \<and> m c = None)"
  shows "\<exists>ds. GetCmdName r c = ''0x'' @ ds @ '':UnknownCommand'' \<and> hex_value ds = unat c \<and> length ds \<le> 16 \<and>
     length (GetCmdName r c) < 128"
proof -
  have "unat c < 16 ^ 16" using unat_u64_less [of c] by simp
  from hstr_loop_spec [OF this, of 32 "[]"] obtain ds where ds: "hstr_loop 32 c [] = (32 - length ds, ds)" "length ds \<le> 16"
    "hex_value ds = unat c" "ds = [] \<longleftrightarrow> c = 0" by (auto simp: hex_value_def)
  have name: "GetCmdName r c = uint_to_hstr c @ '':UnknownCommand''" using assms by (auto simp: GetCmdName_def)
  show ?thesis
  proof (cases "ds = []")
    case True
    with ds name show ?thesis by (intro exI [of _ "''0''"]) (simp add: uint_to_hstr_def hex_value_def)
  next
    case False
    then have "32 - length ds \<noteq> 32" by (cases ds) auto
    with ds name show ?thesis by (intro exI [of _ ds]) (simp add: uint_to_hstr_def)
  qed
qed

theorem unknown_command_name_witness:
  "\<exists>ds. GetCmdName registry0 0x5ec = ''0x'' @ ds @ '':UnknownCommand'' \<and> hex_value ds = unat (0x5ec :: u64)"
  using unknown_command_name [of registry0 "0x5ec"] by (auto simp: registry0_def)

text \<open>
  Every command and every error code of \<open>commands.h\<close> is found under its own name: no two registrations
  collide, and all other numbers are unknown.
\<close>

theorem registered_names:
  "list_all (\<lambda>(s, v). GetCmdName knv_registry v = s) knv_commands \<and>
   list_all (\<lambda>(s, v). GetErrorCodeName knv_registry v = s) knv_error_codes \<and>
   (v \<notin> snd ` set knv_commands \<longleftrightarrow> GetCmdName knv_registry v = uint_to_hstr v @ '':UnknownCommand'')"
proof -
  have first: "uint_to_hstr v = CHR ''0'' # tl (uint_to_hstr v)" for v by (simp add: uint_to_hstr_def split: prod.split)
  have maps: "g_knv_cmd_maps knv_registry = Some (map_of (map prod.swap (rev knv_commands)))"
    "g_knv_errcode_maps knv_registry = Some (map_of (map prod.swap (rev knv_error_codes)))"
    by (simp_all add: knv_registry_def knv_commands_def knv_error_codes_def registry0_def KnvCommandRegisterer_def
        KnvErrorCodeRegisterer_def)
  have "list_all (\<lambda>(s, v). GetCmdName knv_registry v = s) knv_commands"
    by (simp add: GetCmdName_def maps, simp add: knv_commands_def)
  moreover have "list_all (\<lambda>(s, v). GetErrorCodeName knv_registry v = s) knv_error_codes"
    by (simp add: GetErrorCodeName_def maps, simp add: knv_error_codes_def)
  moreover have "GetCmdName knv_registry v = uint_to_hstr v @ '':UnknownCommand''" if "v \<notin> snd ` set knv_commands"
    using that by (simp add: GetCmdName_def maps, simp add: knv_commands_def)
  moreover have "GetCmdName knv_registry v \<noteq> uint_to_hstr v @ '':UnknownCommand''" if "v \<in> snd ` set knv_commands"
    using that by (subst first) (auto simp: GetCmdName_def maps, auto simp: knv_commands_def)
  ultimately show ?thesis by blast
qed

end
