(* ===== verification/Knv_Proto.thy ===== *)
theory Knv_Proto
  imports Knv_Net Knv_Commands
begin

text \<open>
  Packages, \<open>src/src/protocol.h\<close> and \<open>src/src/protocol.cc\<close>: a package is a tree with a header child and body
  children.  This theory has the state of a \<open>KnvProtocol\<close>, its constructors, the fields of the header and
  the bodies; encoding and splitting are in theory \<open>Knv_Proto_Enc\<close>.

  A method takes the object and the world and returns both.  \<open>None\<close> is a call that does not return, which
  includes the dereference of a null pointer and a null pointer appended to a \<open>string\<close>.
\<close>

section \<open>State\<close>

definition KNV_DEFUALT_MAX_PKG_SIZE :: nat where "KNV_DEFUALT_MAX_PKG_SIZE = 64000"
definition KNV_PKG_TAG :: knv_tag_t where "KNV_PKG_TAG = 0xdb3"
definition KNV_PKG_HDR_TAG :: knv_tag_t where "KNV_PKG_HDR_TAG = 0xbad"
definition KNV_PKG_BDY_TAG :: knv_tag_t where "KNV_PKG_BDY_TAG = 0xdad"
definition KNV_PKG_PART_TAG_BASE :: knv_tag_t where "KNV_PKG_PART_TAG_BASE = 0x1ee"
definition KNV_PKG_HDR_CMD_TAG :: knv_tag_t where "KNV_PKG_HDR_CMD_TAG = 2"
definition KNV_PKG_HDR_SUBCMD_TAG :: knv_tag_t where "KNV_PKG_HDR_SUBCMD_TAG = 3"
definition KNV_PKG_HDR_SEQ_TAG :: knv_tag_t where "KNV_PKG_HDR_SEQ_TAG = 4"
definition KNV_PKG_HDR_RET_TAG :: knv_tag_t where "KNV_PKG_HDR_RET_TAG = 7"
definition KNV_PKG_HDR_ERR_TAG :: knv_tag_t where "KNV_PKG_HDR_ERR_TAG = 8"
definition KNV_PKG_HDR_RSP_ADDR :: knv_tag_t where "KNV_PKG_HDR_RSP_ADDR = 2001"
definition KNV_PKG_HDR_ALLOW_SPLIT :: knv_tag_t where "KNV_PKG_HDR_ALLOW_SPLIT = 2002"
definition KNV_PKG_HDR_MAX_PKG_SIZE :: knv_tag_t where "KNV_PKG_HDR_MAX_PKG_SIZE = 2003"
definition KNV_PKG_HDR_TOTAL_SPLIT_COUNT :: knv_tag_t where "KNV_PKG_HDR_TOTAL_SPLIT_COUNT = 2004"
definition KNV_PKG_HDR_CURR_SPLIT_INDEX :: knv_tag_t where "KNV_PKG_HDR_CURR_SPLIT_INDEX = 2005"
definition STX_IPV6_PB :: byte where "STX_IPV6_PB = 0x28"
definition ETX_IPV6_PB :: byte where "ETX_IPV6_PB = 0x29"
definition STX_KNV_BDY :: u16 where "STX_KNV_BDY = 0xeada"

lemmas proto_consts = KNV_DEFUALT_MAX_PKG_SIZE_def KNV_PKG_TAG_def KNV_PKG_HDR_TAG_def KNV_PKG_BDY_TAG_def
  KNV_PKG_PART_TAG_BASE_def KNV_PKG_HDR_CMD_TAG_def KNV_PKG_HDR_SUBCMD_TAG_def KNV_PKG_HDR_SEQ_TAG_def
  KNV_PKG_HDR_RET_TAG_def KNV_PKG_HDR_ERR_TAG_def KNV_PKG_HDR_RSP_ADDR_def KNV_PKG_HDR_ALLOW_SPLIT_def
  KNV_PKG_HDR_MAX_PKG_SIZE_def KNV_PKG_HDR_TOTAL_SPLIT_COUNT_def KNV_PKG_HDR_CURR_SPLIT_INDEX_def
  STX_IPV6_PB_def ETX_IPV6_PB_def STX_KNV_BDY_def

record knv_proto =
  p_tree :: "nat option"
  p_header :: "nat option"
  p_body :: "nat option"
  p_cmd :: u32
  p_subcmd :: u32
  p_seq :: u64
  p_retcode :: u32
  p_retmsglen :: u32
  p_retmsg :: ptr
  p_rspaddr :: sock_addr
  p_allow_split :: u8
  p_max_pkg_sz :: u16
  p_total_split_count :: u8
  p_curr_split_index :: u8
  p_errmsg :: string
  p_auto_delete :: bool

text \<open>
  The constructor \<open>KnvProtocol()\<close>; \<open>j\<close> is the memory of the object before, of which it keeps the fields it
  does not initialize.
\<close>

definition KnvProtocol_default :: "knv_proto \<Rightarrow> knv_proto" where
  "KnvProtocol_default j = j\<lparr>p_tree := None, p_header := None, p_body := None, p_rspaddr := KnvSockAddr False, p_errmsg := ''''\<rparr>"

text \<open>The initializers of the other constructors.\<close>

definition proto_start :: "nat option \<Rightarrow> nat option \<Rightarrow> nat option \<Rightarrow> bool \<Rightarrow> knv_proto \<Rightarrow> knv_proto" where
  "proto_start tree header body auto_delete j =
     (KnvProtocol_default j)\<lparr>p_tree := tree, p_header := header, p_body := body, p_retmsg := NULL, p_auto_delete := auto_delete\<rparr>"

definition perr :: "string \<Rightarrow> knv_proto \<Rightarrow> knv_proto" where
  "perr msg p = p\<lparr>p_errmsg := msg\<rparr>"

text \<open>\<open>errmsg = "..."; errmsg += m;\<close>\<close>

definition perr_cat :: "string \<Rightarrow> string option \<Rightarrow> knv_proto \<Rightarrow> knv_proto option" where
  "perr_cat msg m p = do { s \<leftarrow> m; Some (perr (msg @ s) p) }"

abbreviation node_msg :: "world \<Rightarrow> nat \<Rightarrow> string option" where
  "node_msg w n \<equiv> n_errmsg (nd w n)"

definition proto_Delete :: "knv_proto \<Rightarrow> world \<Rightarrow> (knv_proto \<times> world) option" where
  "proto_Delete p w =
     do {
       w \<leftarrow> (if p_auto_delete p then KnvNode_Delete (p_tree p) w else Some w);
       Some (p\<lparr>p_tree := None, p_header := None, p_body := None\<rparr>, w)
     }"

definition proto_IsValid :: "knv_proto \<Rightarrow> world \<Rightarrow> bool" where
  "proto_IsValid p w = (case p_tree p of None \<Rightarrow> False | Some t \<Rightarrow> n_tag (nd w t) = KNV_PKG_TAG)"

text \<open>\<open>body && body->IsValid()\<close>\<close>

definition body_valid :: "knv_proto \<Rightarrow> world \<Rightarrow> bool" where
  "body_valid p w = (case p_body p of None \<Rightarrow> False | Some b \<Rightarrow> IsValid w b)"

definition GetHeader :: "knv_proto \<Rightarrow> world \<Rightarrow> nat option" where
  "GetHeader p w = (if proto_IsValid p w then p_header p else None)"

definition GetBody :: "knv_proto \<Rightarrow> world \<Rightarrow> nat option" where
  "GetBody p w = (if proto_IsValid p w \<and> body_valid p w then p_body p else None)"

definition GetKey :: "knv_proto \<Rightarrow> world \<Rightarrow> knv_key_t option" where
  "GetKey p w = (if proto_IsValid p w \<and> body_valid p w then map_option (\<lambda>b. n_key (nd w b)) (p_body p) else None)"

definition GetRetMsg :: "knv_proto \<Rightarrow> world \<Rightarrow> byte list" where
  "GetRetMsg p w = bytes_at (w_heap w) (p_retmsg p) (unat (p_retmsglen p))"

section \<open>Header information\<close>

definition INIT_HEADER_INFO :: "knv_proto \<Rightarrow> knv_proto" where
  "INIT_HEADER_INFO p =
     p\<lparr>p_cmd := 0, p_subcmd := 0, p_seq := 0, p_retcode := 0, p_retmsglen := 0, p_retmsg := NULL,
       p_rspaddr := (p_rspaddr p)\<lparr>sa_len := 0\<rparr>, p_allow_split := 0, p_max_pkg_sz := 0, p_total_split_count := 0, p_curr_split_index := 0\<rparr>"

text \<open>
  \<open>m = header->GetMeta(tag)\<close> and \<open>m = header->FindChildByTag(tag)\<close> with the test of the type: the value, if any.
\<close>

definition typed_val :: "knv_type_t \<Rightarrow> nat option \<Rightarrow> world \<Rightarrow> knv_value_t option" where
  "typed_val ty m w = (case m of None \<Rightarrow> None | Some m \<Rightarrow> if n_type (nd w m) = ty then Some (n_val (nd w m)) else None)"

definition hdr_meta :: "codecs \<Rightarrow> nat \<Rightarrow> knv_tag_t \<Rightarrow> knv_type_t \<Rightarrow> world \<Rightarrow> (knv_value_t option \<times> world) option" where
  "hdr_meta g h t ty w = do { (m, w) \<leftarrow> GetMeta g h t w; Some (typed_val ty m w, w) }"

definition hdr_child :: "codecs \<Rightarrow> nat \<Rightarrow> knv_tag_t \<Rightarrow> knv_type_t \<Rightarrow> world \<Rightarrow> (knv_value_t option \<times> world) option" where
  "hdr_child g h t ty w = do { (m, w) \<leftarrow> FindChildByTag g h t w; Some (typed_val ty m w, w) }"

definition if_some :: "'a option \<Rightarrow> ('a \<Rightarrow> 'b \<Rightarrow> 'b) \<Rightarrow> 'b \<Rightarrow> 'b" where
  "if_some v f p = (case v of None \<Rightarrow> p | Some v \<Rightarrow> f v p)"

text \<open>A field that counts only when it is not 0.\<close>

definition nonzero :: "knv_value_t option \<Rightarrow> knv_value_t option" where
  "nonzero v = (case v of None \<Rightarrow> None | Some v \<Rightarrow> if v_i64 v \<noteq> 0 then Some v else None)"

definition set_rspaddr :: "world \<Rightarrow> knv_value_t \<Rightarrow> knv_proto \<Rightarrow> knv_proto" where
  "set_rspaddr w v p =
     (if v_len v = 16 \<or> v_len v = 28
      then p\<lparr>p_rspaddr := \<lparr>sa_bytes = bytes_at (w_heap w) (v_data v) (unat (v_len v)) @ drop (unat (v_len v)) (sa_bytes (p_rspaddr p)),
                           sa_len = v_len v\<rparr>\<rparr>
      else p)"

definition InitHeaderInfo :: "codecs \<Rightarrow> knv_proto \<Rightarrow> world \<Rightarrow> (knv_proto \<times> world) option" where
  "InitHeaderInfo g p w =
     (let p = INIT_HEADER_INFO p in
      case p_header p of
        None \<Rightarrow> Some (p, w)
      | Some h \<Rightarrow>
          do {
            (v, w) \<leftarrow> hdr_meta g h KNV_PKG_HDR_CMD_TAG KNV_VARINT w;
            let p = if_some v (\<lambda>v p. p\<lparr>p_cmd := v_i32 v\<rparr>) p;
            (v, w) \<leftarrow> hdr_meta g h KNV_PKG_HDR_SUBCMD_TAG KNV_VARINT w;
            let p = if_some v (\<lambda>v p. p\<lparr>p_subcmd := v_i32 v\<rparr>) p;
            (v, w) \<leftarrow> hdr_meta g h KNV_PKG_HDR_RET_TAG KNV_VARINT w;
            let p = if_some v (\<lambda>v p. p\<lparr>p_retcode := v_i32 v\<rparr>) p;
            (v, w) \<leftarrow> hdr_meta g h KNV_PKG_HDR_ERR_TAG KNV_STRING w;
            let p = if_some v (\<lambda>v p. p\<lparr>p_retmsglen := v_len v, p_retmsg := v_data v\<rparr>) p;
            (v, w) \<leftarrow> hdr_meta g h KNV_PKG_HDR_SEQ_TAG KNV_VARINT w;
            let p = if_some v (\<lambda>v p. p\<lparr>p_seq := v_i64 v\<rparr>) p;
            (v, w) \<leftarrow> hdr_child g h KNV_PKG_HDR_RSP_ADDR KNV_STRING w;
            let p = if_some v (set_rspaddr w) p;
            (v, w) \<leftarrow> hdr_child g h KNV_PKG_HDR_ALLOW_SPLIT KNV_VARINT w;
            let p = if_some (nonzero v) (\<lambda>v p. p\<lparr>p_allow_split := 1\<rparr>) p;
            (v, w) \<leftarrow> hdr_child g h KNV_PKG_HDR_MAX_PKG_SIZE KNV_VARINT w;
            let p = if_some (nonzero v) (\<lambda>v p. p\<lparr>p_max_pkg_sz := ucast (v_i64 v)\<rparr>) p;
            (v, w) \<leftarrow> hdr_child g h KNV_PKG_HDR_TOTAL_SPLIT_COUNT KNV_VARINT w;
            let p = if_some (nonzero v) (\<lambda>v p. p\<lparr>p_total_split_count := ucast (v_i64 v)\<rparr>) p;
            (v, w) \<leftarrow> hdr_child g h KNV_PKG_HDR_CURR_SPLIT_INDEX KNV_VARINT w;
            let p = if_some (nonzero v) (\<lambda>v p. p\<lparr>p_curr_split_index := ucast (v_i64 v)\<rparr>) p;
            Some (p, w)
          })"

definition FindFirstBody :: "nat option \<Rightarrow> world \<Rightarrow> (nat option \<times> world) option" where
  "FindFirstBody b w = seek_tag (Suc (w_count w)) KNV_PKG_BDY_TAG b w"

text \<open>The text that \<open>Print\<close> writes to the standard output is dropped.\<close>

definition EXPAND_TREE :: "codecs \<Rightarrow> knv_proto \<Rightarrow> world \<Rightarrow> (int \<times> knv_proto \<times> world) option" where
  "EXPAND_TREE g p w =
     (if p_header p \<noteq> None then Some (0, p, w)
      else
        do {
          t \<leftarrow> p_tree p;
          (c, w) \<leftarrow> GetFirstChild g t w;
          (b, w) \<leftarrow> FindFirstBody c w;
          (h, w) \<leftarrow> FindChildByTag g t KNV_PKG_HDR_TAG w;
          if h = None
          then
            do {
              (_, w) \<leftarrow> Print g ''[no_header]'' t ('''', w);
              w \<leftarrow> (if p_auto_delete p then KnvNode_Delete (Some t) w else Some w);
              Some (-1, perr ''Protocol has no header part'' (p\<lparr>p_tree := None, p_body := None\<rparr>), w)
            }
          else Some (0, p\<lparr>p_header := h, p_body := b\<rparr>, w)
        })"

definition InitProtocol :: "codecs \<Rightarrow> knv_proto \<Rightarrow> world \<Rightarrow> (knv_proto \<times> world) option" where
  "InitProtocol g p w =
     do {
       (bad, p, w) \<leftarrow>
         (if \<not> proto_IsValid p w then Some (True, p, w)
          else do { (r, p, w) \<leftarrow> EXPAND_TREE g p w; Some (r \<noteq> 0, p, w) });
       (p, w) \<leftarrow>
         (if bad
          then
            do {
              w \<leftarrow> (if p_auto_delete p then KnvNode_Delete (p_tree p) w else Some w);
              Some (p\<lparr>p_tree := None, p_header := None, p_body := None\<rparr>, w)
            }
          else Some (p, w));
       InitHeaderInfo g p w
     }"

section \<open>Constructors\<close>

text \<open>From another object \<open>q\<close>, which may lose the ownership of its tree.\<close>

definition KnvProtocol_copy ::
  "codecs \<Rightarrow> knv_proto \<Rightarrow> bool \<Rightarrow> bool \<Rightarrow> knv_proto \<Rightarrow> world \<Rightarrow> (knv_proto \<times> knv_proto \<times> world) option" where
  "KnvProtocol_copy g q take_ownership deep_copy j w =
     (let p = proto_start (p_tree q) None None take_ownership j;
          p = (if proto_IsValid q w then p else perr ''proto is invalid'' (p\<lparr>p_tree := None\<rparr>));
          dup = (\<lambda>t p. do {
            (c, w) \<leftarrow> Duplicate g t True w;
            t0 \<leftarrow> p_tree q;
            p \<leftarrow> (if c = None then perr_cat '''' (node_msg w t0) p else Some p);
            Some (p\<lparr>p_tree := c\<rparr>, w) }) in
      do {
        (p, q, w) \<leftarrow>
          (if take_ownership
           then if p_auto_delete q then Some (p, q\<lparr>p_auto_delete := False\<rparr>, w)
             else (case p_tree q of None \<Rightarrow> Some (p, q, w) | Some t \<Rightarrow> do { (p, w) \<leftarrow> dup t p; Some (p, q, w) })
           else
             (case (deep_copy, p_tree p) of
                (True, Some t) \<Rightarrow> do { (p, w) \<leftarrow> dup t (p\<lparr>p_auto_delete := True\<rparr>); Some (p, q, w) }
              | _ \<Rightarrow> Some (p, q, w)));
        (p, w) \<leftarrow> InitProtocol g p w;
        Some (p, q, w)
      })"

text \<open>From a header and a body; \<open>failure\<close> is the label of the source.\<close>

definition KnvProtocol_parts ::
  "codecs \<Rightarrow> nat option \<Rightarrow> nat option \<Rightarrow> bool \<Rightarrow> knv_proto \<Rightarrow> world \<Rightarrow> (knv_proto \<times> world) option" where
  "KnvProtocol_parts g hdr bdy take_ownership j w =
     do {
       (t, w) \<leftarrow> NewTree g KNV_PKG_TAG None w;
       let p = proto_start t hdr bdy True j;
       let failure = (\<lambda>p w.
             if take_ownership
             then do { w \<leftarrow> KnvNode_Delete hdr w; w \<leftarrow> KnvNode_Delete bdy w; Some (p, w) } else Some (p, w));
       (p, w) \<leftarrow>
         (case t of
            None \<Rightarrow> failure p w
          | Some t \<Rightarrow>
              do {
                (r, w) \<leftarrow> (if hdr = None then Some (-1, w) else InsertChild g t hdr take_ownership True True w);
                if r \<noteq> 0 then do { w \<leftarrow> KnvNode_Delete (Some t) w; failure (p\<lparr>p_tree := None\<rparr>) w }
                else
                  do {
                    (r, w) \<leftarrow> (if bdy = None then Some (0, w) else InsertChild g t bdy take_ownership True True w);
                    (p, w) \<leftarrow>
                      (if r \<noteq> 0
                       then
                         do {
                           w \<leftarrow> KnvNode_Delete (Some t) w;
                           w \<leftarrow> (if take_ownership then KnvNode_Delete bdy w else Some w);
                           Some (p\<lparr>p_tree := None\<rparr>, w)
                         }
                       else Some (p, w));
                    if take_ownership then Some (p, w)
                    else
                      do {
                        (r, p, w) \<leftarrow> EXPAND_TREE g (p\<lparr>p_body := None, p_header := None\<rparr>) w;
                        Some (if r \<noteq> 0 then p\<lparr>p_tree := None\<rparr> else p, w)
                      }
                  }
              });
       InitProtocol g p w
     }"


subsection \<open>OIDB packages\<close>

text \<open>A pointer moved by an \<open>int\<close>, which may be negative; outside of its block it reads as null does.\<close>

definition ptr_move :: "ptr \<Rightarrow> int \<Rightarrow> ptr" where
  "ptr_move p i = (case p of NULL \<Rightarrow> NULL | Ptr b k \<Rightarrow> if int k + i < 0 then NULL else Ptr b (nat (int k + i)))"

text \<open>\<open>hlen+blen+10\<close> is computed in \<open>uint32_t\<close> and stored in an \<open>int\<close>.\<close>

definition oidb_total :: "u32 \<Rightarrow> u32 \<Rightarrow> int" where
  "oidb_total hlen blen = to_int32 (uint (hlen + blen + 10))"

definition oidb_knv_style ::
  "codecs \<Rightarrow> nat \<Rightarrow> knv_value_t \<Rightarrow> bool \<Rightarrow> knv_proto \<Rightarrow> world \<Rightarrow> (knv_proto \<times> world) option" where
  "oidb_knv_style g h v own_buf p w =
     do {
       (t, w) \<leftarrow> New g KNV_PKG_TAG KNV_NODE KNV_VARINT None (Some v) own_buf w;
       case t of
         None \<Rightarrow>
           do {
             p \<leftarrow> perr_cat ''Construct knv tree failed: '' (w_errorstr w) p;
             w \<leftarrow> KnvNode_Delete (Some h) w;
             Some (p\<lparr>p_tree := None, p_header := None\<rparr>, w)
           }
       | Some t \<Rightarrow>
           do {
             (r, w) \<leftarrow> InsertChild g t (Some h) True True False w;
             if r < 0
             then
               do {
                 p \<leftarrow> perr_cat ''Insert header to knv tree failed: '' (node_msg w t) p;
                 w \<leftarrow> KnvNode_Delete (Some h) w;
                 w \<leftarrow> KnvNode_Delete (Some t) w;
                 Some (p\<lparr>p_tree := None, p_header := None\<rparr>, w)
               }
             else Some (p\<lparr>p_tree := Some t\<rparr>, w)
           }
     }"

definition oidb_plain_style ::
  "codecs \<Rightarrow> nat \<Rightarrow> knv_value_t \<Rightarrow> bool \<Rightarrow> knv_proto \<Rightarrow> world \<Rightarrow> (knv_proto \<times> world) option" where
  "oidb_plain_style g h v own_buf p w =
     do {
       (b, w) \<leftarrow> New g KNV_PKG_BDY_TAG KNV_NODE KNV_VARINT None (Some v) own_buf w;
       (t, w) \<leftarrow> (if b = None then Some (p_tree p, w) else NewTree g KNV_PKG_TAG None w);
       case (b, t) of
         (Some b, Some t) \<Rightarrow>
           do {
             (r, w) \<leftarrow> InsertChild g t (Some h) True True True w;
             if r < 0
             then
               do {
                 p \<leftarrow> perr_cat ''Insert header to knv tree failed: '' (node_msg w t) p;
                 w \<leftarrow> KnvNode_Delete (Some h) w;
                 w \<leftarrow> KnvNode_Delete (Some b) w;
                 w \<leftarrow> KnvNode_Delete (Some t) w;
                 Some (p\<lparr>p_tree := None, p_header := None, p_body := None\<rparr>, w)
               }
             else
               do {
                 (r, w) \<leftarrow> InsertChild g t (Some b) True True True w;
                 if r < 0
                 then
                   do {
                     p \<leftarrow> perr_cat ''Insert body to knv tree failed: '' (node_msg w t) p;
                     w \<leftarrow> KnvNode_Delete (Some b) w;
                     w \<leftarrow> KnvNode_Delete (Some t) w;
                     Some (p\<lparr>p_tree := None, p_header := None, p_body := None\<rparr>, w)
                   }
                 else Some (p\<lparr>p_tree := Some t, p_body := Some b\<rparr>, w)
               }
           }
       | _ \<Rightarrow>
           do {
             p \<leftarrow> perr_cat ''Construct knv tree failed: '' (w_errorstr w) p;
             w \<leftarrow> KnvNode_Delete (Some h) w;
             w \<leftarrow> KnvNode_Delete b w;
             Some (p\<lparr>p_tree := t, p_header := None, p_body := None\<rparr>, w)
           }
     }"

text \<open>The nodes of a package whose frame is right: \<open>hlen\<close> bytes of header at 9 and \<open>blen\<close> bytes of body behind them.\<close>

definition oidb_nodes ::
  "codecs \<Rightarrow> ptr \<Rightarrow> u32 \<Rightarrow> u32 \<Rightarrow> bool \<Rightarrow> knv_proto \<Rightarrow> world \<Rightarrow> (knv_proto \<times> world) option" where
  "oidb_nodes g buf hlen blen own_buf p w =
     do {
       (h, w) \<leftarrow> New g KNV_PKG_HDR_TAG KNV_NODE KNV_VARINT None (Some (str_value hlen (ptr_add buf 9))) own_buf w;
       case h of
         None \<Rightarrow> do { p \<leftarrow> perr_cat ''Construct header failed: '' (w_errorstr w) p; Some (p\<lparr>p_header := None\<rparr>, w) }
       | Some h \<Rightarrow>
           (let p = p\<lparr>p_header := Some h\<rparr>; bdy = ptr_add buf (9 + unat hlen); v = str_value blen bdy in
            if be_word (bytes_at (w_heap w) bdy 2) = STX_KNV_BDY then oidb_knv_style g h v own_buf p w
            else oidb_plain_style g h v own_buf p w)
     }"

definition InitFromOidbPkg ::
  "codecs \<Rightarrow> ptr \<Rightarrow> int \<Rightarrow> bool \<Rightarrow> knv_proto \<Rightarrow> world \<Rightarrow> (knv_proto \<times> world) option" where
  "InitFromOidbPkg g buf buflen own_buf p w =
     (if buflen < 10 then Some (perr ''Bad OidbIpv6 packet: insufficient length'' p, w)
      else
        (let hlen = be_word (bytes_at (w_heap w) (ptr_add buf 1) 4);
             blen = be_word (bytes_at (w_heap w) (ptr_add buf 5) 4);
             total_len = oidb_total hlen blen in
         if total_len > buflen then Some (perr ''Bad OidbIpv6 packet: insufficient length'' p, w)
         else if load (w_heap w) (ptr_move buf (total_len - 1)) \<noteq> ETX_IPV6_PB
         then Some (perr ''Bad OidbIpv6 packet: ETX token missing'' p, w)
         else oidb_nodes g buf hlen blen own_buf p w))"

text \<open>From the bytes of a package: an OIDB package by its first byte, any other as one field.\<close>

definition proto_parse :: "codecs \<Rightarrow> bool \<Rightarrow> ptr \<Rightarrow> int \<Rightarrow> bool \<Rightarrow> knv_proto \<Rightarrow> world \<Rightarrow> (knv_proto \<times> world) option" where
  "proto_parse g oidb buf len own_buf j w =
     (let p = proto_start None None None True j in
      do {
        (p, w) \<leftarrow>
          (if oidb then InitFromOidbPkg g buf len own_buf p w
           else
             do {
               (t, w) \<leftarrow> New_data g buf len own_buf w;
               p \<leftarrow> (if t = None then perr_cat ''Construct knv tree failed: '' (w_errorstr w) p else Some p);
               Some (p\<lparr>p_tree := t\<rparr>, w)
             });
        InitProtocol g p w
      })"

definition KnvProtocol_buf :: "codecs \<Rightarrow> ptr \<Rightarrow> int \<Rightarrow> bool \<Rightarrow> knv_proto \<Rightarrow> world \<Rightarrow> (knv_proto \<times> world) option" where
  "KnvProtocol_buf g buf len own_buf j w =
     proto_parse g (buf \<noteq> NULL \<and> load (w_heap w) buf = STX_IPV6_PB) buf len own_buf j w"

text \<open>From a string, given by its characters and its length; the character behind the last one is 0.\<close>

definition KnvProtocol_string :: "codecs \<Rightarrow> ptr \<Rightarrow> nat \<Rightarrow> bool \<Rightarrow> knv_proto \<Rightarrow> world \<Rightarrow> (knv_proto \<times> world) option" where
  "KnvProtocol_string g data len own_buf j w =
     proto_parse g (len > 0 \<and> load (w_heap w) data = STX_IPV6_PB) data (to_int32 (int len)) own_buf j w"

definition assign_buf :: "codecs \<Rightarrow> ptr \<Rightarrow> int \<Rightarrow> bool \<Rightarrow> knv_proto \<Rightarrow> world \<Rightarrow> (int \<times> knv_proto \<times> world) option" where
  "assign_buf g buf len own_buf p w =
     do {
       (tr, w) \<leftarrow> New_data g buf len own_buf w;
       case tr of
         None \<Rightarrow> do { p \<leftarrow> perr_cat ''Construct KnvNode failed: '' (w_errorstr w) p; Some (-1, p, w) }
       | Some tr \<Rightarrow>
           do {
             (p, w) \<leftarrow> proto_Delete p w;
             (p, w) \<leftarrow> InitProtocol g (p\<lparr>p_tree := Some tr, p_header := None, p_body := None, p_auto_delete := True\<rparr>) w;
             Some (0, p, w)
           }
     }"

text \<open>From another object \<open>q\<close>.\<close>

definition assign_proto ::
  "codecs \<Rightarrow> knv_proto \<Rightarrow> bool \<Rightarrow> knv_proto \<Rightarrow> world \<Rightarrow> (int \<times> knv_proto \<times> knv_proto \<times> world) option" where
  "assign_proto g q own_buf p w =
     do {
       (p, w) \<leftarrow> proto_Delete (p\<lparr>p_cmd := p_cmd q, p_subcmd := p_subcmd q, p_seq := p_seq q, p_retcode := p_retcode q,
         p_rspaddr := p_rspaddr q, p_allow_split := p_allow_split q, p_max_pkg_sz := p_max_pkg_sz q,
         p_total_split_count := p_total_split_count q, p_curr_split_index := p_curr_split_index q\<rparr>) w;
       if own_buf
       then
         do {
           t0 \<leftarrow> p_tree q;
           let p = p\<lparr>p_retmsglen := 0, p_retmsg := NULL\<rparr>;
           (t, w) \<leftarrow> Duplicate g t0 True w;
           case t of
             None \<Rightarrow> Some (-1, perr ''Out of memory'' p, q, w)
           | Some t \<Rightarrow>
               do {
                 (h, w) \<leftarrow> FindChildByTag g t KNV_PKG_HDR_TAG w;
                 case h of
                   None \<Rightarrow> do { w \<leftarrow> KnvNode_Delete (Some t) w; Some (-2, perr ''No header in protocol'' p, q, w) }
                 | Some h \<Rightarrow>
                     do {
                       (v, w) \<leftarrow> hdr_meta g h KNV_PKG_HDR_ERR_TAG KNV_STRING w;
                       let p = if_some v (\<lambda>v p. p\<lparr>p_retmsglen := v_len v, p_retmsg := v_data v\<rparr>) p;
                       (b, w) \<leftarrow> FindChildByTag g t KNV_PKG_BDY_TAG w;
                       Some (0, p\<lparr>p_tree := Some t, p_header := Some h, p_body := b, p_auto_delete := True\<rparr>, q, w)
                     }
               }
         }
       else
         Some (0, p\<lparr>p_tree := p_tree q, p_header := p_header q, p_body := p_body q, p_retmsglen := p_retmsglen q,
                    p_retmsg := p_retmsg q, p_auto_delete := p_auto_delete q\<rparr>, q\<lparr>p_auto_delete := False\<rparr>, w)
     }"

section \<open>Fields of the header\<close>

definition SetHeaderIntField :: "codecs \<Rightarrow> u32 \<Rightarrow> u64 \<Rightarrow> knv_proto \<Rightarrow> world \<Rightarrow> (int \<times> knv_proto \<times> world) option" where
  "SetHeaderIntField g ftag new_val p w =
     (if \<not> proto_IsValid p w then Some (-1, perr ''Protocol is not initialized'' p, w)
      else
        do {
          h \<leftarrow> p_header p;
          (r, w) \<leftarrow> SetFieldInt g h ftag new_val w;
          if r \<noteq> 0 then do { p \<leftarrow> perr_cat ''Set header meta failed: '' (node_msg w h) p; Some (-2, p, w) }
          else
            Some (0, if ftag = KNV_PKG_HDR_CMD_TAG then p\<lparr>p_cmd := ucast new_val\<rparr>
                     else if ftag = KNV_PKG_HDR_SUBCMD_TAG then p\<lparr>p_subcmd := ucast new_val\<rparr>
                     else if ftag = KNV_PKG_HDR_SEQ_TAG then p\<lparr>p_seq := new_val\<rparr>
                     else if ftag = KNV_PKG_HDR_RET_TAG then p\<lparr>p_retcode := ucast new_val\<rparr>
                     else p, w)
        })"

definition SetHeaderStringField ::
  "codecs \<Rightarrow> u32 \<Rightarrow> u32 \<Rightarrow> ptr \<Rightarrow> knv_proto \<Rightarrow> world \<Rightarrow> (int \<times> knv_proto \<times> world) option" where
  "SetHeaderStringField g ftag new_len new_val p w =
     (if \<not> proto_IsValid p w then Some (-1, perr ''Protocol is not initialized'' p, w)
      else
        do {
          h \<leftarrow> p_header p;
          (r, w) \<leftarrow> (if new_val \<noteq> NULL \<and> new_len \<noteq> 0 then SetFieldStr g h ftag new_len new_val w else RemoveField g h ftag w);
          if r \<noteq> 0 then do { p \<leftarrow> perr_cat ''Set header meta failed: '' (node_msg w h) p; Some (-2, p, w) }
          else Some (0, if ftag = KNV_PKG_HDR_ERR_TAG then p\<lparr>p_retmsg := new_val, p_retmsglen := new_len\<rparr> else p, w)
        })"

definition SetCommand :: "codecs \<Rightarrow> u32 \<Rightarrow> knv_proto \<Rightarrow> world \<Rightarrow> (int \<times> knv_proto \<times> world) option" where
  "SetCommand g c = SetHeaderIntField g KNV_PKG_HDR_CMD_TAG (ucast c)"

definition SetSubCommand :: "codecs \<Rightarrow> u32 \<Rightarrow> knv_proto \<Rightarrow> world \<Rightarrow> (int \<times> knv_proto \<times> world) option" where
  "SetSubCommand g c = SetHeaderIntField g KNV_PKG_HDR_SUBCMD_TAG (ucast c)"

definition SetSequence :: "codecs \<Rightarrow> u64 \<Rightarrow> knv_proto \<Rightarrow> world \<Rightarrow> (int \<times> knv_proto \<times> world) option" where
  "SetSequence g s = SetHeaderIntField g KNV_PKG_HDR_SEQ_TAG s"

definition SetRetCode :: "codecs \<Rightarrow> u32 \<Rightarrow> knv_proto \<Rightarrow> world \<Rightarrow> (int \<times> knv_proto \<times> world) option" where
  "SetRetCode g c = SetHeaderIntField g KNV_PKG_HDR_RET_TAG (ucast c)"

definition SetRetErrorMsg :: "codecs \<Rightarrow> ptr \<Rightarrow> int \<Rightarrow> knv_proto \<Rightarrow> world \<Rightarrow> (int \<times> knv_proto \<times> world) option" where
  "SetRetErrorMsg g msg len = SetHeaderStringField g KNV_PKG_HDR_ERR_TAG (word_of_int len) msg"

definition GetHeaderIntField :: "codecs \<Rightarrow> u32 \<Rightarrow> knv_proto \<Rightarrow> world \<Rightarrow> (u64 \<times> world) option" where
  "GetHeaderIntField g ftag p w = (case p_header p of None \<Rightarrow> Some (0, w) | Some h \<Rightarrow> GetFieldInt g h ftag w)"

definition GetHeaderStringField :: "codecs \<Rightarrow> u32 \<Rightarrow> knv_proto \<Rightarrow> world \<Rightarrow> (byte list \<times> world) option" where
  "GetHeaderStringField g ftag p w = (case p_header p of None \<Rightarrow> Some ([], w) | Some h \<Rightarrow> GetFieldStr g h ftag w)"

text \<open>\<open>SetRspAddr\<close>; the block \<open>Ext a\<close> is the memory of the address inside the object.\<close>

definition SetRspAddr :: "codecs \<Rightarrow> nat \<Rightarrow> sock_addr \<Rightarrow> knv_proto \<Rightarrow> world \<Rightarrow> (int \<times> knv_proto \<times> world) option" where
  "SetRspAddr g a addr p w =
     (if \<not> proto_IsValid p w then Some (-1, perr ''Protocol is not initialized'' p, w)
      else
        do {
          let p = p\<lparr>p_rspaddr := addr\<rparr>;
          let w = set_heap ((w_heap w)(Ext a := sa_bytes addr)) w;
          h \<leftarrow> p_header p;
          (n, w) \<leftarrow> FindChildByTag g h KNV_PKG_HDR_RSP_ADDR w;
          case n of
            Some n \<Rightarrow>
              do {
                (r, w) \<leftarrow> SetValue_str g n (Ptr (Ext a) 0) (to_int32 (uint (sa_len addr))) True w;
                if r < 0 then do { p \<leftarrow> perr_cat ''Update header value failed: '' (node_msg w n) p; Some (-1, p, w) }
                else Some (0, p, w)
              }
          | None \<Rightarrow>
              do {
                (c, w) \<leftarrow> InsertStrLeaf g h KNV_PKG_HDR_RSP_ADDR (Ptr (Ext a) 0) (to_int32 (uint (sa_len addr))) w;
                if c = None then do { p \<leftarrow> perr_cat ''Insert header value failed: '' (node_msg w h) p; Some (-2, p, w) }
                else Some (0, p, w)
              }
        })"

text \<open>The constructor from command, subcommand and sequence number.\<close>

definition KnvProtocol_new :: "codecs \<Rightarrow> u32 \<Rightarrow> u32 \<Rightarrow> u32 \<Rightarrow> knv_proto \<Rightarrow> world \<Rightarrow> (knv_proto \<times> world) option" where
  "KnvProtocol_new g dwCmd dwSubCmd dwSeq j w =
     do {
       (p, w) \<leftarrow> InitProtocol g (proto_start None None None True j) w;
       (t, w) \<leftarrow> NewTree g KNV_PKG_TAG None w;
       (p, w) \<leftarrow>
         (case t of
            None \<Rightarrow> Some (p, w)
          | Some t \<Rightarrow>
              do {
                (h, w) \<leftarrow> InsertSubNode g t KNV_PKG_HDR_TAG None w;
                if h = None then do { w \<leftarrow> KnvNode_Delete (Some t) w; Some (p, w) }
                else Some (p\<lparr>p_tree := Some t, p_header := h\<rparr>, w)
              });
       if p_header p = None then Some (p, w)
       else
         do {
           let failure = (\<lambda>p w. do { w \<leftarrow> KnvNode_Delete (p_tree p) w; Some (p\<lparr>p_tree := None, p_header := None\<rparr>, w) });
           (r, p, w) \<leftarrow> SetCommand g dwCmd p w;
           if r \<noteq> 0 then failure p w
           else
             do {
               (r, p, w) \<leftarrow> SetSubCommand g dwSubCmd p w;
               if r \<noteq> 0 then failure p w
               else
                 do {
                   (r, p, w) \<leftarrow> SetSequence g (ucast dwSeq) p w;
                   if r \<noteq> 0 then failure p w
                   else Some (p\<lparr>p_cmd := dwCmd, p_subcmd := dwSubCmd, p_seq := ucast dwSeq\<rparr>, w)
                 }
             }
         }
     }"

section \<open>Bodies and domains\<close>

definition GetFirstRequest :: "codecs \<Rightarrow> knv_proto \<Rightarrow> world \<Rightarrow> (nat option \<times> knv_proto \<times> world) option" where
  "GetFirstRequest g p w =
     do {
       (c, w) \<leftarrow> (case p_tree p of None \<Rightarrow> Some (None, w) | Some t \<Rightarrow> GetFirstChild g t w);
       (b, w) \<leftarrow> FindFirstBody c w;
       Some (b, if b = None then p else p\<lparr>p_body := b\<rparr>, w)
     }"

definition GetNextRequest :: "knv_proto \<Rightarrow> world \<Rightarrow> (nat option \<times> knv_proto \<times> world) option" where
  "GetNextRequest p w =
     do {
       let (c, w) = (case p_body p of None \<Rightarrow> (None, w) | Some b \<Rightarrow> GetSibling b w);
       (b, w) \<leftarrow> FindFirstBody c w;
       Some (b, if b = None then p else p\<lparr>p_body := b\<rparr>, w)
     }"

definition AddBody :: "codecs \<Rightarrow> nat option \<Rightarrow> bool \<Rightarrow> knv_proto \<Rightarrow> world \<Rightarrow> (int \<times> knv_proto \<times> world) option" where
  "AddBody g b take_ownership p w =
     (if \<not> proto_IsValid p w then Some (-1, perr ''Protocol is not initialized'' p, w)
      else
        (case b of
           None \<Rightarrow> Some (-2, perr ''Request body is invalid'' p, w)
         | Some n \<Rightarrow>
             if n_tag (nd w n) \<noteq> KNV_PKG_BDY_TAG then Some (-2, perr ''Request body is invalid'' p, w)
             else
               do {
                 t \<leftarrow> p_tree p;
                 (r, w) \<leftarrow> InsertChild g t b take_ownership False True w;
                 if r \<noteq> 0 then do { p \<leftarrow> perr_cat ''Error inserting KnvNode: '' (node_msg w t) p; Some (-3, p, w) }
                 else Some (0, p\<lparr>p_body := b\<rparr>, w)
               }))"

text \<open>\<open>AddBody(keytype, key)\<close> and \<open>AddBody(key)\<close>.\<close>

definition AddBody_val :: "codecs \<Rightarrow> knv_type_t \<Rightarrow> knv_value_t \<Rightarrow> knv_proto \<Rightarrow> world \<Rightarrow> (int \<times> knv_proto \<times> world) option" where
  "AddBody_val g keytype key p w =
     do {
       (n, w) \<leftarrow> New g KNV_PKG_BDY_TAG KNV_NODE keytype (Some key) None True w;
       if n = None then Some (-1, perr ''Out of memory'' p, w) else AddBody g n True p w
     }"

definition AddBody_key :: "codecs \<Rightarrow> knv_key_t \<Rightarrow> knv_proto \<Rightarrow> world \<Rightarrow> (int \<times> knv_proto \<times> world) option" where
  "AddBody_key g key p w =
     do {
       (n, w) \<leftarrow> NewTree g KNV_PKG_BDY_TAG (Some key) w;
       if n = None then Some (-1, perr ''Out of memory'' p, w) else AddBody g n True p w
     }"

definition RemoveAllBodies :: "codecs \<Rightarrow> knv_proto \<Rightarrow> world \<Rightarrow> (int \<times> knv_proto \<times> world) option" where
  "RemoveAllBodies g p w =
     (if \<not> proto_IsValid p w then Some (-1, perr ''Protocol not initialized'' p, w)
      else
        do {
          t \<leftarrow> p_tree p;
          (r, w) \<leftarrow> RemoveChildrenByTag g t KNV_PKG_BDY_TAG w;
          if r < 0 then do { p \<leftarrow> perr_cat ''Failed to remove body tag: '' (node_msg w t) p; Some (-2, p, w) }
          else Some (0, p\<lparr>p_body := None\<rparr>, w)
        })"

definition ReassignBody :: "codecs \<Rightarrow> nat option \<Rightarrow> bool \<Rightarrow> knv_proto \<Rightarrow> world \<Rightarrow> (int \<times> knv_proto \<times> world) option" where
  "ReassignBody g new_body take_ownership p w =
     do {
       (r, p, w) \<leftarrow> RemoveAllBodies g p w;
       if r \<noteq> 0 then Some (-1, p, w)
       else if new_body = None then Some (0, p, w)
       else do { (r, p, w) \<leftarrow> AddBody g new_body take_ownership p w; Some (if r \<noteq> 0 then -2 else 0, p, w) }
     }"

definition GetDomainNum :: "codecs \<Rightarrow> knv_proto \<Rightarrow> world \<Rightarrow> (int \<times> world) option" where
  "GetDomainNum g p w =
     (if proto_IsValid p w then (case p_body p of None \<Rightarrow> Some (0, w) | Some b \<Rightarrow> GetChildNum g b w) else Some (0, w))"

definition GetFirstDomain :: "codecs \<Rightarrow> knv_proto \<Rightarrow> world \<Rightarrow> (nat option \<times> world) option" where
  "GetFirstDomain g p w = (case p_body p of None \<Rightarrow> Some (None, w) | Some b \<Rightarrow> GetFirstChild g b w)"

definition GetDomain :: "codecs \<Rightarrow> int \<Rightarrow> knv_proto \<Rightarrow> world \<Rightarrow> (nat option \<times> world) option" where
  "GetDomain g iDomainId p w =
     (if \<not> proto_IsValid p w \<or> \<not> body_valid p w then Some (None, w)
      else do { b \<leftarrow> p_body p; FindChild g b (word_of_int iDomainId) [] w })"

definition AddDomain :: "codecs \<Rightarrow> int \<Rightarrow> knv_proto \<Rightarrow> world \<Rightarrow> (nat option \<times> knv_proto \<times> world) option" where
  "AddDomain g iDomainId p w =
     (if \<not> proto_IsValid p w \<or> \<not> body_valid p w then Some (None, perr ''Protocol not initialized'' p, w)
      else
        do {
          b \<leftarrow> p_body p;
          (n, w) \<leftarrow> FindChild g b (word_of_int iDomainId) [] w;
          if n \<noteq> None then Some (n, p, w)
          else
            do {
              (n, w) \<leftarrow> InsertChild_val g b (word_of_int iDomainId) KNV_NODE None True w;
              if n = None then do { p \<leftarrow> perr_cat '''' (node_msg w b) p; Some (None, p, w) } else Some (n, p, w)
            }
        })"

definition AddDomain_node :: "codecs \<Rightarrow> nat \<Rightarrow> bool \<Rightarrow> knv_proto \<Rightarrow> world \<Rightarrow> (int \<times> knv_proto \<times> world) option" where
  "AddDomain_node g domain take_ownership p w =
     (if \<not> proto_IsValid p w \<or> \<not> body_valid p w then Some (-1, perr ''Protocol not initialized'' p, w)
      else
        do {
          b \<leftarrow> p_body p;
          (n, w) \<leftarrow> FindChild g b (n_tag (nd w domain)) [] w;
          if n \<noteq> None
          then Some (-2, perr ''There is already a domain with the same ID, please remove it first'' p, w)
          else
            do {
              (r, w) \<leftarrow> InsertChild g b (Some domain) take_ownership True True w;
              if r \<noteq> 0 then do { p \<leftarrow> perr_cat '''' (node_msg w b) p; Some (-3, p, w) } else Some (0, p, w)
            }
        })"

definition RemoveDomain :: "codecs \<Rightarrow> int \<Rightarrow> knv_proto \<Rightarrow> world \<Rightarrow> (int \<times> knv_proto \<times> world) option" where
  "RemoveDomain g iDomainId p w =
     (if \<not> proto_IsValid p w \<or> \<not> body_valid p w then Some (-1, perr ''Protocol not initialized'' p, w)
      else
        do {
          b \<leftarrow> p_body p;
          (r, w) \<leftarrow> RemoveChildrenByTag g b (word_of_int iDomainId) w;
          if r < 0 then do { p \<leftarrow> perr_cat ''RemoveChildrenByTag failed: '' (node_msg w b) p; Some (-2, p, w) }
          else Some (0, p, w)
        })"

definition EvalMaxSize :: "codecs \<Rightarrow> knv_proto \<Rightarrow> world \<Rightarrow> (int \<times> knv_proto \<times> world) option" where
  "EvalMaxSize g p w =
     (if \<not> proto_IsValid p w then Some (-1, perr ''Protocol not initialized'' p, w)
      else do { t \<leftarrow> p_tree p; (sz, w) \<leftarrow> EvaluateSize g t w; Some (sz, p, w) })"

end
