(* ===== verification/Knv_Proto_Enc.thy ===== *)
theory Knv_Proto_Enc
  imports Knv_Proto
begin

text \<open>
  Encoding of packages, \<open>src/src/protocol.h\<close> and \<open>src/src/protocol.cc\<close>: the tree as one field, the OIDB frames
  \<open>STX hdrlen bdylen header body ETX\<close>, and packages split into parts and merged again.

  The output argument \<open>UcMem *(&mem)\<close> is an argument and a result: a path that fails early leaves it as it was.
\<close>

section \<open>OIDB frames\<close>

definition mem_new :: "int \<Rightarrow> world \<Rightarrow> nat option \<times> world" where
  "mem_new sz w = (let (m, s) = mem_alloc (to_u64 sz) (w_mem w) in (m, set_mem_state s w))"

definition mem_ptr :: "world \<Rightarrow> nat \<Rightarrow> ptr" where
  "mem_ptr w m = c_mem (snd (w_mem w)) m"

definition mem_del :: "nat option \<Rightarrow> world \<Rightarrow> world" where
  "mem_del m w = set_mem_state (mem_free m (w_mem w)) w"

text \<open>\<open>memcpy(p, q, n)\<close> with an \<open>int\<close> length: a negative one is a huge \<open>size_t\<close>, and the call does not return.\<close>

definition mem_copy :: "ptr \<Rightarrow> ptr \<Rightarrow> int \<Rightarrow> world \<Rightarrow> world option" where
  "mem_copy p q n w = (if n < 0 then None else Some (node_write p (bytes_at (w_heap w) q (nat n)) w))"

text \<open>\<open>*(uint32_t*)p = htonl(n)\<close>\<close>

definition put_be32 :: "ptr \<Rightarrow> int \<Rightarrow> world \<Rightarrow> world" where
  "put_be32 p n w = node_write p (be_bytes 4 (word_of_int n :: u32)) w"

text \<open>\<open>n->GetValue()\<close> dereferenced, and its value's length and bytes.\<close>

definition deref_value :: "codecs \<Rightarrow> nat \<Rightarrow> world \<Rightarrow> (nat \<times> world) option" where
  "deref_value g n w = do { (l, w) \<leftarrow> GetValue g n w; l \<leftarrow> l; Some (l, w) }"

definition str_len :: "world \<Rightarrow> nat \<Rightarrow> int" where
  "str_len w l = to_int32 (uint (v_len (n_val (nd w l))))"

abbreviation str_data :: "world \<Rightarrow> nat \<Rightarrow> ptr" where
  "str_data w l \<equiv> v_data (n_val (nd w l))"

type_synonym enc_result = "(int \<times> nat option \<times> knv_proto \<times> world) option"

definition EncodeOidb :: "codecs \<Rightarrow> nat option \<Rightarrow> nat option \<Rightarrow> knv_proto \<Rightarrow> world \<Rightarrow> enc_result" where
  "EncodeOidb g mem body_tree p w =
     do {
       h \<leftarrow> p_header p;
       (hdr, w) \<leftarrow> deref_value g h w;
       let hdr_sz = str_len w hdr;
       (bdy_sz, w) \<leftarrow> (case body_tree of None \<Rightarrow> Some (0, w) | Some b \<Rightarrow> EvaluateSize g b w);
       let total_sz = hdr_sz + bdy_sz + 10;
       let (mem, w) = mem_new total_sz w;
       case mem of
         None \<Rightarrow> Some (-4, mem, perr ''UcMemManager::Alloc failed'' p, w)
       | Some m \<Rightarrow>
           do {
             let buf = mem_ptr w m;
             let w = put_be32 (ptr_add buf 5) bdy_sz (put_be32 (ptr_add buf 1) hdr_sz (node_write buf [STX_IPV6_PB] w));
             w \<leftarrow> mem_copy (ptr_add buf 9) (str_data w hdr) hdr_sz w;
             (r, w) \<leftarrow>
               (if bdy_sz \<noteq> 0
                then do { b \<leftarrow> body_tree; (r, _, w) \<leftarrow> Serialize g b (ptr_move buf (9 + hdr_sz)) bdy_sz True w; Some (r, w) }
                else Some (0, w));
             if r < 0
             then do { b \<leftarrow> body_tree; p \<leftarrow> perr_cat ''Serialize body failed: '' (node_msg w b) p; Some (-5, mem, p, w) }
             else Some (total_sz, mem, p, node_write (ptr_move buf (total_sz - 1)) [ETX_IPV6_PB] w)
           }
     }"

text \<open>The loop over the children of the tree; \<open>bdy\<close> is the place of the next one.\<close>

fun encode_bodies :: "codecs \<Rightarrow> nat \<Rightarrow> int \<Rightarrow> nat option \<Rightarrow> int \<Rightarrow> ptr \<Rightarrow> knv_proto \<Rightarrow> world \<Rightarrow> (int \<times> int \<times> knv_proto \<times> world) option" where
  "encode_bodies g k max_bdy_sz None bdy_sz bdy p w = Some (0, bdy_sz, p, w)"
| "encode_bodies g 0 max_bdy_sz (Some n) bdy_sz bdy p w = None"
| "encode_bodies g (Suc k) max_bdy_sz (Some n) bdy_sz bdy p w =
     (if n_tag (nd w n) = KNV_PKG_HDR_TAG
      then (let (c, w) = GetSibling n w in encode_bodies g k max_bdy_sz c bdy_sz bdy p w)
      else
        do {
          (r, left_sz, w) \<leftarrow> Serialize g n bdy (max_bdy_sz - bdy_sz) True w;
          if r < 0 then do { p \<leftarrow> perr_cat ''Serialize body failed: '' (node_msg w n) p; Some (-5, bdy_sz, p, w) }
          else (let (c, w) = GetSibling n w in encode_bodies g k max_bdy_sz c (bdy_sz + left_sz) (ptr_move bdy left_sz) p w)
        })"

definition EncodeAllOidb :: "codecs \<Rightarrow> nat option \<Rightarrow> knv_proto \<Rightarrow> world \<Rightarrow> enc_result" where
  "EncodeAllOidb g mem p w =
     do {
       h \<leftarrow> p_header p;
       (hdr, w) \<leftarrow> deref_value g h w;
       let hdr_sz = str_len w hdr;
       t \<leftarrow> p_tree p;
       (max_bdy_sz, w) \<leftarrow> EvaluateSize g t w;
       let (mem, w) = mem_new (hdr_sz + max_bdy_sz + 10) w;
       case mem of
         None \<Rightarrow> Some (-4, mem, perr ''UcMemManager::Alloc failed'' p, w)
       | Some m \<Rightarrow>
           do {
             let buf = mem_ptr w m;
             let w = put_be32 (ptr_add buf 1) hdr_sz (node_write buf [STX_IPV6_PB] w);
             w \<leftarrow> mem_copy (ptr_add buf 9) (str_data w hdr) hdr_sz w;
             (c, w) \<leftarrow> GetFirstChild g t w;
             (r, bdy_sz, p, w) \<leftarrow> encode_bodies g (Suc (w_count w)) max_bdy_sz c 0 (ptr_move buf (9 + hdr_sz)) p w;
             if r < 0 then Some (r, mem, p, w)
             else
               (let w = node_write (ptr_move buf (hdr_sz + bdy_sz + 9)) [ETX_IPV6_PB] (put_be32 (ptr_add buf 5) bdy_sz w)
                in Some (hdr_sz + bdy_sz + 9, mem, p, w))
           }
     }"

definition EncodeCompatOidb :: "codecs \<Rightarrow> nat option \<Rightarrow> nat option \<Rightarrow> knv_proto \<Rightarrow> world \<Rightarrow> enc_result" where
  "EncodeCompatOidb g mem body_tree p w =
     do {
       h \<leftarrow> p_header p;
       (hdr, w) \<leftarrow> GetValue g h w;
       (bdy, w) \<leftarrow> (case body_tree of None \<Rightarrow> Some (None, w) | Some b \<Rightarrow> GetValue g b w);
       hdr \<leftarrow> hdr;
       let hdr_sz = str_len w hdr;
       let bdy_sz = (case bdy of None \<Rightarrow> 0 | Some l \<Rightarrow> str_len w l);
       let total_sz = hdr_sz + bdy_sz + 10;
       let (mem, w) = mem_new total_sz w;
       case mem of
         None \<Rightarrow> Some (-4, mem, perr ''UcMemManager::Alloc failed'' p, w)
       | Some m \<Rightarrow>
           do {
             let buf = mem_ptr w m;
             let w = put_be32 (ptr_add buf 5) bdy_sz (put_be32 (ptr_add buf 1) hdr_sz (node_write buf [STX_IPV6_PB] w));
             w \<leftarrow> mem_copy (ptr_add buf 9) (str_data w hdr) hdr_sz w;
             w \<leftarrow> (if bdy_sz \<noteq> 0 then do { l \<leftarrow> bdy; mem_copy (ptr_move buf (9 + hdr_sz)) (str_data w l) bdy_sz w } else Some w);
             Some (total_sz, mem, p, node_write (ptr_move buf (total_sz - 1)) [ETX_IPV6_PB] w)
           }
     }"

section \<open>Encoding\<close>

definition EncodeAll :: "codecs \<Rightarrow> nat option \<Rightarrow> bool \<Rightarrow> bool \<Rightarrow> knv_proto \<Rightarrow> world \<Rightarrow> enc_result" where
  "EncodeAll g mem encode_oidb compat_oidb p w =
     (if \<not> proto_IsValid p w then Some (-1, mem, perr ''Protocol is not initialized'' p, w)
      else if encode_oidb
      then if compat_oidb then EncodeCompatOidb g mem (p_body p) p w else EncodeAllOidb g mem p w
      else
        do {
          t \<leftarrow> p_tree p;
          (sz, w) \<leftarrow> EvaluateSize g t w;
          let (mem, w) = mem_new sz w;
          case mem of
            None \<Rightarrow> Some (-2, mem, perr ''UcMemManager::Alloc failed'' p, w)
          | Some m \<Rightarrow>
              do {
                (r, sz, w) \<leftarrow> Serialize g t (mem_ptr w m) sz True w;
                if r \<noteq> 0
                then
                  (let msg = (case node_msg w t of None \<Rightarrow> ''Unknown error'' | Some s \<Rightarrow> s)
                   in Some (-3, None, perr (''Serializing tree failed: '' @ msg) p, mem_del mem w))
                else Some (sz, mem, p, w)
              }
        })"

text \<open>The header's return code and message are brought up to date before a package is encoded.\<close>

definition encode_ret ::
  "codecs \<Rightarrow> u32 \<Rightarrow> ptr \<Rightarrow> int \<Rightarrow> knv_proto \<Rightarrow> world \<Rightarrow> (int \<times> knv_proto \<times> world) option" where
  "encode_ret g ret msg msglen p w =
     do {
       (r, p, w) \<leftarrow> (if ret \<noteq> p_retcode p then SetRetCode g ret p w else Some (0, p, w));
       if r \<noteq> 0 then Some (-2, perr (''Set retcode failed: '' @ p_errmsg p) p, w)
       else if msg \<noteq> p_retmsg p \<or> msglen \<noteq> to_int32 (uint (p_retmsglen p))
       then
         do {
           (r, p, w) \<leftarrow> SetRetErrorMsg g msg msglen p w;
           if r \<noteq> 0 then Some (-3, perr (''Set ret msg failed: '' @ p_errmsg p) p, w) else Some (0, p, w)
         }
       else Some (0, p, w)
     }"

text \<open>A package of the header and one body; \<open>fail\<close> frees the buffer and reports.\<close>

definition encode_pair :: "codecs \<Rightarrow> nat option \<Rightarrow> nat option \<Rightarrow> knv_proto \<Rightarrow> world \<Rightarrow> enc_result" where
  "encode_pair g mem body_tree p w =
     do {
       h \<leftarrow> p_header p;
       (hdr_sz, w) \<leftarrow> EvaluateSize g h w;
       (bdy_sz, w) \<leftarrow> (case body_tree of None \<Rightarrow> Some (0, w) | Some b \<Rightarrow> EvaluateSize g b w);
       let total_val_sz = hdr_sz + bdy_sz;
       let total_sz = knv_eval_field_length g KNV_PKG_TAG KNV_NODE (str_value (word_of_int total_val_sz) NULL);
       let (mem, w) = mem_new total_sz w;
       case mem of
         None \<Rightarrow> Some (-6, mem, perr ''UcMemManager::Alloc failed'' p, w)
       | Some m \<Rightarrow>
           do {
             let fail = (\<lambda>code msg e w. do { p \<leftarrow> perr_cat msg e p; Some (code, None, p, mem_del mem w) });
             let buf = mem_ptr w m;
             let (r, b) = knv_init_buff g buff0 buf (to_u64 total_sz);
             if r \<noteq> 0 then fail (-7) ''knv_init_buff failed: '' (b_errmsg b) w
             else
               (let (r, hp, b) = knv_add_string_head g (w_heap w) b KNV_PKG_TAG (to_u64 total_val_sz); w = set_heap hp w in
                if r \<noteq> 0 then fail (-8) ''knv_add_string_head failed: '' (b_errmsg b) w
                else
                  do {
                    let cur_len = knv_get_encoded_length g b;
                    (r, left, w) \<leftarrow> Serialize g h (ptr_move buf cur_len) (total_sz - cur_len) True w;
                    if r \<noteq> 0 then fail (-9) ''serializing header failed: '' (node_msg w h) w
                    else if bdy_sz > 0
                    then
                      do {
                        let cur_len = cur_len + left;
                        bt \<leftarrow> body_tree;
                        (r, left, w) \<leftarrow> Serialize g bt (ptr_move buf cur_len) (total_sz - cur_len) True w;
                        if r \<noteq> 0 then fail (-10) ''serializing body failed: '' (node_msg w bt) w
                        else Some (total_sz, mem, p, w)
                      }
                    else Some (total_sz, mem, p, w)
                  })
           }
     }"

definition Encode_full ::
  "codecs \<Rightarrow> nat option \<Rightarrow> u32 \<Rightarrow> ptr \<Rightarrow> int \<Rightarrow> nat option \<Rightarrow> bool \<Rightarrow> bool \<Rightarrow> knv_proto \<Rightarrow> world \<Rightarrow> enc_result" where
  "Encode_full g mem ret msg msglen body_tree encode_oidb compat_oidb p w =
     (if \<not> proto_IsValid p w then Some (-1, mem, p, w)
      else
        do {
          (r, p, w) \<leftarrow> encode_ret g ret msg msglen p w;
          if r \<noteq> 0 then Some (r, mem, p, w)
          else if encode_oidb
          then if compat_oidb then EncodeCompatOidb g mem body_tree p w else EncodeOidb g mem body_tree p w
          else encode_pair g mem body_tree p w
        })"

text \<open>The object as it is: its error when it has one, else all of its tree.\<close>

definition Encode_self :: "codecs \<Rightarrow> bool \<Rightarrow> bool \<Rightarrow> nat option \<Rightarrow> knv_proto \<Rightarrow> world \<Rightarrow> enc_result" where
  "Encode_self g encode_oidb compat_oidb mem p w =
     (if p_retcode p \<noteq> 0
      then Encode_full g mem (p_retcode p) (p_retmsg p) (to_int32 (uint (p_retmsglen p))) None encode_oidb compat_oidb p w
      else EncodeAll g mem encode_oidb compat_oidb p w)"

definition Encode :: "codecs \<Rightarrow> nat option \<Rightarrow> knv_proto \<Rightarrow> world \<Rightarrow> enc_result" where
  "Encode g mem p w = Encode_self g False False mem p w"

definition EncodeCompatOidb_self :: "codecs \<Rightarrow> nat option \<Rightarrow> knv_proto \<Rightarrow> world \<Rightarrow> enc_result" where
  "EncodeCompatOidb_self g mem p w = Encode_self g True True mem p w"

definition EncodeWithError :: "codecs \<Rightarrow> u32 \<Rightarrow> ptr \<Rightarrow> nat \<Rightarrow> nat option \<Rightarrow> knv_proto \<Rightarrow> world \<Rightarrow> enc_result" where
  "EncodeWithError g ret msg msglen mem p w = Encode_full g mem ret msg (to_int32 (int msglen)) None False False p w"

definition EncodeWithBody :: "codecs \<Rightarrow> nat option \<Rightarrow> nat option \<Rightarrow> knv_proto \<Rightarrow> world \<Rightarrow> enc_result" where
  "EncodeWithBody g b mem p w = Encode_full g mem 0 NULL 0 b False False p w"

subsection \<open>Encoding into a string\<close>

text \<open>
  The string is the block \<open>Ext out\<close>.  When \<open>assign\<close> throws, the buffer is not freed.
\<close>

definition to_string :: "nat \<Rightarrow> enc_result \<Rightarrow> (int \<times> knv_proto \<times> world) option" where
  "to_string out res =
     do {
       (l, m, p, w) \<leftarrow> res;
       if l < 0 then Some (l, p, w)
       else
         do {
           m' \<leftarrow> m;
           let c = snd (w_mem w);
           let w = set_mem_state (fst (w_mem w), c\<lparr>c_reqs := Suc (c_reqs c)\<rparr>) w;
           if c_fail c (c_reqs c) then Some (-100, perr ''out of memory'' p, w)
           else
             (let w = set_heap ((w_heap w)(Ext out := bytes_at (w_heap w) (mem_ptr w m') (nat l))) w
              in Some (0, p, mem_del m w))
         }
     }"

definition EncodeAll_string :: "codecs \<Rightarrow> nat \<Rightarrow> bool \<Rightarrow> bool \<Rightarrow> knv_proto \<Rightarrow> world \<Rightarrow> (int \<times> knv_proto \<times> world) option" where
  "EncodeAll_string g out encode_oidb compat_oidb p w = to_string out (EncodeAll g None encode_oidb compat_oidb p w)"

definition Encode_full_string ::
  "codecs \<Rightarrow> nat \<Rightarrow> u32 \<Rightarrow> ptr \<Rightarrow> int \<Rightarrow> nat option \<Rightarrow> bool \<Rightarrow> bool \<Rightarrow> knv_proto \<Rightarrow> world \<Rightarrow> (int \<times> knv_proto \<times> world) option" where
  "Encode_full_string g out ret msg msglen body_tree encode_oidb compat_oidb p w =
     to_string out (Encode_full g None ret msg msglen body_tree encode_oidb compat_oidb p w)"

definition Encode_self_string :: "codecs \<Rightarrow> bool \<Rightarrow> bool \<Rightarrow> nat \<Rightarrow> knv_proto \<Rightarrow> world \<Rightarrow> (int \<times> knv_proto \<times> world) option" where
  "Encode_self_string g encode_oidb compat_oidb out p w =
     (if p_retcode p \<noteq> 0
      then Encode_full_string g out (p_retcode p) (p_retmsg p) (to_int32 (uint (p_retmsglen p))) None encode_oidb compat_oidb p w
      else EncodeAll_string g out encode_oidb compat_oidb p w)"

definition Encode_string :: "codecs \<Rightarrow> nat \<Rightarrow> knv_proto \<Rightarrow> world \<Rightarrow> (int \<times> knv_proto \<times> world) option" where
  "Encode_string g out p w = Encode_self_string g False False out p w"

definition EncodeOidb_string :: "codecs \<Rightarrow> nat \<Rightarrow> knv_proto \<Rightarrow> world \<Rightarrow> (int \<times> knv_proto \<times> world) option" where
  "EncodeOidb_string g out p w = Encode_self_string g True False out p w"

definition EncodeCompatOidb_string :: "codecs \<Rightarrow> nat \<Rightarrow> knv_proto \<Rightarrow> world \<Rightarrow> (int \<times> knv_proto \<times> world) option" where
  "EncodeCompatOidb_string g out p w = Encode_self_string g True True out p w"

definition EncodeWithError_string :: "codecs \<Rightarrow> u32 \<Rightarrow> ptr \<Rightarrow> nat \<Rightarrow> nat \<Rightarrow> knv_proto \<Rightarrow> world \<Rightarrow> (int \<times> knv_proto \<times> world) option" where
  "EncodeWithError_string g ret msg msglen out p w = Encode_full_string g out ret msg (to_int32 (int msglen)) None False False p w"

definition EncodeWithBody_string :: "codecs \<Rightarrow> nat option \<Rightarrow> nat \<Rightarrow> knv_proto \<Rightarrow> world \<Rightarrow> (int \<times> knv_proto \<times> world) option" where
  "EncodeWithBody_string g b out p w = Encode_full_string g out 0 NULL 0 b False False p w"

definition EncodeOidbWithError_string :: "codecs \<Rightarrow> u32 \<Rightarrow> ptr \<Rightarrow> nat \<Rightarrow> nat \<Rightarrow> knv_proto \<Rightarrow> world \<Rightarrow> (int \<times> knv_proto \<times> world) option" where
  "EncodeOidbWithError_string g ret msg msglen out p w = Encode_full_string g out ret msg (to_int32 (int msglen)) None True False p w"

definition EncodeOidbWithBody_string :: "codecs \<Rightarrow> nat option \<Rightarrow> nat \<Rightarrow> knv_proto \<Rightarrow> world \<Rightarrow> (int \<times> knv_proto \<times> world) option" where
  "EncodeOidbWithBody_string g b out p w = Encode_full_string g out 0 NULL 0 b True False p w"

definition EncodeCompatOidbWithError_string :: "codecs \<Rightarrow> u32 \<Rightarrow> ptr \<Rightarrow> nat \<Rightarrow> nat \<Rightarrow> knv_proto \<Rightarrow> world \<Rightarrow> (int \<times> knv_proto \<times> world) option" where
  "EncodeCompatOidbWithError_string g ret msg msglen out p w = Encode_full_string g out ret msg (to_int32 (int msglen)) None True True p w"

definition EncodeCompatOidbWithBody_string :: "codecs \<Rightarrow> nat option \<Rightarrow> nat \<Rightarrow> knv_proto \<Rightarrow> world \<Rightarrow> (int \<times> knv_proto \<times> world) option" where
  "EncodeCompatOidbWithBody_string g b out p w = Encode_full_string g out 0 NULL 0 b True True p w"

section \<open>Split packages\<close>

definition SetAllowSplit :: "bool \<Rightarrow> u32 \<Rightarrow> knv_proto \<Rightarrow> knv_proto" where
  "SetAllowSplit allow pkg_sz p =
     (let p = p\<lparr>p_allow_split := of_bool allow\<rparr> in if pkg_sz \<noteq> 0 then p\<lparr>p_max_pkg_sz := ucast pkg_sz\<rparr> else p)"

definition SetReqSplit :: "codecs \<Rightarrow> bool \<Rightarrow> u32 \<Rightarrow> knv_proto \<Rightarrow> world \<Rightarrow> (int \<times> knv_proto \<times> world) option" where
  "SetReqSplit g allow pkg_sz p w =
     (if \<not> proto_IsValid p w then Some (-1, perr ''protocol is not initialized'' p, w)
      else
        do {
          h \<leftarrow> p_header p;
          (ret, w) \<leftarrow> (if allow then SetChildInt g h KNV_PKG_HDR_ALLOW_SPLIT 1 w
                      else RemoveChildrenByTag g h KNV_PKG_HDR_ALLOW_SPLIT w);
          if ret \<noteq> 0 then do { p \<leftarrow> perr_cat ''Set header allow field failed: '' (node_msg w h) p; Some (-2, p, w) }
          else
            do {
              (ret, w) \<leftarrow> (if pkg_sz \<noteq> 0 then SetChildInt g h KNV_PKG_HDR_MAX_PKG_SIZE (ucast pkg_sz) w else Some (0, w));
              if ret \<noteq> 0 then do { p \<leftarrow> perr_cat ''Set header max_pkg field failed: '' (node_msg w h) p; Some (-3, p, w) }
              else Some (0, p, w)
            }
        })"

definition GetMaxPkgSize :: "knv_proto \<Rightarrow> u16" where
  "GetMaxPkgSize p =
     (if unat (p_max_pkg_sz p) < 128 \<or> unat (p_max_pkg_sz p) > KNV_DEFUALT_MAX_PKG_SIZE
      then of_nat KNV_DEFUALT_MAX_PKG_SIZE else p_max_pkg_sz p)"

definition IsComplete :: "knv_proto \<Rightarrow> world \<Rightarrow> bool" where
  "IsComplete p w \<longleftrightarrow> proto_IsValid p w \<and> (p_retcode p \<noteq> 0 \<or> p_total_split_count p = 0 \<or> GetBody p w \<noteq> None)"

abbreviation part_tag :: "nat \<Rightarrow> knv_tag_t" where
  "part_tag i \<equiv> KNV_PKG_PART_TAG_BASE + of_nat i"

text \<open>The first loop of \<open>AddPartial\<close>: the length of all parts, or an early return with its message.\<close>

fun parts_len :: "codecs \<Rightarrow> nat \<Rightarrow> nat list \<Rightarrow> int \<Rightarrow> world \<Rightarrow> (((int \<times> string option) + int) \<times> world) option" where
  "parts_len g t [] total_len w = Some (Inr total_len, w)"
| "parts_len g t (i # is) total_len w =
     do {
       (c, w) \<leftarrow> FindChildByTag g t (part_tag i) w;
       case c of
         None \<Rightarrow> Some (Inl (0, None), w)
       | Some c \<Rightarrow>
           do {
             (l, w) \<leftarrow> GetValue g c w;
             if l = None \<or> v_len (n_val (nd w c)) = 0 then Some (Inl (-6, Some ''protocol part is empty''), w)
             else if n_type (nd w c) \<noteq> KNV_STRING then Some (Inl (-7, Some ''protocol part is not a buffer''), w)
             else parts_len g t is (to_int32 (total_len + uint (v_len (n_val (nd w c))))) w
           }
     }"

text \<open>The second loop: each part is copied behind the ones before and removed from the tree.\<close>

fun merge_parts :: "codecs \<Rightarrow> nat \<Rightarrow> nat \<Rightarrow> int \<Rightarrow> nat list \<Rightarrow> int \<Rightarrow> world \<Rightarrow> (((int \<times> string) + int) \<times> world) option" where
  "merge_parts g t m total_len [] cur_len w = Some (Inr cur_len, w)"
| "merge_parts g t m total_len (i # is) cur_len w =
     do {
       (c, w) \<leftarrow> FindChildByTag g t (part_tag i) w;
       case c of
         None \<Rightarrow> Some (Inl (-10, ''bug: part exists but get part failed''), w)
       | Some c \<Rightarrow>
           do {
             (l, w) \<leftarrow> GetValue g c w;
             let len = v_len (n_val (nd w c));
             if l = None then Some (Inl (-11, ''protocol part is empty''), w)
             else if (word_of_int cur_len :: u32) + len > word_of_int total_len
             then Some (Inl (-12, ''bug: pre-calc buffer size is not enough for parts''), w)
             else
               do {
                 let w = node_write (ptr_move (mem_ptr w m) cur_len) (bytes_at (w_heap w) (str_data w c) (unat len)) w;
                 (_, w) \<leftarrow> RemoveChildByPos g t (Some c) None w;
                 merge_parts g t m total_len is (to_int32 (cur_len + uint len)) w
               }
           }
     }"

text \<open>All parts have arrived: they are merged and the object becomes the package they make.\<close>

definition merge_all :: "codecs \<Rightarrow> nat \<Rightarrow> int \<Rightarrow> knv_proto \<Rightarrow> world \<Rightarrow> (int \<times> knv_proto \<times> world) option" where
  "merge_all g t total_len p w =
     (if total_len \<le> 0 then Some (-8, perr ''merged length is 0'' p, w)
      else
        (case mem_new total_len w of
           (None, w) \<Rightarrow> Some (-9, perr ''UcMemManager out of memory'' p, w)
         | (Some m, w) \<Rightarrow>
             do {
               (r, w) \<leftarrow> merge_parts g t m total_len [0..<unat (p_total_split_count p)] 0 w;
               case r of
                 Inl (code, msg) \<Rightarrow> Some (code, perr msg p, mem_del (Some m) w)
               | Inr cur_len \<Rightarrow>
                   do {
                     (ret, p, w) \<leftarrow> assign_buf g (mem_ptr w m) cur_len True p w;
                     if ret \<noteq> 0
                     then Some (-13, perr (''assign merged protocol failed: '' @ p_errmsg p) p, mem_del (Some m) w)
                     else Some (0, p, mem_del (Some m) w)
                   }
             }))"

text \<open>\<open>AddPartial\<close>; \<open>q\<close> is the part, which may lose its tree.\<close>

definition AddPartial ::
  "codecs \<Rightarrow> knv_proto \<Rightarrow> bool \<Rightarrow> knv_proto \<Rightarrow> world \<Rightarrow> (int \<times> knv_proto \<times> knv_proto \<times> world) option" where
  "AddPartial g q own_buf p w =
     (if \<not> proto_IsValid q w then Some (-1, perr ''part is invalid'' p, q, w)
      else
        (case p_tree p of
           None \<Rightarrow> assign_proto g q own_buf p w
         | Some t \<Rightarrow>
             if IsComplete p w \<or> IsComplete q w \<or> p_total_split_count p \<noteq> p_total_split_count q \<or>
                p_curr_split_index q \<ge> p_total_split_count p
             then assign_proto g q own_buf p w
             else
               do {
                 let idx = dec_digits (unat (p_curr_split_index q));
                 let tg = part_tag (unat (p_curr_split_index q));
                 tq \<leftarrow> p_tree q;
                 (c, w) \<leftarrow> FindChildByTag g tq tg w;
                 case c of
                   None \<Rightarrow> Some (-2, perr (''protocol has no corresponding part '' @ idx) p, q, w)
                 | Some c \<Rightarrow>
                     if n_type (nd w c) \<noteq> KNV_STRING
                     then Some (-3, perr (''part '' @ idx @ '' is not a buffer as expected'') p, q, w)
                     else
                       do {
                         (p2, w) \<leftarrow> FindChildByTag g t tg w;
                         if p2 \<noteq> None then Some (-4, perr (''part '' @ idx @ '' is already in the protocol'') p, q, w)
                         else
                           do {
                             (ret, w) \<leftarrow> InsertChild g t (Some c) False own_buf True w;
                             if ret \<noteq> 0
                             then do { p \<leftarrow> perr_cat ''Insert partial body failed: '' (node_msg w t) p; Some (-5, p, q, w) }
                             else
                               do {
                                 (r, w) \<leftarrow> parts_len g t [0..<unat (p_total_split_count p)] 0 w;
                                 case r of
                                   Inl (code, msg) \<Rightarrow> Some (code, if_some msg perr p, q, w)
                                 | Inr total_len \<Rightarrow> do { (r, p, w) \<leftarrow> merge_all g t total_len p w; Some (r, p, q, w) }
                               }
                           }
                       }
               }))"

text \<open>The label \<open>no_need_split\<close>: an external body is kept in the tree under the tag of the first part.\<close>

definition no_need_split :: "codecs \<Rightarrow> nat option \<Rightarrow> knv_proto \<Rightarrow> world \<Rightarrow> (int \<times> knv_proto \<times> world) option" where
  "no_need_split g b p w =
     (case b of
        None \<Rightarrow> Some (0, p, w)
      | Some b \<Rightarrow>
          do {
            (c, w) \<leftarrow> Duplicate g b False w;
            case c of
              None \<Rightarrow> do { p \<leftarrow> perr_cat ''Duplicate body failed: '' (node_msg w b) p; Some (-2, p, w) }
            | Some c \<Rightarrow>
                do {
                  (r, w) \<leftarrow> SetTag g c KNV_PKG_PART_TAG_BASE w;
                  if r \<noteq> 0
                  then do { p \<leftarrow> perr_cat ''Change tag failed: '' (node_msg w c) p; w \<leftarrow> KnvNode_Delete (Some c) w; Some (-3, p, w) }
                  else
                    do {
                      t \<leftarrow> p_tree p;
                      (r, w) \<leftarrow> InsertChild g t (Some c) True True True w;
                      if r \<noteq> 0
                      then
                        do {
                          p \<leftarrow> perr_cat ''Insert part body failed: '' (node_msg w t) p;
                          w \<leftarrow> KnvNode_Delete (Some c) w;
                          Some (-4, p, w)
                        }
                      else Some (0, p, w)
                    }
                }
          })"

text \<open>The parts: \<open>sz_part\<close> bytes each, \<open>sz_last\<close> in the last one.\<close>

definition part_value :: "ptr \<Rightarrow> u32 \<Rightarrow> u32 \<Rightarrow> u32 \<Rightarrow> nat \<Rightarrow> knv_value_t" where
  "part_value buf lst sz_part sz_last i =
     str_value (if of_nat i = lst then sz_last else sz_part) (ptr_add buf (unat (of_nat i * sz_part)))"

fun split_parts ::
  "codecs \<Rightarrow> nat \<Rightarrow> nat \<Rightarrow> u32 \<Rightarrow> u32 \<Rightarrow> u32 \<Rightarrow> nat list \<Rightarrow> knv_proto \<Rightarrow> world \<Rightarrow> (int \<times> knv_proto \<times> world) option" where
  "split_parts g t m lst sz_part sz_last [] p w = Some (0, p, w)"
| "split_parts g t m lst sz_part sz_last (i # is) p w =
     do {
       let v = part_value (mem_ptr w m) lst sz_part sz_last i;
       (part, w) \<leftarrow> New g (part_tag i) KNV_STRING KNV_DEFAULT_TYPE None (Some v) True w;
       case part of
         None \<Rightarrow> do { p \<leftarrow> perr_cat ''construct part body failed: '' (w_errorstr w) p; Some (-8, p, w) }
       | Some c \<Rightarrow>
           do {
             (_, w) \<leftarrow> RemoveChildrenByTag g t (part_tag i) w;
             (r, w) \<leftarrow> InsertChild g t (Some c) True True True w;
             if r \<noteq> 0
             then
               do {
                 p \<leftarrow> perr_cat ''Insert part body failed: '' (node_msg w t) p;
                 w \<leftarrow> KnvNode_Delete (Some c) w;
                 Some (-9, p, w)
               }
             else split_parts g t m lst sz_part sz_last is p w
           }
     }"

text \<open>The number of parts, and the size of the last one.\<close>

definition nr_pkgs :: "u32 \<Rightarrow> u32 \<Rightarrow> u32" where
  "nr_pkgs encoded_len sz_part = (encoded_len + sz_part - 1) div sz_part"

definition size_last :: "u32 \<Rightarrow> u32 \<Rightarrow> u32" where
  "size_last encoded_len sz_part = encoded_len - (nr_pkgs encoded_len sz_part - 1) * sz_part"

text \<open>From the encoded package in \<open>m\<close> on.\<close>

definition split_encoded ::
  "codecs \<Rightarrow> nat option \<Rightarrow> int \<Rightarrow> nat \<Rightarrow> u32 \<Rightarrow> knv_proto \<Rightarrow> world \<Rightarrow> (int \<times> knv_proto \<times> world) option" where
  "split_encoded g b encoded_len m max_sz p w =
     (if encoded_len \<le> to_int32 (uint max_sz) then no_need_split g b p (mem_del (Some m) w)
      else
        do {
          h \<leftarrow> p_header p;
          t \<leftarrow> p_tree p;
          (sz, w) \<leftarrow> EvaluateSize g h w;
          let hdr_sz = (word_of_int (sz + 16) :: u32);
          if hdr_sz \<ge> max_sz
          then
            Some (-6, perr (''Header size('' @ dec_digits (unat hdr_sz) @ '') is larger than max_pkg_size('' @
                            dec_digits (unat max_sz) @ '')'') p, mem_del (Some m) w)
          else
            do {
              let sz_part = max_sz - hdr_sz;
              let len = word_of_int encoded_len;
              let nr = nr_pkgs len sz_part;
              if nr \<le> 1 then no_need_split g b p (mem_del (Some m) w)
              else
                do {
                  let p = p\<lparr>p_total_split_count := ucast nr\<rparr>;
                  (r, w) \<leftarrow> SetChildInt g h KNV_PKG_HDR_TOTAL_SPLIT_COUNT (ucast nr) w;
                  if r \<noteq> 0
                  then do { p \<leftarrow> perr_cat ''Set total_split_count failed: '' (node_msg w h) p; Some (-7, p, mem_del (Some m) w) }
                  else
                    do {
                      (r, p, w) \<leftarrow> split_parts g t m (nr - 1) sz_part (size_last len sz_part) [0..<unat nr] p w;
                      Some (r, p, mem_del (Some m) w)
                    }
                }
            }
        })"

definition Split :: "codecs \<Rightarrow> nat option \<Rightarrow> knv_proto \<Rightarrow> world \<Rightarrow> (int \<times> knv_proto \<times> world) option" where
  "Split g b p w =
     (if \<not> proto_IsValid p w then Some (-1, perr ''Bad protocol tree'' p, w)
      else
        do {
          let p = p\<lparr>p_total_split_count := 1\<rparr>;
          h \<leftarrow> p_header p;
          t \<leftarrow> p_tree p;
          (_, w) \<leftarrow> RemoveChildrenByTag g h KNV_PKG_HDR_TOTAL_SPLIT_COUNT w;
          (_, w) \<leftarrow> RemoveChildrenByTag g h KNV_PKG_HDR_CURR_SPLIT_INDEX w;
          (sz, w) \<leftarrow>
            (case b of
               Some b \<Rightarrow> do { (hsz, w) \<leftarrow> EvaluateSize g h w; (bsz, w) \<leftarrow> EvaluateSize g b w; Some (hsz + bsz, w) }
             | None \<Rightarrow> EvaluateSize g t w);
          let cur_sz = (word_of_int (sz + 32) :: u32);
          let max_sz = (ucast (GetMaxPkgSize p) :: u32);
          if p_allow_split p = 0 \<or> (b = None \<and> p_body p = None) \<or> cur_sz \<le> max_sz then no_need_split g b p w
          else
            do {
              (encoded_len, m, p, w) \<leftarrow> (if b \<noteq> None then EncodeWithBody g b None p w else Encode g None p w);
              if encoded_len < 0 then Some (-5, perr (''Encode failed: '' @ p_errmsg p) p, w)
              else do { m \<leftarrow> m; split_encoded g b encoded_len m max_sz p w }
            }
        })"

definition EncodePart :: "codecs \<Rightarrow> int \<Rightarrow> nat option \<Rightarrow> knv_proto \<Rightarrow> world \<Rightarrow> enc_result" where
  "EncodePart g index mem p w =
     (if \<not> proto_IsValid p w then Some (-1, mem, perr ''Protocol not initialized'' p, w)
      else if index \<ge> int (unat (p_total_split_count p)) then Some (-1, mem, perr ''Bad part index'' p, w)
      else
        do {
          t \<leftarrow> p_tree p;
          if p_total_split_count p = 1
          then
            do {
              (b, w) \<leftarrow> FindChildByTag g t KNV_PKG_PART_TAG_BASE w;
              case b of
                Some c \<Rightarrow>
                  do {
                    (_, w) \<leftarrow> SetTag g c KNV_PKG_BDY_TAG w;
                    (ret, mem, p, w) \<leftarrow> EncodeWithBody g b mem p w;
                    (_, w) \<leftarrow> SetTag g c KNV_PKG_PART_TAG_BASE w;
                    Some (ret, mem, p, w)
                  }
              | None \<Rightarrow> Encode g mem p w
            }
          else
            do {
              (b, w) \<leftarrow> FindChildByTag g t (KNV_PKG_PART_TAG_BASE + word_of_int index) w;
              if b = None then Some (-2, mem, perr ''No such part'' p, w)
              else
                do {
                  h \<leftarrow> p_header p;
                  (r, w) \<leftarrow> SetChildInt g h KNV_PKG_HDR_CURR_SPLIT_INDEX (to_u64 index) w;
                  if r \<noteq> 0
                  then do { p \<leftarrow> perr_cat ''set header part index failed: '' (node_msg w h) p; Some (-3, mem, p, w) }
                  else EncodeWithBody g b mem p w
                }
            }
        })"

definition EncodePart_string :: "codecs \<Rightarrow> int \<Rightarrow> nat \<Rightarrow> knv_proto \<Rightarrow> world \<Rightarrow> (int \<times> knv_proto \<times> world) option" where
  "EncodePart_string g index out p w = to_string out (EncodePart g index None p w)"

section \<open>Printing\<close>

text \<open>\<open>ntop\<close> is the system's \<open>inet_ntop\<close> and \<open>reg\<close> the registry of names.\<close>

definition Print_proto ::
  "codecs \<Rightarrow> inet_ntop_fn \<Rightarrow> registry \<Rightarrow> string \<Rightarrow> knv_proto \<Rightarrow> text_state \<Rightarrow> (int \<times> text_state) option" where
  "Print_proto g ntop reg prefix p s =
     (let (txt, w) = s in
      if \<not> proto_IsValid p w then Some (-1, txt @ prefix @ ''Invalid protocol tree.'' @ endl, w)
      else
        do {
          let txt = txt @ prefix @ ''[#] cmd='' @ GetCmdName reg (ucast (p_cmd p)) @ '', subcmd='' @ dec_digits (unat (p_subcmd p)) @
            '', seq='' @ dec_digits (unat (p_seq p)) @
            (if sa_len (p_rspaddr p) > 0 then '', rspaddr='' @ to_str_with_port ntop (p_rspaddr p) else []) @
            '', retcode='' @ GetErrorCodeName reg (ucast (p_retcode p)) @
            '', retmsg=\"'' @ map (\<lambda>b. char_of (unat b)) (GetRetMsg p w) @ ''\"'' @ endl;
          t \<leftarrow> p_tree p;
          s \<leftarrow> Print g prefix t (txt, w);
          Some (0, s)
        })"

definition PrintToString ::
  "codecs \<Rightarrow> inet_ntop_fn \<Rightarrow> registry \<Rightarrow> string \<Rightarrow> knv_proto \<Rightarrow> world \<Rightarrow> (string \<times> world) option" where
  "PrintToString g ntop reg prefix p w =
     do { (r, txt, w) \<leftarrow> Print_proto g ntop reg prefix p ('''', w); Some (if r \<noteq> 0 then '''' else txt, w) }"

end
