(* ===== verification/Knv_Tree.thy ===== *)
theory Knv_Tree
  imports Knv_Api
begin

text \<open>
  What a tree of nodes stands for.  A value of type \<open>ntree\<close> names the nodes of a tree and their places;
  \<open>shape\<close> says that the lists and parent pointers of a world form that tree.  \<open>tree_bytes\<close> is the field a
  tree stands for, defined by recursion over the tree and without any of the caches.  The lemmas show
  that \<open>EvaluateSize\<close> returns its length and that \<open>Serialize\<close> writes exactly these bytes, whatever parts of
  the tree are folded, expanded, dirty or already evaluated.

  The lemmas are proved for every codec that keeps the contract \<open>knv_codec\<close>.
\<close>

section \<open>Trees\<close>

datatype ntree = NT (rt: nat) (tmetas: "ntree list") (tkids: "ntree list")

fun ids :: "ntree \<Rightarrow> nat list" where
  "ids (NT n ms cs) = n # concat (map ids ms) @ concat (map ids cs)"

fun subtrees :: "ntree \<Rightarrow> ntree list" where
  "subtrees (NT n ms cs) = NT n ms cs # concat (map subtrees ms) @ concat (map subtrees cs)"

text \<open>Lists, counters and parent pointers form the tree; nodes that are not expanded have no part in it.\<close>

definition node_shape :: "world \<Rightarrow> nat \<Rightarrow> ntree list \<Rightarrow> ntree list \<Rightarrow> bool" where
  "node_shape w n ms cs \<longleftrightarrow>
     (if n_child_num (nd w n) < 0 then ms = [] \<and> cs = []
      else n_metalist (nd w n) = map rt ms \<and> n_childlist (nd w n) = map rt cs \<and>
        n_child_num (nd w n) = int (length cs))"

fun shape :: "world \<Rightarrow> ntree \<Rightarrow> bool" where
  "shape w (NT n ms cs) \<longleftrightarrow> node_shape w n ms cs \<and>
     (\<forall>t \<in> set ms. n_parent (nd w (rt t)) = Some n \<and> shape w t) \<and>
     (\<forall>t \<in> set cs. n_parent (nd w (rt t)) = Some n \<and> shape w t)"

definition node_ok :: "knv_node \<Rightarrow> bool" where
  "node_ok x \<longleftrightarrow> n_tag x \<noteq> 0 \<and> named_type (n_type x) \<and> named_type (k_type (n_key x))"

definition tree_ok :: "world \<Rightarrow> ntree \<Rightarrow> bool" where
  "tree_ok w t \<longleftrightarrow> shape w t \<and> distinct (ids t) \<and> (\<forall>n \<in> set (ids t). node_ok (nd w n))"

subsection \<open>The field a tree stands for\<close>

definition key_part :: "(u32 \<Rightarrow> wval \<Rightarrow> byte list) \<Rightarrow> world \<Rightarrow> nat \<Rightarrow> byte list" where
  "key_part enc w n =
     (let k = n_key (nd w n) in
      if keyed (nd w n) then enc 1 (wval_of (w_heap w) (k_type k) (key_GetValue (w_heap w) k)) else [])"

text \<open>1 when the first meta is the key and is written from \<open>key\<close>.\<close>

definition key_skip :: "world \<Rightarrow> nat \<Rightarrow> ntree list \<Rightarrow> nat" where
  "key_skip w n ms = (if keyed (nd w n) \<and> ms \<noteq> [] \<and> n_tag (nd w (rt (hd ms))) = 1 then 1 else 0)"

definition flat_bytes :: "world \<Rightarrow> nat \<Rightarrow> byte list" where
  "flat_bytes w n = bytes_at (w_heap w) (v_data (n_val (nd w n))) (unat (v_len (n_val (nd w n))))"

fun tree_bytes :: "(u32 \<Rightarrow> wval \<Rightarrow> byte list) \<Rightarrow> world \<Rightarrow> ntree \<Rightarrow> byte list" where
  "tree_bytes enc w (NT n ms cs) =
     (if is_flat (nd w n) then enc (n_tag (nd w n)) (wval_of (w_heap w) (n_type (nd w n)) (n_val (nd w n)))
      else enc (n_tag (nd w n)) (WString (key_part enc w n @
        concat (drop (key_skip w n ms) (map (tree_bytes enc w) ms)) @ concat (map (tree_bytes enc w) cs))))"

definition tree_val :: "(u32 \<Rightarrow> wval \<Rightarrow> byte list) \<Rightarrow> world \<Rightarrow> ntree \<Rightarrow> byte list" where
  "tree_val enc w t =
     (if is_flat (nd w (rt t)) then (if n_type (nd w (rt t)) = KNV_NODE then flat_bytes w (rt t) else [])
      else key_part enc w (rt t) @ concat (drop (key_skip w (rt t) (tmetas t)) (map (tree_bytes enc w) (tmetas t))) @
        concat (map (tree_bytes enc w) (tkids t)))"

text \<open>The caches: a size that was evaluated is the size of what the node stands for now.\<close>

definition size_ok :: "(u32 \<Rightarrow> wval \<Rightarrow> byte list) \<Rightarrow> world \<Rightarrow> ntree \<Rightarrow> bool" where
  "size_ok enc w t \<longleftrightarrow> (n_eval_sz (nd w (rt t)) \<ge> 0 \<longrightarrow>
     n_eval_sz (nd w (rt t)) = int (length (tree_bytes enc w t)) \<and>
     n_eval_val_sz (nd w (rt t)) = int (length (tree_val enc w t)))"

definition sizes_ok :: "(u32 \<Rightarrow> wval \<Rightarrow> byte list) \<Rightarrow> world \<Rightarrow> ntree \<Rightarrow> bool" where
  "sizes_ok enc w t \<longleftrightarrow> (\<forall>s \<in> set (subtrees t). size_ok enc w s)"

lemma sizes_ok_NT:
  "sizes_ok enc w (NT n ms cs) \<longleftrightarrow> size_ok enc w (NT n ms cs) \<and>
     (\<forall>t \<in> set ms. sizes_ok enc w t) \<and> (\<forall>t \<in> set cs. sizes_ok enc w t)"
  by (auto simp: sizes_ok_def)

lemma rt_in_ids [simp]: "rt t \<in> set (ids t)"
  by (cases t) simp

lemma subtrees_ids: "s \<in> set (subtrees t) \<Longrightarrow> set (ids s) \<subseteq> set (ids t)"
proof (induction t)
  case (NT n ms cs)
  then consider "s = NT n ms cs" | m where "m \<in> set ms \<union> set cs" "s \<in> set (subtrees m)" by auto
  then show ?case
  proof cases
    case (2 m)
    with NT.IH have "set (ids s) \<subseteq> set (ids m)" by blast
    with 2(1) show ?thesis by auto
  qed simp
qed

lemma v_len_str_value [simp]: "v_len (str_value n p) = n" "v_data (str_value n p) = p"
proof -
  have "ucast (ucast n :: u64) = n" by (rule bit_word_eqI) (auto simp: bit_simps)
  then show "v_len (str_value n p) = n" by (simp add: v_len_def str_value_def)
qed (simp add: str_value_def)

lemma ids_sub: "t \<in> set ms \<union> set cs \<Longrightarrow> set (ids t) \<subseteq> set (ids (NT n ms cs))"
  by auto

lemma is_flat_non_node: "\<not> is_flat x \<Longrightarrow> n_type x = KNV_NODE"
  by (simp add: is_flat_def)

section \<open>Changing only the caches\<close>

definition alike :: "knv_node \<Rightarrow> knv_node \<Rightarrow> bool" where
  "alike x y \<longleftrightarrow> n_tag x = n_tag y \<and> n_type x = n_type y \<and> n_val x = n_val y \<and> n_dyn x = n_dyn y \<and> n_key x = n_key y \<and>
     n_child_num x = n_child_num y \<and> n_ht x = n_ht y \<and> n_childlist x = n_childlist y \<and>
     n_metalist x = n_metalist y \<and> n_metas x = n_metas y \<and> n_subnode_dirty x = n_subnode_dirty y \<and>
     n_child_has_key x = n_child_has_key y \<and> n_no_key x = n_no_key y \<and> n_parent x = n_parent y \<and>
     n_errmsg x = n_errmsg y"

lemma alikeD:
  assumes "alike x y"
  shows "n_tag x = n_tag y" "n_type x = n_type y" "n_val x = n_val y" "n_dyn x = n_dyn y" "n_key x = n_key y"
    "n_child_num x = n_child_num y" "n_ht x = n_ht y" "n_childlist x = n_childlist y"
    "n_metalist x = n_metalist y" "n_metas x = n_metas y" "n_subnode_dirty x = n_subnode_dirty y"
    "n_child_has_key x = n_child_has_key y" "n_no_key x = n_no_key y" "n_parent x = n_parent y"
    "n_errmsg x = n_errmsg y"
  using assms by (simp_all add: alike_def)

lemma alike_refl [simp]: "alike x x"
  by (simp add: alike_def)

lemma alike_trans: "alike x y \<Longrightarrow> alike y z \<Longrightarrow> alike x z"
  by (simp add: alike_def)

lemma alike_upd [simp]:
  "alike (n_eval_val_sz_update f x) y = alike x y" "alike (n_eval_sz_update f x) y = alike x y"
  by (simp_all add: alike_def)

lemma is_flat_alike: "alike x y \<Longrightarrow> is_flat x = is_flat y"
  by (simp add: is_flat_def IsBufferValid_def alikeD [of x y])

lemma keyed_alike: "alike x y \<Longrightarrow> keyed x = keyed y"
  by (simp add: keyed_def alikeD [of x y])

definition caches_only :: "nat set \<Rightarrow> world \<Rightarrow> world \<Rightarrow> bool" where
  "caches_only S w w' \<longleftrightarrow> w' = w\<lparr>w_nodes := w_nodes w'\<rparr> \<and> (\<forall>n. alike (nd w' n) (nd w n)) \<and>
     (\<forall>n. n \<notin> S \<longrightarrow> nd w' n = nd w n)"

lemma caches_onlyD:
  assumes "caches_only S w w'"
  shows "w_mem w' = w_mem w" "w_count w' = w_count w" "w_ht_next w' = w_ht_next w" "w_free w' = w_free w"
    "alike (nd w' n) (nd w n)" "n \<notin> S \<Longrightarrow> nd w' n = nd w n"
proof -
  have w': "w' = w\<lparr>w_nodes := w_nodes w'\<rparr>" using assms by (simp add: caches_only_def)
  show "w_mem w' = w_mem w" "w_count w' = w_count w" "w_ht_next w' = w_ht_next w" "w_free w' = w_free w"
    by (subst w', simp)+
  show "alike (nd w' n) (nd w n)" "n \<notin> S \<Longrightarrow> nd w' n = nd w n"
    using assms by (simp_all add: caches_only_def)
qed

lemma caches_only_refl [simp]: "caches_only S w w"
  by (simp add: caches_only_def)

lemma caches_only_trans:
  assumes "caches_only S w w'" "caches_only T w' w''"
  shows "caches_only (S \<union> T) w w''"
proof -
  have "w'' = w'\<lparr>w_nodes := w_nodes w''\<rparr>" "w' = w\<lparr>w_nodes := w_nodes w'\<rparr>"
    using assms by (simp_all add: caches_only_def)
  then have "w'' = w\<lparr>w_nodes := w_nodes w''\<rparr>"
    by (metis world.update_convs(1) world.surjective)
  moreover have "alike (nd w'' n) (nd w n)" for n
    using assms alike_trans by (metis caches_only_def)
  ultimately show ?thesis using assms by (simp add: caches_only_def)
qed

lemma caches_only_mono: "caches_only S w w' \<Longrightarrow> S \<subseteq> T \<Longrightarrow> caches_only T w w'"
  by (auto simp: caches_only_def)

lemma nd_upd [simp]: "nd (upd n f w) m = (if m = n then f (nd w n) else nd w m)"
  by (simp add: upd_def)

lemma upd_sel [simp]:
  "w_mem (upd n f w) = w_mem w" "w_count (upd n f w) = w_count w" "w_ht_next (upd n f w) = w_ht_next w"
  "w_free (upd n f w) = w_free w" "w_pool (upd n f w) = w_pool w" "w_errorstr (upd n f w) = w_errorstr w"
  by (simp_all add: upd_def)

lemma caches_only_upd: "alike (f (nd w n)) (nd w n) \<Longrightarrow> n \<in> S \<Longrightarrow> caches_only S w (upd n f w)"
  by (auto simp: caches_only_def upd_def)

text \<open>Two memories that hold the same value and key of a node.\<close>

definition same_data :: "heap \<Rightarrow> heap \<Rightarrow> knv_node \<Rightarrow> bool" where
  "same_data h h' x \<longleftrightarrow> wval_of h' (n_type x) (n_val x) = wval_of h (n_type x) (n_val x) \<and>
     (keyed x \<longrightarrow> wval_of h' (k_type (n_key x)) (key_GetValue h' (n_key x)) =
                wval_of h (k_type (n_key x)) (key_GetValue h (n_key x)))"

lemma same_data_refl [simp]: "same_data h h x"
  by (simp add: same_data_def)

definition same_view :: "world \<Rightarrow> world \<Rightarrow> nat \<Rightarrow> bool" where
  "same_view w w' n \<longleftrightarrow> alike (nd w' n) (nd w n) \<and> same_data (w_heap w) (w_heap w') (nd w n)"

lemma key_part_view: "same_view w w' n \<Longrightarrow> key_part enc w' n = key_part enc w n"
  by (auto simp: key_part_def Let_def same_view_def same_data_def keyed_alike [of "nd w' n" "nd w n"]
      alikeD [of "nd w' n" "nd w n"])

lemma key_skip_view:
  assumes "same_view w w' n" "\<And>m. m \<in> set ms \<Longrightarrow> same_view w w' (rt m)"
  shows "key_skip w' n ms = key_skip w n ms"
proof (cases ms)
  case (Cons m ms')
  then have "alike (nd w' (rt m)) (nd w (rt m))" "alike (nd w' n) (nd w n)" using assms by (auto simp: same_view_def)
  with Cons show ?thesis by (simp add: key_skip_def keyed_alike [of "nd w' n" "nd w n"] alikeD)
qed (simp add: key_skip_def)

text \<open>What a tree stands for depends on its own nodes without their caches, and on the data they point to.\<close>

lemma tree_bytes_view:
  "(\<And>n. n \<in> set (ids t) \<Longrightarrow> same_view w w' n) \<Longrightarrow> tree_bytes enc w' t = tree_bytes enc w t"
proof (induction t)
  case (NT n ms cs)
  have n: "same_view w w' n" using NT.prems by simp
  have "tree_bytes enc w' s = tree_bytes enc w s" if s: "s \<in> set ms \<union> set cs" for s
  proof -
    have "\<And>i. i \<in> set (ids s) \<Longrightarrow> same_view w w' i" using NT.prems ids_sub [OF s] by blast
    with s NT.IH show ?thesis by blast
  qed
  then have ms: "map (tree_bytes enc w') ms = map (tree_bytes enc w) ms" "map (tree_bytes enc w') cs = map (tree_bytes enc w) cs"
    by auto
  have skip: "key_skip w' n ms = key_skip w n ms"
    using n NT.prems rt_in_ids ids_sub by (intro key_skip_view) blast+
  have a: "alike (nd w' n) (nd w n)" using n by (simp add: same_view_def)
  show ?case
    using n by (simp add: is_flat_alike [OF a] alikeD [OF a] key_part_view [OF n] ms skip same_view_def same_data_def
        del: map_eq_conv)
qed

lemma tree_val_view:
  assumes "\<And>n. n \<in> set (ids t) \<Longrightarrow> same_view w w' n"
  shows "tree_val enc w' t = tree_val enc w t"
proof (cases t)
  case (NT n ms cs)
  have n: "same_view w w' n" using assms NT by simp
  have "\<And>s. s \<in> set ms \<union> set cs \<Longrightarrow> tree_bytes enc w' s = tree_bytes enc w s"
    using assms ids_sub unfolding NT by (intro tree_bytes_view) blast
  then have ms: "map (tree_bytes enc w') ms = map (tree_bytes enc w) ms" "map (tree_bytes enc w') cs = map (tree_bytes enc w) cs"
    by auto
  have skip: "key_skip w' n ms = key_skip w n ms"
    using n assms rt_in_ids ids_sub unfolding NT by (intro key_skip_view) blast+
  have a: "alike (nd w' n) (nd w n)" using n by (simp add: same_view_def)
  have "n_type (nd w n) = KNV_NODE \<Longrightarrow> flat_bytes w' n = flat_bytes w n"
    using n alikeD [OF a] by (simp add: same_view_def same_data_def wval_of_def flat_bytes_def)
  then show ?thesis
    using n NT by (simp add: tree_val_def is_flat_alike [OF a] alikeD [OF a] key_part_view [OF n] ms skip del: map_eq_conv)
qed

lemma tree_bytes_cong:
  "(\<And>n. n \<in> set (ids t) \<Longrightarrow> alike (nd w' n) (nd w n)) \<Longrightarrow> w_heap w' = w_heap w \<Longrightarrow>
   tree_bytes enc w' t = tree_bytes enc w t"
  by (rule tree_bytes_view) (simp add: same_view_def)

lemma tree_val_cong:
  "(\<And>n. n \<in> set (ids t) \<Longrightarrow> alike (nd w' n) (nd w n)) \<Longrightarrow> w_heap w' = w_heap w \<Longrightarrow>
   tree_val enc w' t = tree_val enc w t"
  by (rule tree_val_view) (simp add: same_view_def)

lemma sizes_ok_view:
  assumes "\<And>n. n \<in> set (ids t) \<Longrightarrow> nd w' n = nd w n \<and> same_view w w' n"
  shows "sizes_ok enc w' t = sizes_ok enc w t"
proof -
  have "size_ok enc w' s = size_ok enc w s" if "s \<in> set (subtrees t)" for s
    using tree_bytes_view [of s w w' enc] tree_val_view [of s w w' enc] subtrees_ids [OF that] assms rt_in_ids [of s]
    unfolding size_ok_def by (metis subsetD)
  then show ?thesis by (simp add: sizes_ok_def)
qed

lemma sizes_ok_cong:
  assumes "\<And>n. n \<in> set (ids t) \<Longrightarrow> nd w' n = nd w n" "w_heap w' = w_heap w"
  shows "sizes_ok enc w' t = sizes_ok enc w t"
  by (rule sizes_ok_view) (simp add: assms same_view_def)

lemma shape_cong: "(\<And>n. n \<in> set (ids t) \<Longrightarrow> alike (nd w' n) (nd w n)) \<Longrightarrow> shape w' t = shape w t"
proof (induction t)
  case (NT n ms cs)
  have "alike (nd w' n) (nd w n)" using NT.prems by simp
  moreover have "n_parent (nd w' (rt s)) = n_parent (nd w (rt s))" if "s \<in> set ms \<union> set cs" for s
    using NT.prems [of "rt s"] ids_sub [OF that] rt_in_ids [of s] by (blast intro: alikeD)
  moreover have "shape w' s = shape w s" if s: "s \<in> set ms \<union> set cs" for s
  proof -
    have "\<And>i. i \<in> set (ids s) \<Longrightarrow> alike (nd w' i) (nd w i)" using NT.prems(1) ids_sub [OF s] by blast
    with s NT.IH show ?thesis by blast
  qed
  ultimately show ?case by (simp add: node_shape_def alikeD)
qed

lemma tree_ok_cong:
  assumes "\<And>n. n \<in> set (ids t) \<Longrightarrow> alike (nd w' n) (nd w n)"
  shows "tree_ok w' t = tree_ok w t"
proof -
  have "node_ok (nd w' n) = node_ok (nd w n)" if "n \<in> set (ids t)" for n
    using alikeD [OF assms [OF that]] by (simp add: node_ok_def)
  then show ?thesis by (simp add: tree_ok_def shape_cong [OF assms])
qed

lemma tree_ok_sub:
  "tree_ok w (NT n ms cs) \<Longrightarrow> t \<in> set ms \<union> set cs \<Longrightarrow> tree_ok w t"
  by (auto simp: tree_ok_def distinct_concat_iff)

lemma skip_key_rt: "skip_key w k (map rt ms) = map rt (drop (if k \<and> ms \<noteq> [] \<and> n_tag (nd w (rt (hd ms))) = 1 then 1 else 0) ms)"
  by (cases ms) auto

lemma length_ids_sub: "t \<in> set ms \<union> set cs \<Longrightarrow> length (ids t) < length (ids (NT n ms cs))"
proof -
  have "t \<in> set ts \<Longrightarrow> length (ids t) \<le> sum_list (map (length \<circ> ids) ts)" for ts
    by (rule member_le_sum_list) auto
  then show "t \<in> set ms \<union> set cs \<Longrightarrow> length (ids t) < length (ids (NT n ms cs))"
    by (fastforce simp: length_concat)
qed

lemma length_ids_le:
  assumes "tree_ok w t" "\<forall>n \<in> set (ids t). n < w_count w"
  shows "length (ids t) \<le> w_count w"
proof -
  have "length (ids t) = card (set (ids t))" using assms(1) by (simp add: tree_ok_def distinct_card)
  also have "\<dots> \<le> card {..<w_count w}" using assms(2) by (intro card_mono) auto
  finally show ?thesis by simp
qed

section \<open>\<open>EvaluateSize\<close>\<close>

text \<open>What is proved of a call of \<open>EvaluateSize\<close> on one tree.\<close>

definition evaluates :: "(u32 \<Rightarrow> wval \<Rightarrow> byte list) \<Rightarrow> (nat \<Rightarrow> world \<Rightarrow> (int \<times> world) option) \<Rightarrow> world \<Rightarrow> ntree \<Rightarrow> bool" where
  "evaluates enc E w t \<longleftrightarrow> (\<exists>w'. E (rt t) w = Some (int (length (tree_bytes enc w t)), w') \<and>
     caches_only (set (ids t)) w w' \<and> sizes_ok enc w' t \<and> n_eval_sz (nd w' (rt t)) \<ge> 0)"

text \<open>The loop over disjoint trees adds up their sizes and changes nothing else.\<close>

lemma eval_each_ok:
  assumes "\<And>w' t. t \<in> set ts \<Longrightarrow> (\<forall>i \<in> set (ids t). nd w' i = nd w i) \<Longrightarrow> w_heap w' = w_heap w \<Longrightarrow>
       w_count w' = w_count w \<Longrightarrow> evaluates enc E w' t"
    and "distinct (concat (map ids ts))" "n \<notin> set (concat (map ids ts))"
  shows "\<exists>w'. eval_each E n (map rt ts) w = Some w' \<and> caches_only (insert n (set (concat (map ids ts)))) w w' \<and>
     n_eval_val_sz (nd w' n) = n_eval_val_sz (nd w n) + int (length (concat (map (tree_bytes enc w) ts))) \<and>
     n_eval_sz (nd w' n) = n_eval_sz (nd w n) \<and> (\<forall>t \<in> set ts. sizes_ok enc w' t)"
  using assms
proof (induction ts arbitrary: w)
  case Nil
  then show ?case by simp
next
  case (Cons t ts)
  have disj: "set (ids t) \<inter> set (concat (map ids ts)) = {}" "n \<notin> set (ids t)" using Cons.prems(2,3) by auto
  obtain w1 where w1: "E (rt t) w = Some (int (length (tree_bytes enc w t)), w1)"
    "caches_only (set (ids t)) w w1" "sizes_ok enc w1 t"
    using Cons.prems(1) [of t w] by (auto simp: evaluates_def)
  note d1 = caches_onlyD [OF w1(2)]
  let ?w2 = "upd n (n_eval_val_sz_update (\<lambda>x. x + int (length (tree_bytes enc w t)))) w1"
  have keep: "nd ?w2 i = nd w i" if "i \<in> set (concat (map ids ts))" for i
    using that disj Cons.prems(3) d1(6) [of i] by auto
  have "\<exists>w'. eval_each E n (map rt ts) ?w2 = Some w' \<and> caches_only (insert n (set (concat (map ids ts)))) ?w2 w' \<and>
     n_eval_val_sz (nd w' n) = n_eval_val_sz (nd ?w2 n) + int (length (concat (map (tree_bytes enc ?w2) ts))) \<and>
     n_eval_sz (nd w' n) = n_eval_sz (nd ?w2 n) \<and> (\<forall>t \<in> set ts. sizes_ok enc w' t)"
  proof (rule Cons.IH)
    fix w' s
    assume s: "s \<in> set ts" "\<forall>i \<in> set (ids s). nd w' i = nd ?w2 i" "w_heap w' = w_heap ?w2" "w_count w' = w_count ?w2"
    have "\<forall>i \<in> set (ids s). nd w' i = nd w i"
    proof
      fix i
      assume i: "i \<in> set (ids s)"
      with s(1) have "i \<in> set (concat (map ids ts))" by auto
      from keep [OF this] s(2) i show "nd w' i = nd w i" by simp
    qed
    with s d1 show "evaluates enc E w' s" by (intro Cons.prems(1)) simp_all
  qed (use Cons.prems(2,3) in auto)
  then obtain w' where w': "eval_each E n (map rt ts) ?w2 = Some w'"
    "caches_only (insert n (set (concat (map ids ts)))) ?w2 w'"
    "n_eval_val_sz (nd w' n) = n_eval_val_sz (nd ?w2 n) + int (length (concat (map (tree_bytes enc ?w2) ts)))"
    "n_eval_sz (nd w' n) = n_eval_sz (nd ?w2 n)" "\<forall>t \<in> set ts. sizes_ok enc w' t" by blast
  have bytes: "map (tree_bytes enc ?w2) ts = map (tree_bytes enc w) ts"
    using caches_onlyD(5) [OF w1(2)] d1(1) by (auto intro!: tree_bytes_cong)
  have "caches_only (insert n (set (ids t))) w ?w2"
    using caches_only_trans [OF w1(2) caches_only_upd [of _ w1 n "{n}"]] by simp
  from caches_only_trans [OF this w'(2)] have "caches_only (insert n (set (concat (map ids (t # ts))))) w w'"
    by (rule caches_only_mono) auto
  moreover have "nd w' i = nd w1 i" if "i \<in> set (ids t)" for i
    using caches_onlyD(6) [OF w'(2), of i] that disj by auto
  then have "sizes_ok enc w' t"
    using w1(3) sizes_ok_cong [of t w' w1 enc] caches_onlyD(1) [OF w'(2)] by simp
  moreover have "nd ?w2 n = (nd w n)\<lparr>n_eval_val_sz := n_eval_val_sz (nd w n) + int (length (tree_bytes enc w t))\<rparr>"
    using d1(6) [of n] disj by simp
  ultimately show ?case using w1(1) w'(1,3-5) bytes by (auto simp del: nd_upd)
qed

lemma inner_shape:
  assumes "tree_ok w (NT n ms cs)" "\<not> is_flat (nd w n)"
  shows "n_metalist (nd w n) = map rt ms" "n_childlist (nd w n) = map rt cs"
    "skip_key w (keyed (nd w n)) (n_metalist (nd w n)) = map rt (drop (key_skip w n ms) ms)"
    "n_type (nd w n) = KNV_NODE"
  using assms by (auto simp: tree_ok_def node_shape_def is_flat_def skip_key_rt key_skip_def)

lemma tree_ids_disjoint:
  assumes "tree_ok w (NT n ms cs)"
  shows "distinct (concat (map ids (drop j ms)))" "distinct (concat (map ids cs))"
    "n \<notin> set (concat (map ids (drop j ms)))" "n \<notin> set (concat (map ids cs))"
    "set (concat (map ids (drop j ms))) \<inter> set (concat (map ids cs)) = {}"
    "m \<in> set (take j ms) \<Longrightarrow> set (ids m) \<inter> insert n (set (concat (map ids (drop j ms))) \<union> set (concat (map ids cs))) = {}"
proof -
  let ?a = "concat (map ids (take j ms))" and ?b = "concat (map ids (drop j ms))"
  have "concat (map ids ms) = ?a @ ?b" by (metis append_take_drop_id concat_append map_append)
  with assms have "distinct (n # (?a @ ?b) @ concat (map ids cs))" by (simp add: tree_ok_def)
  then show "distinct ?b" "distinct (concat (map ids cs))" "n \<notin> set ?b" "n \<notin> set (concat (map ids cs))"
    "set ?b \<inter> set (concat (map ids cs)) = {}"
    "m \<in> set (take j ms) \<Longrightarrow> set (ids m) \<inter> insert n (set ?b \<union> set (concat (map ids cs))) = {}"
    by auto
qed

lemma eval_lists:
  assumes ok: "tree_ok w (NT n ms cs)" and sizes: "sizes_ok enc w (NT n ms cs)"
    and ev: "\<And>s w'. s \<in> set (drop j ms) \<union> set cs \<Longrightarrow> (\<forall>i \<in> set (ids s). nd w' i = nd w i) \<Longrightarrow>
       w_heap w' = w_heap w \<Longrightarrow> evaluates enc E w' s"
    and c0: "caches_only {n} w w0"
  shows "\<exists>w1 w2. eval_each E n (map rt (drop j ms)) w0 = Some w1 \<and> eval_each E n (map rt cs) w1 = Some w2 \<and>
     caches_only (set (ids (NT n ms cs))) w w2 \<and> (\<forall>s \<in> set ms \<union> set cs. sizes_ok enc w2 s) \<and>
     n_eval_val_sz (nd w2 n) = n_eval_val_sz (nd w0 n) +
       int (length (concat (drop j (map (tree_bytes enc w) ms)) @ concat (map (tree_bytes enc w) cs)))"
proof -
  let ?ms = "drop j ms" and ?I = "\<lambda>ts. set (concat (map ids ts))"
  note dis = tree_ids_disjoint(1,3,5,6) [OF ok, where j = j] tree_ids_disjoint(2,4) [OF ok]
  have "\<exists>w1. eval_each E n (map rt ?ms) w0 = Some w1 \<and> caches_only (insert n (?I ?ms)) w0 w1 \<and>
     n_eval_val_sz (nd w1 n) = n_eval_val_sz (nd w0 n) + int (length (concat (map (tree_bytes enc w0) ?ms))) \<and>
     n_eval_sz (nd w1 n) = n_eval_sz (nd w0 n) \<and> (\<forall>t \<in> set ?ms. sizes_ok enc w1 t)"
  proof (intro eval_each_ok ev)
    fix w' s
    assume s: "s \<in> set ?ms" "\<forall>i \<in> set (ids s). nd w' i = nd w0 i" "w_heap w' = w_heap w0"
    then have "n \<notin> set (ids s)" using dis(2) by auto
    then have "\<forall>i \<in> set (ids s). nd w0 i = nd w i" using caches_onlyD(6) [OF c0] by (metis singletonD)
    with s caches_onlyD(1) [OF c0] show "\<forall>i \<in> set (ids s). nd w' i = nd w i" "w_heap w' = w_heap w" by simp_all
  qed (use dis in auto)
  then obtain w1 where w1: "eval_each E n (map rt ?ms) w0 = Some w1" "caches_only (insert n (?I ?ms)) w0 w1"
     "n_eval_val_sz (nd w1 n) = n_eval_val_sz (nd w0 n) + int (length (concat (map (tree_bytes enc w0) ?ms)))"
     "\<forall>t \<in> set ?ms. sizes_ok enc w1 t" by blast
  have c1: "caches_only (insert n (?I ?ms)) w w1" using caches_only_trans [OF c0 w1(2)] by simp
  have "\<exists>w2. eval_each E n (map rt cs) w1 = Some w2 \<and> caches_only (insert n (?I cs)) w1 w2 \<and>
     n_eval_val_sz (nd w2 n) = n_eval_val_sz (nd w1 n) + int (length (concat (map (tree_bytes enc w1) cs))) \<and>
     n_eval_sz (nd w2 n) = n_eval_sz (nd w1 n) \<and> (\<forall>t \<in> set cs. sizes_ok enc w2 t)"
  proof (intro eval_each_ok ev)
    fix w' s
    assume s: "s \<in> set cs" "\<forall>i \<in> set (ids s). nd w' i = nd w1 i" "w_heap w' = w_heap w1"
    then have "set (ids s) \<inter> insert n (?I ?ms) = {}" using dis(3,6) by auto
    then have "\<forall>i \<in> set (ids s). nd w1 i = nd w i" using caches_onlyD(6) [OF c1] by blast
    with s caches_onlyD(1) [OF c1] show "\<forall>i \<in> set (ids s). nd w' i = nd w i" "w_heap w' = w_heap w" by simp_all
  qed (use dis in auto)
  then obtain w2 where w2: "eval_each E n (map rt cs) w1 = Some w2" "caches_only (insert n (?I cs)) w1 w2"
     "n_eval_val_sz (nd w2 n) = n_eval_val_sz (nd w1 n) + int (length (concat (map (tree_bytes enc w1) cs)))"
     "\<forall>t \<in> set cs. sizes_ok enc w2 t" by blast
  have c2: "caches_only (insert n (?I ?ms \<union> ?I cs)) w w2"
    using caches_only_trans [OF c1 w2(2)] by (rule caches_only_mono) auto
  have "sizes_ok enc w2 s" if "s \<in> set ms" for s
  proof (cases "s \<in> set ?ms")
    case True
    with dis(2,3) have "set (ids s) \<inter> insert n (?I cs) = {}" by auto
    then have "\<And>i. i \<in> set (ids s) \<Longrightarrow> nd w2 i = nd w1 i" using caches_onlyD(6) [OF w2(2)] by blast
    with True w1(4) caches_onlyD(1) [OF w2(2)] show ?thesis by (subst sizes_ok_cong [where w = w1]) auto
  next
    case False
    with that have "s \<in> set (take j ms)" by (metis Un_iff append_take_drop_id set_append)
    from dis(4) [OF this] caches_onlyD(6) [OF c2] have "\<And>i. i \<in> set (ids s) \<Longrightarrow> nd w2 i = nd w i" by blast
    with that sizes caches_onlyD(1) [OF c2] show ?thesis by (subst sizes_ok_cong [where w = w]) (auto simp: sizes_ok_NT)
  qed
  moreover have "set (ids (NT n ms cs)) \<supseteq> insert n (?I ?ms \<union> ?I cs)" by (auto dest: in_set_dropD)
  moreover have "map (tree_bytes enc w0) ?ms = map (tree_bytes enc w) ?ms" "map (tree_bytes enc w1) cs = map (tree_bytes enc w) cs"
    using caches_onlyD(1,5) [OF c0] caches_onlyD(1,5) [OF c1] by (auto intro!: tree_bytes_cong)
  ultimately show ?thesis
    using w1(1,3) w2(1,3,4) caches_only_mono [OF c2] by (auto simp: drop_map simp del: map_eq_conv ids.simps)
qed

context knv_codec
begin

lemma length_enc_string: "length (enc t (WString bs)) = length (head t (of_nat (length bs))) + length bs"
  by (simp add: enc_string)

text \<open>The evaluated length of a string field depends on the length of the string only.\<close>

lemma eval_string_length:
  assumes "length (enc t (WString bs)) < 2 ^ 31"
  shows "knv_eval_field_length g t KNV_STRING (str_value (word_of_int (int (length bs))) NULL) = int (length (enc t (WString bs)))"
proof -
  let ?v = "str_value (word_of_int (int (length bs))) NULL"
  have "length bs < 2 ^ 31" using assms by (simp add: length_enc_string)
  then have "unat (v_len ?v) = length bs" by (simp add: unat_of_nat)
  then have "length (enc t (wval_of h KNV_STRING ?v)) = length (enc t (WString bs))" for h
    by (simp add: wval_of_def length_enc_string)
  with eval_field_length [of KNV_STRING t _ ?v] assms show ?thesis by (simp add: named_type_def)
qed

lemma flat_eval:
  assumes "node_ok (nd w n)" "is_flat (nd w n)" "length (tree_bytes enc w (NT n ms cs)) < 2 ^ 31"
  shows "knv_eval_field_length g (n_tag (nd w n)) (n_type (nd w n)) (n_val (nd w n)) =
       int (length (tree_bytes enc w (NT n ms cs)))"
    and "n_type (nd w n) = KNV_NODE \<Longrightarrow> to_int32 (uint (v_len (n_val (nd w n)))) = int (length (flat_bytes w n))"
proof -
  show "knv_eval_field_length g (n_tag (nd w n)) (n_type (nd w n)) (n_val (nd w n)) =
       int (length (tree_bytes enc w (NT n ms cs)))"
    using assms by (simp add: node_ok_def eval_field_length)
  assume ty: "n_type (nd w n) = KNV_NODE"
  have "tree_bytes enc w (NT n ms cs) = enc (n_tag (nd w n)) (WString (flat_bytes w n))"
    using assms(2) ty by (simp add: wval_of_def flat_bytes_def)
  with assms(3) have "unat (v_len (n_val (nd w n))) < 2 ^ 31" by (simp add: length_enc_string flat_bytes_def)
  then show "to_int32 (uint (v_len (n_val (nd w n)))) = int (length (flat_bytes w n))"
    using to_int32_nat [of "unat (v_len (n_val (nd w n)))"] by (simp add: flat_bytes_def)
qed

lemma inner_bytes:
  "\<not> is_flat (nd w n) \<Longrightarrow> tree_bytes enc w (NT n ms cs) = enc (n_tag (nd w n)) (WString (tree_val enc w (NT n ms cs)))"
  by (simp add: tree_val_def)

lemma length_sub_bytes:
  assumes "\<not> is_flat (nd w n)" "t \<in> set (drop (key_skip w n ms) ms) \<union> set cs"
  shows "length (tree_bytes enc w t) \<le> length (tree_val enc w (NT n ms cs))"
    and "length (tree_bytes enc w t) \<le> length (tree_bytes enc w (NT n ms cs))"
proof -
  have le: "s \<in> set ts \<Longrightarrow> length (tree_bytes enc w s) \<le> length (concat (map (tree_bytes enc w) ts))" for s ts
    by (simp add: length_concat comp_def member_le_sum_list)
  show 1: "length (tree_bytes enc w t) \<le> length (tree_val enc w (NT n ms cs))"
    using assms le [of t "drop (key_skip w n ms) ms"] le [of t cs] by (auto simp: tree_val_def drop_map)
  then show "length (tree_bytes enc w t) \<le> length (tree_bytes enc w (NT n ms cs))"
    unfolding inner_bytes [OF assms(1)] length_enc_string by simp
qed

lemma key_eval:
  assumes "node_ok (nd w n)" "keyed (nd w n)" "length (key_part enc w n) < 2 ^ 31"
  shows "knv_eval_field_length g 1 (k_type (n_key (nd w n))) (key_GetValue (w_heap w) (n_key (nd w n))) =
     int (length (key_part enc w n))"
  using assms by (simp add: key_part_def Let_def node_ok_def eval_field_length)

lemma eval_inner:
  assumes ok: "tree_ok w (NT n ms cs)" and sizes: "sizes_ok enc w (NT n ms cs)"
    and inner: "\<not> is_flat (nd w n)" and fresh: "n_eval_sz (nd w n) < 0"
    and len: "length (tree_bytes enc w (NT n ms cs)) < 2 ^ 31"
    and ev: "\<And>s w'. s \<in> set (drop (key_skip w n ms) ms) \<union> set cs \<Longrightarrow> (\<forall>i \<in> set (ids s). nd w' i = nd w i) \<Longrightarrow>
       w_heap w' = w_heap w \<Longrightarrow> evaluates enc (EvaluateSize_n g k) w' s"
  shows "evaluates enc (EvaluateSize_n g (Suc k)) w (NT n ms cs)"
proof -
  let ?t = "NT n ms cs" and ?x = "nd w n" and ?ms = "drop (key_skip w n ms) ms"
  note shp = inner_shape [OF ok inner]
  have nok: "node_ok ?x" using ok by (simp add: tree_ok_def)
  have val: "length (tree_val enc w ?t) < 2 ^ 31" using len unfolding inner_bytes [OF inner] length_enc_string by simp
  define kb where "kb = (if keyed ?x then knv_eval_field_length g 1 (k_type (n_key ?x)) (key_GetValue (w_heap w) (n_key ?x)) else 0)"
  have kb: "kb = int (length (key_part enc w n))"
    using val inner key_eval [OF nok] unfolding kb_def by (auto simp: tree_val_def key_part_def [of enc w n])
  let ?w0 = "upd n (n_eval_val_sz_update (\<lambda>_. kb)) w"
  have c0: "caches_only {n} w ?w0" by (rule caches_only_upd) simp_all
  have skip: "skip_key ?w0 (keyed ?x) (n_metalist ?x) = map rt ?ms"
    unfolding shp(3) [symmetric] by (cases "n_metalist ?x") auto
  obtain w1 w2 where w: "eval_each (EvaluateSize_n g k) n (map rt ?ms) ?w0 = Some w1"
      "eval_each (EvaluateSize_n g k) n (map rt cs) w1 = Some w2" "caches_only (set (ids ?t)) w w2"
      "\<forall>s \<in> set ms \<union> set cs. sizes_ok enc w2 s" "n_eval_val_sz (nd w2 n) = int (length (tree_val enc w ?t))"
  proof -
    have "tree_val enc w ?t = key_part enc w n @ concat (drop (key_skip w n ms) (map (tree_bytes enc w) ms)) @
        concat (map (tree_bytes enc w) cs)" using inner by (simp add: tree_val_def)
    then have "int (length (tree_val enc w ?t)) = n_eval_val_sz (nd ?w0 n) +
        int (length (concat (drop (key_skip w n ms) (map (tree_bytes enc w) ms)) @ concat (map (tree_bytes enc w) cs)))"
      using kb by simp
    moreover have "\<exists>w1 w2. eval_each (EvaluateSize_n g k) n (map rt ?ms) ?w0 = Some w1 \<and>
        eval_each (EvaluateSize_n g k) n (map rt cs) w1 = Some w2 \<and> caches_only (set (ids ?t)) w w2 \<and>
        (\<forall>s \<in> set ms \<union> set cs. sizes_ok enc w2 s) \<and> n_eval_val_sz (nd w2 n) = n_eval_val_sz (nd ?w0 n) +
        int (length (concat (drop (key_skip w n ms) (map (tree_bytes enc w) ms)) @ concat (map (tree_bytes enc w) cs)))"
      by (rule eval_lists [OF ok sizes _ c0]) (rule ev)
    ultimately show ?thesis by (elim exE conjE, intro that) (simp_all only: simp_thms)
  qed
  let ?sz = "knv_eval_field_length g (n_tag ?x) (n_type ?x) (str_value (word_of_int (n_eval_val_sz (nd w2 n))) NULL)"
  let ?w3 = "upd n (n_eval_sz_update (\<lambda>_. ?sz)) w2"
  have sz: "?sz = int (length (tree_bytes enc w ?t))"
    using eval_string_length len unfolding w(5) shp(4) inner_bytes [OF inner] by simp
  have c3: "caches_only (set (ids ?t)) w ?w3"
    using caches_only_trans [OF w(3) caches_only_upd [of _ w2 n "set (ids ?t)"]] by simp
  have cong: "tree_bytes enc ?w3 ?t = tree_bytes enc w ?t" "tree_val enc ?w3 ?t = tree_val enc w ?t"
    using caches_onlyD(1,5) [OF c3] by (auto intro!: tree_bytes_cong tree_val_cong simp del: tree_bytes.simps)
  have "size_ok enc ?w3 ?t"
    unfolding size_ok_def cong using sz w(5) by simp
  moreover have "sizes_ok enc ?w3 s" if "s \<in> set ms \<union> set cs" for s
  proof -
    have "n \<notin> set (ids s)" using ok that by (auto simp: tree_ok_def)
    then show ?thesis using w(4) that by (subst sizes_ok_cong [where w = w2]) auto
  qed
  ultimately have "sizes_ok enc ?w3 ?t" by (simp add: sizes_ok_NT)
  moreover have "EvaluateSize_n g (Suc k) n w = Some (?sz, ?w3)"
    using fresh inner w(1,2) shp(2) skip by (simp add: Let_def kb_def [symmetric])
  ultimately show ?thesis using c3 sz unfolding evaluates_def by (intro exI [of _ ?w3]) simp
qed

lemma EvaluateSize_n_ok:
  "tree_ok w t \<Longrightarrow> sizes_ok enc w t \<Longrightarrow> length (tree_bytes enc w t) < 2 ^ 31 \<Longrightarrow> length (ids t) \<le> k \<Longrightarrow>
   evaluates enc (EvaluateSize_n g k) w t"
proof (induction t arbitrary: k w)
  case (NT n ms cs)
  let ?t = "NT n ms cs" and ?x = "nd w n"
  obtain k' where k: "k = Suc k'" using NT.prems(4) by (cases k) auto
  have ok: "node_ok ?x" and n: "n \<notin> set (concat (map ids ms))" "n \<notin> set (concat (map ids cs))"
    and d: "distinct (concat (map ids ms))" "distinct (concat (map ids cs))"
      "set (concat (map ids ms)) \<inter> set (concat (map ids cs)) = {}"
    using NT.prems(1) by (auto simp: tree_ok_def)
  show ?case
  proof (cases "n_eval_sz ?x \<ge> 0")
    case True
    with NT.prems(2) have "n_eval_sz ?x = int (length (tree_bytes enc w ?t))"
      by (simp add: sizes_ok_NT size_ok_def)
    with True NT.prems(2) show ?thesis by (auto simp: evaluates_def k Let_def simp del: tree_bytes.simps)
  next
    case fresh: False
    show ?thesis
    proof (cases "is_flat ?x")
      case True
      let ?sz = "knv_eval_field_length g (n_tag ?x) (n_type ?x) (n_val ?x)"
      let ?w = "upd n (\<lambda>x. x\<lparr>n_eval_sz := ?sz,
          n_eval_val_sz := (if n_type x \<noteq> KNV_NODE then 0 else to_int32 (uint (v_len (n_val x))))\<rparr>) w"
      have c: "caches_only (set (ids ?t)) w ?w" by (rule caches_only_upd) simp_all
      note cong = tree_bytes_cong [of ?t ?w w enc, OF caches_onlyD(5) [OF c]]
        tree_val_cong [of ?t ?w w enc, OF caches_onlyD(5) [OF c]]
      have "size_ok enc ?w ?t"
        unfolding size_ok_def using cong flat_eval [OF ok True NT.prems(3)] True
        by (simp add: tree_val_def)
      moreover have "sizes_ok enc ?w s" if s: "s \<in> set ms \<union> set cs" for s
      proof -
        have "n \<notin> set (ids s)" using n s by auto
        with NT.prems(2) s show ?thesis by (subst sizes_ok_cong [where w = w]) (auto simp: sizes_ok_NT)
      qed
      ultimately have "sizes_ok enc ?w ?t" by (simp add: sizes_ok_NT)
      with c fresh True flat_eval(1) [OF ok True NT.prems(3)] show ?thesis
        by (auto simp: evaluates_def k Let_def)
    next
      case inner: False
      have "evaluates enc (EvaluateSize_n g k') w' s"
        if s: "s \<in> set (drop (key_skip w n ms) ms) \<union> set cs" "\<forall>i \<in> set (ids s). nd w' i = nd w i" "w_heap w' = w_heap w"
        for s w'
      proof -
        have sub: "s \<in> set ms \<union> set cs" using s(1) by (auto dest: in_set_dropD)
        have "tree_ok w' s" "sizes_ok enc w' s" "tree_bytes enc w' s = tree_bytes enc w s"
          using tree_ok_sub [OF NT.prems(1) sub] NT.prems(2) sub s(2,3) tree_ok_cong [of s w' w]
            sizes_ok_cong [of s w' w enc] tree_bytes_cong [of s w' w enc] by (auto simp: sizes_ok_NT)
        moreover have "length (ids s) \<le> k'" using length_ids_sub [OF sub, of n] NT.prems(4) k by linarith
        moreover have "length (tree_bytes enc w s) < 2 ^ 31"
          using length_sub_bytes(2) [OF inner s(1)] NT.prems(3) by linarith
        ultimately show ?thesis using sub NT.IH by fastforce
      qed
      with NT.prems inner fresh show ?thesis unfolding k by (intro eval_inner) auto
    qed
  qed
qed

end

end
