(* ===== verification/Knv_Serial.thy ===== *)
theory Knv_Serial
  imports Knv_Tree
begin

text \<open>
  \<open>Serialize\<close> writes what the tree stands for: the bytes of \<open>tree_bytes\<close> (with header) or \<open>tree_val\<close> (value
  only), for every state of the caches and the dirty flags, and changes nothing but the buffer and
  the caches of the tree.
\<close>

section \<open>Writing apart from the tree\<close>

text \<open>The buffer is in no block the tree reads its values and keys from.\<close>

definition node_apart :: "ptr \<Rightarrow> knv_node \<Rightarrow> bool" where
  "node_apart p x \<longleftrightarrow> (n_type x = KNV_STRING \<longrightarrow> ptr_blk (v_data (n_val x)) \<noteq> ptr_blk p \<or> v_len (n_val x) = 0) \<and>
     (keyed x \<longrightarrow> ptr_blk (k_val (n_key x)) \<noteq> ptr_blk p)"

definition apart :: "world \<Rightarrow> ptr \<Rightarrow> ntree \<Rightarrow> bool" where
  "apart w p t \<longleftrightarrow> (\<forall>n \<in> set (ids t). node_apart p (nd w n))"

lemma apart_ptr_add [simp]: "apart w (ptr_add p n) t = apart w p t"
  by (simp add: apart_def node_apart_def)

lemma node_apart_alike: "alike x y \<Longrightarrow> node_apart p x = node_apart p y"
  by (simp add: node_apart_def keyed_alike [of x y] alikeD)

lemma apart_cong: "(\<And>n. n \<in> set (ids t) \<Longrightarrow> alike (nd w' n) (nd w n)) \<Longrightarrow> apart w' p t = apart w p t"
  using node_apart_alike [of "nd w' _" "nd w _" p] by (auto simp: apart_def)

lemma same_data_store:
  assumes "node_apart p x" "node_ok x" "ptr_blk q = ptr_blk p"
  shows "same_data h (store_bytes h q bs) x"
proof -
  have "bytes_at (store_bytes h q bs) (k_val (n_key x)) k = bytes_at h (k_val (n_key x)) k" if "keyed x" for k
    using assms that by (intro bytes_at_store_other_blk) (auto simp: node_apart_def)
  then have "wval_of (store_bytes h q bs) (k_type (n_key x)) (key_GetValue (store_bytes h q bs) (n_key x)) =
      wval_of h (k_type (n_key x)) (key_GetValue h (n_key x))" if "keyed x"
    using that assms(2)
    by (cases "k_type (n_key x)") (simp_all add: wval_of_def key_GetValue_def key_GetIntVal_def node_ok_def named_type_def)
  moreover have "wval_of (store_bytes h q bs) (n_type x) (n_val x) = wval_of h (n_type x) (n_val x)"
    using assms by (cases "n_type x") (auto simp: wval_of_def node_apart_def node_ok_def named_type_def
        intro!: bytes_at_store_other_blk)
  ultimately show ?thesis by (simp add: same_data_def)
qed

lemma set_heap_sel [simp]:
  "w_nodes (set_heap h w) = w_nodes w" "w_heap (set_heap h w) = h" "w_count (set_heap h w) = w_count w"
  "set_heap h (set_heap h' w) = set_heap h w" "set_heap (w_heap w) w = w"
  by (simp_all add: set_heap_def)

lemma set_heap_upd: "set_heap h (upd n f w) = upd n f (set_heap h w)"
  by (simp add: set_heap_def upd_def)

lemma caches_only_set_heap:
  assumes "caches_only S w w'"
  shows "caches_only S (set_heap h w) (set_heap h w')"
proof -
  have "w' = w\<lparr>w_nodes := w_nodes w'\<rparr>" using assms by (simp add: caches_only_def)
  then have "set_heap h w' = set_heap h (w\<lparr>w_nodes := w_nodes w'\<rparr>)" by simp
  also have "\<dots> = (set_heap h w)\<lparr>w_nodes := w_nodes w'\<rparr>" by (simp add: set_heap_def)
  finally show ?thesis using assms by (simp add: caches_only_def)
qed

text \<open>A change of the caches on top of a write, and another one on top of that.\<close>

lemma caches_only_write_trans:
  assumes "caches_only S (set_heap h1 w) w1" "caches_only T (set_heap h2 w1) w2"
  shows "caches_only (S \<union> T) (set_heap h2 w) w2"
  using caches_only_trans [OF caches_only_set_heap [OF assms(1), of h2] assms(2)] by simp

text \<open>The whole precondition on a tree that is to be serialized to \<open>p\<close>.\<close>

definition ready :: "(u32 \<Rightarrow> wval \<Rightarrow> byte list) \<Rightarrow> world \<Rightarrow> ptr \<Rightarrow> ntree \<Rightarrow> bool" where
  "ready enc w p t \<longleftrightarrow> tree_ok w t \<and> sizes_ok enc w t \<and> apart w p t \<and> length (ids t) \<le> w_count w"

lemma ready_ptr_add [simp]: "ready enc w (ptr_add p n) t = ready enc w p t"
  by (simp add: ready_def)

lemma ready_sub: "ready enc w p (NT n ms cs) \<Longrightarrow> t \<in> set ms \<union> set cs \<Longrightarrow> ready enc w p t"
  using tree_ok_sub [of w n ms cs t] length_ids_sub [of t ms cs n] ids_sub [of t ms cs n]
  by (auto simp: ready_def sizes_ok_NT apart_def)

text \<open>A tree that had no part in a step that wrote to the buffer and changed caches is still ready.\<close>

lemma ready_step:
  assumes "ready enc w p t" "caches_only S (set_heap (store_bytes (w_heap w) q bs) w) w'"
    and "set (ids t) \<inter> S = {}" "ptr_blk q = ptr_blk p"
  shows "ready enc w' p t \<and> tree_bytes enc w' t = tree_bytes enc w t"
proof -
  note c = caches_onlyD [OF assms(2), simplified]
  have view: "nd w' n = nd w n \<and> same_view w w' n" if n: "n \<in> set (ids t)" for n
  proof -
    have "nd w' n = nd w n" using c(6) [of n] n assms(3) by blast
    moreover have "same_data (w_heap w) (store_bytes (w_heap w) q bs) (nd w n)"
      using assms(1,4) n by (intro same_data_store [of p]) (auto simp: ready_def apart_def tree_ok_def)
    ultimately show ?thesis using caches_onlyD(1) [OF assms(2)] by (simp add: same_view_def set_heap_def)
  qed
  have al: "\<And>n. n \<in> set (ids t) \<Longrightarrow> alike (nd w' n) (nd w n)" using view by simp
  show ?thesis
    using assms(1) view tree_ok_cong [OF al] sizes_ok_view [of t w' w enc] apart_cong [OF al]
      tree_bytes_view [of t w w' enc] c(2) by (auto simp: ready_def)
qed

lemma ready_again:
  assumes "ready enc w p t" "caches_only S (set_heap h w) w'" "sizes_ok enc w' t"
  shows "ready enc w' p t"
proof -
  have al: "\<And>n. alike (nd w' n) (nd w n)" using caches_onlyD(5) [OF assms(2)] by simp
  show ?thesis
    using assms(1,3) tree_ok_cong [of t w' w] apart_cong [of t w' w p] al caches_onlyD(2) [OF assms(2)]
    by (simp add: ready_def)
qed

section \<open>The loop over the parts of a node\<close>

definition serializes ::
  "(u32 \<Rightarrow> wval \<Rightarrow> byte list) \<Rightarrow> (nat \<Rightarrow> ptr \<Rightarrow> int \<Rightarrow> world \<Rightarrow> (int \<times> int \<times> world) option) \<Rightarrow> ntree \<Rightarrow> bool" where
  "serializes enc S t \<longleftrightarrow> (\<forall>w p len. ready enc w p t \<longrightarrow> 0 \<le> len \<longrightarrow> len < 2 ^ 31 \<longrightarrow> valid_region (w_heap w) p (nat len) \<longrightarrow>
     length (tree_bytes enc w t) \<le> nat len \<longrightarrow>
     (\<exists>w'. S (rt t) p len w = Some (0, int (length (tree_bytes enc w t)), w') \<and> sizes_ok enc w' t \<and>
        caches_only (set (ids t)) (set_heap (store_bytes (w_heap w) p (tree_bytes enc w t)) w) w'))"

lemma serializesD:
  assumes "serializes enc S t" "ready enc w p t" "0 \<le> len" "len < 2 ^ 31" "valid_region (w_heap w) p (nat len)"
    and "length (tree_bytes enc w t) \<le> nat len"
  obtains w' where "S (rt t) p len w = Some (0, int (length (tree_bytes enc w t)), w')" "sizes_ok enc w' t"
    "caches_only (set (ids t)) (set_heap (store_bytes (w_heap w) p (tree_bytes enc w t)) w) w'"
  using assms unfolding serializes_def by blast

lemma ser_each_ok:
  assumes "\<And>t. t \<in> set ts \<Longrightarrow> serializes enc S t" "\<And>t. t \<in> set ts \<Longrightarrow> ready enc w buf t"
    and "distinct (concat (map ids ts))" "0 \<le> cur" "len < 2 ^ 31" "valid_region (w_heap w) buf (nat len)"
    and "nat cur + length (concat (map (tree_bytes enc w) ts)) \<le> nat len" "0 \<le> len"
  shows "\<exists>w'. ser_each S n code buf len (map rt ts) cur w =
       Some (0, cur + int (length (concat (map (tree_bytes enc w) ts))), w') \<and> (\<forall>t \<in> set ts. sizes_ok enc w' t) \<and>
     caches_only (set (concat (map ids ts)))
       (set_heap (store_bytes (w_heap w) (ptr_add buf (nat cur)) (concat (map (tree_bytes enc w) ts))) w) w'"
  using assms
proof (induction ts arbitrary: w cur)
  case Nil
  then show ?case by simp
next
  case (Cons t ts)
  let ?p = "ptr_add buf (nat cur)" and ?b = "tree_bytes enc w t" and ?r = "concat (map (tree_bytes enc w) ts)"
  have fit: "nat cur + (length ?b + length ?r) \<le> nat len" using Cons.prems(7) by simp
  have reg: "valid_region (w_heap w) ?p (nat (len - cur))"
  proof (rule valid_region_add)
    have "nat cur + nat (len - cur) = nat len" using Cons.prems(4) fit by linarith
    then show "valid_region (w_heap w) buf (nat cur + nat (len - cur))" using Cons.prems(6) by simp
  qed
  obtain w1 where w1: "S (rt t) ?p (len - cur) w = Some (0, int (length ?b), w1)" "sizes_ok enc w1 t"
    "caches_only (set (ids t)) (set_heap (store_bytes (w_heap w) ?p ?b) w) w1"
  proof (rule serializesD)
    show "serializes enc S t" using Cons.prems(1) by simp
    show "ready enc w ?p t" using Cons.prems(2) by simp
  qed (use Cons.prems(4,5,8) fit reg in auto)
  have disj: "set (ids s) \<inter> set (ids t) = {}" if "s \<in> set ts" for s using Cons.prems(3) that by auto
  have step: "ready enc w1 buf s \<and> tree_bytes enc w1 s = tree_bytes enc w s" if "s \<in> set ts" for s
    using Cons.prems(2) that by (intro ready_step [OF _ w1(3) disj [OF that]]) simp_all
  then have eq: "map (tree_bytes enc w1) ts = map (tree_bytes enc w) ts" by simp
  have heap: "w_heap w1 = store_bytes (w_heap w) ?p ?b" using caches_onlyD(1) [OF w1(3)] by (simp add: set_heap_def)
  have reg': "valid_region (w_heap w) ?p (length ?b + length ?r)"
    using reg fit Cons.prems(4) by (elim valid_region_mono) linarith
  have "\<exists>w'. ser_each S n code buf len (map rt ts) (cur + int (length ?b)) w1 =
       Some (0, cur + int (length ?b) + int (length (concat (map (tree_bytes enc w1) ts))), w') \<and> (\<forall>t \<in> set ts. sizes_ok enc w' t) \<and>
     caches_only (set (concat (map ids ts)))
       (set_heap (store_bytes (w_heap w1) (ptr_add buf (nat (cur + int (length ?b)))) (concat (map (tree_bytes enc w1) ts))) w1) w'"
  proof (rule Cons.IH)
    show "valid_region (w_heap w1) buf (nat len)"
      unfolding heap using Cons.prems(6) valid_region_mono [OF reg'] by (subst valid_region_store_bytes) auto
    show "nat (cur + int (length ?b)) + length (concat (map (tree_bytes enc w1) ts)) \<le> nat len"
      unfolding eq using fit Cons.prems(4) by (simp add: nat_add_distrib)
  qed (use Cons.prems(1,3,4,5,8) step in auto)
  then obtain w' where w': "ser_each S n code buf len (map rt ts) (cur + int (length ?b)) w1 =
       Some (0, cur + int (length ?b) + int (length ?r), w')" "\<forall>t \<in> set ts. sizes_ok enc w' t"
     "caches_only (set (concat (map ids ts)))
       (set_heap (store_bytes (w_heap w1) (ptr_add buf (nat (cur + int (length ?b)))) ?r) w1) w'"
    unfolding eq by blast
  have "store_bytes (w_heap w1) (ptr_add buf (nat (cur + int (length ?b)))) ?r = store_bytes (w_heap w) ?p (?b @ ?r)"
    using store_bytes_append [OF reg'] Cons.prems(4) by (simp add: heap nat_add_distrib)
  with caches_only_write_trans [OF w1(3) w'(3)]
  have "caches_only (set (concat (map ids (t # ts)))) (set_heap (store_bytes (w_heap w) ?p (?b @ ?r)) w) w'" by simp
  moreover have "sizes_ok enc w' t"
  proof -
    have "ready enc w1 buf t" using Cons.prems(2) w1 by (intro ready_again [OF _ w1(3)]) auto
    moreover have "set (ids t) \<inter> set (concat (map ids ts)) = {}" using disj by auto
    ultimately have "ready enc w' buf t" using ready_step [OF _ w'(3)] by (metis ptr_blk_add)
    then show ?thesis by (simp add: ready_def)
  qed
  ultimately show ?case using w1(1) w'(1,2) by (simp add: algebra_simps)
qed

text \<open>Both loops of a node: the metas from position \<open>j\<close> on, then the children.\<close>

lemma ser_parts:
  fixes enc ms cs w j
  defines "mb \<equiv> concat (drop j (map (tree_bytes enc w) ms))" and "cb \<equiv> concat (map (tree_bytes enc w) cs)"
  assumes ready: "ready enc w p (NT n ms cs)" and S: "\<And>s. s \<in> set ms \<union> set cs \<Longrightarrow> serializes enc S s"
    and cur: "0 \<le> cur" "0 \<le> len" "len < 2 ^ 31" "valid_region (w_heap w) p (nat len)"
      "nat cur + length (mb @ cb) \<le> nat len"
  shows "\<exists>w1 w2. ser_each S n (-8) p len (map rt (drop j ms)) cur w = Some (0, cur + int (length mb), w1) \<and>
     ser_each S n (-9) p len (map rt cs) (cur + int (length mb)) w1 = Some (0, cur + int (length (mb @ cb)), w2) \<and>
     (\<forall>s \<in> set ms \<union> set cs. sizes_ok enc w2 s) \<and>
     caches_only (set (concat (map ids (drop j ms))) \<union> set (concat (map ids cs)))
       (set_heap (store_bytes (w_heap w) (ptr_add p (nat cur)) (mb @ cb)) w) w2"
proof -
  let ?ms = "drop j ms" and ?I = "\<lambda>ts. set (concat (map ids ts))" and ?p = "ptr_add p (nat cur)"
  have ok: "tree_ok w (NT n ms cs)" using ready by (simp add: ready_def)
  note dis = tree_ids_disjoint(1,3,5,6) [OF ok, where j = j] tree_ids_disjoint(2,4) [OF ok]
  have mb: "concat (map (tree_bytes enc w) ?ms) = mb" by (simp add: mb_def drop_map)
  have rdy: "ready enc w p s" if "s \<in> set ms \<union> set cs" for s using ready_sub [OF ready that] .
  have "\<exists>w1. ser_each S n (-8) p len (map rt ?ms) cur w =
       Some (0, cur + int (length (concat (map (tree_bytes enc w) ?ms))), w1) \<and> (\<forall>t \<in> set ?ms. sizes_ok enc w1 t) \<and>
     caches_only (?I ?ms) (set_heap (store_bytes (w_heap w) ?p (concat (map (tree_bytes enc w) ?ms))) w) w1"
    using S rdy dis(1) cur mb by (intro ser_each_ok) (auto dest: in_set_dropD)
  then obtain w1 where w1: "ser_each S n (-8) p len (map rt ?ms) cur w = Some (0, cur + int (length mb), w1)"
     "\<forall>t \<in> set ?ms. sizes_ok enc w1 t" "caches_only (?I ?ms) (set_heap (store_bytes (w_heap w) ?p mb) w) w1"
    unfolding mb by blast
  have step: "ready enc w1 p s \<and> tree_bytes enc w1 s = tree_bytes enc w s" if "s \<in> set cs" for s
  proof (rule ready_step [OF _ w1(3)])
    show "set (ids s) \<inter> ?I ?ms = {}" using dis(3) that by auto
  qed (use rdy that in auto)
  then have cb: "concat (map (tree_bytes enc w1) cs) = cb" unfolding cb_def by (metis map_eq_conv)
  have heap: "w_heap w1 = store_bytes (w_heap w) ?p mb" using caches_onlyD(1) [OF w1(3)] by (simp add: set_heap_def)
  have reg: "valid_region (w_heap w) ?p (length mb + length cb)"
    using cur by (intro valid_region_add valid_region_mono [OF cur(4)]) simp
  have reg1: "valid_region (w_heap w1) p (nat len)"
    unfolding heap using cur(4) valid_region_mono [OF reg] by (subst valid_region_store_bytes) auto
  have "\<exists>w2. ser_each S n (-9) p len (map rt cs) (cur + int (length mb)) w1 =
       Some (0, cur + int (length mb) + int (length (concat (map (tree_bytes enc w1) cs))), w2) \<and> (\<forall>t \<in> set cs. sizes_ok enc w2 t) \<and>
     caches_only (?I cs) (set_heap (store_bytes (w_heap w1) (ptr_add p (nat (cur + int (length mb)))) (concat (map (tree_bytes enc w1) cs))) w1) w2"
    using S step dis(5) cur cb reg1 by (intro ser_each_ok) (auto simp: nat_add_distrib)
  then obtain w2 where w2: "ser_each S n (-9) p len (map rt cs) (cur + int (length mb)) w1 =
       Some (0, cur + int (length mb) + int (length cb), w2)" "\<forall>t \<in> set cs. sizes_ok enc w2 t"
     "caches_only (?I cs) (set_heap (store_bytes (w_heap w1) (ptr_add p (nat (cur + int (length mb)))) cb) w1) w2"
    unfolding cb by blast
  have "store_bytes (w_heap w1) (ptr_add p (nat (cur + int (length mb)))) cb = store_bytes (w_heap w) ?p (mb @ cb)"
    using store_bytes_append [OF reg] cur(1) by (simp add: heap nat_add_distrib)
  then have c: "caches_only (?I ?ms \<union> ?I cs) (set_heap (store_bytes (w_heap w) ?p (mb @ cb)) w) w2"
    using caches_only_write_trans [OF w1(3) w2(3)] by simp
  have "sizes_ok enc w2 s" if s: "s \<in> set ms" for s
  proof (cases "s \<in> set ?ms")
    case True
    then have "ready enc w1 p s" using rdy s w1(2) by (intro ready_again [OF _ w1(3)]) auto
    moreover have "set (ids s) \<inter> ?I cs = {}" using dis(3) True by auto
    ultimately have "ready enc w2 p s" using ready_step [OF _ w2(3)] by (metis ptr_blk_add)
    then show ?thesis by (simp add: ready_def)
  next
    case False
    with s have "s \<in> set (take j ms)" by (metis Un_iff append_take_drop_id set_append)
    from dis(4) [OF this] have "set (ids s) \<inter> (?I ?ms \<union> ?I cs) = {}" by blast
    then have "ready enc w2 p s" using ready_step [OF _ c] rdy s by (metis UnI1 ptr_blk_add)
    then show ?thesis by (simp add: ready_def)
  qed
  with w1(1) w2(1,2) c show ?thesis by (auto simp: add.assoc)
qed

section \<open>One node\<close>

lemma init_buff_ok:
  assumes "0 \<le> len" "len < 2 ^ 31" "valid_region h p (nat len)"
  shows "\<exists>b. pb_init_buff buff0 p (to_u64 len) = (0, b) \<and> wr_ok h b \<and> b_ptr b = p \<and> b_left b = len \<and>
     (\<forall>k \<le> nat len. pb_get_encoded_length (b_advance k b) = int k)"
proof -
  have l: "to_int32 (uint (to_u64 len)) = len"
    using assms(1,2) by (simp add: unsigned_of_int take_bit_int_eq_self to_int32_id)
  have "to_int32 (uint (to_u64 len - to_u64 (len - int k))) = int k" if "k \<le> nat len" for k
  proof -
    have "to_u64 len - to_u64 (len - int k) = to_u64 (int k)" by (simp flip: of_int_diff)
    moreover have "int k < 2 ^ 31" using that assms(1,2) by linarith
    ultimately show ?thesis
      by (simp add: unsigned_of_nat take_bit_nat_eq_self to_int32_nat)
  qed
  with l assms show ?thesis
    by (auto simp: pb_init_buff_def wr_ok_def pb_get_encoded_length_def b_advance_def)
qed

text \<open>The bytes in front of the metas.\<close>

definition head_bytes ::
  "(u32 \<Rightarrow> wval \<Rightarrow> byte list) \<Rightarrow> (u32 \<Rightarrow> u64 \<Rightarrow> byte list) \<Rightarrow> world \<Rightarrow> ntree \<Rightarrow> bool \<Rightarrow> byte list" where
  "head_bytes enc head w t wh =
     (if wh then head (n_tag (nd w (rt t))) (of_nat (length (tree_val enc w t))) else []) @ key_part enc w (rt t)"

context knv_codec
begin

lemma ser_key_ok:
  assumes b: "wr_ok (w_heap w) b" and ok: "node_ok (nd w n)" and ap: "node_apart (b_ptr b) (nd w n)"
    and key: "keyed (nd w n)" and room: "length (key_part enc w n) \<le> wr_room b"
  shows "knv_add_field_val g (w_heap w) b 1 (k_type (n_key (nd w n))) (key_GetValue (w_heap w) (n_key (nd w n))) =
     (0, store_bytes (w_heap w) (b_ptr b) (key_part enc w n), b_advance (length (key_part enc w n)) b)"
proof -
  let ?k = "n_key (nd w n)"
  have "src_ok b (k_type ?k) (key_GetValue (w_heap w) ?k)"
    using ap key by (auto simp: src_ok_def node_apart_def key_GetValue_def)
  then have "wr_res (w_heap w) b (enc 1 (wval_of (w_heap w) (k_type ?k) (key_GetValue (w_heap w) ?k)))
      (knv_add_field_val g (w_heap w) b 1 (k_type ?k) (key_GetValue (w_heap w) ?k))"
    using ok b by (intro add_field_val) (simp_all add: node_ok_def)
  from wr_res_fits [OF this] key room show ?thesis by (simp add: key_part_def Let_def)
qed

lemma ser_head_ok:
  assumes b: "wr_ok (w_heap w) b" and ok: "node_ok (nd w n)" and ap: "node_apart (b_ptr b) (nd w n)"
    and sz: "n_eval_val_sz (nd w n) = int (length (tree_val enc w (NT n ms cs)))"
    and room: "length (head_bytes enc head w (NT n ms cs) wh) \<le> wr_room b"
  shows "ser_head g n b wh w =
     (0, b_advance (length (head_bytes enc head w (NT n ms cs) wh)) b,
      set_heap (store_bytes (w_heap w) (b_ptr b) (head_bytes enc head w (NT n ms cs) wh)) w)"
proof -
  define hd where "hd = (if wh then head (n_tag (nd w n)) (of_nat (length (tree_val enc w (NT n ms cs)))) else [])"
  define kp where "kp = key_part enc w n"
  define h1 where "h1 = store_bytes (w_heap w) (b_ptr b) hd"
  let ?b = "b_advance (length hd) b"
  have hb: "head_bytes enc head w (NT n ms cs) wh = hd @ kp" by (simp add: head_bytes_def hd_def kp_def)
  have r: "length hd \<le> wr_room b" "length kp \<le> wr_room ?b" using room unfolding hb by simp_all
  have one: "(if wh then knv_add_string_head g (w_heap w) b (n_tag (nd w n)) (to_u64 (n_eval_val_sz (nd w n)))
      else (0, w_heap w, b)) = (0, h1, ?b)"
    using wr_res_fits [OF add_string_head [OF b]] r(1) sz
    by (cases wh) (simp_all add: b_advance_def hd_def h1_def)
  have view: "same_view w (set_heap h1 w) n"
    using same_data_store [OF ap ok] by (simp add: same_view_def h1_def)
  have app: "store_bytes h1 (b_ptr ?b) kp = store_bytes (w_heap w) (b_ptr b) (hd @ kp)"
  proof -
    have "valid_region (w_heap w) (b_ptr b) (length hd + length kp)"
      using b room unfolding hb by (auto simp: wr_ok_def wr_room_def intro!: valid_region_mono [of _ "b_ptr b" "nat (b_left b)"])
    then show ?thesis by (simp add: h1_def store_bytes_append)
  qed
  have two: "knv_add_field_val g h1 ?b 1 (k_type (n_key (nd w n))) (key_GetValue h1 (n_key (nd w n))) =
      (0, store_bytes (w_heap w) (b_ptr b) (hd @ kp), b_advance (length (hd @ kp)) b)" if "keyed (nd w n)"
  proof -
    have "wr_ok h1 ?b" using wr_ok_advance [OF b r(1)] by (simp add: h1_def)
    moreover have "node_apart (b_ptr ?b) (nd w n)" using ap by (simp add: node_apart_def)
    moreover have "key_part enc (set_heap h1 w) n = kp" using key_part_view [OF view] by (simp add: kp_def)
    ultimately have "knv_add_field_val g h1 ?b 1 (k_type (n_key (nd w n))) (key_GetValue h1 (n_key (nd w n))) =
      (0, store_bytes h1 (b_ptr ?b) kp, b_advance (length kp) ?b)"
      using ser_key_ok [of "set_heap h1 w" ?b n] ok that r(2) by simp
    then show ?thesis unfolding app by simp
  qed
  show ?thesis
  proof (cases "keyed (nd w n)")
    case True
    then show ?thesis unfolding ser_head_def Let_def one hb by (simp add: two)
  next
    case False
    then have "kp = []" by (simp add: kp_def key_part_def)
    with False show ?thesis unfolding ser_head_def Let_def one hb by (simp add: h1_def)
  qed
qed

text \<open>What is to be written, and the two ways to write it.\<close>

lemma out_bytes:
  assumes "\<not> is_flat (nd w n)"
  shows "(if wh then tree_bytes enc w (NT n ms cs) else tree_val enc w (NT n ms cs)) =
     head_bytes enc head w (NT n ms cs) wh @ concat (drop (key_skip w n ms) (map (tree_bytes enc w) ms)) @
       concat (map (tree_bytes enc w) cs)"
  using assms inner_bytes [OF assms] by (auto simp: head_bytes_def enc_string tree_val_def)

lemma EvaluateSize_ready:
  assumes "ready enc w p t" "length (tree_bytes enc w t) < 2 ^ 31"
  obtains w' where "EvaluateSize g (rt t) w = Some (int (length (tree_bytes enc w t)), w')"
    "caches_only (set (ids t)) w w'" "ready enc w' p t" "tree_bytes enc w' t = tree_bytes enc w t"
    "tree_val enc w' t = tree_val enc w t" "0 \<le> n_eval_sz (nd w' (rt t))" "n_eval_val_sz (nd w' (rt t)) = int (length (tree_val enc w t))"
    "\<And>s. s \<in> set (tmetas t) \<union> set (tkids t) \<Longrightarrow> tree_bytes enc w' s = tree_bytes enc w s"
proof -
  have "evaluates enc (EvaluateSize_n g (Suc (w_count w))) w t"
    using assms by (intro EvaluateSize_n_ok) (auto simp: ready_def)
  then obtain w' where w': "EvaluateSize g (rt t) w = Some (int (length (tree_bytes enc w t)), w')"
    "caches_only (set (ids t)) w w'" "sizes_ok enc w' t" "n_eval_sz (nd w' (rt t)) \<ge> 0"
    by (auto simp: evaluates_def EvaluateSize_def)
  note c = caches_onlyD(1,5) [OF w'(2)]
  have tv: "tree_val enc w' t = tree_val enc w t" using c by (intro tree_val_cong) simp_all
  have "size_ok enc w' t" using w'(3) by (cases t) (simp add: sizes_ok_def)
  with w'(4) tv have "n_eval_val_sz (nd w' (rt t)) = int (length (tree_val enc w t))" by (simp add: size_ok_def)
  moreover have "ready enc w' p t" using ready_again [OF assms(1), where h = "w_heap w"] w'(2,3) by simp
  ultimately show thesis using that w'(1,2,4) tv tree_bytes_cong [of _ w' w enc] c by simp
qed

lemma ser_evaluated:
  fixes w n ms cs wh
  defines "t \<equiv> NT n ms cs"
  defines "hb \<equiv> head_bytes enc head w t wh"
    and "pb \<equiv> concat (drop (key_skip w n ms) (map (tree_bytes enc w) ms)) @ concat (map (tree_bytes enc w) cs)"
  assumes ready: "ready enc w p t" and len: "0 \<le> len" "len < 2 ^ 31" "valid_region (w_heap w) p (nat len)"
      "length (hb @ pb) \<le> nat len"
    and sz: "n_eval_val_sz (nd w n) = int (length (tree_val enc w t))"
    and S: "\<And>s. s \<in> set ms \<union> set cs \<Longrightarrow> serializes enc S s"
    and b: "wr_ok (w_heap w) b" "b_ptr b = p" "b_left b = len"
  shows "\<exists>w2 w3 w4. ser_head g n b wh w = (0, b_advance (length hb) b, w2) \<and> w_nodes w2 = w_nodes w \<and>
     ser_each S n (-8) p len (map rt (drop (key_skip w n ms) ms)) (int (length hb)) w2 =
       Some (0, int (length (hb @ concat (drop (key_skip w n ms) (map (tree_bytes enc w) ms)))), w3) \<and>
     ser_each S n (-9) p len (map rt cs) (int (length (hb @ concat (drop (key_skip w n ms) (map (tree_bytes enc w) ms))))) w3 =
       Some (0, int (length (hb @ pb)), w4) \<and>
     nd w4 n = nd w n \<and> sizes_ok enc w4 t \<and> caches_only (set (ids t)) (set_heap (store_bytes (w_heap w) p (hb @ pb)) w) w4"
proof -
  let ?j = "key_skip w n ms" and ?I = "\<lambda>ts. set (concat (map ids ts))"
  have ok: "tree_ok w (NT n ms cs)" "node_ok (nd w n)" "node_apart p (nd w n)"
    using ready by (simp_all add: ready_def tree_ok_def apart_def t_def)
  define w2 where "w2 = set_heap (store_bytes (w_heap w) p hb) w"
  have head: "ser_head g n b wh w = (0, b_advance (length hb) b, w2)"
    using ser_head_ok [of w b n ms cs wh] b ok len sz by (simp add: wr_room_def hb_def t_def w2_def)
  have c2: "caches_only {} (set_heap (store_bytes (w_heap w) p hb) w) w2" by (simp add: w2_def)
  have ready2: "ready enc w2 p t" using ready_step [OF ready c2] by simp
  have part: "tree_bytes enc w2 s = tree_bytes enc w s" if "s \<in> set ms \<union> set cs" for s
    using ready_step [OF ready_sub [OF ready [unfolded t_def] that] c2] by simp
  then have eq: "map (tree_bytes enc w2) ms = map (tree_bytes enc w) ms" "map (tree_bytes enc w2) cs = map (tree_bytes enc w) cs"
    by auto
  have reg: "valid_region (w_heap w) p (length hb + length pb)" using len by (intro valid_region_mono [OF len(3)]) simp
  have reg2: "valid_region (w_heap w2) p (nat len)"
    using len(3) valid_region_mono [OF reg] by (simp add: w2_def valid_region_store_bytes)
  have fit: "nat (int (length hb)) + length (concat (drop ?j (map (tree_bytes enc w2) ms)) @ concat (map (tree_bytes enc w2) cs)) \<le> nat len"
    using len(4) unfolding eq pb_def by simp
  obtain w3 w4 where w3: "ser_each S n (-8) p len (map rt (drop ?j ms)) (int (length hb)) w2 =
      Some (0, int (length hb) + int (length (concat (drop ?j (map (tree_bytes enc w) ms)))), w3)"
    and w4: "ser_each S n (-9) p len (map rt cs) (int (length hb) + int (length (concat (drop ?j (map (tree_bytes enc w) ms))))) w3 =
      Some (0, int (length hb) + int (length pb), w4)" "\<forall>s \<in> set ms \<union> set cs. sizes_ok enc w4 s"
      "caches_only (?I (drop ?j ms) \<union> ?I cs) (set_heap (store_bytes (w_heap w2) (ptr_add p (length hb)) pb) w2) w4"
    using ser_parts [OF ready2 [unfolded t_def] S _ len(1,2) reg2 fit] unfolding eq pb_def by auto
  have "store_bytes (w_heap w2) (ptr_add p (length hb)) pb = store_bytes (w_heap w) p (hb @ pb)"
    using store_bytes_append [OF reg] by (simp add: w2_def)
  then have c4: "caches_only (?I (drop ?j ms) \<union> ?I cs) (set_heap (store_bytes (w_heap w) p (hb @ pb)) w) w4"
    using w4(3) by (simp add: w2_def)
  have n: "nd w4 n = nd w n" using caches_onlyD(6) [OF c4, of n] tree_ids_disjoint(3,4) [OF ok(1)] by simp
  have "same_view w w4 i" if "i \<in> set (ids t)" for i
    using ready that caches_onlyD(1,5) [OF c4] same_data_store [of p "nd w i" p "w_heap w" "hb @ pb"]
    by (auto simp: same_view_def ready_def tree_ok_def apart_def set_heap_def)
  then have "tree_bytes enc w4 t = tree_bytes enc w t" "tree_val enc w4 t = tree_val enc w t"
    by (auto intro: tree_bytes_view tree_val_view)
  moreover have "size_ok enc w t" using ready by (simp add: ready_def t_def sizes_ok_NT)
  ultimately have "sizes_ok enc w4 t" using w4(2) n by (simp add: t_def sizes_ok_NT size_ok_def del: tree_bytes.simps)
  moreover have "?I (drop ?j ms) \<union> ?I cs \<subseteq> set (ids t)" by (auto simp: t_def dest: in_set_dropD)
  ultimately show ?thesis using head w3 w4(1) n caches_only_mono [OF c4] by (auto simp: w2_def)
qed

lemma ser_inner_size:
  fixes w n ms cs wh
  defines "out \<equiv> (if wh then tree_bytes enc w (NT n ms cs) else tree_val enc w (NT n ms cs))"
  assumes ready: "ready enc w p (NT n ms cs)" and inner: "\<not> is_flat (nd w n)"
    and len: "0 \<le> len" "len < 2 ^ 31" "valid_region (w_heap w) p (nat len)" "length out \<le> nat len"
      "length (tree_bytes enc w (NT n ms cs)) < 2 ^ 31"
    and S: "\<And>s. s \<in> set ms \<union> set cs \<Longrightarrow> serializes enc (\<lambda>f p l. Serialize_n g k f p l True) s"
  shows "\<exists>w'. Serialize_n g (Suc k) n p len wh w = Some (0, int (length out), w') \<and> sizes_ok enc w' (NT n ms cs) \<and>
     0 \<le> n_eval_sz (nd w' n) \<and> n_eval_val_sz (nd w' n) = int (length (tree_val enc w (NT n ms cs))) \<and>
     caches_only (set (ids (NT n ms cs))) (set_heap (store_bytes (w_heap w) p out) w) w'"
proof -
  let ?t = "NT n ms cs" and ?S = "\<lambda>f p l. Serialize_n g k f p l True"
  obtain w1 where w1: "EvaluateSize g n w = Some (int (length (tree_bytes enc w ?t)), w1)"
    "caches_only (set (ids ?t)) w w1" "ready enc w1 p ?t" "tree_bytes enc w1 ?t = tree_bytes enc w ?t"
    "tree_val enc w1 ?t = tree_val enc w ?t" "n_eval_val_sz (nd w1 n) = int (length (tree_val enc w ?t))"
    "0 \<le> n_eval_sz (nd w1 n)"
    using EvaluateSize_ready [OF ready len(5)] by (metis ntree.sel(1))
  have al: "alike (nd w1 n) (nd w n)" using caches_onlyD(5) [OF w1(2)] .
  have inner1: "\<not> is_flat (nd w1 n)" using inner is_flat_alike [OF al] by simp
  have heap: "w_heap w1 = w_heap w" using caches_onlyD(1) [OF w1(2)] by simp
  obtain b where b: "pb_init_buff buff0 p (to_u64 len) = (0, b)" "wr_ok (w_heap w1) b" "b_ptr b = p" "b_left b = len"
    "\<And>k. k \<le> nat len \<Longrightarrow> pb_get_encoded_length (b_advance k b) = int k"
    using init_buff_ok [OF len(1-3)] unfolding heap by blast
  let ?hb = "head_bytes enc head w1 ?t wh" and ?j = "key_skip w1 n ms"
  let ?mb = "concat (drop ?j (map (tree_bytes enc w1) ms))"
  let ?pb = "?mb @ concat (map (tree_bytes enc w1) cs)"
  have out: "out = ?hb @ ?pb" using out_bytes [OF inner1, of wh ms cs] unfolding w1(4,5) out_def .
  have "\<exists>w2 w3 w4. ser_head g n b wh w1 = (0, b_advance (length ?hb) b, w2) \<and> w_nodes w2 = w_nodes w1 \<and>
     ser_each ?S n (-8) p len (map rt (drop ?j ms)) (int (length ?hb)) w2 = Some (0, int (length (?hb @ ?mb)), w3) \<and>
     ser_each ?S n (-9) p len (map rt cs) (int (length (?hb @ ?mb))) w3 = Some (0, int (length (?hb @ ?pb)), w4) \<and>
     nd w4 n = nd w1 n \<and> sizes_ok enc w4 ?t \<and> caches_only (set (ids ?t)) (set_heap (store_bytes (w_heap w1) p (?hb @ ?pb)) w1) w4"
    using w1(3,5,6) len(1-4) S b(2-4) heap out by (intro ser_evaluated) auto
  then obtain w2 w3 w4 where w2: "ser_head g n b wh w1 = (0, b_advance (length ?hb) b, w2)" "w_nodes w2 = w_nodes w1"
    and w3: "ser_each ?S n (-8) p len (map rt (drop ?j ms)) (int (length ?hb)) w2 = Some (0, int (length (?hb @ ?mb)), w3)"
    and w4: "ser_each ?S n (-9) p len (map rt cs) (int (length (?hb @ ?mb))) w3 = Some (0, int (length out), w4)"
      "nd w4 n = nd w1 n" "sizes_ok enc w4 ?t" "caches_only (set (ids ?t)) (set_heap (store_bytes (w_heap w) p out) w1) w4"
    unfolding out [symmetric] heap by blast
  have "caches_only (set (ids ?t)) (set_heap (store_bytes (w_heap w) p out) w) w4"
    using caches_only_trans [OF caches_only_set_heap [OF w1(2)] w4(4)] by simp
  moreover have "skip_key w2 (keyed (nd w2 n)) (n_metalist (nd w2 n)) = map rt (drop ?j ms)" "n_childlist (nd w2 n) = map rt cs"
  proof -
    have "tree_ok w1 ?t" using w1(3) by (simp add: ready_def)
    from inner_shape [OF this inner1] show "n_childlist (nd w2 n) = map rt cs"
      "skip_key w2 (keyed (nd w2 n)) (n_metalist (nd w2 n)) = map rt (drop ?j ms)"
      by (simp_all add: w2(2) skip_key_rt)
  qed
  moreover have "knv_get_encoded_length g (b_advance (length ?hb) b) = int (length ?hb)"
    using b(5) len(4) unfolding out get_encoded_length by simp
  moreover have "IsValid w n" using ready by (simp add: ready_def tree_ok_def node_ok_def)
  ultimately have "Serialize_n g (Suc k) n p len wh w = Some (0, int (length out), w4)"
    using inner w1(1,6) w2 w3 w4(1,2) b(1) by (simp add: init_buff Let_def out_def del: tree_bytes.simps)
  then show ?thesis using \<open>caches_only (set (ids ?t)) (set_heap (store_bytes (w_heap w) p out) w) w4\<close> w4(3) w4(2) w1(6,7) by metis
qed

lemma ser_inner:
  fixes w n ms cs wh
  defines "out \<equiv> (if wh then tree_bytes enc w (NT n ms cs) else tree_val enc w (NT n ms cs))"
  assumes ready: "ready enc w p (NT n ms cs)" and inner: "\<not> is_flat (nd w n)"
    and len: "0 \<le> len" "len < 2 ^ 31" "valid_region (w_heap w) p (nat len)" "length out \<le> nat len"
      "length (tree_bytes enc w (NT n ms cs)) < 2 ^ 31"
    and S: "\<And>s. s \<in> set ms \<union> set cs \<Longrightarrow> serializes enc (\<lambda>f p l. Serialize_n g k f p l True) s"
  shows "\<exists>w'. Serialize_n g (Suc k) n p len wh w = Some (0, int (length out), w') \<and> sizes_ok enc w' (NT n ms cs) \<and>
     caches_only (set (ids (NT n ms cs))) (set_heap (store_bytes (w_heap w) p out) w) w'"
  using ser_inner_size [OF ready inner len(1-3) len(4) [unfolded out_def] len(5) S] unfolding out_def by blast

lemma ser_flat_ok:
  assumes ready: "ready enc w p (NT n ms cs)" and flat: "is_flat (nd w n)" and b: "wr_ok (w_heap w) b" "b_ptr b = p"
    and room: "length (tree_bytes enc w (NT n ms cs)) \<le> wr_room b"
    and enc: "\<And>k. k \<le> wr_room b \<Longrightarrow> pb_get_encoded_length (b_advance k b) = int k"
  shows "ser_flat g n b p len True w = (0, int (length (tree_bytes enc w (NT n ms cs))),
     set_heap (store_bytes (w_heap w) p (tree_bytes enc w (NT n ms cs))) w)"
proof -
  let ?x = "nd w n"
  have x: "node_ok ?x" "node_apart p ?x" using ready by (simp_all add: ready_def tree_ok_def apart_def)
  have "src_ok b (n_type ?x) (n_val ?x)" using x(2) b(2) by (auto simp: src_ok_def node_apart_def)
  then have "wr_res (w_heap w) b (tree_bytes enc w (NT n ms cs)) (knv_add_field_val g (w_heap w) b (n_tag ?x) (n_type ?x) (n_val ?x))"
    using flat x(1) add_field_val [OF b(1)] by (simp add: node_ok_def)
  from wr_res_fits [OF this room] show ?thesis
    using enc [OF room] b(2) by (simp add: ser_flat_def get_encoded_length del: tree_bytes.simps)
qed

lemma Serialize_n_ok: "length (ids t) \<le> k \<Longrightarrow> serializes enc (\<lambda>f p l. Serialize_n g k f p l True) t"
proof (induction t arbitrary: k)
  case (NT n ms cs)
  let ?t = "NT n ms cs"
  obtain k' where k: "k = Suc k'" using NT.prems by (cases k) auto
  have IH: "serializes enc (\<lambda>f p l. Serialize_n g k' f p l True) s" if s: "s \<in> set ms \<union> set cs" for s
  proof -
    have "length (ids s) \<le> k'" using length_ids_sub [OF s, of n] NT.prems k by linarith
    with s NT.IH show ?thesis by blast
  qed
  show ?case
    unfolding serializes_def
  proof (intro allI impI)
    fix w p len
    assume pre: "ready enc w p ?t" "0 \<le> len" "len < (2 :: int) ^ 31" "valid_region (w_heap w) p (nat len)"
      "length (tree_bytes enc w ?t) \<le> nat len"
    have "int (length (tree_bytes enc w ?t)) < 2 ^ 31" using pre(2,3,5) by linarith
    then have small: "length (tree_bytes enc w ?t) < 2 ^ 31" by (simp del: tree_bytes.simps)
    show "\<exists>w'. Serialize_n g k (rt ?t) p len True w = Some (0, int (length (tree_bytes enc w ?t)), w') \<and> sizes_ok enc w' ?t \<and>
        caches_only (set (ids ?t)) (set_heap (store_bytes (w_heap w) p (tree_bytes enc w ?t)) w) w'"
    proof (cases "is_flat (nd w n)")
      case True
      obtain b where b: "pb_init_buff buff0 p (to_u64 len) = (0, b)" "wr_ok (w_heap w) b" "b_ptr b = p" "b_left b = len"
        "\<And>k. k \<le> nat len \<Longrightarrow> pb_get_encoded_length (b_advance k b) = int k"
        using init_buff_ok [OF pre(2-4)] by blast
      let ?w = "set_heap (store_bytes (w_heap w) p (tree_bytes enc w ?t)) w"
      have "IsValid w n" using pre(1) by (simp add: ready_def tree_ok_def node_ok_def)
      then have "Serialize_n g k n p len True w = Some (0, int (length (tree_bytes enc w ?t)), ?w)"
        using True b ser_flat_ok [OF pre(1) True b(2,3)] pre(5)
        by (simp add: k init_buff wr_room_def del: tree_bytes.simps)
      moreover have "caches_only {} ?w ?w" by simp
      from ready_step [OF pre(1) this] have "sizes_ok enc ?w ?t" by (simp add: ready_def)
      ultimately show ?thesis by (intro exI [of _ ?w]) (simp del: tree_bytes.simps)
    next
      case False
      from ser_inner [OF pre(1) False pre(2-4) _ small IH, where wh = True] pre(5) show ?thesis
        unfolding k by (simp del: tree_bytes.simps ids.simps Serialize_n.simps)
    qed
  qed
qed

text \<open>The value only: an expanded node, or a flat one with room for one byte more than its value.\<close>

lemma Serialize_inner_value:
  assumes ready: "ready enc w p (NT n ms cs)" and inner: "\<not> is_flat (nd w n)"
    and len: "0 \<le> len" "len < 2 ^ 31" "valid_region (w_heap w) p (nat len)" "length (tree_val enc w (NT n ms cs)) \<le> nat len"
      "length (tree_bytes enc w (NT n ms cs)) < 2 ^ 31"
  shows "\<exists>w'. Serialize g n p len False w = Some (0, int (length (tree_val enc w (NT n ms cs))), w') \<and>
     sizes_ok enc w' (NT n ms cs) \<and> 0 \<le> n_eval_sz (nd w' n) \<and> n_eval_val_sz (nd w' n) = int (length (tree_val enc w (NT n ms cs))) \<and>
     caches_only (set (ids (NT n ms cs))) (set_heap (store_bytes (w_heap w) p (tree_val enc w (NT n ms cs))) w) w'"
proof -
  have "\<And>s. s \<in> set ms \<union> set cs \<Longrightarrow> serializes enc (\<lambda>f p l. Serialize_n g (w_count w) f p l True) s"
    using length_ids_sub [of _ ms cs n] ready by (intro Serialize_n_ok) (fastforce simp: ready_def)
  from ser_inner_size [OF ready inner len(1-3) _ len(5) this, where wh = False] len(4) show ?thesis
    by (simp add: Serialize_def del: tree_bytes.simps ids.simps Serialize_n.simps)
qed

lemma Serialize_value_ok:
  assumes ready: "ready enc w p (NT n ms cs)" and ty: "n_type (nd w n) = KNV_NODE"
    and len: "0 \<le> len" "len < 2 ^ 31" "valid_region (w_heap w) p (nat len)"
      "length (tree_bytes enc w (NT n ms cs)) < 2 ^ 31"
      "length (tree_val enc w (NT n ms cs)) \<le> nat len"
      "is_flat (nd w n) \<Longrightarrow> length (tree_val enc w (NT n ms cs)) < nat len"
  shows "\<exists>w'. Serialize g n p len False w = Some (0, int (length (tree_val enc w (NT n ms cs))), w') \<and>
     sizes_ok enc w' (NT n ms cs) \<and>
     caches_only (set (ids (NT n ms cs))) (set_heap (store_bytes (w_heap w) p (tree_val enc w (NT n ms cs))) w) w'"
proof (cases "is_flat (nd w n)")
  case False
  from Serialize_inner_value [OF ready False len(1-3,5,4)] show ?thesis by blast
next
  case True
  let ?v = "tree_val enc w (NT n ms cs)" and ?t = "NT n ms cs"
  have v: "?v = flat_bytes w n" using True ty by (simp add: tree_val_def)
  have ok: "node_ok (nd w n)" using ready by (simp add: ready_def tree_ok_def)
  let ?w = "set_heap (store_bytes (w_heap w) p ?v) w"
  have "caches_only {} ?w ?w" by simp
  from ready_step [OF ready this] have "sizes_ok enc ?w ?t" by (simp add: ready_def)
  moreover have "Serialize g n p len False w = Some (0, int (length ?v), ?w)"
  proof -
    obtain b where b: "pb_init_buff buff0 p (to_u64 len) = (0, b)" using init_buff_ok [OF len(1-3)] by blast
    have "len > int (length (flat_bytes w n))" using len(6) [OF True] len(1) by (simp add: v)
    then have "ser_flat g n b p len False w = (0, int (length ?v), ?w)"
      using flat_eval(2) [OF ok True len(4) ty] ty
      by (simp add: ser_flat_def v node_write_def put_bytes_def set_heap_def set_mem_state_def flat_bytes_def [symmetric] del: tree_bytes.simps)
    with True b ok show ?thesis by (simp add: Serialize_def init_buff node_ok_def)
  qed
  ultimately show ?thesis by (intro exI [of _ ?w]) (simp del: tree_bytes.simps)
qed

end

section \<open>The library's codecs\<close>

definition demo_world :: world where
  "demo_world = \<lparr>
     w_nodes = (\<lambda>_. KnvNode0)(
       0 := KnvNode0\<lparr>n_tag := 11, n_child_num := 1, n_childlist := [1], n_subnode_dirty := True\<rparr>,
       1 := KnvNode0\<lparr>n_tag := 12, n_type := KNV_VARINT, n_val := int_value 5, n_child_num := 0, n_parent := Some 0\<rparr>),
     w_ht_next = (\<lambda>_. None), w_free = [], w_count = 2, w_pool = True,
     w_mem = (GetInstance, start_ctx\<lparr>c_heap := (\<lambda>_. [])(Ext 0 := replicate 16 0)\<rparr>), w_errorstr = None\<rparr>"

abbreviation demo_tree :: ntree where
  "demo_tree \<equiv> NT 0 [] [NT 1 [] []]"

lemma demo_tree_ok: "tree_ok demo_world demo_tree" "sizes_ok enc_field demo_world demo_tree"
  "\<forall>n \<in> set (ids demo_tree). n < w_count demo_world" "apart demo_world (Ptr (Ext 0) 0) demo_tree"
  by (simp_all add: demo_world_def tree_ok_def node_shape_def node_ok_def named_type_def KnvNode0_def key_default_def
      sizes_ok_def size_ok_def apart_def node_apart_def keyed_def str_value_def v_len_def)

lemma demo_bytes: "tree_bytes enc_field demo_world demo_tree = [90, 2, 96, 5]"
  by (simp add: demo_world_def is_flat_def IsBufferValid_def KnvNode0_def key_default_def key_part_def key_skip_def keyed_def
      str_value_def v_len_def wval_of_def int_value_def enc_field_def varint_enc_small pb_tag_word_def)

lemma EvaluateSize_ok:
  assumes "g = None \<or> g = Some pb_codecs" "tree_ok w t" "sizes_ok enc_field w t" "\<forall>n \<in> set (ids t). n < w_count w"
    and "length (tree_bytes enc_field w t) < 2 ^ 31"
  shows "\<exists>w'. EvaluateSize g (rt t) w = Some (int (length (tree_bytes enc_field w t)), w') \<and>
     sizes_ok enc_field w' t \<and> caches_only (set (ids t)) w w'"
  using knv_codec.EvaluateSize_n_ok [OF pb_knv_codec [OF assms(1)] assms(2,3,5), of "Suc (w_count w)"]
    length_ids_le [OF assms(2,4)] unfolding evaluates_def EvaluateSize_def by auto

lemma Serialize_ok:
  assumes "g = None \<or> g = Some pb_codecs" "tree_ok w t" "sizes_ok enc_field w t" "\<forall>n \<in> set (ids t). n < w_count w"
    and "0 \<le> len" "len < 2 ^ 31" "valid_region (w_heap w) p (nat len)" "apart w p t"
    and "length (tree_bytes enc_field w t) \<le> nat len"
  shows "\<exists>w'. Serialize g (rt t) p len True w = Some (0, int (length (tree_bytes enc_field w t)), w') \<and>
     bytes_at (w_heap w') p (length (tree_bytes enc_field w t)) = tree_bytes enc_field w t \<and>
     caches_only (set (ids t)) (set_heap (store_bytes (w_heap w) p (tree_bytes enc_field w t)) w) w' \<and>
     sizes_ok enc_field w' t"
proof -
  have r: "ready enc_field w p t" using assms length_ids_le [OF assms(2,4)] by (simp add: ready_def)
  have "serializes enc_field (\<lambda>f p l. Serialize_n g (Suc (w_count w)) f p l True) t"
    using knv_codec.Serialize_n_ok [OF pb_knv_codec [OF assms(1)]] length_ids_le [OF assms(2,4)] by simp
  from serializesD [OF this r assms(5-7,9)] obtain w' where w': "Serialize g (rt t) p len True w = Some (0, int (length (tree_bytes enc_field w t)), w')"
    "sizes_ok enc_field w' t"
    "caches_only (set (ids t)) (set_heap (store_bytes (w_heap w) p (tree_bytes enc_field w t)) w) w'"
    unfolding Serialize_def .
  have "w_heap w' = store_bytes (w_heap w) p (tree_bytes enc_field w t)"
    using caches_onlyD(1) [OF w'(3)] by (simp add: set_heap_def)
  with w' assms(7,9) show ?thesis by (auto simp: bytes_at_store_same valid_region_mono)
qed



text \<open>
  C1. \<open>Serialize\<close> writes exactly the field the tree stands for, whenever the buffer has room for it: the
  call returns 0 and the length, the bytes of the field are in the buffer, and nothing else changes
  but the caches of the tree.
\<close>

theorem serialize_exact:
  assumes "g = None \<or> g = Some pb_codecs" "tree_ok w t" "sizes_ok enc_field w t" "\<forall>n \<in> set (ids t). n < w_count w"
    and "0 \<le> len" "len < 2 ^ 31" "valid_region (w_heap w) p (nat len)" "apart w p t"
    and "length (tree_bytes enc_field w t) \<le> nat len"
  shows "\<exists>w'. Serialize g (rt t) p len True w = Some (0, int (length (tree_bytes enc_field w t)), w') \<and>
     bytes_at (w_heap w') p (length (tree_bytes enc_field w t)) = tree_bytes enc_field w t \<and>
     caches_only (set (ids t)) (set_heap (store_bytes (w_heap w) p (tree_bytes enc_field w t)) w) w' \<and>
     sizes_ok enc_field w' t"
  using assms by (rule Serialize_ok)

theorem serialize_exact_witness:
  "\<exists>w'. Serialize None 0 (Ptr (Ext 0) 0) 16 True demo_world = Some (0, 4, w') \<and>
     bytes_at (w_heap w') (Ptr (Ext 0) 0) 4 = [90, 2, 96, 5]"
proof -
  have "valid_region (w_heap demo_world) (Ptr (Ext 0) 0) (nat 16)" by (simp add: demo_world_def)
  with serialize_exact [of None demo_world demo_tree 16 "Ptr (Ext 0) 0"] demo_tree_ok show ?thesis
    unfolding demo_bytes by (auto simp: numeral_eq_Suc)
qed

lemma same_data_other:
  assumes "node_apart (Ptr b i) x" "node_ok x" "\<And>c. c \<noteq> b \<Longrightarrow> h' c = h c"
  shows "same_data h h' x"
proof -
  have eq: "bytes_at h' q k = bytes_at h q k" if "ptr_blk q \<noteq> Some b \<or> k = 0" for q k
    using that assms(3) by (cases q) (auto intro!: nth_equalityI simp: nth_bytes_at)
  have "wval_of h' (k_type (n_key x)) (key_GetValue h' (n_key x)) = wval_of h (k_type (n_key x)) (key_GetValue h (n_key x))"
    if "keyed x"
    using that assms(1,2) eq [of "k_val (n_key x)"]
    by (cases "k_type (n_key x)")
      (auto simp: wval_of_def key_GetValue_def key_GetIntVal_def node_ok_def named_type_def node_apart_def)
  moreover have "wval_of h' (n_type x) (n_val x) = wval_of h (n_type x) (n_val x)"
    using assms(1,2) eq by (cases "n_type x") (auto simp: wval_of_def node_apart_def node_ok_def named_type_def)
  ultimately show ?thesis by (simp add: same_data_def)
qed

lemma view_other:
  assumes "tree_ok w t" "apart w (Ptr b i) t" "w_nodes w' = w_nodes w" "\<And>c. c \<noteq> b \<Longrightarrow> w_heap w' c = w_heap w c"
    and "n \<in> set (ids t)"
  shows "nd w' n = nd w n \<and> same_view w w' n"
proof -
  have "node_apart (Ptr b i) (nd w n)" "node_ok (nd w n)" using assms(1,2,5) by (simp_all add: apart_def tree_ok_def)
  from same_data_other [OF this assms(4)] show ?thesis by (simp add: same_view_def assms(3))
qed

text \<open>
  C3. \<open>Serialize(string &out)\<close> returns 0 and leaves in the string exactly the bytes of the field the tree
  stands for, whatever the string held before, unless growing the string fails for lack of memory.
\<close>

theorem serialize_string_exact:
  assumes "g = None \<or> g = Some pb_codecs" "tree_ok w t" "sizes_ok enc_field w t" "\<forall>n \<in> set (ids t). n < w_count w"
    and "length (tree_bytes enc_field w t) < 2 ^ 31" "apart w (Ptr (Ext out) 0) t"
    and "\<not> c_fail (snd (w_mem w)) (c_reqs (snd (w_mem w)))"
  shows "\<exists>w'. Serialize_string g (rt t) out w = Some (0, w') \<and> w_heap w' (Ext out) = tree_bytes enc_field w t \<and>
     sizes_ok enc_field w' t"
proof -
  let ?bs = "tree_bytes enc_field w t" and ?p = "Ptr (Ext out) 0"
  obtain w1 where w1: "EvaluateSize g (rt t) w = Some (int (length ?bs), w1)" "sizes_ok enc_field w1 t" "caches_only (set (ids t)) w w1"
    using EvaluateSize_ok [OF assms(1-5)] by blast
  note c = caches_onlyD [OF w1(3)]
  let ?c = "snd (w_mem w1)" and ?r = "resize (length ?bs) (w_heap w1 (Ext out))"
  let ?w2 = "set_mem_state (fst (w_mem w1), ?c\<lparr>c_reqs := Suc (c_reqs ?c)\<rparr>) w1"
  define w2 where "w2 = set_heap ((w_heap ?w2)(Ext out := ?r)) ?w2"
  have n2: "w_nodes w2 = w_nodes w1" "w_count w2 = w_count w" and h2: "w_heap w2 = (w_heap w1)(Ext out := ?r)"
    using c(2) by (simp_all add: w2_def set_heap_def set_mem_state_def)
  have ok1: "tree_ok w1 t" "apart w1 ?p t" "tree_bytes enc_field w1 t = ?bs"
    using assms(2,6) c tree_ok_cong [of t w1 w] apart_cong [of t w1 w ?p] tree_bytes_cong [of t w1 w] by simp_all
  have view: "nd w2 n = nd w1 n \<and> same_view w1 w2 n" if "n \<in> set (ids t)" for n
    using view_other [OF ok1(1,2) n2(1) _ that] h2 by simp
  have ok2: "tree_ok w2 t" "sizes_ok enc_field w2 t" "apart w2 ?p t" "tree_bytes enc_field w2 t = ?bs"
    using ok1 w1(2) view tree_ok_cong [of t w2 w1] apart_cong [of t w2 w1 ?p] sizes_ok_view [of t w2 w1]
      tree_bytes_view [of t w1 w2] by (simp_all add: n2)
  have len: "length (w_heap w2 (Ext out)) = length ?bs" by (simp add: h2 resize_def)
  have r: "ready enc_field w2 ?p t" using ok2 length_ids_le [OF assms(2,4)] n2(2) by (simp add: ready_def)
  have "serializes enc_field (\<lambda>f p l. Serialize_n g (Suc (w_count w2)) f p l True) t"
    using knv_codec.Serialize_n_ok [OF pb_knv_codec [OF assms(1)]] length_ids_le [OF assms(2,4)] n2(2) by simp
  then obtain w' where w': "Serialize g (rt t) ?p (int (length ?bs)) True w2 = Some (0, int (length ?bs), w')"
    "sizes_ok enc_field w' t" "caches_only (set (ids t)) (set_heap (store_bytes (w_heap w2) ?p ?bs) w2) w'"
    by (rule serializesD [OF _ r, where len = "int (length ?bs)"]) (use ok2(4) len assms(5) in \<open>auto simp: Serialize_def\<close>)
  have "w_heap w' (Ext out) = ?bs" using caches_onlyD(1) [OF w'(3)] len by (simp add: set_heap_def)
  moreover have "Serialize_string g (rt t) out w = Some (0, w')"
    using w1(1) w'(1) assms(7) c(1) by (simp add: Serialize_string_def Let_def w2_def set_mem_state_def)
  ultimately show ?thesis using w'(2) by blast
qed

theorem serialize_string_exact_witness:
  "\<exists>w'. Serialize_string None 0 0 demo_world = Some (0, w') \<and> w_heap w' (Ext 0) = [90, 2, 96, 5]"
proof -
  have "\<not> c_fail (snd (w_mem demo_world)) (c_reqs (snd (w_mem demo_world)))" by (simp add: demo_world_def start_ctx_def)
  with serialize_string_exact [of None demo_world demo_tree 0] demo_tree_ok show ?thesis unfolding demo_bytes by auto
qed

end
