(* ===== verification/Knv_Climb.thy ===== *)
theory Knv_Climb
  imports Knv_Serial
begin

text \<open>
  Changing a tree.  \<open>deep_bytes\<close> is the field a tree stands for by its structure alone: a node that has
  parts stands for its key and its parts, whatever its cached value says.  The invariant \<open>tree_inv\<close> says
  that the caches of a tree agree with it: cached sizes are the sizes of \<open>deep_bytes\<close>, a value that is not
  marked dirty is the concatenation of the parts, a dirty node has dirty ancestors, and an evaluated
  node has evaluated parts.  The central lemma \<open>climb\<close> follows \<open>UpdateParentEvalueAndSetDirty\<close> from a
  changed node up to the root and shows that the invariant is restored on the way.
\<close>

section \<open>The field a tree stands for by its structure\<close>

fun deep_bytes :: "(u32 \<Rightarrow> wval \<Rightarrow> byte list) \<Rightarrow> world \<Rightarrow> ntree \<Rightarrow> byte list" where
  "deep_bytes enc w (NT n ms cs) =
     (if ms = [] \<and> cs = [] then enc (n_tag (nd w n)) (wval_of (w_heap w) (n_type (nd w n)) (n_val (nd w n)))
      else enc (n_tag (nd w n)) (WString (key_part enc w n @
        concat (drop (key_skip w n ms) (map (deep_bytes enc w) ms)) @ concat (map (deep_bytes enc w) cs))))"

definition deep_val :: "(u32 \<Rightarrow> wval \<Rightarrow> byte list) \<Rightarrow> world \<Rightarrow> ntree \<Rightarrow> byte list" where
  "deep_val enc w t =
     (if tmetas t = [] \<and> tkids t = [] then (if n_type (nd w (rt t)) = KNV_NODE then flat_bytes w (rt t) else [])
      else key_part enc w (rt t) @ concat (drop (key_skip w (rt t) (tmetas t)) (map (deep_bytes enc w) (tmetas t))) @
        concat (map (deep_bytes enc w) (tkids t)))"

definition has_parts :: "ntree \<Rightarrow> bool" where
  "has_parts t \<longleftrightarrow> tmetas t \<noteq> [] \<or> tkids t \<noteq> []"

text \<open>Two worlds agree on what the root of a tree contributes; the value counts only when there are no parts.\<close>

definition same_deep :: "world \<Rightarrow> world \<Rightarrow> ntree \<Rightarrow> bool" where
  "same_deep w w' t \<longleftrightarrow> (let x = nd w (rt t); y = nd w' (rt t) in n_tag y = n_tag x \<and> keyed y = keyed x \<and>
     (\<not> has_parts t \<longrightarrow> wval_of (w_heap w') (n_type y) (n_val y) = wval_of (w_heap w) (n_type x) (n_val x)) \<and>
     (keyed x \<longrightarrow> wval_of (w_heap w') (k_type (n_key y)) (key_GetValue (w_heap w') (n_key y)) =
        wval_of (w_heap w) (k_type (n_key x)) (key_GetValue (w_heap w) (n_key x))))"

lemma same_view_deep: "same_view w w' (rt t) \<Longrightarrow> same_deep w w' t"
  by (simp add: same_deep_def Let_def same_view_def same_data_def keyed_alike [of "nd w' (rt t)" "nd w (rt t)"]
      alikeD [of "nd w' (rt t)" "nd w (rt t)"])

lemma key_skip_cong:
  assumes "keyed (nd w' n) = keyed (nd w n)" "map rt ms' = map rt ms"
    and "\<And>m. m \<in> set ms \<Longrightarrow> n_tag (nd w' (rt m)) = n_tag (nd w (rt m))"
  shows "key_skip w' n ms' = key_skip w n ms"
proof (cases ms)
  case (Cons m r)
  then obtain m' r' where "ms' = m' # r'" "rt m' = rt m" using assms(2) by (cases ms') auto
  with Cons assms show ?thesis by (simp add: key_skip_def)
qed (use assms in \<open>simp add: key_skip_def\<close>)

lemma deep_bytes_same:
  "(\<And>u. u \<in> set (subtrees t) \<Longrightarrow> same_deep w w' u) \<Longrightarrow> deep_bytes enc w' t = deep_bytes enc w t"
proof (induction t)
  case (NT n ms cs)
  have sub: "same_deep w w' u" if "s \<in> set ms \<union> set cs" "u \<in> set (subtrees s)" for s u
    using that by (intro NT.prems) auto
  then have "deep_bytes enc w' s = deep_bytes enc w s" if "s \<in> set ms \<union> set cs" for s
    using that NT.IH by blast
  then have ms: "map (deep_bytes enc w') ms = map (deep_bytes enc w) ms" "map (deep_bytes enc w') cs = map (deep_bytes enc w) cs"
    by auto
  have n: "same_deep w w' (NT n ms cs)" by (rule NT.prems) simp
  then have kp: "key_part enc w' n = key_part enc w n" by (simp add: key_part_def Let_def same_deep_def)
  have "n_tag (nd w' (rt m)) = n_tag (nd w (rt m))" if "m \<in> set ms" for m
    using sub [of m m] that by (cases m) (simp add: same_deep_def Let_def)
  then have skip: "key_skip w' n ms = key_skip w n ms" using n by (intro key_skip_cong) (simp_all add: same_deep_def Let_def)
  have tag: "n_tag (nd w' n) = n_tag (nd w n)" using n by (simp add: same_deep_def Let_def)
  show ?case
  proof (cases "ms = [] \<and> cs = []")
    case True
    with n show ?thesis by (simp add: same_deep_def Let_def has_parts_def)
  next
    case False
    then show ?thesis by (simp only: deep_bytes.simps kp ms skip tag if_False)
  qed
qed

lemma deep_bytes_view:
  "(\<And>n. n \<in> set (ids t) \<Longrightarrow> same_view w w' n) \<Longrightarrow> deep_bytes enc w' t = deep_bytes enc w t"
  by (rule deep_bytes_same, rule same_view_deep) (use subtrees_ids rt_in_ids in blast)

section \<open>The invariant\<close>

definition counted_parts :: "world \<Rightarrow> ntree \<Rightarrow> ntree list" where
  "counted_parts w t = drop (key_skip w (rt t) (tmetas t)) (tmetas t) @ tkids t"

definition node_inv :: "(u32 \<Rightarrow> wval \<Rightarrow> byte list) \<Rightarrow> world \<Rightarrow> ntree \<Rightarrow> bool" where
  "node_inv enc w t \<longleftrightarrow>
     (n_eval_sz (nd w (rt t)) \<ge> 0 \<longrightarrow> n_eval_sz (nd w (rt t)) = int (length (deep_bytes enc w t)) \<and>
        n_eval_val_sz (nd w (rt t)) = int (length (deep_val enc w t))) \<and>
     (has_parts t \<longrightarrow> n_type (nd w (rt t)) = KNV_NODE \<and>
        (is_flat (nd w (rt t)) \<longrightarrow> flat_bytes w (rt t) = deep_val enc w t)) \<and>
     (\<forall>q \<in> set (tmetas t) \<union> set (tkids t). n_subnode_dirty (nd w (rt q)) \<longrightarrow> n_subnode_dirty (nd w (rt t))) \<and>
     (\<forall>q \<in> set (counted_parts w t). n_eval_sz (nd w (rt q)) < 0 \<longrightarrow> n_eval_sz (nd w (rt t)) < 0)"

definition tree_inv :: "(u32 \<Rightarrow> wval \<Rightarrow> byte list) \<Rightarrow> world \<Rightarrow> ntree \<Rightarrow> bool" where
  "tree_inv enc w t \<longleftrightarrow> tree_ok w t \<and> (\<forall>s \<in> set (subtrees t). node_inv enc w s)"

lemma tree_inv_NT:
  "tree_inv enc w (NT n ms cs) \<longleftrightarrow> tree_ok w (NT n ms cs) \<and> node_inv enc w (NT n ms cs) \<and>
     (\<forall>s \<in> set ms \<union> set cs. tree_inv enc w s)"
  using tree_ok_sub [of w n ms cs] by (auto simp: tree_inv_def)

lemma tree_inv_view:
  assumes "\<And>n. n \<in> set (ids t) \<Longrightarrow> nd w' n = nd w n \<and> same_view w w' n"
  shows "tree_inv enc w' t = tree_inv enc w t"
proof -
  have "node_inv enc w' s = node_inv enc w s" if s: "s \<in> set (subtrees t)" for s
  proof -
    obtain n ms cs where t: "s = NT n ms cs" by (cases s)
    have v: "\<And>i. i \<in> set (ids s) \<Longrightarrow> nd w' i = nd w i \<and> same_view w w' i" using subtrees_ids [OF s] assms by blast
    have n: "nd w' n = nd w n" "same_view w w' n" using v t by simp_all
    have q: "nd w' (rt q) = nd w (rt q)" "same_view w w' (rt q)" "deep_bytes enc w' q = deep_bytes enc w q"
      if "q \<in> set ms \<union> set cs" for q
      using v ids_sub [OF that, of n] rt_in_ids [of q] unfolding t by (blast intro: deep_bytes_view)+
    have skip: "key_skip w' n ms = key_skip w n ms" using n q by (intro key_skip_view) auto
    have "deep_bytes enc w' s = deep_bytes enc w s" using v by (intro deep_bytes_view) simp
    moreover have maps: "map (deep_bytes enc w') ms = map (deep_bytes enc w) ms" "map (deep_bytes enc w') cs = map (deep_bytes enc w) cs"
      using q(3) by auto
    have "n_type (nd w n) = KNV_NODE \<Longrightarrow> flat_bytes w' n = flat_bytes w n"
      using n by (simp add: same_view_def same_data_def wval_of_def flat_bytes_def)
    moreover from this have "deep_val enc w' s = deep_val enc w s"
      by (simp add: t deep_val_def n(1) key_part_view [OF n(2)] skip maps del: map_eq_conv)
    moreover have "counted_parts w' s = counted_parts w s" by (simp add: counted_parts_def t skip)
    moreover have "nd w' (rt q) = nd w (rt q)" if "q \<in> set (counted_parts w s)" for q
      using that q(1) by (auto simp: counted_parts_def t dest: in_set_dropD)
    ultimately show ?thesis
      using n(1) q(1) unfolding node_inv_def t by (simp cong: ball_cong imp_cong conj_cong del: deep_bytes.simps)
  qed
  moreover have "tree_ok w' t = tree_ok w t" using assms by (intro tree_ok_cong) simp
  ultimately show ?thesis by (simp add: tree_inv_def)
qed

text \<open>Under the invariant the caches do not change what the tree stands for.\<close>

lemma flat_leaf: "shape w (NT n [] []) \<Longrightarrow> is_flat (nd w n)"
  by (auto simp: node_shape_def is_flat_def split: if_splits)

lemma tree_inv_bytes: "tree_inv enc w t \<Longrightarrow> tree_bytes enc w t = deep_bytes enc w t"
proof (induction t)
  case (NT n ms cs)
  have sub: "\<And>s. s \<in> set ms \<union> set cs \<Longrightarrow> tree_bytes enc w s = deep_bytes enc w s" using NT by (auto simp: tree_inv_NT)
  then have maps: "map (tree_bytes enc w) ms = map (deep_bytes enc w) ms" "map (tree_bytes enc w) cs = map (deep_bytes enc w) cs"
    by auto
  show ?case
  proof (cases "ms = [] \<and> cs = []")
    case True
    with NT.prems show ?thesis by (simp add: tree_inv_def tree_ok_def flat_leaf del: shape.simps)
  next
    case False
    then have p: "has_parts (NT n ms cs)" by (auto simp: has_parts_def)
    with NT.prems have ni: "n_type (nd w n) = KNV_NODE" "is_flat (nd w n) \<Longrightarrow> flat_bytes w n = deep_val enc w (NT n ms cs)"
      by (auto simp: tree_inv_def node_inv_def)
    show ?thesis
    proof (cases "is_flat (nd w n)")
      case True
      with ni False show ?thesis by (auto simp: wval_of_def flat_bytes_def [symmetric] deep_val_def)
    next
      case notflat: False
      show ?thesis by (simp only: tree_bytes.simps deep_bytes.simps maps notflat False if_False)
    qed
  qed
qed

lemma tree_inv_subtree: "tree_inv enc w t \<Longrightarrow> s \<in> set (subtrees t) \<Longrightarrow> tree_inv enc w s"
proof (induction t)
  case (NT n ms cs)
  then show ?case by (cases "s = NT n ms cs") (auto simp: tree_inv_NT)
qed

lemma tree_inv_val:
  assumes "tree_inv enc w t"
  shows "tree_val enc w t = deep_val enc w t"
proof -
  obtain n ms cs where t: "t = NT n ms cs" by (cases t)
  have maps: "map (tree_bytes enc w) ms = map (deep_bytes enc w) ms" "map (tree_bytes enc w) cs = map (deep_bytes enc w) cs"
    using assms tree_inv_bytes unfolding t tree_inv_NT by auto
  show ?thesis
  proof (cases "ms = [] \<and> cs = []")
    case True
    with assms show ?thesis by (simp add: t tree_val_def deep_val_def tree_inv_def tree_ok_def flat_leaf del: shape.simps)
  next
    case False
    with assms have "is_flat (nd w n) \<Longrightarrow> n_type (nd w n) = KNV_NODE \<and> flat_bytes w n = deep_val enc w t"
      by (auto simp: t tree_inv_def node_inv_def has_parts_def)
    then show ?thesis
      unfolding t tree_val_def ntree.sel maps using False
      by (cases "is_flat (nd w n)") (simp_all only: t deep_val_def ntree.sel if_True if_False simp_thms)
  qed
qed

lemma tree_inv_sizes:
  assumes "tree_inv enc w t"
  shows "sizes_ok enc w t"
  unfolding sizes_ok_def
proof
  fix s
  assume s: "s \<in> set (subtrees t)"
  note i = tree_inv_subtree [OF assms s]
  have "node_inv enc w s" using assms s by (simp add: tree_inv_def)
  then show "size_ok enc w s" by (simp add: size_ok_def node_inv_def tree_inv_bytes [OF i] tree_inv_val [OF i])
qed

text \<open>A node with parts that is marked dirty: the invariant asks only for its shape and its sizes.\<close>

lemma tree_inv_dirty:
  assumes "node_shape w n ms cs" "node_ok (nd w n)" "n_type (nd w n) = KNV_NODE" "ms \<noteq> [] \<or> cs \<noteq> []" "n_subnode_dirty (nd w n)"
    and "distinct (ids (NT n ms cs))"
    and parts: "\<And>p. p \<in> set ms \<union> set cs \<Longrightarrow> tree_inv enc w p \<and> n_parent (nd w (rt p)) = Some n"
    and "n_eval_sz (nd w n) \<ge> 0 \<Longrightarrow> n_eval_sz (nd w n) = int (length (deep_bytes enc w (NT n ms cs))) \<and>
      n_eval_val_sz (nd w n) = int (length (deep_val enc w (NT n ms cs)))"
    and "\<And>p. p \<in> set (counted_parts w (NT n ms cs)) \<Longrightarrow> n_eval_sz (nd w (rt p)) < 0 \<Longrightarrow> n_eval_sz (nd w n) < 0"
  shows "tree_inv enc w (NT n ms cs)"
proof -
  have "shape w p" "\<forall>i \<in> set (ids p). node_ok (nd w i)" if "p \<in> set ms \<union> set cs" for p
    using parts [OF that] by (simp_all add: tree_inv_def tree_ok_def)
  with assms(1,2,6) parts have "tree_ok w (NT n ms cs)" by (auto simp: tree_ok_def)
  moreover have "\<not> is_flat (nd w n)"
    using assms(1,3,4,5) by (auto simp: is_flat_def node_shape_def split: if_splits)
  then have "node_inv enc w (NT n ms cs)"
    using assms(3,5,8,9) by (auto simp: node_inv_def simp del: deep_bytes.simps)
  ultimately show ?thesis using parts by (simp add: tree_inv_NT)
qed

section \<open>Replacing a subtree\<close>

text \<open>One part of a node replaced by another: a meta that is not the skipped key, or a child.\<close>

definition swap :: "nat \<Rightarrow> ntree \<Rightarrow> ntree \<Rightarrow> ntree list \<Rightarrow> ntree list \<Rightarrow> ntree list \<Rightarrow> ntree list \<Rightarrow> bool" where
  "swap j q q' ms cs ms' cs' \<longleftrightarrow>
     (\<exists>as bs. ms = as @ q # bs \<and> ms' = as @ q' # bs \<and> j \<le> length as \<and> cs' = cs) \<or>
     (\<exists>as bs. cs = as @ q # bs \<and> cs' = as @ q' # bs \<and> ms' = ms)"

lemma swap_parts:
  assumes "swap j q q' ms cs ms' cs'"
  shows "q \<in> set (drop j ms) \<union> set cs" "q' \<in> set (drop j ms') \<union> set cs'" "length ms' = length ms" "length cs' = length cs"
    "rt q' = rt q \<Longrightarrow> map rt ms' = map rt ms" "rt q' = rt q \<Longrightarrow> map rt cs' = map rt cs"
    "p \<in> set ms' \<union> set cs' \<Longrightarrow> p \<noteq> q' \<Longrightarrow> p \<in> set ms \<union> set cs"
    "p \<in> set (drop j ms') \<union> set cs' \<Longrightarrow> p \<noteq> q' \<Longrightarrow> p \<in> set (drop j ms) \<union> set cs"
  using assms by (auto simp: swap_def)

lemma swap_distinct:
  assumes "swap j q q' ms cs ms' cs'" "distinct (ids (NT n ms cs))" "p \<in> set ms' \<union> set cs'" "p \<noteq> q'"
  shows "set (ids p) \<inter> set (ids q) = {}"
proof -
  consider as bs where "ms = as @ q # bs" "ms' = as @ q' # bs" "cs' = cs" | as bs where "cs = as @ q # bs" "cs' = as @ q' # bs" "ms' = ms"
    using assms(1) by (auto simp: swap_def)
  then show ?thesis using assms(2-4) by cases fastforce+
qed

text \<open>In a tree with distinct nodes a part occurs once.\<close>

lemma part_occurs: "q \<in> set zs \<Longrightarrow> rt q \<in> set (concat (map ids zs))"
  by (auto intro: bexI [of _ q])

lemma part_once:
  assumes "distinct (concat (map ids (as @ q # bs)))"
  shows "q \<notin> set as \<union> set bs"
proof -
  from assms have "set (concat (map ids as)) \<inter> set (ids q) = {}" "set (ids q) \<inter> set (concat (map ids bs)) = {}" by auto
  with part_occurs rt_in_ids show ?thesis by blast
qed

lemma part_one_side:
  assumes "distinct (concat (map ids xs) @ concat (map ids ys))"
  shows "\<not> (q \<in> set xs \<and> q \<in> set ys)"
  using assms part_occurs by (metis disjoint_iff distinct_append)

lemma swap_length:
  assumes "swap j q q' ms cs ms' cs'" "distinct (ids (NT n ms' cs'))"
    and eq: "\<And>p. p \<in> set ms' \<union> set cs' \<Longrightarrow> p \<noteq> q' \<Longrightarrow> F' p = F p"
  shows "int (length (concat (drop j (map F' ms')) @ concat (map F' cs'))) =
     int (length (concat (drop j (map F ms)) @ concat (map F cs))) + (int (length (F' q')) - int (length (F q)))"
proof -
  have same: "map F' zs = map F zs" if "set zs \<subseteq> set ms' \<union> set cs'" "q' \<notin> set zs" for zs
    using that eq by auto
  have dd: "distinct (concat (map ids ms') @ concat (map ids cs'))" "distinct (concat (map ids ms'))" "distinct (concat (map ids cs'))"
    using assms(2) by simp_all
  consider (m) as bs where "ms = as @ q # bs" "ms' = as @ q' # bs" "j \<le> length as" "cs' = cs"
    | (c) as bs where "cs = as @ q # bs" "cs' = as @ q' # bs" "ms' = ms"
    using assms(1) by (auto simp: swap_def)
  then show ?thesis
  proof cases
    case m
    have q: "q' \<notin> set as \<union> set bs" using part_once dd(2) unfolding m(2) .
    have "q' \<notin> set cs'" using part_one_side [OF dd(1), of q'] m(2) by simp
    then have "map F' cs' = map F cs'" by (intro same) simp_all
    moreover have "map F' as = map F as" using q m(2) by (intro same) auto
    moreover have "map F' bs = map F bs" using q m(2) by (intro same) auto
    ultimately show ?thesis using m by (simp add: drop_append del: map_eq_conv)
  next
    case c
    have q: "q' \<notin> set as \<union> set bs" using part_once dd(3) unfolding c(2) .
    have "q' \<notin> set ms'" using part_one_side [OF dd(1), of q'] c(2) by simp
    then have "map F' ms' = map F ms'" by (intro same) simp_all
    moreover have "map F' as = map F as" using q c(2) by (intro same) auto
    moreover have "map F' bs = map F bs" using q c(2) by (intro same) auto
    ultimately show ?thesis using c by (simp del: map_eq_conv)
  qed
qed

lemma part_ids_disjoint:
  assumes "distinct (ids (NT n ms cs))" "a \<in> set ms \<union> set cs" "b \<in> set ms \<union> set cs" "a \<noteq> b"
  shows "set (ids a) \<inter> set (ids b) = {}"
proof -
  have "set (ids a) \<inter> set (ids b) = {}" if "distinct (concat (map ids zs))" "a \<in> set zs" "b \<in> set zs" for zs
    using that assms(4) by (induction zs) auto
  moreover have "distinct (concat (map ids ms))" "distinct (concat (map ids cs))"
    "set (concat (map ids ms)) \<inter> set (concat (map ids cs)) = {}" using assms(1) by simp_all
  moreover have "set (ids z) \<subseteq> set (concat (map ids zs))" if "z \<in> set zs" for z zs using that by auto
  ultimately show ?thesis using assms(2,3) by blast
qed

lemma subtree_unique:
  "distinct (ids t) \<Longrightarrow> u \<in> set (subtrees t) \<Longrightarrow> v \<in> set (subtrees t) \<Longrightarrow> rt u = rt v \<Longrightarrow> u = v"
proof (induction t)
  case (NT n ms cs)
  have in_part: "\<exists>p \<in> set ms \<union> set cs. x \<in> set (subtrees p)" if "x \<in> set (subtrees (NT n ms cs))" "x \<noteq> NT n ms cs" for x
    using that by auto
  have below: "rt x \<in> set (ids p)" "rt x \<noteq> n" if "p \<in> set ms \<union> set cs" "x \<in> set (subtrees p)" for x p
  proof -
    show "rt x \<in> set (ids p)" using subtrees_ids [OF that(2)] rt_in_ids [of x] by blast
    with that(1) NT.prems(1) show "rt x \<noteq> n" by auto
  qed
  show ?case
  proof (cases "u = NT n ms cs \<or> v = NT n ms cs")
    case True
    then show ?thesis using in_part [OF NT.prems(2)] in_part [OF NT.prems(3)] below NT.prems(4) by (metis ntree.sel(1))
  next
    case False
    then obtain p q where pq: "p \<in> set ms \<union> set cs" "u \<in> set (subtrees p)" "q \<in> set ms \<union> set cs" "v \<in> set (subtrees q)"
      using in_part NT.prems(2,3) by blast
    have "rt u \<in> set (ids p) \<inter> set (ids q)" using below(1) [OF pq(1,2)] below(1) [OF pq(3,4)] NT.prems(4) by simp
    then have "p = q" using part_ids_disjoint [OF NT.prems(1) pq(1,3)] by blast
    moreover have "distinct (ids p)" using NT.prems(1) pq(1) by (auto simp: distinct_concat_iff)
    ultimately show ?thesis using NT.IH pq NT.prems(4) by blast
  qed
qed

lemma swap_keeps:
  assumes "swap j q q' ms cs ms' cs'" "distinct (ids (NT n ms' cs'))" "i \<in> set (ids (NT n ms cs))" "i \<notin> set (ids q)" "i \<noteq> n"
  shows "\<exists>p \<in> set ms' \<union> set cs'. p \<noteq> q' \<and> i \<in> set (ids p)"
proof -
  obtain p where p: "p \<in> set ms \<union> set cs" "i \<in> set (ids p)" using assms(3,5) by auto
  with assms(4) have "p \<noteq> q" by blast
  have both: "\<not> (q' \<in> set ms' \<and> q' \<in> set cs')" using assms(2) by (intro part_one_side) simp
  have d: "distinct (concat (map ids ms'))" "distinct (concat (map ids cs'))" using assms(2) by simp_all
  consider (m) as bs where "ms = as @ q # bs" "ms' = as @ q' # bs" "cs' = cs"
    | (c) as bs where "cs = as @ q # bs" "cs' = as @ q' # bs" "ms' = ms"
    using assms(1) by (auto simp: swap_def)
  then show ?thesis
  proof cases
    case m
    then have "p \<in> set ms' \<union> set cs'" using p(1) \<open>p \<noteq> q\<close> by auto
    moreover have "p \<noteq> q'" using p(1) \<open>p \<noteq> q\<close> part_once [of as q' bs] d(1) both m by auto
    ultimately show ?thesis using p(2) by blast
  next
    case c
    then have "p \<in> set ms' \<union> set cs'" using p(1) \<open>p \<noteq> q\<close> by auto
    moreover have "p \<noteq> q'" using p(1) \<open>p \<noteq> q\<close> part_once [of as q' bs] d(2) both c by auto
    ultimately show ?thesis using p(2) by blast
  qed
qed

inductive repl :: "world \<Rightarrow> ntree \<Rightarrow> ntree \<Rightarrow> ntree \<Rightarrow> ntree \<Rightarrow> nat \<Rightarrow> bool" for w s s' where
  repl_here: "repl w s s' s s' 0"
| repl_part: "repl w s s' q q' d \<Longrightarrow> swap (key_skip w n ms) q q' ms cs ms' cs' \<Longrightarrow>
    repl w s s' (NT n ms cs) (NT n ms' cs') (Suc d)"


inductive_cases repl_cases: "repl w s s' t t' d"

lemma repl_ids: "repl w s s' t t' d \<Longrightarrow> set (ids s) \<subseteq> set (ids t)"
  by (induction rule: repl.induct) (auto simp: swap_def)

lemma repl_rt: "repl w s s' t t' d \<Longrightarrow> rt s' = rt s \<Longrightarrow> rt t' = rt t"
  by (induction rule: repl.induct) simp_all

lemma repl_new: "repl w s s' t t' d \<Longrightarrow> s' \<in> set (subtrees t')"
proof (induction rule: repl.induct)
  case repl_here
  show ?case by (cases s') simp
qed (auto simp: swap_def)

lemma repl_old: "repl w s s' t t' d \<Longrightarrow> s \<in> set (subtrees t)"
proof (induction rule: repl.induct)
  case repl_here
  show ?case by (cases s) simp
qed (auto simp: swap_def)

lemma distinct_subtree: "distinct (ids t) \<Longrightarrow> s \<in> set (subtrees t) \<Longrightarrow> distinct (ids s)"
proof (induction t)
  case (NT n ms cs)
  have "distinct (ids p)" if "p \<in> set ms \<union> set cs" for p using that NT.prems(1) by (auto simp: distinct_concat_iff)
  with NT show ?case by (cases "s = NT n ms cs") auto
qed

lemma repl_outside:
  "repl w s s' t t' d \<Longrightarrow> distinct (ids t') \<Longrightarrow> i \<in> set (ids t) \<Longrightarrow> i \<notin> set (ids s) \<Longrightarrow>
   i \<in> set (ids t') \<and> i \<notin> set (ids s')"
proof (induction rule: repl.induct)
  case (repl_part q q' d n ms cs ms' cs')
  note sw = repl_part.hyps(2)
  have q': "q' \<in> set ms' \<union> set cs'" using swap_parts(2) [OF sw] by (auto dest: in_set_dropD)
  have dq: "distinct (ids q')" using repl_part.prems(1) q' by (auto simp: distinct_concat_iff)
  have s': "set (ids s') \<subseteq> set (ids q')" using subtrees_ids [OF repl_new [OF repl_part.hyps(1)]] .
  show ?case
  proof (cases "i \<in> set (ids q)")
    case True
    with repl_part dq have "i \<in> set (ids q') \<and> i \<notin> set (ids s')" by blast
    with ids_sub [OF q', of n] show ?thesis by blast
  next
    case False
    with repl_part.prems(2) sw consider "i = n" | p where "p \<in> set ms' \<union> set cs'" "p \<noteq> q'" "i \<in> set (ids p)"
      using swap_keeps [OF sw repl_part.prems(1)] by auto
    then show ?thesis
    proof cases
      case 1
      then have "i \<notin> set (ids q')" using repl_part.prems(1) q' by auto
      with 1 s' show ?thesis by auto
    next
      case (2 p)
      with part_ids_disjoint [OF repl_part.prems(1) 2(1) q'] s' ids_sub [OF 2(1), of n] show ?thesis by blast
    qed
  qed
qed simp

lemma repl_depth: "repl w s s' t t' d \<Longrightarrow> d < length (ids t)"
proof (induction rule: repl.induct)
  case repl_here
  show ?case by (cases s) simp
next
  case (repl_part q q' d n ms cs ms' cs')
  have "q \<in> set ms \<union> set cs" using swap_parts(1) [OF repl_part.hyps(2)] by (auto dest: in_set_dropD)
  from length_ids_sub [OF this, of n] repl_part.IH show ?case by simp
qed

text \<open>The root of the whole tree is outside the replaced subtree, unless it is its root.\<close>

lemma repl_root:
  assumes "repl w s s' t t' d" "distinct (ids t)" "rt t \<in> set (ids s)"
  shows "t = s"
  using assms(1)
proof (rule repl_cases)
  fix q q' d n ms cs ms' cs'
  assume t: "t = NT n ms cs" and q: "repl w s s' q q' d" and sw: "swap (key_skip w n ms) q q' ms cs ms' cs'"
  have "q \<in> set ms \<union> set cs" using swap_parts(1) [OF sw] by (auto dest: in_set_dropD)
  with repl_ids [OF q] assms(2,3) show "t = s" by (auto simp: t)
qed

section \<open>One ancestor\<close>

text \<open>What the loop of \<open>UpdateParentEvalueAndSetDirty\<close> does to one ancestor.\<close>

definition climb_node :: "codecs \<Rightarrow> bool \<Rightarrow> bool \<Rightarrow> int \<Rightarrow> knv_node \<Rightarrow> knv_node" where
  "climb_node g ud ue off x =
     (let val_sz = n_eval_val_sz x + off;
          y = (if ue then x\<lparr>n_eval_val_sz := val_sz,
                 n_eval_sz := knv_eval_field_length g (n_tag x) (n_type x) (str_value (word_of_int val_sz) NULL)\<rparr> else x)
      in if ud then y\<lparr>n_val := set_v_len 0 (n_val x), n_subnode_dirty := True\<rparr> else y)"

lemma climb_node_sel [simp]:
  "n_tag (climb_node g ud ue off x) = n_tag x" "n_type (climb_node g ud ue off x) = n_type x"
  "n_dyn (climb_node g ud ue off x) = n_dyn x" "n_key (climb_node g ud ue off x) = n_key x"
  "n_child_num (climb_node g ud ue off x) = n_child_num x" "n_ht (climb_node g ud ue off x) = n_ht x"
  "n_childlist (climb_node g ud ue off x) = n_childlist x" "n_metalist (climb_node g ud ue off x) = n_metalist x"
  "n_metas (climb_node g ud ue off x) = n_metas x" "n_child_has_key (climb_node g ud ue off x) = n_child_has_key x"
  "n_no_key (climb_node g ud ue off x) = n_no_key x" "n_parent (climb_node g ud ue off x) = n_parent x"
  "n_errmsg (climb_node g ud ue off x) = n_errmsg x"
  "n_subnode_dirty (climb_node g ud ue off x) = (ud \<or> n_subnode_dirty x)"
  "n_eval_val_sz (climb_node g ud ue off x) = (if ue then n_eval_val_sz x + off else n_eval_val_sz x)"
  "n_eval_sz (climb_node g ud ue off x) = (if ue then
     knv_eval_field_length g (n_tag x) (n_type x) (str_value (word_of_int (n_eval_val_sz x + off)) NULL) else n_eval_sz x)"
  by (simp_all add: climb_node_def Let_def)

lemma climb_step:
  assumes "ue' \<longleftrightarrow> ue \<and> n_eval_sz (nd w p) \<ge> 0 \<and> off \<noteq> 0" "ud' \<longleftrightarrow> ud \<and> \<not> n_subnode_dirty (nd w p)"
  shows "update_ancestors g (Suc k) (Some p) ud ue off w =
     update_ancestors g k (n_parent (nd w p)) ud' ue'
       (if ue' then n_eval_sz (climb_node g ud' ue' off (nd w p)) - n_eval_sz (nd w p) else off)
       (upd p (climb_node g ud' ue' off) w)"
proof -
  have idle: "update_ancestors g k q False False o1 w1 = Some w1" for q o1 w1
    by (cases k; cases q) simp_all
  show ?thesis
    using assms by (cases ue'; cases ud'; cases ue; cases ud)
      (auto simp: UPDATE_EVAL_SZ_def SET_VALUE_DIRTY_def climb_node_def upd_def Let_def idle)
qed


section \<open>Restoring the invariant upwards\<close>

text \<open>
  The subtree \<open>t\<close> of the old world has become \<open>t'\<close> in the new one: its root is the same node with the same
  tag and parent, now marked dirty; what is still to be told to its parent are the dirty flag (\<open>ud\<close>, not
  needed when the root was dirty before) and, when the root was evaluated, the change \<open>off\<close> of its size.
\<close>

definition renewed :: "(u32 \<Rightarrow> wval \<Rightarrow> byte list) \<Rightarrow> world \<Rightarrow> world \<Rightarrow> ntree \<Rightarrow> ntree \<Rightarrow> bool \<Rightarrow> bool \<Rightarrow> int \<Rightarrow> bool" where
  "renewed enc w w' t t' ud ue off \<longleftrightarrow> tree_inv enc w' t' \<and> rt t' = rt t \<and> n_subnode_dirty (nd w' (rt t)) \<and>
     (\<not> ud \<longrightarrow> n_subnode_dirty (nd w (rt t))) \<and> n_tag (nd w' (rt t)) = n_tag (nd w (rt t)) \<and>
     n_parent (nd w' (rt t)) = n_parent (nd w (rt t)) \<and>
     (n_eval_sz (nd w (rt t)) \<ge> 0 \<longrightarrow> n_eval_sz (nd w' (rt t)) \<ge> 0 \<and>
        (if ue then off else 0) = int (length (deep_bytes enc w' t')) - int (length (deep_bytes enc w t)))"

lemma renewedD:
  assumes "renewed enc w w' t t' ud ue off"
  shows "tree_inv enc w' t'" "rt t' = rt t" "n_subnode_dirty (nd w' (rt t))" "\<not> ud \<Longrightarrow> n_subnode_dirty (nd w (rt t))"
    "n_tag (nd w' (rt t)) = n_tag (nd w (rt t))" "n_parent (nd w' (rt t)) = n_parent (nd w (rt t))"
    "n_eval_sz (nd w (rt t)) \<ge> 0 \<Longrightarrow> n_eval_sz (nd w' (rt t)) \<ge> 0"
    "n_eval_sz (nd w (rt t)) \<ge> 0 \<Longrightarrow>
       (if ue then off else 0) = int (length (deep_bytes enc w' t')) - int (length (deep_bytes enc w t))"
  using assms by (auto simp: renewed_def)

lemma deep_inner: "ms \<noteq> [] \<or> cs \<noteq> [] \<Longrightarrow>
  deep_bytes enc w (NT n ms cs) = enc (n_tag (nd w n)) (WString (deep_val enc w (NT n ms cs)))"
  by (auto simp: deep_val_def)

lemma deep_val_inner: "ms \<noteq> [] \<or> cs \<noteq> [] \<Longrightarrow>
  deep_val enc w (NT n ms cs) = key_part enc w n @ concat (drop (key_skip w n ms) (map (deep_bytes enc w) ms)) @
     concat (map (deep_bytes enc w) cs)"
  by (auto simp: deep_val_def)

text \<open>A node whose part \<open>q\<close> has become \<open>q'\<close> in the world \<open>w2\<close>, everything else of the tree being as it was.\<close>

definition part_changed :: "(u32 \<Rightarrow> wval \<Rightarrow> byte list) \<Rightarrow> world \<Rightarrow> world \<Rightarrow> nat \<Rightarrow> ntree list \<Rightarrow> ntree list \<Rightarrow>
    ntree list \<Rightarrow> ntree list \<Rightarrow> ntree \<Rightarrow> ntree \<Rightarrow> bool \<Rightarrow> bool \<Rightarrow> int \<Rightarrow> bool" where
  "part_changed enc w w2 n ms cs ms' cs' q q' ud ue off \<longleftrightarrow> tree_inv enc w (NT n ms cs) \<and>
     swap (key_skip w n ms) q q' ms cs ms' cs' \<and> distinct (ids (NT n ms' cs')) \<and>
     (\<forall>i \<in> set (ids (NT n ms cs)). i \<notin> set (ids q) \<longrightarrow> nd w2 i = nd w i \<and> same_view w w2 i) \<and>
     renewed enc w w2 q q' ud ue off"

lemma part_changedD:
  assumes "part_changed enc w w2 n ms cs ms' cs' q q' ud ue off"
  shows "tree_inv enc w (NT n ms cs)" "swap (key_skip w n ms) q q' ms cs ms' cs'" "distinct (ids (NT n ms' cs'))"
    "\<And>i. i \<in> set (ids (NT n ms cs)) \<Longrightarrow> i \<notin> set (ids q) \<Longrightarrow> nd w2 i = nd w i \<and> same_view w w2 i"
    "renewed enc w w2 q q' ud ue off"
  using assms by (auto simp: part_changed_def simp del: ids.simps)

lemma pc_n_same:
  assumes pc: "part_changed enc w w2 n ms cs ms' cs' q q' ud ue off"
  shows "nd w2 n = nd w n" "same_view w w2 n"
proof -
  have "q \<in> set ms \<union> set cs" using swap_parts(1) [OF part_changedD(2) [OF pc]] by (auto dest: in_set_dropD)
  moreover have "distinct (ids (NT n ms cs))" using part_changedD(1) [OF pc] by (simp add: tree_inv_def tree_ok_def)
  ultimately have "n \<notin> set (ids q)" by auto
  then show "nd w2 n = nd w n" "same_view w w2 n" using part_changedD(4) [OF pc, of n] by simp_all
qed

lemma pc_other:
  assumes pc: "part_changed enc w w2 n ms cs ms' cs' q q' ud ue off" and "p \<in> set ms' \<union> set cs'" "p \<noteq> q'"
  shows "p \<in> set ms \<union> set cs" "tree_inv enc w2 p" "deep_bytes enc w2 p = deep_bytes enc w p" "nd w2 (rt p) = nd w (rt p)"
proof -
  show p: "p \<in> set ms \<union> set cs" using swap_parts(7) [OF part_changedD(2) [OF pc] assms(2,3)] .
  have "distinct (ids (NT n ms cs))" using part_changedD(1) [OF pc] by (simp add: tree_inv_def tree_ok_def)
  then have "set (ids p) \<inter> set (ids q) = {}" by (rule swap_distinct [OF part_changedD(2) [OF pc] _ assms(2,3)])
  then have v: "nd w2 i = nd w i \<and> same_view w w2 i" if "i \<in> set (ids p)" for i
    using that ids_sub [OF p, of n] by (intro part_changedD(4) [OF pc]) auto
  have "tree_inv enc w p" using part_changedD(1) [OF pc] p by (auto simp: tree_inv_NT)
  with v show "tree_inv enc w2 p" using tree_inv_view [of p w2 w enc] by blast
  show "deep_bytes enc w2 p = deep_bytes enc w p" using v by (intro deep_bytes_view) blast
  show "nd w2 (rt p) = nd w (rt p)" using v by simp
qed

lemma pc_roots:
  assumes pc: "part_changed enc w w2 n ms cs ms' cs' q q' ud ue off"
  shows "map rt ms' = map rt ms" "map rt cs' = map rt cs"
  using swap_parts(5,6) [OF part_changedD(2) [OF pc]] renewedD(2) [OF part_changedD(5) [OF pc]] by simp_all

lemma pc_parts:
  assumes pc: "part_changed enc w w2 n ms cs ms' cs' q q' ud ue off"
  shows "ms \<noteq> [] \<or> cs \<noteq> []" "ms' \<noteq> [] \<or> cs' \<noteq> []"
  using swap_parts(1-4) [OF part_changedD(2) [OF pc]] by auto

lemma pc_tags:
  assumes pc: "part_changed enc w w2 n ms cs ms' cs' q q' ud ue off"
  shows "m \<in> set ms \<Longrightarrow> n_tag (nd w2 (rt m)) = n_tag (nd w (rt m))"
proof -
  assume "m \<in> set ms"
  then obtain m' where m': "m' \<in> set ms'" "rt m' = rt m" using pc_roots(1) [OF pc] by (metis (no_types, lifting) image_iff list.set_map)
  show "n_tag (nd w2 (rt m)) = n_tag (nd w (rt m))"
  proof (cases "m' = q'")
    case True
    with m' renewedD(2,5) [OF part_changedD(5) [OF pc]] show ?thesis by simp
  next
    case False
    with pc_other(4) [OF pc, of m'] m' show ?thesis by simp
  qed
qed

lemma pc_skip:
  assumes pc: "part_changed enc w w2 n ms cs ms' cs' q q' ud ue off"
  shows "key_skip w2 n ms' = key_skip w n ms"
  using pc_n_same(1) [OF pc] pc_roots(1) [OF pc] pc_tags [OF pc] by (intro key_skip_cong) simp_all

lemma pc_val_length:
  assumes pc: "part_changed enc w w2 n ms cs ms' cs' q q' ud ue off"
  shows "int (length (deep_val enc w2 (NT n ms' cs'))) = int (length (deep_val enc w (NT n ms cs))) +
     (int (length (deep_bytes enc w2 q')) - int (length (deep_bytes enc w q)))"
proof -
  have "int (length (concat (drop (key_skip w n ms) (map (deep_bytes enc w2) ms')) @ concat (map (deep_bytes enc w2) cs'))) =
     int (length (concat (drop (key_skip w n ms) (map (deep_bytes enc w) ms)) @ concat (map (deep_bytes enc w) cs))) +
       (int (length (deep_bytes enc w2 q')) - int (length (deep_bytes enc w q)))"
    by (rule swap_length [OF part_changedD(2) [OF pc] part_changedD(3) [OF pc]]) (rule pc_other(3) [OF pc])
  then show ?thesis
    by (simp only: deep_val_inner [OF pc_parts(1) [OF pc]] deep_val_inner [OF pc_parts(2) [OF pc]]
        key_part_view [OF pc_n_same(2) [OF pc]] pc_skip [OF pc] length_append of_nat_add)
qed

lemma pc_was:
  assumes pc: "part_changed enc w w2 n ms cs ms' cs' q q' ud ue off"
  shows "n_type (nd w n) = KNV_NODE" "node_ok (nd w n)" "n_subnode_dirty (nd w (rt q)) \<Longrightarrow> n_subnode_dirty (nd w n)"
    "n_eval_sz (nd w (rt q)) < 0 \<Longrightarrow> n_eval_sz (nd w n) < 0"
    "n_eval_sz (nd w n) \<ge> 0 \<Longrightarrow> n_eval_sz (nd w n) = int (length (deep_bytes enc w (NT n ms cs)))"
    "n_eval_sz (nd w n) \<ge> 0 \<Longrightarrow> n_eval_val_sz (nd w n) = int (length (deep_val enc w (NT n ms cs)))"
    "n_metalist (nd w n) = map rt ms" "n_childlist (nd w n) = map rt cs" "n_child_num (nd w n) = int (length cs)"
    "n_parent (nd w (rt q)) = Some n"
proof -
  have q': "q \<in> set ms \<union> set cs" "q \<in> set (counted_parts w (NT n ms cs))"
    using swap_parts(1) [OF part_changedD(2) [OF pc]] by (auto simp: counted_parts_def dest: in_set_dropD)
  have i: "node_inv enc w (NT n ms cs)" "tree_ok w (NT n ms cs)" using part_changedD(1) [OF pc] by (simp_all add: tree_inv_NT)
  from i(1) pc_parts(1) [OF pc] q' show "n_type (nd w n) = KNV_NODE" "n_subnode_dirty (nd w (rt q)) \<Longrightarrow> n_subnode_dirty (nd w n)"
    "n_eval_sz (nd w (rt q)) < 0 \<Longrightarrow> n_eval_sz (nd w n) < 0"
    "n_eval_sz (nd w n) \<ge> 0 \<Longrightarrow> n_eval_sz (nd w n) = int (length (deep_bytes enc w (NT n ms cs)))"
    "n_eval_sz (nd w n) \<ge> 0 \<Longrightarrow> n_eval_val_sz (nd w n) = int (length (deep_val enc w (NT n ms cs)))"
    by (auto simp: node_inv_def has_parts_def simp del: deep_bytes.simps)
  from i(2) pc_parts(1) [OF pc] q'(1) show "node_ok (nd w n)" "n_metalist (nd w n) = map rt ms" "n_childlist (nd w n) = map rt cs"
    "n_child_num (nd w n) = int (length cs)" "n_parent (nd w (rt q)) = Some n"
    by (auto simp: tree_ok_def node_shape_def split: if_splits)
qed



text \<open>The parts are not touched when the node itself is written.\<close>

lemma pc_parts_after:
  assumes pc: "part_changed enc w w2 n ms cs ms' cs' q q' ud ue off" and p: "p \<in> set ms' \<union> set cs'"
  shows "tree_inv enc (upd n f w2) p" "deep_bytes enc (upd n f w2) p = deep_bytes enc w2 p"
    "nd (upd n f w2) (rt p) = nd w2 (rt p)"
proof -
  have "n \<notin> set (ids p)" using part_changedD(3) [OF pc] p by auto
  then have v: "nd (upd n f w2) i = nd w2 i \<and> same_view w2 (upd n f w2) i" if "i \<in> set (ids p)" for i
    using that by (auto simp: same_view_def)
  have "tree_inv enc w2 p" using pc_other(2) [OF pc p] renewedD(1) [OF part_changedD(5) [OF pc]] by (cases "p = q'") simp_all
  with v tree_inv_view [of p "upd n f w2" w2 enc] show "tree_inv enc (upd n f w2) p" by blast
  show "deep_bytes enc (upd n f w2) p = deep_bytes enc w2 p" using v by (intro deep_bytes_view) blast
  show "nd (upd n f w2) (rt p) = nd w2 (rt p)" using v [of "rt p"] by simp
qed

lemma pc_bytes_after:
  assumes pc: "part_changed enc w w2 n ms cs ms' cs' q q' ud ue off"
    and f: "n_tag (f (nd w n)) = n_tag (nd w n)" "n_key (f (nd w n)) = n_key (nd w n)" "n_no_key (f (nd w n)) = n_no_key (nd w n)"
  shows "deep_val enc (upd n f w2) (NT n ms' cs') = deep_val enc w2 (NT n ms' cs')"
    "deep_bytes enc (upd n f w2) (NT n ms' cs') = deep_bytes enc w2 (NT n ms' cs')"
    "key_skip (upd n f w2) n ms' = key_skip w2 n ms'"
proof -
  let ?w3 = "upd n f w2"
  note n2 = pc_n_same(1) [OF pc]
  have k: "keyed (nd ?w3 n) = keyed (nd w2 n)" using f n2 by (simp add: keyed_def)
  then have kp: "key_part enc ?w3 n = key_part enc w2 n" using f n2 by (simp add: key_part_def Let_def)
  show ks: "key_skip ?w3 n ms' = key_skip w2 n ms'"
    using pc_parts_after(3) [OF pc] k by (intro key_skip_cong) simp_all
  have maps: "map (deep_bytes enc ?w3) ms' = map (deep_bytes enc w2) ms'" "map (deep_bytes enc ?w3) cs' = map (deep_bytes enc w2) cs'"
    using pc_parts_after(2) [OF pc] by auto
  show v: "deep_val enc ?w3 (NT n ms' cs') = deep_val enc w2 (NT n ms' cs')"
    by (simp only: deep_val_inner [OF pc_parts(2) [OF pc]] kp ks maps)
  have "n_tag (nd ?w3 n) = n_tag (nd w2 n)" using f n2 by simp
  then show "deep_bytes enc ?w3 (NT n ms' cs') = deep_bytes enc w2 (NT n ms' cs')"
    by (simp only: deep_inner [OF pc_parts(2) [OF pc]] v)
qed

text \<open>The invariant holds again at the node once it is marked dirty and its sizes are right.\<close>

lemma pc_restored:
  assumes pc: "part_changed enc w w2 n ms cs ms' cs' q q' ud ue off"
    and f: "n_tag (f (nd w n)) = n_tag (nd w n)" "n_type (f (nd w n)) = n_type (nd w n)" "n_key (f (nd w n)) = n_key (nd w n)"
      "n_no_key (f (nd w n)) = n_no_key (nd w n)" "n_child_num (f (nd w n)) = n_child_num (nd w n)"
      "n_childlist (f (nd w n)) = n_childlist (nd w n)" "n_metalist (f (nd w n)) = n_metalist (nd w n)"
      "n_subnode_dirty (f (nd w n))"
    and sizes: "n_eval_sz (f (nd w n)) \<ge> 0 \<Longrightarrow> n_eval_sz (nd w n) \<ge> 0 \<and>
      n_eval_sz (f (nd w n)) = int (length (deep_bytes enc w2 (NT n ms' cs'))) \<and>
      n_eval_val_sz (f (nd w n)) = int (length (deep_val enc w2 (NT n ms' cs')))"
  shows "tree_inv enc (upd n f w2) (NT n ms' cs')"
proof -
  let ?w3 = "upd n f w2"
  have parent: "n_parent (nd w2 (rt p)) = Some n" if p: "p \<in> set ms' \<union> set cs'" for p
  proof (cases "p = q'")
    case True
    with renewedD(2,6) [OF part_changedD(5) [OF pc]] pc_was(10) [OF pc] show ?thesis by simp
  next
    case False
    with pc_other(1,4) [OF pc p] part_changedD(1) [OF pc] show ?thesis by (auto simp: tree_inv_def tree_ok_def)
  qed
  note after = pc_parts_after [OF pc] and n2 = pc_n_same(1) [OF pc]
  note bytes = pc_bytes_after [where f = f, OF pc f(1,3,4)]
  have "length cs' = length cs" using swap_parts(4) [OF part_changedD(2) [OF pc]] .
  then have shape3: "node_shape ?w3 n ms' cs'" using pc_was(7-9) [OF pc] pc_roots [OF pc] f by (simp add: node_shape_def n2)
  have ok3: "node_ok (nd ?w3 n)" using pc_was(2) [OF pc] f by (simp add: node_ok_def n2)
  have neg: "n_eval_sz (f (nd w n)) < 0" if p: "p \<in> set (drop (key_skip w n ms) ms') \<union> set cs'" "n_eval_sz (nd w2 (rt p)) < 0" for p
  proof -
    have "n_eval_sz (nd w n) < 0"
    proof (cases "p = q'")
      case True
      with p renewedD(2,7) [OF part_changedD(5) [OF pc]] pc_was(4) [OF pc] show ?thesis by fastforce
    next
      case False
      have p': "p \<in> set ms' \<union> set cs'" using p by (auto dest: in_set_dropD)
      have "p \<in> set (counted_parts w (NT n ms cs))"
        using swap_parts(8) [OF part_changedD(2) [OF pc] p(1) False] by (simp add: counted_parts_def)
      with p(2) pc_other(4) [OF pc p' False] part_changedD(1) [OF pc] show ?thesis by (auto simp: tree_inv_NT node_inv_def)
    qed
    with sizes show ?thesis by force
  qed
  have ev: "n_eval_sz (nd ?w3 n) < 0" if "p \<in> set (counted_parts ?w3 (NT n ms' cs'))" "n_eval_sz (nd ?w3 (rt p)) < 0" for p
  proof -
    have p: "p \<in> set (drop (key_skip w n ms) ms') \<union> set cs'"
      using that(1) unfolding counted_parts_def ntree.sel bytes(3) pc_skip [OF pc] by simp
    then have "p \<in> set ms' \<union> set cs'" by (auto dest: in_set_dropD)
    with that(2) after(3) have "n_eval_sz (nd w2 (rt p)) < 0" by (simp del: nd_upd)
    with neg [OF p] show ?thesis by (simp add: n2)
  qed
  have n3: "nd ?w3 n = f (nd w n)" by (simp add: n2)
  show ?thesis
    using shape3 ok3 f pc_was(1) [OF pc] pc_parts(2) [OF pc] part_changedD(3) [OF pc] after parent sizes bytes ev n3
    by (intro tree_inv_dirty) (simp_all del: nd_upd deep_bytes.simps ids.simps)
qed

lemma repl_skip:
  assumes r: "repl w s s' q q' d" and sw: "swap (key_skip w n ms) q q' ms cs ms' cs'" and new: "rt s' = rt s" "n_tag (nd w1 (rt s)) = n_tag (nd w (rt s))"
    and dt: "distinct (ids (NT n ms cs))"
    and view: "\<And>i. i \<in> set (ids (NT n ms cs)) \<Longrightarrow> i \<notin> set (ids s) \<Longrightarrow> nd w1 i = nd w i \<and> same_view w w1 i"
  shows "key_skip w1 n ms' = key_skip w n ms"
proof (rule key_skip_cong)
  have qm: "q \<in> set ms \<union> set cs" using swap_parts(1) [OF sw] by (auto dest: in_set_dropD)
  have "n \<notin> set (ids s)" using repl_ids [OF r] dt qm by auto
  then show "keyed (nd w1 n) = keyed (nd w n)" using view [of n] by simp
  show "map rt ms' = map rt ms" using swap_parts(5) [OF sw] repl_rt [OF r new(1)] .
  fix m
  assume m: "m \<in> set ms"
  show "n_tag (nd w1 (rt m)) = n_tag (nd w (rt m))"
  proof (cases "rt m \<in> set (ids s)")
    case True
    with repl_ids [OF r] have "rt m \<in> set (ids q)" by blast
    moreover have "set (ids m) \<inter> set (ids q) = {}" if "m \<noteq> q"
      using part_ids_disjoint [OF dt _ qm that] m by simp
    ultimately have "m = q" using rt_in_ids [of m] by blast
    moreover have "distinct (ids q)" using qm dt by (auto simp: distinct_concat_iff)
    ultimately have "m = s" using repl_root [OF r] True by simp
    with new(2) show ?thesis by simp
  next
    case False
    moreover have "rt m \<in> set (ids (NT n ms cs))" using m ids_sub [of m ms cs n] rt_in_ids [of m] by blast
    ultimately show ?thesis using view by simp
  qed
qed

lemma tree_inv_upd: "n \<notin> set (ids p) \<Longrightarrow> tree_inv enc (upd n f w) p = tree_inv enc w p"
  by (rule tree_inv_view) (auto simp: same_view_def)

text \<open>Writing to a node with parts, but not to its tag and key, does not change what the tree stands for.\<close>

lemma upd_inner_bytes:
  assumes "distinct (ids t)" "u \<in> set (subtrees t)" "has_parts u" "rt u = n" "n_tag (f (nd w n)) = n_tag (nd w n)"
    "n_key (f (nd w n)) = n_key (nd w n)" "n_no_key (f (nd w n)) = n_no_key (nd w n)"
  shows "deep_bytes enc (upd n f w) t = deep_bytes enc w t" "deep_val enc (upd n f w) u = deep_val enc w u"
    "counted_parts (upd n f w) u = counted_parts w u"
proof -
  have k: "keyed (f (nd w n)) = keyed (nd w n)" using assms(6,7) by (simp add: keyed_def)
  have deep: "same_deep w (upd n f w) v" if "has_parts v \<or> rt v \<noteq> n" for v
    using that assms(5-7) k by (cases "rt v = n") (simp_all add: same_deep_def Let_def)
  have "has_parts v \<or> rt v \<noteq> n" if "v \<in> set (subtrees t)" for v
    using subtree_unique [OF assms(1) that assms(2)] assms(3,4) by (cases "rt v = n") simp_all
  then show "deep_bytes enc (upd n f w) t = deep_bytes enc w t" by (intro deep_bytes_same deep)
  obtain ms cs where u: "u = NT n ms cs" using assms(4) by (cases u) simp
  have du: "distinct (ids u)" by (rule distinct_subtree [OF assms(1,2)])
  have sub: "deep_bytes enc (upd n f w) p = deep_bytes enc w p" "rt p \<noteq> n" if p: "p \<in> set ms \<union> set cs" for p
  proof -
    have "n \<notin> set (ids p)" using du p by (auto simp: u)
    then show "deep_bytes enc (upd n f w) p = deep_bytes enc w p" by (intro deep_bytes_view) (simp add: same_view_def, metis alike_refl)
    from \<open>n \<notin> set (ids p)\<close> show "rt p \<noteq> n" using rt_in_ids [of p] by metis
  qed
  have skip: "key_skip (upd n f w) n ms = key_skip w n ms" using k sub(2) by (intro key_skip_cong) auto
  have kp: "key_part enc (upd n f w) n = key_part enc w n" using assms(6) k by (simp add: key_part_def Let_def)
  have maps: "map (deep_bytes enc (upd n f w)) ms = map (deep_bytes enc w) ms" "map (deep_bytes enc (upd n f w)) cs = map (deep_bytes enc w) cs"
    using sub(1) by auto
  have "ms \<noteq> [] \<or> cs \<noteq> []" using assms(3) by (auto simp: has_parts_def u)
  from deep_val_inner [OF this] show "deep_val enc (upd n f w) u = deep_val enc w u" by (simp only: u kp maps skip)
  show "counted_parts (upd n f w) u = counted_parts w u" by (simp add: counted_parts_def u skip)
qed

text \<open>
  The end of an edit: the metas and children of \<open>n\<close> are now \<open>ms'\<close> and \<open>cs'\<close> in the world \<open>w1\<close>, and \<open>off\<close> is
  the change of the length of its value, if its size was known.
\<close>

definition edited :: "(u32 \<Rightarrow> wval \<Rightarrow> byte list) \<Rightarrow> world \<Rightarrow> world \<Rightarrow> ntree \<Rightarrow> ntree \<Rightarrow> int \<Rightarrow> bool" where
  "edited enc w w1 s s' off \<longleftrightarrow> (let n = rt s; x = nd w n; y = nd w1 n in rt s' = n \<and> has_parts s' \<and>
     n_type x = KNV_NODE \<and> n_tag y = n_tag x \<and> n_type y = n_type x \<and> n_key y = n_key x \<and> n_parent y = n_parent x \<and>
     n_eval_sz y = n_eval_sz x \<and> n_eval_val_sz y = n_eval_val_sz x \<and>
     node_shape w1 n (tmetas s') (tkids s') \<and> distinct (ids s') \<and>
     (\<forall>p \<in> set (tmetas s') \<union> set (tkids s'). tree_inv enc w1 p \<and> n_parent (nd w1 (rt p)) = Some n) \<and>
     (n_eval_sz x \<ge> 0 \<longrightarrow> off = int (length (deep_val enc w1 s')) - n_eval_val_sz x \<and>
        (\<forall>p \<in> set (counted_parts w1 s'). n_eval_sz (nd w1 (rt p)) \<ge> 0)))"

context knv_codec
begin

lemma deep_part_length:
  assumes "p \<in> set (drop (key_skip w n ms) ms) \<union> set cs"
  shows "length (deep_bytes enc w p) \<le> length (deep_bytes enc w (NT n ms cs))"
proof -
  have ne: "ms \<noteq> [] \<or> cs \<noteq> []" using assms by auto
  have le: "s \<in> set ts \<Longrightarrow> length (deep_bytes enc w s) \<le> length (concat (map (deep_bytes enc w) ts))" for s ts
    by (simp add: length_concat comp_def member_le_sum_list)
  have "length (deep_bytes enc w p) \<le> length (deep_val enc w (NT n ms cs))"
    using assms le [of p "drop (key_skip w n ms) ms"] le [of p cs] by (auto simp: deep_val_inner [OF ne] drop_map)
  then show ?thesis unfolding deep_inner [OF ne] length_enc_string by simp
qed

lemma climb_one:
  assumes pc: "part_changed enc w w2 n ms cs ms' cs' q q' ud ue off"
    and small: "length (deep_bytes enc w2 (NT n ms' cs')) < 2 ^ 31"
    and flags: "ue' \<longleftrightarrow> ue \<and> n_eval_sz (nd w n) \<ge> 0 \<and> off \<noteq> 0" "ud' \<longleftrightarrow> ud \<and> \<not> n_subnode_dirty (nd w n)"
  shows "renewed enc w (upd n (climb_node g ud' ue' off) w2) (NT n ms cs) (NT n ms' cs') ud' ue'
      (if ue' then n_eval_sz (climb_node g ud' ue' off (nd w n)) - n_eval_sz (nd w n) else off)"
    "deep_bytes enc (upd n (climb_node g ud' ue' off) w2) (NT n ms' cs') = deep_bytes enc w2 (NT n ms' cs')"
proof -
  let ?f = "climb_node g ud' ue' off" and ?t' = "NT n ms' cs'" and ?t = "NT n ms cs"
  let ?v = "deep_val enc w2 ?t'"
  note r = renewedD [OF part_changedD(5) [OF pc]] and was = pc_was [OF pc]
  have new: "deep_bytes enc w2 ?t' = enc (n_tag (nd w n)) (WString ?v)"
    by (simp only: deep_inner [OF pc_parts(2) [OF pc]] pc_n_same(1) [OF pc])
  have old: "deep_bytes enc w ?t = enc (n_tag (nd w n)) (WString (deep_val enc w ?t))"
    by (simp only: deep_inner [OF pc_parts(1) [OF pc]])
  have dirty: "n_subnode_dirty (?f (nd w n))" using flags(2) r(4) was(3) by auto
  have sizes: "n_eval_sz (?f (nd w n)) = int (length (deep_bytes enc w2 ?t')) \<and>
      n_eval_val_sz (?f (nd w n)) = int (length ?v)" if ev: "n_eval_sz (nd w n) \<ge> 0"
  proof -
    have "n_eval_sz (nd w (rt q)) \<ge> 0" using was(4) ev by force
    with r(8) pc_val_length [OF pc] was(6) [OF ev] have val: "int (length ?v) = n_eval_val_sz (nd w n) + (if ue then off else 0)" by simp
    show ?thesis
    proof (cases ue')
      case True
      with flags val have "n_eval_val_sz (nd w n) + off = int (length ?v)" by simp
      with True small eval_string_length [of "n_tag (nd w n)" ?v] show ?thesis
        unfolding new by (simp add: was(1))
    next
      case False
      with flags ev val have "int (length ?v) = n_eval_val_sz (nd w n)" by (auto split: if_splits)
      with was(6) [OF ev] have "length ?v = length (deep_val enc w ?t)" by simp
      then show ?thesis using False was(5,6) [OF ev] unfolding new old by (simp add: length_enc_string)
    qed
  qed
  have neg: "n_eval_sz (?f (nd w n)) < 0" if "n_eval_sz (nd w n) < 0" using that flags by simp
  have inv: "tree_inv enc (upd n ?f w2) ?t'"
  proof (rule pc_restored [OF pc])
    assume "0 \<le> n_eval_sz (?f (nd w n))"
    with neg have "n_eval_sz (nd w n) \<ge> 0" by (cases "n_eval_sz (nd w n) \<ge> 0") auto
    with sizes show "n_eval_sz (nd w n) \<ge> 0 \<and> n_eval_sz (?f (nd w n)) = int (length (deep_bytes enc w2 ?t')) \<and>
      n_eval_val_sz (?f (nd w n)) = int (length ?v)" by blast
  qed (use dirty in simp_all)
  show bytes: "deep_bytes enc (upd n ?f w2) ?t' = deep_bytes enc w2 ?t'"
    by (rule pc_bytes_after(2) [OF pc]) simp_all
  have n2: "nd w2 n = nd w n" by (rule pc_n_same(1) [OF pc])
  have "(if ue' then if ue' then n_eval_sz (?f (nd w n)) - n_eval_sz (nd w n) else off else 0) =
      int (length (deep_bytes enc w2 ?t')) - int (length (deep_bytes enc w ?t))" if ev: "n_eval_sz (nd w n) \<ge> 0"
  proof (cases ue')
    case True
    then show ?thesis using sizes [OF ev] was(5) [OF ev] by (simp only: if_True)
  next
    case False
    then have "n_eval_sz (?f (nd w n)) = n_eval_sz (nd w n)" by simp
    with False sizes [OF ev] was(5) [OF ev] show ?thesis by (simp only: if_False diff_self)
  qed
  moreover have "n_eval_sz (?f (nd w n)) \<ge> 0" if "n_eval_sz (nd w n) \<ge> 0" using sizes [OF that] by simp
  moreover have "\<not> ud' \<longrightarrow> n_subnode_dirty (nd w n)" using flags(2) r(4) was(3) by auto
  ultimately show "renewed enc w (upd n ?f w2) ?t ?t' ud' ue'
      (if ue' then n_eval_sz (?f (nd w n)) - n_eval_sz (nd w n) else off)"
    using inv dirty unfolding renewed_def ntree.sel bytes nd_upd n2 by (auto simp only: climb_node_sel simp_thms if_True)
qed

text \<open>From a changed subtree up to the root of the tree.\<close>

lemma climb:
  assumes "repl w s s' t t' d" "renewed enc w w1 s s' ud0 ue0 off0" "tree_inv enc w t" "distinct (ids t')"
    and "\<And>i. i \<in> set (ids t) \<Longrightarrow> i \<notin> set (ids s) \<Longrightarrow> nd w1 i = nd w i \<and> same_view w w1 i"
    and "length (deep_bytes enc w1 t') < 2 ^ 31"
  shows "\<exists>ud ue off w2. (\<forall>k. update_ancestors g (k + d) (n_parent (nd w (rt s))) ud0 ue0 off0 w1 =
        update_ancestors g k (n_parent (nd w (rt t))) ud ue off w2) \<and> renewed enc w w2 t t' ud ue off \<and>
      deep_bytes enc w2 t' = deep_bytes enc w1 t' \<and> w2 = w1\<lparr>w_nodes := w_nodes w2\<rparr> \<and>
      (\<forall>i. i \<notin> set (ids t) \<or> i \<in> set (ids s) \<longrightarrow> nd w2 i = nd w1 i)"
  using assms
proof (induction t t' d rule: repl.induct)
  case repl_here
  then show ?case by (intro exI [of _ ud0] exI [of _ ue0] exI [of _ off0] exI [of _ w1]) simp
next
  case (repl_part q q' d n ms cs ms' cs')
  let ?t = "NT n ms cs" and ?t' = "NT n ms' cs'"
  note sw = repl_part.hyps(2) and prems = repl_part.prems
  have qm: "q \<in> set ms \<union> set cs" "q' \<in> set ms' \<union> set cs'"
    using swap_parts(1,2) [OF sw] by (auto dest: in_set_dropD)
  have dt: "distinct (ids ?t)" using prems(2) by (simp add: tree_inv_def tree_ok_def)
  have q: "tree_inv enc w q" "distinct (ids q')" using qm prems(2,3) by (auto simp: tree_inv_NT distinct_concat_iff)
  have viewq: "nd w1 i = nd w i \<and> same_view w w1 i" if "i \<in> set (ids q)" "i \<notin> set (ids s)" for i
    using that prems(4) ids_sub [OF qm(1), of n] by blast
  have skip: "key_skip w1 n ms' = key_skip w n ms" by (rule repl_skip [OF repl_part.hyps renewedD(2,5) [OF prems(1)] dt prems(4)])
  have "length (deep_bytes enc w1 q') \<le> length (deep_bytes enc w1 ?t')"
    using swap_parts(2) [OF sw] skip by (intro deep_part_length) simp
  with prems(5) have "length (deep_bytes enc w1 q') < 2 ^ 31" by simp
  from repl_part.IH [OF prems(1) q viewq this] obtain ud ue off w2 where
    run: "\<And>k. update_ancestors g (k + d) (n_parent (nd w (rt s))) ud0 ue0 off0 w1 =
        update_ancestors g k (n_parent (nd w (rt q))) ud ue off w2" and
    w2: "renewed enc w w2 q q' ud ue off" "deep_bytes enc w2 q' = deep_bytes enc w1 q'" "w2 = w1\<lparr>w_nodes := w_nodes w2\<rparr>"
      "\<And>i. i \<notin> set (ids q) \<or> i \<in> set (ids s) \<Longrightarrow> nd w2 i = nd w1 i" by blast
  have heap: "w_heap w2 = w_heap w1" by (subst w2(3)) simp
  have "nd w2 i = nd w i \<and> same_view w w2 i" if "i \<in> set (ids ?t)" "i \<notin> set (ids q)" for i
    using prems(4) [of i] w2(4) [of i] that repl_ids [OF repl_part.hyps(1)] heap by (auto simp: same_view_def)
  then have pc: "part_changed enc w w2 n ms cs ms' cs' q q' ud ue off"
    using prems(2,3) sw w2(1) by (simp add: part_changed_def)
  have bytes: "deep_bytes enc w2 ?t' = deep_bytes enc w1 ?t'"
  proof -
    have "deep_bytes enc w2 p = deep_bytes enc w1 p" if p: "p \<in> set ms' \<union> set cs'" for p
    proof (cases "p = q'")
      case False
      have "set (ids p) \<inter> set (ids q) = {}" by (rule swap_distinct [OF sw dt p False])
      then have "nd w2 i = nd w1 i" if "i \<in> set (ids p)" for i using that by (intro w2(4)) blast
      with heap show ?thesis by (intro deep_bytes_view) (simp add: same_view_def)
    qed (simp add: w2(2))
    then have "map (deep_bytes enc w2) ms' = map (deep_bytes enc w1) ms'" "map (deep_bytes enc w2) cs' = map (deep_bytes enc w1) cs'"
      by auto
    moreover have "nd w2 n = nd w1 n" using w2(4) [of n] dt qm(1) by auto
    moreover from this have "key_part enc w2 n = key_part enc w1 n" by (simp add: key_part_def heap Let_def)
    ultimately show ?thesis
      by (simp only: deep_inner [OF pc_parts(2) [OF pc]] deep_val_inner [OF pc_parts(2) [OF pc]] pc_skip [OF pc] skip)
  qed
  define ue' where "ue' \<longleftrightarrow> ue \<and> n_eval_sz (nd w n) \<ge> 0 \<and> off \<noteq> 0"
  define ud' where "ud' \<longleftrightarrow> ud \<and> \<not> n_subnode_dirty (nd w n)"
  define w3 where "w3 = upd n (climb_node g ud' ue' off) w2"
  define off' where "off' = (if ue' then n_eval_sz (climb_node g ud' ue' off (nd w n)) - n_eval_sz (nd w n) else off)"
  note n2 = pc_n_same(1) [OF pc]
  have one: "renewed enc w w3 ?t ?t' ud' ue' off'" "deep_bytes enc w3 ?t' = deep_bytes enc w1 ?t'"
    using climb_one [OF pc _ ue'_def ud'_def] prems(5) bytes by (simp_all add: w3_def off'_def)
  have "update_ancestors g (k + Suc d) (n_parent (nd w (rt s))) ud0 ue0 off0 w1 =
      update_ancestors g k (n_parent (nd w n)) ud' ue' off' w3" for k
    using run [of "Suc k"] climb_step [of ue' ue w2 n off ud' ud g k] pc_was(10) [OF pc]
    by (simp add: ue'_def ud'_def off'_def w3_def n2)
  moreover have "w3 = w1\<lparr>w_nodes := w_nodes w3\<rparr>" 
  proof -
    have "w3 = w2\<lparr>w_nodes := w_nodes w3\<rparr>" by (simp add: w3_def upd_def)
    also have "\<dots> = w1\<lparr>w_nodes := w_nodes w3\<rparr>" by (subst w2(3)) simp
    finally show ?thesis .
  qed
  moreover have "nd w3 i = nd w1 i" if "i \<notin> set (ids ?t) \<or> i \<in> set (ids s)" for i
    using that w2(4) [of i] repl_ids [OF repl_part.hyps(1)] ids_sub [OF qm(1), of n] dt qm(1) by (auto simp: w3_def)
  ultimately show ?case using one by (intro exI [of _ ud'] exI [of _ ue'] exI [of _ off'] exI [of _ w3]) simp
qed


lemma repl_length:
  assumes "repl w s s' t t' d" "rt s' = rt s" "n_tag (nd w1 (rt s)) = n_tag (nd w (rt s))" "distinct (ids t)"
    and "\<And>i. i \<in> set (ids t) \<Longrightarrow> i \<notin> set (ids s) \<Longrightarrow> nd w1 i = nd w i \<and> same_view w w1 i"
  shows "length (deep_bytes enc w1 s') \<le> length (deep_bytes enc w1 t')"
  using assms
proof (induction t t' d rule: repl.induct)
  case (repl_part q q' d n ms cs ms' cs')
  note sw = repl_part.hyps(2)
  have qm: "q \<in> set ms \<union> set cs" using swap_parts(1) [OF sw] by (auto dest: in_set_dropD)
  have "distinct (ids q)" using qm repl_part.prems(3) by (auto simp: distinct_concat_iff)
  then have "length (deep_bytes enc w1 s') \<le> length (deep_bytes enc w1 q')"
    using repl_part.IH repl_part.prems ids_sub [OF qm, of n] by blast
  also have "\<dots> \<le> length (deep_bytes enc w1 (NT n ms' cs'))"
    using swap_parts(2) [OF sw] repl_skip [OF repl_part.hyps repl_part.prems] by (intro deep_part_length) simp
  finally show ?case .
qed simp

text \<open>The whole of \<open>UpdateParentEvalueAndSetDirty\<close> after a change at \<open>s\<close>, in a tree without a parent.\<close>

lemma update_parents:
  assumes "repl w s s' t t' d" "renewed enc w w1 s s' True (off \<noteq> 0) off" "tree_inv enc w t" "distinct (ids t')"
    and view: "\<And>i. i \<in> set (ids t) \<Longrightarrow> i \<notin> set (ids s) \<Longrightarrow> nd w1 i = nd w i \<and> same_view w w1 i"
    and "length (deep_bytes enc w1 t') < 2 ^ 31" "n_parent (nd w (rt t)) = None" "length (ids t) \<le> w_count w1"
  shows "\<exists>w2. UpdateParentEvalueAndSetDirty g (rt s) off w1 = Some w2 \<and> tree_inv enc w2 t' \<and>
     deep_bytes enc w2 t' = deep_bytes enc w1 t' \<and> w2 = w1\<lparr>w_nodes := w_nodes w2\<rparr> \<and>
     (\<forall>i. i \<notin> set (ids t) \<or> i \<in> set (ids s) \<longrightarrow> nd w2 i = nd w1 i)"
proof -
  obtain ud ue o2 w2 where w2: "\<And>k. update_ancestors g (k + d) (n_parent (nd w (rt s))) True (off \<noteq> 0) off w1 =
      update_ancestors g k None ud ue o2 w2" "renewed enc w w2 t t' ud ue o2" "deep_bytes enc w2 t' = deep_bytes enc w1 t'"
      "w2 = w1\<lparr>w_nodes := w_nodes w2\<rparr>" "\<And>i. i \<notin> set (ids t) \<or> i \<in> set (ids s) \<Longrightarrow> nd w2 i = nd w1 i"
    using climb [OF assms(1-6)] assms(7) by auto
  have "d \<le> Suc (w_count w1)" using repl_depth [OF assms(1)] assms(8) by simp
  then have "UpdateParentEvalueAndSetDirty g (rt s) off w1 = Some w2"
    using w2(1) [of "Suc (w_count w1) - d"] renewedD(6) [OF assms(2)]
    by (simp add: UpdateParentEvalueAndSetDirty_def del: update_ancestors.simps(3))
  with w2 renewedD(1) [OF w2(2)] show ?thesis by blast
qed

lemma SetValue_int_ok:
  assumes "repl w s s t t d" "s = NT n [] []" "tree_inv enc w t" "n_parent (nd w (rt t)) = None"
    and "n_type (nd w n) \<in> {KNV_VARINT, KNV_FIXED64, KNV_FIXED32}" "length (ids t) \<le> w_count w"
    and small: "length (deep_bytes enc (upd n (n_val_update (v_i64_update (\<lambda>_. v))) w) t) < 2 ^ 31"
  shows "\<exists>w'. SetValue_int g n v w = Some (0, w') \<and> tree_inv enc w' t \<and>
     deep_bytes enc w' t = deep_bytes enc (upd n (n_val_update (v_i64_update (\<lambda>_. v))) w) t \<and>
     w' = w\<lparr>w_nodes := w_nodes w'\<rparr> \<and> (\<forall>i. i \<notin> set (ids t) \<longrightarrow> nd w' i = nd w i)"
proof -
  let ?x = "nd w n"
  let ?v = "(n_val ?x)\<lparr>v_i64 := v\<rparr>"
  let ?sz = "knv_eval_field_length g (n_tag ?x) (n_type ?x) ?v" and ?w0 = "upd n (n_val_update (v_i64_update (\<lambda>_. v))) w"
  define w1 where "w1 = upd n (\<lambda>x. x\<lparr>n_val := ?v, n_eval_sz := ?sz, n_eval_val_sz := 0, n_subnode_dirty := True\<rparr>) w"
  have s: "set (ids s) = {n}" "rt s = n" by (simp_all add: assms(2))
  have dt: "distinct (ids t)" using assms(3) by (simp add: tree_inv_def tree_ok_def)
  have view: "nd w1 i = nd w i \<and> same_view w w1 i" if "i \<notin> set (ids s)" for i
    using that s by (simp add: w1_def same_view_def)
  have eq: "deep_bytes enc w1 u = deep_bytes enc ?w0 u" for u
    by (rule deep_bytes_same) (simp add: same_deep_def w1_def keyed_def Let_def)
  have old: "tree_inv enc w s" by (rule tree_inv_subtree [OF assms(3) repl_old [OF assms(1)]])
  have ok: "node_ok ?x" and flat: "node_shape w n [] []" using old by (simp_all add: assms(2) tree_inv_def tree_ok_def)
  have named: "named_type (n_type ?x)" using ok by (simp add: node_ok_def)
  have "length (deep_bytes enc w1 s) \<le> length (deep_bytes enc w1 t)"
    using view by (intro repl_length [OF assms(1) _ _ dt]) (simp_all add: s w1_def)
  with small have "length (deep_bytes enc w1 s) < 2 ^ 31" by (simp only: eq)
  moreover have leaf: "deep_bytes enc w1 s = enc (n_tag ?x) (wval_of (w_heap w) (n_type ?x) ?v)"
    by (simp add: assms(2) w1_def)
  ultimately have sz: "?sz = int (length (deep_bytes enc w1 s))" using eval_field_length [OF named] by metis
  have inv1: "tree_inv enc w1 s"
    using sz flat ok assms(5)
    by (auto simp: assms(2) tree_inv_def tree_ok_def node_inv_def has_parts_def counted_parts_def deep_val_def w1_def
        node_shape_def node_ok_def)
  have new: "renewed enc w w1 s s True (?sz - n_eval_sz ?x \<noteq> 0) (?sz - n_eval_sz ?x)"
  proof -
    have "node_inv enc w s" using old by (cases s) (simp add: tree_inv_NT)
    then have "n_eval_sz ?x \<ge> 0 \<Longrightarrow> n_eval_sz ?x = int (length (deep_bytes enc w s))" by (simp add: node_inv_def s(2))
    moreover have "n_subnode_dirty (nd w1 n)" "n_tag (nd w1 n) = n_tag ?x" "n_parent (nd w1 n) = n_parent ?x" "n_eval_sz (nd w1 n) = ?sz"
      by (simp_all add: w1_def)
    ultimately show ?thesis using inv1 unfolding renewed_def s(2) sz by auto
  qed
  have "length (ids t) \<le> w_count w1" using assms(6) by (simp add: w1_def)
  from update_parents [OF assms(1) new assms(3) dt view small [folded eq] assms(4) this] obtain w2 where
    w2: "UpdateParentEvalueAndSetDirty g n (?sz - n_eval_sz ?x) w1 = Some w2" "tree_inv enc w2 t"
    "deep_bytes enc w2 t = deep_bytes enc w1 t" "w2 = w1\<lparr>w_nodes := w_nodes w2\<rparr>"
    "\<forall>i. i \<notin> set (ids t) \<or> i \<in> set (ids s) \<longrightarrow> nd w2 i = nd w1 i" unfolding s(2) by blast
  have "w1\<lparr>w_nodes := w_nodes w2\<rparr> = w\<lparr>w_nodes := w_nodes w2\<rparr>" by (simp add: w1_def upd_def)
  with w2(4) have frame: "w2 = w\<lparr>w_nodes := w_nodes w2\<rparr>" by simp
  have "n \<in> set (ids t)" using repl_ids [OF assms(1)] s by simp
  then have rest: "\<forall>i. i \<notin> set (ids t) \<longrightarrow> nd w2 i = nd w i" using w2(5) by (auto simp: w1_def)
  have "SetValue_int g n v w = Some (0, w2)"
    using ok assms(5) w2(1) by (auto simp: SetValue_int_def Let_def node_ok_def w1_def)
  with w2(2,3) frame rest show ?thesis unfolding eq by blast
qed


lemma finish_edit_run:
  "finish_edit g n off w = (let ue = (n_eval_sz (nd w n) \<ge> 0 \<and> off \<noteq> 0) in
     UpdateParentEvalueAndSetDirty g n (if ue then n_eval_sz (climb_node g True ue off (nd w n)) - n_eval_sz (nd w n) else off)
       (upd n (climb_node g True ue off) w))"
  by (auto simp: finish_edit_def UPDATE_EVAL_SZ_def SET_VALUE_DIRTY_def climb_node_def upd_def Let_def)

lemma edited_renewed:
  assumes e: "edited enc w w1 (NT n ms cs) (NT n ms' cs') off" and old: "tree_inv enc w (NT n ms cs)"
    and small: "length (deep_bytes enc w1 (NT n ms' cs')) < 2 ^ 31"
    and ue: "ue \<longleftrightarrow> n_eval_sz (nd w n) \<ge> 0 \<and> off \<noteq> 0" and w3: "w3 = upd n (climb_node g True ue off) w1"
    and off': "off' = (if ue then n_eval_sz (climb_node g True ue off (nd w1 n)) - n_eval_sz (nd w n) else off)"
  shows "renewed enc w w3 (NT n ms cs) (NT n ms' cs') True (off' \<noteq> 0) off'"
proof -
  let ?s = "NT n ms cs" and ?s' = "NT n ms' cs'" and ?f = "climb_node g True ue off"
  let ?v = "deep_val enc w1 ?s'"
  have ne: "ms' \<noteq> [] \<or> cs' \<noteq> []" and y: "n_tag (nd w1 n) = n_tag (nd w n)" "n_type (nd w n) = KNV_NODE" "n_type (nd w1 n) = KNV_NODE"
    "n_key (nd w1 n) = n_key (nd w n)" "n_parent (nd w1 n) = n_parent (nd w n)" "n_eval_sz (nd w1 n) = n_eval_sz (nd w n)"
    "n_eval_val_sz (nd w1 n) = n_eval_val_sz (nd w n)" and shape1: "node_shape w1 n ms' cs'" and ds: "distinct (ids ?s')"
    and parts: "\<And>p. p \<in> set ms' \<union> set cs' \<Longrightarrow> tree_inv enc w1 p \<and> n_parent (nd w1 (rt p)) = Some n"
    using e by (auto simp: edited_def Let_def has_parts_def simp del: ids.simps)
  have ev: "off = int (length ?v) - n_eval_val_sz (nd w n)" "\<And>p. p \<in> set (counted_parts w1 ?s') \<Longrightarrow> n_eval_sz (nd w1 (rt p)) \<ge> 0"
    if "n_eval_sz (nd w n) \<ge> 0" using e that by (auto simp: edited_def Let_def)
  have p3: "tree_inv enc w3 p \<and> n_parent (nd w3 (rt p)) = Some n" "nd w3 (rt p) = nd w1 (rt p)" if p: "p \<in> set ms' \<union> set cs'" for p
    using parts [OF p] tree_inv_upd [of n p enc ?f w1] ds p by (auto simp: w3)
  have bytes: "deep_bytes enc w3 ?s' = deep_bytes enc w1 ?s'" "deep_val enc w3 ?s' = ?v" "counted_parts w3 ?s' = counted_parts w1 ?s'"
    using upd_inner_bytes(1,2) [OF ds, of ?s' n ?f w1 enc] upd_inner_bytes(3) [OF ds, of ?s' n ?f w1] ne by (auto simp: w3 has_parts_def simp del: deep_bytes.simps ids.simps)
  have new: "deep_bytes enc w1 ?s' = enc (n_tag (nd w n)) (WString ?v)" by (simp only: deep_inner [OF ne] y(1))
  have was: "deep_bytes enc w ?s = enc (n_tag (nd w n)) (WString (deep_val enc w ?s))"
    using y(2) by (auto simp: deep_val_def wval_of_def flat_bytes_def)
  have ns: "n_eval_sz (nd w n) \<ge> 0 \<Longrightarrow> n_eval_sz (nd w n) = int (length (deep_bytes enc w ?s)) \<and>
      n_eval_val_sz (nd w n) = int (length (deep_val enc w ?s))" "node_ok (nd w n)"
    using old by (auto simp: tree_inv_NT node_inv_def tree_ok_def simp del: deep_bytes.simps)
  have sizes: "n_eval_sz (?f (nd w1 n)) = int (length (deep_bytes enc w1 ?s')) \<and> n_eval_val_sz (?f (nd w1 n)) = int (length ?v)"
    if n0: "n_eval_sz (nd w n) \<ge> 0"
  proof (cases ue)
    case True
    have "n_eval_val_sz (nd w1 n) + off = int (length ?v)" using ev(1) [OF n0] y(7) by simp
    with True small eval_string_length [of "n_tag (nd w n)" ?v] show ?thesis unfolding new by (simp add: y(1,3))
  next
    case False
    with ue n0 ev(1) [OF n0] ns(1) [OF n0] have "length ?v = length (deep_val enc w ?s)" by simp
    then show ?thesis using False ns(1) [OF n0] y(6,7) unfolding new was by (simp add: length_enc_string)
  qed
  have neg: "n_eval_sz (?f (nd w1 n)) < 0" if "n_eval_sz (nd w n) < 0" using that ue y(6) by simp
  then have pos: "n_eval_sz (nd w n) \<ge> 0" if "n_eval_sz (?f (nd w1 n)) \<ge> 0" using that by (cases "n_eval_sz (nd w n) \<ge> 0") auto
  have n3: "nd w3 n = ?f (nd w1 n)" by (simp add: w3)
  have inv: "tree_inv enc w3 ?s'"
  proof (rule tree_inv_dirty [OF _ _ _ ne])
    show "node_shape w3 n ms' cs'" using shape1 by (simp add: node_shape_def n3)
    show "node_ok (nd w3 n)" using ns(2) y by (simp add: node_ok_def n3)
    show "n_eval_sz (nd w3 n) < 0" if "p \<in> set (counted_parts w3 ?s')" "n_eval_sz (nd w3 (rt p)) < 0" for p
      using that ev(2) [of p] neg p3(2) [of p] bytes(3) n3 by (cases "n_eval_sz (nd w n) \<ge> 0") (auto simp: counted_parts_def dest: in_set_dropD)
  qed (use p3(1) ds sizes pos bytes y in \<open>auto simp: n3 simp del: deep_bytes.simps ids.simps climb_node_sel(15,16)\<close>)
  have "(if off' \<noteq> 0 then off' else 0) = int (length (deep_bytes enc w1 ?s')) - int (length (deep_bytes enc w ?s))"
    if n0: "n_eval_sz (nd w n) \<ge> 0"
  proof (cases ue)
    case True
    then have "off' = n_eval_sz (?f (nd w1 n)) - n_eval_sz (nd w n)" by (simp only: off' if_True)
    with sizes [OF n0] ns(1) [OF n0] show ?thesis by simp
  next
    case False
    with ue n0 have "off' = 0" "n_eval_sz (?f (nd w1 n)) = n_eval_sz (nd w n)" by (simp_all add: off' y)
    with sizes [OF n0] ns(1) [OF n0] show ?thesis by simp
  qed
  then show ?thesis
    using inv sizes y by (auto simp: renewed_def n3 bytes simp del: deep_bytes.simps climb_node_sel(15,16))
qed


lemma finish_edit_ok:
  assumes r: "repl w s s' t t' d" and e: "edited enc w w1 s s' off" and inv: "tree_inv enc w t" and dist: "distinct (ids t')"
    and view: "\<And>i. i \<in> set (ids t) \<Longrightarrow> i \<notin> set (ids s) \<Longrightarrow> nd w1 i = nd w i \<and> same_view w w1 i"
    and small: "length (deep_bytes enc w1 t') < 2 ^ 31"
    and root: "n_parent (nd w (rt t)) = None" and bound: "length (ids t) \<le> w_count w1"
  shows "\<exists>w2. finish_edit g (rt s) off w1 = Some w2 \<and> tree_inv enc w2 t' \<and> deep_bytes enc w2 t' = deep_bytes enc w1 t' \<and>
     w2 = w1\<lparr>w_nodes := w_nodes w2\<rparr> \<and> (\<forall>i. i \<notin> set (ids t) \<longrightarrow> nd w2 i = nd w1 i)"
proof -
  obtain n ms cs where s: "s = NT n ms cs" by (cases s)
  have eq: "rt s' = n" "has_parts s'" "n_eval_sz (nd w1 n) = n_eval_sz (nd w n)" "n_tag (nd w1 n) = n_tag (nd w n)"
    using e by (simp_all add: edited_def s Let_def)
  then obtain ms' cs' where s': "s' = NT n ms' cs'" by (cases s') simp
  define ue where "ue \<longleftrightarrow> n_eval_sz (nd w n) \<ge> 0 \<and> off \<noteq> 0"
  define w3 where "w3 = upd n (climb_node g True ue off) w1"
  define off' where "off' = (if ue then n_eval_sz (climb_node g True ue off (nd w1 n)) - n_eval_sz (nd w n) else off)"
  have dt: "distinct (ids t)" using inv by (simp add: tree_inv_def tree_ok_def)
  have n: "n \<in> set (ids s)" "set (ids s) \<subseteq> set (ids t)" using repl_ids [OF r] by (simp_all add: s)
  have "length (deep_bytes enc w1 s') \<le> length (deep_bytes enc w1 t')"
    using view eq by (intro repl_length [OF r _ _ dt]) (simp_all add: s s')
  with small have small': "length (deep_bytes enc w1 s') < 2 ^ 31" by simp
  have new: "renewed enc w w3 s s' True (off' \<noteq> 0) off'"
    using edited_renewed [OF e [unfolded s s'] _ small' [unfolded s'] ue_def w3_def off'_def] tree_inv_subtree [OF inv repl_old [OF r]]
    by (simp add: s s')
  have bytes: "deep_bytes enc w3 t' = deep_bytes enc w1 t'"
    using upd_inner_bytes(1) [OF dist repl_new [OF r] eq(2,1)] by (simp add: w3_def)
  have "nd w3 i = nd w i \<and> same_view w w3 i" if "i \<in> set (ids t)" "i \<notin> set (ids s)" for i
    using view [OF that] that(2) n(1) by (auto simp: w3_def same_view_def)
  from update_parents [OF r new inv dist this _ root] small bound obtain w2 where
    w2: "UpdateParentEvalueAndSetDirty g n off' w3 = Some w2" "tree_inv enc w2 t'" "deep_bytes enc w2 t' = deep_bytes enc w3 t'"
      "w2 = w3\<lparr>w_nodes := w_nodes w2\<rparr>" "\<And>i. i \<notin> set (ids t) \<or> i \<in> set (ids s) \<Longrightarrow> nd w2 i = nd w3 i"
    unfolding bytes by (auto simp: s w3_def simp del: ids.simps)
  have "finish_edit g (rt s) off w1 = Some w2"
    using w2(1) by (simp only: finish_edit_run Let_def s ntree.sel eq(3) ue_def [symmetric] off'_def [symmetric] w3_def [symmetric])
  moreover have "w2 = w1\<lparr>w_nodes := w_nodes w2\<rparr>"
  proof -
    have "w3\<lparr>w_nodes := w_nodes w2\<rparr> = w1\<lparr>w_nodes := w_nodes w2\<rparr>" by (simp add: w3_def upd_def)
    with w2(4) show ?thesis by simp
  qed
  moreover have "nd w2 i = nd w1 i" if "i \<notin> set (ids t)" for i
  proof -
    have "i \<noteq> n" using that n by blast
    with w2(5) [of i] that show ?thesis by (simp add: w3_def)
  qed
  ultimately show ?thesis using w2(2,3) bytes by auto
qed

end

end
