(* ===== verification/Knv_Update.thy ===== *)
theory Knv_Update
  imports Knv_Climb Knv_Sub
begin

text \<open>
  Operations that change a tree, on top of the invariant of theory \<open>Knv_Climb\<close>: \<open>SetValue\<close> of an integer at
  any depth and \<open>InsertChild\<close> of a whole tree keep \<open>tree_inv\<close>, and what the tree stands for afterwards is
  what the change of its structure says.
\<close>

section \<open>Inserting a child\<close>

text \<open>The list, the counters and the hash table, when the table has room for one more node.\<close>

lemma INSERT_CHILD_ok:
  assumes "n \<noteq> c" "h_nr (n_ht (nd w n)) + 1 \<le> int (h_sz (n_ht (nd w n)))"
  shows "\<exists>w1. INSERT_CHILD n c at_tail (upd c (n_parent_update (\<lambda>_. Some n)) w) = Some w1 \<and>
     w_mem w1 = w_mem w \<and> w_count w1 = w_count w \<and> (\<forall>i. i \<notin> {n, c} \<longrightarrow> nd w1 i = nd w i) \<and>
     nd w1 c = (nd w c)\<lparr>n_parent := Some n\<rparr> \<and>
     n_childlist (nd w1 n) = (if at_tail then n_childlist (nd w n) @ [c] else c # n_childlist (nd w n)) \<and>
     n_child_num (nd w1 n) = n_child_num (nd w n) + 1 \<and>
     (let x = nd w n; y = nd w1 n in n_tag y = n_tag x \<and> n_type y = n_type x \<and> n_val y = n_val x \<and> n_key y = n_key x \<and>
        n_no_key y = n_no_key x \<and> n_parent y = n_parent x \<and> n_metalist y = n_metalist x \<and>
        n_eval_sz y = n_eval_sz x \<and> n_eval_val_sz y = n_eval_val_sz x)"
  using assms by (auto simp: INSERT_CHILD_def node_ht_put_def ht_put_def Let_def set_mem_state_def upd_def)

text \<open>The parent of the root is not part of the tree.\<close>

lemma tree_inv_parent: "tree_inv enc (upd (rt u) (n_parent_update f) w) u = tree_inv enc w u"
  "deep_bytes enc (upd (rt u) (n_parent_update f) w) v = deep_bytes enc w v"
proof -
  let ?w = "upd (rt u) (n_parent_update f) w"
  have same: "same_deep w ?w v" for v by (simp add: same_deep_def Let_def keyed_def)
  then show deep: "deep_bytes enc ?w v = deep_bytes enc w v" for v by (intro deep_bytes_same)
  obtain n ms cs where u: "u = NT n ms cs" by (cases u)
  show "tree_inv enc ?w u = tree_inv enc w u"
  proof (cases "distinct (ids u)")
    case True
    have sub: "tree_inv enc ?w p = tree_inv enc w p" "shape ?w p = shape w p" "rt p \<noteq> n" if p: "p \<in> set ms \<union> set cs" for p
    proof -
      have n: "n \<notin> set (ids p)" using True p by (auto simp: u)
      then show "tree_inv enc ?w p = tree_inv enc w p" by (simp add: u tree_inv_upd)
      show "shape ?w p = shape w p" using n by (intro shape_cong) (auto simp: u)
      show "rt p \<noteq> n" using n rt_in_ids [of p] by metis
    qed
    have skip: "key_skip ?w n ms = key_skip w n ms" by (intro key_skip_cong) (simp_all add: keyed_def)
    have "keyed (nd ?w n) = keyed (nd w n)" by (simp add: keyed_def)
    then have kp: "key_part enc ?w n = key_part enc w n" by (simp add: key_part_def Let_def)
    have maps: "map (deep_bytes enc ?w) zs = map (deep_bytes enc w) zs" for zs by (simp add: deep)
    have val: "deep_val enc ?w u = deep_val enc w u"
      unfolding deep_val_def u ntree.sel kp [unfolded u ntree.sel] skip [unfolded u ntree.sel] maps [unfolded u ntree.sel] by (simp add: flat_bytes_def)
    have ok: "tree_ok ?w u = tree_ok w u"
      using sub(2,3) by (auto simp: tree_ok_def u node_shape_def node_ok_def)
    have "counted_parts ?w u = counted_parts w u" using skip by (simp add: counted_parts_def u)
    moreover have q: "nd ?w (rt p) = nd w (rt p)" if "p \<in> set (tmetas u) \<union> set (tkids u)" for p
      using sub(3) [of p] that by (simp add: u)
    moreover from this have "nd ?w (rt p) = nd w (rt p)" if "p \<in> set (counted_parts w u)" for p
      using that by (intro q) (auto simp: counted_parts_def dest: in_set_dropD)
    moreover have "n_eval_sz (nd ?w (rt u)) = n_eval_sz (nd w (rt u))" "n_eval_val_sz (nd ?w (rt u)) = n_eval_val_sz (nd w (rt u))"
      "n_type (nd ?w (rt u)) = n_type (nd w (rt u))" "is_flat (nd ?w (rt u)) = is_flat (nd w (rt u))"
      "flat_bytes ?w (rt u) = flat_bytes w (rt u)" "n_subnode_dirty (nd ?w (rt u)) = n_subnode_dirty (nd w (rt u))"
      by (simp_all add: is_flat_def IsBufferValid_def flat_bytes_def)
    ultimately have "node_inv enc ?w u = node_inv enc w u"
      unfolding node_inv_def deep val by (simp cong: ball_cong del: nd_upd)
    with ok sub(1) show ?thesis by (simp only: u tree_inv_NT cong: ball_cong)
  qed (auto simp: tree_inv_def tree_ok_def)
qed

definition add_kid :: "bool \<Rightarrow> ntree \<Rightarrow> ntree list \<Rightarrow> ntree list" where
  "add_kid at_tail u cs = (if at_tail then cs @ [u] else u # cs)"

lemma add_kid_sel [simp]:
  "set (add_kid b u cs) = insert u (set cs)" "add_kid b u cs \<noteq> []" "length (add_kid b u cs) = Suc (length cs)"
  "map f (add_kid b u cs) = (if b then map f cs @ [f u] else f u # map f cs)"
  by (auto simp: add_kid_def)

lemma add_kid_ids: "set (ids (NT n ms (add_kid b u cs))) = set (ids (NT n ms cs)) \<union> set (ids u)"
  by (auto simp: add_kid_def)

lemma add_kid_disjoint:
  assumes "distinct (ids (NT n ms (add_kid b u cs)))"
  shows "set (ids u) \<inter> set (ids (NT n ms cs)) = {}"
proof -
  have "mset (ids (NT n ms (add_kid b u cs))) = mset (ids (NT n ms cs) @ ids u)"
    by (cases b) (simp_all add: add_kid_def)
  with assms have "distinct (ids (NT n ms cs) @ ids u)" by (metis mset_eq_imp_distinct_iff)
  then show ?thesis by (auto simp del: ids.simps)
qed

context knv_codec
begin

lemma EvaluateSize_known: "n_eval_sz (nd w n) \<ge> 0 \<Longrightarrow> EvaluateSize g n w = Some (n_eval_sz (nd w n), w)"
  by (simp add: EvaluateSize_def)

lemma insert_edited:
  assumes inv: "tree_inv enc w (NT n ms cs)" "tree_inv enc w u" and dist: "distinct (ids (NT n ms (add_kid b u cs)))"
    and n: "n_type (nd w n) = KNV_NODE" "n_child_num (nd w n) \<ge> 0" "has_parts (NT n ms cs) \<or> (v_len (n_val (nd w n)) = 0 \<and> \<not> keyed (nd w n))"
    and ev: "n_eval_sz (nd w n) \<ge> 0 \<Longrightarrow> n_eval_sz (nd w (rt u)) \<ge> 0"
    and w1: "w_mem w1 = w_mem w" "\<And>i. i \<notin> {n, rt u} \<Longrightarrow> nd w1 i = nd w i"
      "nd w1 (rt u) = (nd w (rt u))\<lparr>n_parent := Some n\<rparr>"
      "n_childlist (nd w1 n) = (if b then n_childlist (nd w n) @ [rt u] else rt u # n_childlist (nd w n))"
      "n_child_num (nd w1 n) = n_child_num (nd w n) + 1"
      "let x = nd w n; y = nd w1 n in n_tag y = n_tag x \<and> n_type y = n_type x \<and> n_val y = n_val x \<and> n_key y = n_key x \<and>
        n_no_key y = n_no_key x \<and> n_parent y = n_parent x \<and> n_metalist y = n_metalist x \<and>
        n_eval_sz y = n_eval_sz x \<and> n_eval_val_sz y = n_eval_val_sz x"
  shows "edited enc w w1 (NT n ms cs) (NT n ms (add_kid b u cs))
      (if n_eval_sz (nd w n) \<ge> 0 then n_eval_sz (nd w (rt u)) else 0)"
proof -
  let ?s = "NT n ms cs" and ?cs = "add_kid b u cs" and ?c = "rt u"
  let ?s' = "NT n ms ?cs"
  have ds: "distinct (ids ?s)" using inv(1) by (simp add: tree_inv_def tree_ok_def)
  have nu: "n \<notin> set (ids u)" using add_kid_disjoint [OF dist] by auto
  then have cn: "?c \<noteq> n" using rt_in_ids [of u] by metis
  have y: "n_tag (nd w1 n) = n_tag (nd w n)" "n_type (nd w1 n) = n_type (nd w n)" "n_key (nd w1 n) = n_key (nd w n)"
    "keyed (nd w1 n) = keyed (nd w n)" "n_parent (nd w1 n) = n_parent (nd w n)" "n_metalist (nd w1 n) = n_metalist (nd w n)"
    "n_eval_sz (nd w1 n) = n_eval_sz (nd w n)" "n_eval_val_sz (nd w1 n) = n_eval_val_sz (nd w n)"
    using w1(6) by (simp_all add: Let_def keyed_def)
  have u1: "tree_inv enc w1 u" "deep_bytes enc w1 u = deep_bytes enc w u"
  proof -
    let ?w = "upd ?c (n_parent_update (\<lambda>_. Some n)) w"
    have v: "nd w1 i = nd ?w i \<and> same_view ?w w1 i" if "i \<in> set (ids u)" for i
    proof (cases "i = ?c")
      case False
      then have "nd w1 i = nd w i" using that nu by (intro w1(2)) auto
      with False w1(1) show ?thesis by (simp add: same_view_def)
    qed (simp add: w1(1,3) same_view_def)
    show "tree_inv enc w1 u" using tree_inv_view [of u w1 ?w enc] v tree_inv_parent(1) inv(2) by blast
    show "deep_bytes enc w1 u = deep_bytes enc w u" using deep_bytes_view [of u ?w w1 enc] v tree_inv_parent(2) by metis
  qed
  have p1: "tree_inv enc w1 p" "deep_bytes enc w1 p = deep_bytes enc w p" "nd w1 (rt p) = nd w (rt p)"
    "n_parent (nd w (rt p)) = Some n" if p: "p \<in> set ms \<union> set cs" for p
  proof -
    have out: "n \<notin> set (ids p)" using ds p by auto
    have out2: "?c \<notin> set (ids p)" using add_kid_disjoint [OF dist] ids_sub [OF p, of n] rt_in_ids [of u] by blast
    have v: "nd w1 i = nd w i \<and> same_view w w1 i" if "i \<in> set (ids p)" for i
    proof -
      have "nd w1 i = nd w i" using that out out2 by (intro w1(2)) auto
      with w1(1) show ?thesis by (simp add: same_view_def)
    qed
    have "tree_inv enc w p" using inv(1) p by (auto simp: tree_inv_NT)
    with v show "tree_inv enc w1 p" using tree_inv_view [of p w1 w enc] by blast
    show "deep_bytes enc w1 p = deep_bytes enc w p" using v by (intro deep_bytes_view) blast
    show "nd w1 (rt p) = nd w (rt p)" using v [of "rt p"] by simp
    show "n_parent (nd w (rt p)) = Some n" using inv(1) p by (auto simp: tree_inv_def tree_ok_def)
  qed
  have skip: "key_skip w1 n ms = key_skip w n ms" using p1(3) y(4) by (intro key_skip_cong) simp_all
  have kp: "key_part enc w1 n = key_part enc w n" by (simp add: key_part_def Let_def y w1(1))
  have maps: "map (deep_bytes enc w1) ms = map (deep_bytes enc w) ms" "map (deep_bytes enc w1) cs = map (deep_bytes enc w) cs"
    using p1(2) by auto
  have val: "int (length (deep_val enc w1 ?s')) = int (length (deep_val enc w ?s)) + int (length (deep_bytes enc w u))"
  proof (cases "has_parts ?s")
    case True
    then have "ms \<noteq> [] \<or> cs \<noteq> []" by (auto simp: has_parts_def)
    from deep_val_inner [OF this] show ?thesis
      by (simp add: deep_val_inner skip kp maps u1(2) del: map_eq_conv)
  next
    case False
    with n(3) show ?thesis
      by (auto simp: has_parts_def deep_val_def key_part_def y u1(2) flat_bytes_def key_skip_def split: if_splits)
  qed
  have ni: "node_inv enc w ?s" using inv(1) by (simp add: tree_inv_NT)
  have nu': "node_inv enc w u" using inv(2) by (cases u) (simp add: tree_inv_NT)
  have sz: "n_eval_val_sz (nd w n) = int (length (deep_val enc w ?s))" "n_eval_sz (nd w ?c) = int (length (deep_bytes enc w u))"
    if "n_eval_sz (nd w n) \<ge> 0" using that ev ni nu' by (simp_all add: node_inv_def del: deep_bytes.simps)
  have "node_shape w n ms cs" using inv(1) by (simp add: tree_inv_def tree_ok_def)
  with n(2) w1(4,5) y(6) have shape1: "node_shape w1 n ms ?cs" by (simp add: node_shape_def)
  have counted: "n_eval_sz (nd w1 (rt p)) \<ge> 0" if p: "p \<in> set (counted_parts w1 ?s')" and n0: "n_eval_sz (nd w n) \<ge> 0" for p
  proof (cases "p = u")
    case True
    with ev [OF n0] w1(3) show ?thesis by simp
  next
    case False
    with p have p': "p \<in> set (counted_parts w ?s)" by (auto simp: counted_parts_def skip)
    then have "p \<in> set ms \<union> set cs" by (auto simp: counted_parts_def dest: in_set_dropD)
    moreover have "n_eval_sz (nd w (rt p)) \<ge> 0" using ni p' n0 by (force simp: node_inv_def)
    ultimately show ?thesis using p1(3) by simp
  qed
  have parts: "tree_inv enc w1 p \<and> n_parent (nd w1 (rt p)) = Some n" if "p \<in> set ms \<union> set ?cs" for p
    using that u1(1) w1(3) p1 by (cases "p = u") auto
  show ?thesis
    unfolding edited_def Let_def ntree.sel
    using dist y n(1) shape1 parts sz val counted by (simp add: has_parts_def del: ids.simps)
qed

text \<open>The whole call, for a node that takes over a tree \<open>u\<close> that is not part of any other.\<close>

lemma InsertChild_ok:
  assumes r: "repl w (NT n ms cs) (NT n ms (add_kid b u cs)) t t' d" and inv: "tree_inv enc w t" "tree_inv enc w u"
    and dist: "distinct (ids t')" and small: "length (deep_bytes enc w t') < 2 ^ 31"
    and root: "n_parent (nd w (rt t)) = None" and bound: "length (ids t) \<le> w_count w"
    and n: "n_type (nd w n) = KNV_NODE" "n_child_num (nd w n) \<ge> 0" "has_parts (NT n ms cs) \<or> (v_len (n_val (nd w n)) = 0 \<and> \<not> keyed (nd w n))"
    and ev: "n_eval_sz (nd w n) \<ge> 0 \<Longrightarrow> n_eval_sz (nd w (rt u)) \<ge> 0"
    and room: "h_nr (n_ht (nd w n)) + 1 \<le> int (h_sz (n_ht (nd w n)))"
  shows "\<exists>w'. InsertChild g n (Some (rt u)) True own b w = Some (0, w') \<and> tree_inv enc w' t' \<and>
     deep_bytes enc w' t' = deep_bytes enc w t'"
proof -
  let ?s = "NT n ms cs" and ?s' = "NT n ms (add_kid b u cs)"
  have old: "tree_inv enc w ?s" by (rule tree_inv_subtree [OF inv(1) repl_old [OF r]])
  have ds': "distinct (ids ?s')" by (rule distinct_subtree [OF dist repl_new [OF r]])
  have nu: "n \<noteq> rt u" using add_kid_disjoint [OF ds'] rt_in_ids [of u] by auto
  obtain w1 where ins: "INSERT_CHILD n (rt u) b (upd (rt u) (n_parent_update (\<lambda>_. Some n)) w) = Some w1"
    and w1: "w_mem w1 = w_mem w" "w_count w1 = w_count w" "\<And>i. i \<notin> {n, rt u} \<Longrightarrow> nd w1 i = nd w i"
      "nd w1 (rt u) = (nd w (rt u))\<lparr>n_parent := Some n\<rparr>"
      "n_childlist (nd w1 n) = (if b then n_childlist (nd w n) @ [rt u] else rt u # n_childlist (nd w n))"
      "n_child_num (nd w1 n) = n_child_num (nd w n) + 1"
      "let x = nd w n; y = nd w1 n in n_tag y = n_tag x \<and> n_type y = n_type x \<and> n_val y = n_val x \<and> n_key y = n_key x \<and>
        n_no_key y = n_no_key x \<and> n_parent y = n_parent x \<and> n_metalist y = n_metalist x \<and>
        n_eval_sz y = n_eval_sz x \<and> n_eval_val_sz y = n_eval_val_sz x"
    using INSERT_CHILD_ok [OF nu room, of b] by blast
  let ?off = "if n_eval_sz (nd w n) \<ge> 0 then n_eval_sz (nd w (rt u)) else 0"
  have e: "edited enc w w1 ?s ?s' ?off" by (rule insert_edited [OF old inv(2) ds' n ev w1(1,3-7)])
  have tags: "n_tag (nd w1 n) = n_tag (nd w n)" "n_eval_sz (nd w1 n) = n_eval_sz (nd w n)" "n_tag (nd w1 (rt u)) = n_tag (nd w (rt u))"
    "n_eval_sz (nd w1 (rt u)) = n_eval_sz (nd w (rt u))" using w1(4,7) by (simp_all add: Let_def)
  have bytes: "deep_bytes enc w1 t' = deep_bytes enc w t'"
  proof (rule deep_bytes_same)
    fix v
    show "same_deep w w1 v"
      using w1(1,3,4,7) by (cases "rt v = n"; cases "rt v = rt u") (auto simp: same_deep_def Let_def keyed_def)
  qed
  have view: "nd w1 i = nd w i \<and> same_view w w1 i" if "i \<in> set (ids t)" "i \<notin> set (ids ?s)" for i
  proof -
    have "i \<notin> set (ids ?s')" using repl_outside [OF r dist that] by blast
    then have "i \<notin> {n, rt u}" unfolding add_kid_ids using rt_in_ids [of u] by auto
    with w1(1,3) show ?thesis by (simp add: same_view_def)
  qed
  from finish_edit_ok [OF r e inv(1) dist view _ root] small bound obtain w2 where
    "finish_edit g n ?off w1 = Some w2" "tree_inv enc w2 t'" "deep_bytes enc w2 t' = deep_bytes enc w t'"
    unfolding bytes ntree.sel w1(2) by blast
  moreover have "InsertChild g n (Some (rt u)) True own b w = Some (0, w2)"
  proof -
    have "n_tag (nd w n) \<noteq> 0" using old by (simp add: tree_inv_def tree_ok_def node_ok_def)
    with n(1,2) ins calculation(1) ev EvaluateSize_known [of w1 "rt u"] show ?thesis
      by (auto simp: InsertChild_def InnerInsertChild_def expand_if_folded_def tags)
  qed
  ultimately show ?thesis by blast
qed

end


section \<open>The operations on the default codec\<close>

text \<open>
  \<open>demo_edit\<close>: the tree of \<open>demo_world\<close> with all sizes evaluated, and a third node that is not in any tree.
\<close>

definition demo_edit :: world where
  "demo_edit = demo_world\<lparr>w_count := 3, w_nodes := (\<lambda>_. KnvNode0)(
     0 := KnvNode0\<lparr>n_tag := 11, n_child_num := 1, n_childlist := [1], n_subnode_dirty := True, n_eval_sz := 4, n_eval_val_sz := 2\<rparr>,
     1 := KnvNode0\<lparr>n_tag := 12, n_type := KNV_VARINT, n_val := int_value 5, n_child_num := 0, n_parent := Some 0, n_eval_sz := 2\<rparr>,
     2 := KnvNode0\<lparr>n_tag := 13, n_type := KNV_VARINT, n_val := int_value 1, n_child_num := 0, n_eval_sz := 2\<rparr>)\<rparr>"

lemmas demo_edit_simps = demo_edit_def demo_world_def tree_inv_def tree_ok_def node_shape_def node_ok_def named_type_def
  KnvNode0_def key_default_def node_inv_def has_parts_def counted_parts_def deep_val_def key_part_def key_skip_def keyed_def
  is_flat_def wval_of_def int_value_def enc_field_def varint_enc_small pb_tag_word_def v_len_def str_value_def

lemma demo_edit_inv:
  "tree_inv enc_field demo_edit demo_tree" "tree_inv enc_field demo_edit (NT 2 [] [])" "n_parent (nd demo_edit 0) = None"
  by (simp_all add: demo_edit_simps)

lemma demo_repl: "repl w (NT 1 [] []) (NT 1 [] []) demo_tree demo_tree 1"
proof -
  have "swap (key_skip w 0 []) (NT 1 [] []) (NT 1 [] []) [] [NT 1 [] []] [] [NT 1 [] []]"
    by (auto simp: swap_def intro!: exI [of _ "[]"])
  from repl_part [OF repl_here this] show ?thesis by simp
qed

text \<open>
  C11. \<open>SetValue(uint64_t)\<close> keeps the invariant of the whole tree and changes exactly what the integer
  contributes: afterwards every cached size in the tree is right, every ancestor is marked, and the tree
  stands for the same field with the integer replaced, however deep the node is and whether or not the
  sizes were evaluated before.
\<close>

theorem set_int_updates_tree:
  assumes "g = None \<or> g = Some pb_codecs" "repl w (NT n [] []) (NT n [] []) t t d" "tree_inv enc_field w t"
    and "n_parent (nd w (rt t)) = None" "n_type (nd w n) \<in> {KNV_VARINT, KNV_FIXED64, KNV_FIXED32}"
    and "\<forall>i \<in> set (ids t). i < w_count w"
    and "length (deep_bytes enc_field (upd n (n_val_update (v_i64_update (\<lambda>_. v))) w) t) < 2 ^ 31"
  shows "\<exists>w'. SetValue_int g n v w = Some (0, w') \<and> tree_inv enc_field w' t \<and>
     tree_bytes enc_field w' t = deep_bytes enc_field (upd n (n_val_update (v_i64_update (\<lambda>_. v))) w) t \<and>
     (\<forall>i. i \<notin> set (ids t) \<longrightarrow> nd w' i = nd w i)"
proof -
  have "length (ids t) \<le> w_count w" using assms(3,6) by (intro length_ids_le) (simp_all add: tree_inv_def)
  from knv_codec.SetValue_int_ok [OF pb_knv_codec [OF assms(1)] assms(2) refl assms(3-5) this assms(7)]
  show ?thesis using tree_inv_bytes by fastforce
qed

theorem set_int_updates_tree_witness:
  "\<exists>w'. SetValue_int None 1 300 demo_edit = Some (0, w') \<and> tree_bytes enc_field w' demo_tree = [90, 3, 96, 172, 2]"
proof -
  let ?w = "upd 1 (n_val_update (v_i64_update (\<lambda>_. 300))) demo_edit"
  have "varint_enc 300 = [172, 2]" by code_simp
  then have bytes: "deep_bytes enc_field ?w demo_tree = [90, 3, 96, 172, 2]" by (simp add: demo_edit_simps)
  have "n_type (nd demo_edit 1) \<in> {KNV_VARINT, KNV_FIXED64, KNV_FIXED32}" "\<forall>i \<in> set (ids demo_tree). i < w_count demo_edit"
    by (simp_all add: demo_edit_def)
  from set_int_updates_tree [OF disjI1 [OF refl] demo_repl demo_edit_inv(1) _ this, of 300] demo_edit_inv(3) show ?thesis
    unfolding bytes ntree.sel by (simp del: tree_bytes.simps) blast
qed



lemma UpdateSubTree_leaf:
  assumes "n_tag (nd w u) \<noteq> 0" "\<not> other_node w n u" "n_type (nd w u) \<noteq> KNV_NODE" "n_child_num (nd w n) = 0" "n_child_num (nd w u) = 0"
  shows "UpdateSubTree g ord n (Some u) max_level w =
     do { (ret, w) \<leftarrow> SetValue_int g n (v_i64 (n_val (nd w u))) w; Some (if ret \<noteq> 0 then -3 else 0, w) }"
proof -
  have leaf: "update_leaf g n u w = do { (ret, w) \<leftarrow> SetValue_int g n (v_i64 (n_val (nd w u))) w; Some (if ret \<noteq> 0 then -3 else 0, w) }"
    using assms by (simp add: update_leaf_def GetValue_def Fold_def is_flat_def SetValue_def)
  have "n_tag (nd w n) \<noteq> 0" using assms(1,2) by (auto simp: other_node_def)
  then have num: "GetChildNum g n w = Some (0, w)" "GetChildNum g u w = Some (0, w)" "InnerExpand g n True w = Some (0, w)"
    "InnerExpand g u True w = Some (0, w)"
    using assms by (simp_all add: GetChildNum_def Expand_def InnerExpand_def)
  show ?thesis using assms(1,2) by (cases "nat (max_level + 1)") (simp_all add: UpdateSubTree_def leaf num)
qed

text \<open>
  Merging an integer leaf: \<open>UpdateSubTree\<close> with a leaf that has the same tag and key as an integer leaf of
  the tree stores the integer of the update, for every \<open>max_level\<close>, and keeps the invariant of the whole
  tree the leaf is in.
\<close>

theorem update_leaf_updates_tree:
  assumes "g = None \<or> g = Some pb_codecs" "repl w (NT n [] []) (NT n [] []) t t d" "tree_inv enc_field w t"
    and "n_parent (nd w (rt t)) = None" "n_type (nd w n) \<in> {KNV_VARINT, KNV_FIXED64, KNV_FIXED32}"
    and "\<forall>i \<in> set (ids t). i < w_count w"
    and "n_tag (nd w u) \<noteq> 0" "\<not> other_node w n u" "n_type (nd w u) \<noteq> KNV_NODE" "n_child_num (nd w n) = 0" "n_child_num (nd w u) = 0"
    and "length (deep_bytes enc_field (upd n (n_val_update (v_i64_update (\<lambda>_. v_i64 (n_val (nd w u))))) w) t) < 2 ^ 31"
  shows "\<exists>w'. UpdateSubTree g ord n (Some u) max_level w = Some (0, w') \<and> tree_inv enc_field w' t \<and>
     tree_bytes enc_field w' t = deep_bytes enc_field (upd n (n_val_update (v_i64_update (\<lambda>_. v_i64 (n_val (nd w u))))) w) t"
proof -
  have "length (ids t) \<le> w_count w" using assms(3,6) by (intro length_ids_le) (simp_all add: tree_inv_def)
  from knv_codec.SetValue_int_ok [OF pb_knv_codec [OF assms(1)] assms(2) refl assms(3-5) this assms(12)]
  obtain w' where "SetValue_int g n (v_i64 (n_val (nd w u))) w = Some (0, w')" "tree_inv enc_field w' t"
    "deep_bytes enc_field w' t = deep_bytes enc_field (upd n (n_val_update (v_i64_update (\<lambda>_. v_i64 (n_val (nd w u))))) w) t" by blast
  then show ?thesis using tree_inv_bytes [of enc_field w' t] by (simp add: UpdateSubTree_leaf [OF assms(7-11)])
qed

definition demo_merge :: world where
  "demo_merge = upd 2 (n_tag_update (\<lambda>_. 12)) demo_edit"

theorem update_leaf_updates_tree_witness:
  "\<exists>w'. UpdateSubTree None id 1 (Some 2) 0 demo_merge = Some (0, w') \<and> tree_bytes enc_field w' demo_tree = [90, 2, 96, 1]"
proof -
  let ?w = "upd 1 (n_val_update (v_i64_update (\<lambda>_. v_i64 (n_val (nd demo_merge 2))))) demo_merge"
  have bytes: "deep_bytes enc_field ?w demo_tree = [90, 2, 96, 1]" by (simp add: demo_merge_def demo_edit_simps)
  have inv: "tree_inv enc_field demo_merge demo_tree" by (simp add: demo_merge_def demo_edit_simps)
  have side: "n_parent (nd demo_merge (rt demo_tree)) = None" "n_type (nd demo_merge 1) \<in> {KNV_VARINT, KNV_FIXED64, KNV_FIXED32}"
    "\<forall>i \<in> set (ids demo_tree). i < w_count demo_merge" "n_tag (nd demo_merge 2) \<noteq> 0" "\<not> other_node demo_merge 1 2"
    "n_type (nd demo_merge 2) \<noteq> KNV_NODE" "n_child_num (nd demo_merge 1) = 0" "n_child_num (nd demo_merge 2) = 0"
    by (simp_all add: demo_merge_def demo_edit_def demo_world_def KnvNode0_def other_node_def key_eq_def)
  from update_leaf_updates_tree [OF disjI1 [OF refl] demo_repl inv side, of id 0] show ?thesis
    unfolding bytes by (simp del: tree_bytes.simps) blast
qed

end
