(* ===== verification/Knv_Package.thy ===== *)
theory Knv_Package
  imports Knv_Proto_Enc Knv_Update
begin

text \<open>
  Properties of packages: how a package is cut into parts, what a buffer fresh from the memory pool guarantees, and
  OIDB frames: what the encoder leaves in the buffer it returns and what the decoder makes of it.
\<close>

section \<open>Cutting a package into parts\<close>

lemma unat_of_nat_u32: "k < 2 ^ 32 \<Longrightarrow> unat (of_nat k :: u32) = k"
  by (simp add: unat_of_nat)

lemma nr_pkgs_nat:
  assumes "0 < sz" "0 < len" "unat len + unat sz \<le> 2 ^ 32"
  defines "n \<equiv> unat (nr_pkgs len sz)"
  shows "0 < n" "(n - 1) * unat sz < unat len" "unat len \<le> n * unat sz" "unat (size_last len sz) = unat len - (n - 1) * unat sz"
proof -
  let ?L = "unat len" and ?S = "unat sz"
  have pos: "0 < ?S" "0 < ?L" using assms(1,2) by (simp_all add: unat_gt_0 word_neq_0_conv [symmetric])
  have "unat (len + sz - 1) = ?L + ?S - 1"
  proof -
    have "len + sz - 1 = of_nat (?L + ?S - 1)" using pos by (simp add: of_nat_diff)
    also have "unat \<dots> = ?L + ?S - 1" using assms(3) pos by (intro unat_of_nat_u32) simp
    finally show ?thesis .
  qed
  then have n: "n = (?L + ?S - 1) div ?S" by (simp add: n_def nr_pkgs_def unat_div)
  have "?S * n + (?L + ?S - 1) mod ?S = ?L + ?S - 1" unfolding n by (rule mult_div_mod_eq)
  moreover have "(?L + ?S - 1) mod ?S < ?S" using pos by simp
  ultimately have b: "?S * n \<le> ?L + ?S - 1" "?L + ?S - 1 < ?S * n + ?S" by linarith+
  show np: "0 < n" using b(2) pos by (cases n) auto
  show lt: "(n - 1) * ?S < ?L" using b(1) np pos by (cases n) (auto simp: mult.commute)
  show "?L \<le> n * ?S" using b(2) by (simp add: mult.commute)
  have "nr_pkgs len sz = of_nat n" by (simp add: n_def)
  then have "(nr_pkgs len sz - 1) * sz = of_nat ((n - 1) * ?S)" using np by (simp add: of_nat_diff)
  moreover have "unat len = ?L" by simp
  ultimately have "size_last len sz = of_nat (?L - (n - 1) * ?S)" using lt by (simp add: size_last_def of_nat_diff)
  moreover have "?L - (n - 1) * ?S < 2 ^ 32" using assms(3) pos by simp
  ultimately show "unat (size_last len sz) = ?L - (n - 1) * ?S" by (simp add: unat_of_nat_u32)
qed

abbreviation value_bytes :: "heap \<Rightarrow> knv_value_t \<Rightarrow> byte list" where
  "value_bytes h v \<equiv> bytes_at h (v_data v) (unat (v_len v))"

text \<open>
  C27. The parts of a package, in order, are exactly its bytes: none is lost, repeated or empty, all but the last
  have the same size and the last is not larger.
\<close>

theorem split_parts_cover:
  assumes "0 < sz_part" "0 < len" "unat len + unat sz_part \<le> 2 ^ 32"
  shows "concat (map (\<lambda>i. value_bytes h (part_value buf (nr_pkgs len sz_part - 1) sz_part (size_last len sz_part) i))
       [0..<unat (nr_pkgs len sz_part)]) = bytes_at h buf (unat len) \<and>
     (\<forall>i < unat (nr_pkgs len sz_part). 0 < v_len (part_value buf (nr_pkgs len sz_part - 1) sz_part (size_last len sz_part) i) \<and>
       v_len (part_value buf (nr_pkgs len sz_part - 1) sz_part (size_last len sz_part) i) \<le> sz_part)"
proof -
  define n where "n = unat (nr_pkgs len sz_part)"
  define part where "part = part_value buf (nr_pkgs len sz_part - 1) sz_part (size_last len sz_part)"
  let ?L = "unat len" and ?S = "unat sz_part"
  note b = nr_pkgs_nat [OF assms, folded n_def]
  have nr: "nr_pkgs len sz_part - 1 = of_nat (n - 1)" using b(1) by (simp add: n_def of_nat_diff)
  have n32: "n < 2 ^ 32" using unsigned_less [of "nr_pkgs len sz_part", where 'a = nat] by (simp add: n_def)
  have last: "(of_nat i :: u32) = nr_pkgs len sz_part - 1 \<longleftrightarrow> i = n - 1" if "i < n" for i
  proof -
    have "unat (of_nat i :: u32) = i" "unat (of_nat (n - 1) :: u32) = n - 1"
      using that n32 unat_of_nat_u32 [of i] unat_of_nat_u32 [of "n - 1"] by simp_all
    then show ?thesis unfolding nr by metis
  qed
  have pos: "unat (of_nat i * sz_part) = i * ?S" if "i < n" for i
  proof -
    have "i * ?S \<le> (n - 1) * ?S" using that by (intro mult_right_mono) simp_all
    with b(2) assms(3) have "i * ?S < 2 ^ 32" by linarith
    moreover have "of_nat i * sz_part = of_nat (i * ?S)" by simp
    ultimately show ?thesis using unat_of_nat_u32 by metis
  qed
  have part: "v_data (part i) = ptr_add buf (i * ?S)" "unat (v_len (part i)) = (if i = n - 1 then ?L - (n - 1) * ?S else ?S)"
    if "i < n" for i
    using that by (simp_all add: part_def part_value_def last pos b(4))
  have pre: "concat (map (\<lambda>i. value_bytes h (part i)) [0..<k]) = bytes_at h buf (k * ?S)" if "k < n" for k
    using that by (induction k) (auto simp: part bytes_at_add add.commute [of ?S])
  have "[0..<n] = [0..<n - 1] @ [n - 1]" using b(1) by (cases n) simp_all
  then have "concat (map (\<lambda>i. value_bytes h (part i)) [0..<n]) = bytes_at h buf ((n - 1) * ?S + (?L - (n - 1) * ?S))"
    using pre [of "n - 1"] part [of "n - 1"] b(1) by (simp add: bytes_at_add)
  moreover have "0 < v_len (part i) \<and> v_len (part i) \<le> sz_part" if "i < n" for i
  proof -
    have "0 < ?S" using assms(1) by (simp add: unat_gt_0 word_neq_0_conv [symmetric])
    then have "0 < unat (v_len (part i)) \<and> unat (v_len (part i)) \<le> ?S" using part(2) [OF that] b(2,3) b(1) by (cases n) auto
    then show ?thesis by (simp add: word_le_nat_alt word_less_nat_alt)
  qed
  ultimately show ?thesis using b(2) unfolding n_def part_def by simp
qed

theorem split_parts_cover_witness:
  "concat (map (\<lambda>i. value_bytes (\<lambda>_. replicate 250 7) (part_value (Ptr (Ext 0) 0) 2 100 50 i)) [0..<3]) = replicate 250 7"
proof -
  have "nr_pkgs 250 100 = 3" "size_last 250 100 = 50" by (simp_all add: nr_pkgs_def size_last_def)
  with split_parts_cover [of 100 250 "\<lambda>_. replicate 250 7" "Ptr (Ext 0) 0"] show ?thesis
    by (simp add: bytes_at_Ptr)
qed


section \<open>Buffers of the memory pool\<close>

text \<open>Bytes that are in a buffer in use, or outside of the pools.\<close>

definition live :: "mem_state \<Rightarrow> nat set \<Rightarrow> ptr \<Rightarrow> bool" where
  "live s U p \<longleftrightarrow> (\<exists>m \<in> U. has_mem (snd s) m \<and> ptr_blk p = ptr_blk (c_mem (snd s) m)) \<or> (\<exists>b. ptr_blk p = Some b \<and> (\<forall>k. b \<noteq> Mem k))"

definition node_live :: "mem_state \<Rightarrow> nat set \<Rightarrow> knv_node \<Rightarrow> bool" where
  "node_live s U x \<longleftrightarrow> (n_type x = KNV_STRING \<longrightarrow> live s U (v_data (n_val x)) \<or> v_len (n_val x) = 0) \<and> (keyed x \<longrightarrow> live s U (k_val (n_key x)))"

definition tree_live :: "world \<Rightarrow> nat set \<Rightarrow> ntree \<Rightarrow> bool" where
  "tree_live w U t \<longleftrightarrow> (\<forall>n \<in> set (ids t). node_live (w_mem w) U (nd w n))"

lemma node_live_alike: "alike x y \<Longrightarrow> node_live s U x = node_live s U y"
  by (simp add: node_live_def keyed_alike [of x y] alikeD)

lemma tree_live_cong:
  "(\<And>n. n \<in> set (ids t) \<Longrightarrow> alike (nd w' n) (nd w n)) \<Longrightarrow> w_mem w' = w_mem w \<Longrightarrow> tree_live w' U t = tree_live w U t"
  unfolding tree_live_def by (metis node_live_alike)

lemma mem_new_sel:
  assumes "mem_new sz w = (r, w1)"
  shows "w_nodes w1 = w_nodes w" "w_count w1 = w_count w" "mem_alloc (to_u64 sz) (w_mem w) = (r, w_mem w1)"
  using assms by (auto simp: mem_new_def Let_def set_mem_state_def split: prod.splits)

lemma new_buffer:
  assumes "mem_ok (w_mem w) U" "mem_new sz w = (Some m, w1)" "0 \<le> sz" "sz \<le> 16777216"
  shows "m \<notin> U" "mem_ok (w_mem w1) (insert m U)" "\<exists>k. mem_ptr w1 m = Ptr (Mem k) 0"
    "valid_region (w_heap w1) (mem_ptr w1 m) (nat sz)"
proof -
  obtain k where k: "sz = int k" by (rule nonneg_int_cases [OF assms(3)])
  have "unat (of_nat k :: u64) = k" by (rule of_nat_inverse [OF refl]) (use assms(4) k in simp)
  with k assms(4) have sz: "to_u64 sz \<le> 16777216" "unat (to_u64 sz) = nat sz" by (simp_all add: word_le_nat_alt)
  note a = mem_alloc_ok [OF assms(1) mem_new_sel(3) [OF assms(2)]]
  from a show m: "m \<notin> U" and ok: "mem_ok (w_mem w1) (insert m U)" by simp_all
  from a sz have h: "has_mem (snd (w_mem w1)) m" "nat sz \<le> length (buf_of (snd (w_mem w1)) m)" by simp_all
  from mgr_okD(1,2) [OF ok] have "ctx_ok (snd (w_mem w1))" "m < c_objs (snd (w_mem w1))" by auto
  from ctx_ok_mem [OF this] h(1) show blk: "\<exists>k. mem_ptr w1 m = Ptr (Mem k) 0" by (auto simp: has_mem_def mem_ptr_def)
  from blk h(2) show "valid_region (w_heap w1) (mem_ptr w1 m) (nat sz)" by (auto simp: mem_ptr_def buf_of_def)
qed

lemma new_buffer_apart:
  assumes "mem_ok (w_mem w) U" "mem_new sz w = (Some m, w1)" "0 \<le> sz" "sz \<le> 16777216" "live (w_mem w) U q"
  shows "ptr_blk q \<noteq> ptr_blk (mem_ptr w1 m)" "bytes_at (w_heap w1) q n = bytes_at (w_heap w) q n"
proof -
  let ?c = "snd (w_mem w)" and ?c1 = "snd (w_mem w1)"
  note nb = new_buffer [OF assms(1-4)]
  have keep: "keeps U ?c ?c1" using mem_alloc_ok [OF assms(1) mem_new_sel(3) [OF assms(2)]] by simp
  obtain b i where q: "q = Ptr b i" using assms(5) by (cases q) (auto simp: live_def has_mem_def dest: ptr_blk.elims [OF sym])
  have "w_heap w1 b = w_heap w b \<and> Some b \<noteq> ptr_blk (mem_ptr w1 m)"
    using assms(5) unfolding live_def
  proof
    assume "\<exists>u \<in> U. has_mem ?c u \<and> ptr_blk q = ptr_blk (c_mem ?c u)"
    then obtain u where u: "u \<in> U" "has_mem ?c u" "Some b = ptr_blk (c_mem ?c u)" using q by auto
    with keep have k: "c_mem ?c1 u = c_mem ?c u" "buf_of ?c1 u = buf_of ?c u" by (auto simp: keeps_def)
    from mgr_okD(1,2) [OF nb(2)] u(1) have "ctx_ok ?c1" "u < c_objs ?c1" "m < c_objs ?c1" by auto
    with ctx_ok_inj [of ?c1 u m] ctx_ok_mem [of ?c1 u] ctx_ok_mem [of ?c1 m] u nb(1,3) k
    have "ptr_blk (c_mem ?c1 u) \<noteq> ptr_blk (c_mem ?c1 m)" by (auto simp: mem_ptr_def has_mem_def)
    with u k show ?thesis by (cases "c_mem ?c u") (auto simp: buf_of_def mem_ptr_def)
  next
    assume "\<exists>b. ptr_blk q = Some b \<and> (\<forall>k. b \<noteq> Mem k)"
    with q keep nb(3) show ?thesis by (auto simp: keeps_def)
  qed
  then show "ptr_blk q \<noteq> ptr_blk (mem_ptr w1 m)" "bytes_at (w_heap w1) q n = bytes_at (w_heap w) q n"
    using q by (auto intro!: nth_equalityI simp: nth_bytes_at)
qed

text \<open>Writing into a block changes no length, so the pools stay in order.\<close>

lemma length_buf_store:
  "valid_region (c_heap c) p (length bs) \<Longrightarrow> length (buf_of (c\<lparr>c_heap := store_bytes (c_heap c) p bs\<rparr>) u) = length (buf_of c u)"
  by (cases "c_mem c u") (simp_all add: buf_of_def length_store_bytes)

lemma mgr_ok_store:
  assumes "mgr_ok mg c U" "valid_region (c_heap c) p (length bs)"
  shows "mgr_ok mg (c\<lparr>c_heap := store_bytes (c_heap c) p bs\<rparr>) U"
  using assms(1) by (fastforce simp: mgr_ok_def ctx_ok_def pool_ok_def has_mem_def length_buf_store [OF assms(2)])

lemma mem_ok_set_heap:
  assumes "mem_ok (w_mem w) U" "valid_region (w_heap w) p (length bs)"
  shows "mem_ok (w_mem (set_heap (store_bytes (w_heap w) p bs) w)) U"
  using mgr_ok_store [OF assms] by (simp add: set_heap_def)


section \<open>OIDB frames\<close>

definition oidb_frame :: "byte list \<Rightarrow> byte list \<Rightarrow> byte list" where
  "oidb_frame hb bb = STX_IPV6_PB # be_bytes 4 (of_nat (length hb) :: u32) @ be_bytes 4 (of_nat (length bb) :: u32) @ hb @ bb @ [ETX_IPV6_PB]"

lemma length_oidb_frame [simp]: "length (oidb_frame hb bb) = length hb + length bb + 10"
  by (simp add: oidb_frame_def)

lemma ptr_move_nat: "0 \<le> i \<Longrightarrow> ptr_move p i = ptr_add p (nat i)"
  by (cases p) (simp_all add: ptr_move_def nat_add_distrib)

lemma node_write_heap: "node_write p bs w = set_heap (store_bytes (w_heap w) p bs) w"
  by (simp add: node_write_def put_bytes_def set_mem_state_def set_heap_def)

lemma GetValue_flat: "IsValid w n \<Longrightarrow> is_flat (nd w n) \<Longrightarrow> GetValue g n w = Some (Some n, w)"
  by (simp add: GetValue_def Fold_def)

lemma frame_reads:
  assumes "bytes_at h buf (length (oidb_frame hb bb)) = oidb_frame hb bb" "length hb + length bb + 10 < 2 ^ 31"
  shows "be_word (bytes_at h (ptr_add buf 1) 4) = (of_nat (length hb) :: u32)"
    "be_word (bytes_at h (ptr_add buf 5) 4) = (of_nat (length bb) :: u32)"
    "bytes_at h (ptr_add buf 9) (length hb) = hb" "bytes_at h (ptr_add buf (9 + length hb)) (length bb) = bb"
    "load h (ptr_add buf (length hb + length bb + 9)) = ETX_IPV6_PB"
proof -
  let ?f = "oidb_frame hb bb" and ?n = "length hb + length bb + 10"
  have sub: "bytes_at h (ptr_add buf k) m = take m (drop k ?f)" if "k + m \<le> ?n" for k m
  proof -
    have "take m (drop k (bytes_at h buf ?n)) = bytes_at h (ptr_add buf k) m"
      using that by (simp add: drop_bytes_at take_bytes_at)
    with assms(1) show ?thesis by simp
  qed
  have four: "drop 1 ?f = be_bytes 4 (of_nat (length hb) :: u32) @ be_bytes 4 (of_nat (length bb) :: u32) @ hb @ bb @ [ETX_IPV6_PB]"
    by (simp add: oidb_frame_def)
  have d: "drop (1 + k) ?f = drop k (be_bytes 4 (of_nat (length hb) :: u32) @ be_bytes 4 (of_nat (length bb) :: u32) @ hb @ bb @ [ETX_IPV6_PB])" for k
    using four by (metis drop_drop add.commute)
  show "be_word (bytes_at h (ptr_add buf 1) 4) = (of_nat (length hb) :: u32)"
    using sub [of 1 4] d [of 0] by (simp add: be_word_be_bytes)
  show "be_word (bytes_at h (ptr_add buf 5) 4) = (of_nat (length bb) :: u32)"
    using sub [of 5 4] d [of 4] by (simp add: be_word_be_bytes)
  show "bytes_at h (ptr_add buf 9) (length hb) = hb" using sub [of 9 "length hb"] d [of 8] by simp
  show "bytes_at h (ptr_add buf (9 + length hb)) (length bb) = bb"
    using sub [of "9 + length hb" "length bb"] d [of "8 + length hb"] by simp
  have "bytes_at h (ptr_add buf (length hb + length bb + 9)) 1 = [ETX_IPV6_PB]"
    using sub [of "length hb + length bb + 9" 1] d [of "8 + length hb + length bb"] by (simp add: ac_simps)
  then show "load h (ptr_add buf (length hb + length bb + 9)) = ETX_IPV6_PB" by (simp add: bytes_at_def)
qed



text \<open>A small package: the frame of the header \<open>[8, 1]\<close> and the body \<open>[7]\<close>.\<close>

definition demo_frame_world :: world where
  "demo_frame_world = set_heap ((\<lambda>_. [])(Ext 0 := oidb_frame [8, 1] [7])) demo_world"

definition demo_proto :: knv_proto where
  "demo_proto = \<lparr>p_tree = None, p_header = None, p_body = None, p_cmd = 0, p_subcmd = 0, p_seq = 0, p_retcode = 0, p_retmsglen = 0,
     p_retmsg = NULL, p_rspaddr = KnvSockAddr False, p_allow_split = 0, p_max_pkg_sz = 0, p_total_split_count = 0,
     p_curr_split_index = 0, p_errmsg = [], p_auto_delete = True\<rparr>"


lemma mem_copy_nat: "mem_copy p q (int n) w = Some (set_heap (store_bytes (w_heap w) p (bytes_at (w_heap w) q n)) w)"
  by (simp add: mem_copy_def node_write_heap)

definition leaf_live :: "world \<Rightarrow> nat set \<Rightarrow> nat \<Rightarrow> bool" where
  "leaf_live w U n \<longleftrightarrow> IsValid w n \<and> is_flat (nd w n) \<and> (live (w_mem w) U (v_data (n_val (nd w n))) \<or> v_len (n_val (nd w n)) = 0)"

abbreviation leaf_bytes :: "world \<Rightarrow> nat \<Rightarrow> byte list" where
  "leaf_bytes w n \<equiv> value_bytes (w_heap w) (n_val (nd w n))"

lemma str_len_nat: "unat (v_len (n_val (nd w n))) < 2 ^ 31 \<Longrightarrow> str_len w n = int (unat (v_len (n_val (nd w n))))"
  using to_int32_nat [of "unat (v_len (n_val (nd w n)))"] by (simp add: str_len_def)

text \<open>The six writes of the encoder, one behind the other.\<close>

lemma frame_writes:
  assumes "valid_region h buf (length (oidb_frame hb bb))"
  shows "store_bytes (store_bytes (store_bytes (store_bytes (store_bytes (store_bytes h buf [STX_IPV6_PB])
       (ptr_add buf 1) (be_bytes 4 (of_nat (length hb) :: u32))) (ptr_add buf 5) (be_bytes 4 (of_nat (length bb) :: u32)))
       (ptr_add buf 9) hb) (ptr_add buf (9 + length hb)) bb) (ptr_add buf (9 + length hb + length bb)) [ETX_IPV6_PB] =
     store_bytes h buf (oidb_frame hb bb)"
proof -
  let ?l = "be_bytes 4 (of_nat (length hb) :: u32)" and ?m = "be_bytes 4 (of_nat (length bb) :: u32)"
  have v: "valid_region h buf k" if "k \<le> length hb + length bb + 10" for k using assms that by (auto intro: valid_region_mono)
  have app: "store_bytes (store_bytes h buf xs) (ptr_add buf k) ys = store_bytes h buf (xs @ ys)"
    if "k = length xs" "length xs + length ys \<le> length hb + length bb + 10" for k xs ys
    using store_bytes_append [of h buf xs ys] v [OF that(2)] that(1) by simp
  show ?thesis
    using app [of 1 "[STX_IPV6_PB]" ?l] app [of 5 "[STX_IPV6_PB] @ ?l" ?m] app [of 9 "[STX_IPV6_PB] @ ?l @ ?m" hb]
      app [of "9 + length hb" "[STX_IPV6_PB] @ ?l @ ?m @ hb" bb]
      app [of "9 + length hb + length bb" "[STX_IPV6_PB] @ ?l @ ?m @ hb @ bb" "[ETX_IPV6_PB]"]
    by (simp add: oidb_frame_def)
qed

text \<open>The copy of the body, which may be missing or empty.\<close>

lemma frame_body_copy:
  assumes "\<And>b. body = Some b \<Longrightarrow> value_bytes h (n_val (nd w b)) = bb \<and> unat (v_len (n_val (nd w b))) = length bb" "body = None \<Longrightarrow> bb = []"
  shows "(if int (length bb) \<noteq> 0 then do { l \<leftarrow> body; mem_copy (ptr_move buf (9 + int k)) (str_data w l) (int (length bb)) (set_heap h w1) }
      else Some (set_heap h w1)) = Some (set_heap (store_bytes h (ptr_add buf (9 + k)) bb) w1)"
proof (cases body)
  case None
  then show ?thesis using assms(2) by simp
next
  case (Some b)
  have mv: "ptr_move buf (9 + int k) = ptr_add buf (9 + k)" by (simp add: ptr_move_nat nat_add_distrib)
  have "mem_copy (ptr_add buf (9 + k)) (str_data w b) (int (length bb)) (set_heap h w1) =
      Some (set_heap (store_bytes h (ptr_add buf (9 + k)) bb) w1)"
    using assms(1) [OF Some] unfolding mem_copy_nat by auto
  then show ?thesis unfolding Some mv by simp
qed

text \<open>The values of the two nodes do not move while the frame is written into a new buffer.\<close>

lemma frame_source:
  assumes "mem_ok (w_mem w) U" "mem_new k w = (Some m, w1)" "0 \<le> k" "k \<le> 16777216" "leaf_live w U n"
  shows "value_bytes (w_heap w1) (n_val (nd w n)) = leaf_bytes w n"
    and "ptr_blk q = ptr_blk (mem_ptr w1 m) \<Longrightarrow> value_bytes (store_bytes h q xs) (n_val (nd w n)) = value_bytes h (n_val (nd w n))"
proof -
  note na = new_buffer_apart [OF assms(1-4)]
  show "value_bytes (w_heap w1) (n_val (nd w n)) = leaf_bytes w n"
    using na(2) [of "str_data w n"] assms(5) by (auto simp: leaf_live_def)
  show "value_bytes (store_bytes h q xs) (n_val (nd w n)) = value_bytes h (n_val (nd w n))" if "ptr_blk q = ptr_blk (mem_ptr w1 m)"
    using that na(1) [of "str_data w n"] assms(5) by (cases "v_len (n_val (nd w n)) = 0") (auto simp: leaf_live_def intro!: bytes_at_store_other_blk)
qed

lemma compat_frame_run:
  assumes mem: "mem_ok (w_mem w) U" and h: "p_header p = Some h" "leaf_live w U h" and b: "\<And>b. body = Some b \<Longrightarrow> leaf_live w U b"
    and hb: "hb = leaf_bytes w h" and bb: "bb = (case body of None \<Rightarrow> [] | Some b \<Rightarrow> leaf_bytes w b)"
    and small: "length (oidb_frame hb bb) \<le> 16777216"
    and hv: "GetValue g h w = Some (Some h, w)" "str_len w h = int (length hb)"
    and bv: "(case body of None \<Rightarrow> Some (None, w) | Some b \<Rightarrow> GetValue g b w) = Some (body, w)"
      "(case body of None \<Rightarrow> 0 | Some l \<Rightarrow> str_len w l) = int (length bb)"
    and mn: "mem_new (int (length hb) + int (length bb) + 10) w = (Some m, w1)"
    and v: "valid_region (w_heap w1) (mem_ptr w1 m) (length (oidb_frame hb bb))"
  shows "EncodeCompatOidb g mem0 body p w = Some (int (length (oidb_frame hb bb)), Some m, p,
     set_heap (store_bytes (w_heap w1) (mem_ptr w1 m) (oidb_frame hb bb)) w1)"
proof -
  let ?buf = "mem_ptr w1 m" and ?H = "w_heap w1" and ?w' = "set_heap (store_bytes (w_heap w1) (mem_ptr w1 m) (oidb_frame hb bb)) w1"
  let ?l = "be_bytes 4 (of_nat (length hb) :: u32)" and ?m = "be_bytes 4 (of_nat (length bb) :: u32)"
  have k: "0 \<le> int (length hb) + int (length bb) + 10" "int (length hb) + int (length bb) + 10 \<le> 16777216" using small by simp_all
  note src = frame_source [OF mem mn k]
  have nd1: "nd w1 n = nd w n" for n using mem_new_sel(1) [OF mn] by simp
  define h3 where "h3 = store_bytes (store_bytes (store_bytes ?H ?buf [STX_IPV6_PB]) (ptr_add ?buf 1) ?l) (ptr_add ?buf 5) ?m"
  define h4 where "h4 = store_bytes h3 (ptr_add ?buf 9) hb"
  have "value_bytes h3 (n_val (nd w h)) = hb" using src [OF h(2)] by (simp add: h3_def hb)
  moreover have "unat (v_len (n_val (nd w h))) = length hb" by (simp add: hb)
  ultimately have cp: "mem_copy (ptr_add ?buf 9) (str_data w h) (int (length hb)) (set_heap h3 w1) = Some (set_heap h4 w1)"
    by (simp add: mem_copy_nat h4_def)
  have nobody: "body = None \<Longrightarrow> bb = []" using bb by simp
  have "value_bytes h4 (n_val (nd w b)) = bb \<and> unat (v_len (n_val (nd w b))) = length bb" if "body = Some b" for b
    using src [OF b [OF that]] that by (simp add: h4_def h3_def bb)
  then have bcp: "(if int (length bb) \<noteq> 0 then do { l \<leftarrow> body; mem_copy (ptr_move ?buf (9 + int (length hb))) (str_data w l)
        (int (length bb)) (set_heap h4 w1) } else Some (set_heap h4 w1)) =
      Some (set_heap (store_bytes h4 (ptr_add ?buf (9 + length hb)) bb) w1)"
    using frame_body_copy [OF _ nobody] by blast
  have heads: "put_be32 (ptr_add ?buf 5) (int (length bb)) (put_be32 (ptr_add ?buf 1) (int (length hb)) (node_write ?buf [STX_IPV6_PB] w1)) =
      set_heap h3 w1" by (simp add: put_be32_def node_write_heap h3_def)
  have mv: "ptr_move ?buf (int (length hb) + int (length bb) + 10 - 1) = ptr_add ?buf (9 + length hb + length bb)"
    by (simp add: ptr_move_nat nat_add_distrib ac_simps)
  have fini: "node_write (ptr_add ?buf (9 + length hb + length bb)) [ETX_IPV6_PB]
      (set_heap (store_bytes h4 (ptr_add ?buf (9 + length hb)) bb) w1) = ?w'"
    using frame_writes [OF v] by (simp add: node_write_heap h4_def h3_def)
  show ?thesis
    unfolding EncodeCompatOidb_def using hv bv mn h(1) heads cp bcp mv fini nd1
    by (simp add: Let_def split del: if_split cong: if_cong)
qed


text \<open>A package whose header is the string \<open>[8, 1]\<close> and whose body is the string \<open>[7]\<close>.\<close>

definition demo_package :: world where
  "demo_package = set_heap ((\<lambda>_. [])(Ext 0 := [8, 1, 7])) (demo_world\<lparr>w_nodes := (\<lambda>_. KnvNode0)(
     0 := KnvNode0\<lparr>n_tag := KNV_PKG_HDR_TAG, n_type := KNV_STRING, n_val := str_value 2 (Ptr (Ext 0) 0), n_child_num := -1\<rparr>,
     1 := KnvNode0\<lparr>n_tag := KNV_PKG_BDY_TAG, n_type := KNV_STRING, n_val := str_value 1 (Ptr (Ext 0) 2), n_child_num := -1\<rparr>)\<rparr>)"

lemma four_bytes: "le_bytes 4 x = [ucast x, ucast (drop_bit 8 x), ucast (drop_bit 8 (drop_bit 8 x)), ucast (drop_bit 8 (drop_bit 8 (drop_bit 8 x)))]"
  by (simp add: numeral_eq_Suc)


end
