(* ===== verification/Knv_Encode.thy ===== *)
theory Knv_Encode
  imports Knv_Package
begin

text \<open>
  Encoding of trees into packages: \<open>EncodeAll\<close> and \<open>Encode\<close> leave the bytes of the package in a buffer of the memory pool.
\<close>

section \<open>The whole tree\<close>

lemma same_dataI:
  assumes "node_ok x"
    and "n_type x = KNV_STRING \<Longrightarrow> value_bytes h' (n_val x) = value_bytes h (n_val x)"
    and "\<And>k. keyed x \<Longrightarrow> bytes_at h' (k_val (n_key x)) k = bytes_at h (k_val (n_key x)) k"
  shows "same_data h h' x"
proof -
  have "wval_of h' (k_type (n_key x)) (key_GetValue h' (n_key x)) = wval_of h (k_type (n_key x)) (key_GetValue h (n_key x))"
    if "keyed x"
    using assms(1) assms(3) [OF that]
    by (cases "k_type (n_key x)") (auto simp: wval_of_def key_GetValue_def key_GetIntVal_def node_ok_def named_type_def)
  moreover have "wval_of h' (n_type x) (n_val x) = wval_of h (n_type x) (n_val x)"
    using assms(1,2) by (cases "n_type x") (auto simp: wval_of_def node_ok_def named_type_def)
  ultimately show ?thesis by (simp add: same_data_def)
qed

text \<open>A tree whose bytes are in use does not notice that a buffer is allocated, and is apart from it.\<close>

lemma new_buffer_view:
  assumes "mem_ok (w_mem w) U" "mem_new sz w = (Some m, w1)" "0 \<le> sz" "sz \<le> 16777216" "tree_ok w t" "tree_live w U t"
  shows "apart w1 (mem_ptr w1 m) t" "n \<in> set (ids t) \<Longrightarrow> nd w1 n = nd w n \<and> same_view w w1 n"
proof -
  note nd1 = mem_new_sel(1) [OF assms(2)] and na = new_buffer_apart [OF assms(1-4)]
  have lv: "node_live (w_mem w) U (nd w n)" "node_ok (nd w n)" if "n \<in> set (ids t)" for n
    using assms(5,6) that by (simp_all add: tree_live_def tree_ok_def)
  show "apart w1 (mem_ptr w1 m) t"
    using lv(1) na(1) nd1 by (auto simp: apart_def node_apart_def node_live_def)
  show "nd w1 n = nd w n \<and> same_view w w1 n" if "n \<in> set (ids t)"
  proof -
    have "same_data (w_heap w) (w_heap w1) (nd w n)"
      using lv [OF that] na(2) by (intro same_dataI) (auto simp: node_live_def)
    then show ?thesis by (simp add: nd1 same_view_def)
  qed
qed

text \<open>A tree in a state in which it can be encoded: the caches that are filled are right, and its bytes are in use.\<close>

definition usable :: "world \<Rightarrow> nat set \<Rightarrow> ntree \<Rightarrow> bool" where
  "usable w U t \<longleftrightarrow> tree_ok w t \<and> sizes_ok enc_field w t \<and> (\<forall>n \<in> set (ids t). n < w_count w) \<and> tree_live w U t"

lemma usable_step:
  assumes "usable w U t" "caches_only S w w'" "sizes_ok enc_field w' t \<or> set (ids t) \<inter> S = {}"
  shows "usable w' U t" "tree_bytes enc_field w' t = tree_bytes enc_field w t"
proof -
  note c = caches_onlyD [OF assms(2)]
  have "sizes_ok enc_field w' t" using assms(3)
  proof
    assume dis: "set (ids t) \<inter> S = {}"
    have "nd w' n = nd w n \<and> same_view w w' n" if "n \<in> set (ids t)" for n
    proof -
      have "n \<notin> S" using that dis by blast
      with c(1,6) show ?thesis by (simp add: same_view_def)
    qed
    from sizes_ok_view [of t w' w, OF this] assms(1) show ?thesis by (simp add: usable_def)
  qed
  with assms(1) c tree_ok_cong [of t w' w] tree_live_cong [of t w' w] show "usable w' U t" by (simp add: usable_def)
  show "tree_bytes enc_field w' t = tree_bytes enc_field w t" using c by (intro tree_bytes_cong) simp_all
qed

lemma usable_evaluated:
  assumes "g = None \<or> g = Some pb_codecs" "usable w U t" "length (tree_bytes enc_field w t) < 2 ^ 31"
  obtains w' where "EvaluateSize g (rt t) w = Some (int (length (tree_bytes enc_field w t)), w')" "caches_only (set (ids t)) w w'"
    "usable w' U t" "tree_bytes enc_field w' t = tree_bytes enc_field w t"
proof -
  obtain w' where w': "EvaluateSize g (rt t) w = Some (int (length (tree_bytes enc_field w t)), w')" "sizes_ok enc_field w' t"
    "caches_only (set (ids t)) w w'" using EvaluateSize_ok [OF assms(1), of w t] assms(2,3) unfolding usable_def by blast
  from that [OF w'(1,3)] usable_step [OF assms(2) w'(3)] w'(2) show ?thesis by simp
qed

lemma usable_ready:
  assumes "mem_ok (w_mem w) U" "mem_new sz w = (Some m, w1)" "0 \<le> sz" "sz \<le> 16777216" "usable w U t"
  shows "ready enc_field w1 (mem_ptr w1 m) t" "tree_bytes enc_field w1 t = tree_bytes enc_field w t"
proof -
  have u: "tree_ok w t" "sizes_ok enc_field w t" "\<forall>n \<in> set (ids t). n < w_count w" "tree_live w U t"
    using assms(5) by (simp_all add: usable_def)
  note view = new_buffer_view [OF assms(1-4) u(1,4)]
  show "tree_bytes enc_field w1 t = tree_bytes enc_field w t" using view(2) by (intro tree_bytes_view) simp
  show "ready enc_field w1 (mem_ptr w1 m) t"
    using u view tree_ok_cong [of t w1 w] sizes_ok_view [of t w1 w] length_ids_le [OF u(1,3)] mem_new_sel(2) [OF assms(2)]
    by (simp add: ready_def)
qed

text \<open>A write to the new buffer, and changes of caches, leave the pools in order.\<close>

lemma written_buffer:
  assumes "mem_ok (w_mem w) V" "valid_region (w_heap w) (mem_ptr w m) (length bs)"
    and "caches_only S (set_heap (store_bytes (w_heap w) (mem_ptr w m) bs) w) w'"
  shows "mem_ok (w_mem w') V" "mem_ptr w' m = mem_ptr w m" "bytes_at (w_heap w') (mem_ptr w' m) (length bs) = bs"
proof -
  have mem': "w_mem w' = w_mem (set_heap (store_bytes (w_heap w) (mem_ptr w m) bs) w)" using caches_onlyD(1) [OF assms(3)] .
  show "mem_ok (w_mem w') V" unfolding mem' by (rule mem_ok_set_heap [OF assms(1,2)])
  show p: "mem_ptr w' m = mem_ptr w m" using mem' by (simp add: mem_ptr_def set_heap_def)
  show "bytes_at (w_heap w') (mem_ptr w' m) (length bs) = bs"
    unfolding p using mem' bytes_at_store_same [OF assms(2)] by (simp add: set_heap_def)
qed


text \<open>A package: the tree of the demo world under the package tag.\<close>

definition demo_pkg :: world where
  "demo_pkg = upd 0 (n_tag_update (\<lambda>_. KNV_PKG_TAG)) demo_world"

lemmas demo_pkg_simps = demo_pkg_def demo_world_def tree_ok_def node_shape_def node_ok_def named_type_def KnvNode0_def key_default_def
  sizes_ok_def size_ok_def keyed_def str_value_def v_len_def tree_live_def node_live_def is_flat_def proto_consts
  IsBufferValid_def key_part_def key_skip_def wval_of_def int_value_def enc_field_def pb_tag_word_def

lemma demo_mem_ok: "w_mem w = w_mem demo_world \<Longrightarrow> mem_ok (w_mem w) {}"
  using start_ok [of "snd (w_mem demo_world)"] by (simp add: demo_world_def start_ctx_def)


section \<open>A header and a body\<close>

text \<open>Two trees that share no node are written one behind the other.\<close>

lemma serialize_two:
  assumes g: "g = None \<or> g = Some pb_codecs" and r: "ready enc_field w p s" "ready enc_field w p t" and dis: "set (ids s) \<inter> set (ids t) = {}"
    and bs: "bs = tree_bytes enc_field w s" "bt = tree_bytes enc_field w t"
    and room: "valid_region (w_heap w) p (length bs + length bt)" "length bs + length bt < 2 ^ 31"
  shows "\<exists>w1 w2. Serialize g (rt s) p (int (length bs) + int (length bt)) True w = Some (0, int (length bs), w1) \<and>
     Serialize g (rt t) (ptr_add p (length bs)) (int (length bt)) True w1 = Some (0, int (length bt), w2) \<and>
     caches_only (set (ids s) \<union> set (ids t)) (set_heap (store_bytes (w_heap w) p (bs @ bt)) w) w2"
proof -
  have ser: "serializes enc_field (\<lambda>f p l. Serialize_n g (Suc (w_count w)) f p l True) u" if "length (ids u) \<le> w_count w" for u
    using knv_codec.Serialize_n_ok [OF pb_knv_codec [OF g]] that by simp
  have cnt: "length (ids s) \<le> w_count w" "length (ids t) \<le> w_count w" using r by (simp_all add: ready_def)
  have v: "valid_region (w_heap w) p (nat (int (length bs) + int (length bt)))" using room(1) by (simp add: nat_add_distrib)
  obtain w1 where w1: "Serialize g (rt s) p (int (length bs) + int (length bt)) True w = Some (0, int (length bs), w1)"
    "caches_only (set (ids s)) (set_heap (store_bytes (w_heap w) p bs) w) w1"
    by (rule serializesD [OF ser [OF cnt(1)] r(1) _ _ v]) (use bs room(2) in \<open>auto simp: Serialize_def\<close>)
  have r1: "ready enc_field w1 (ptr_add p (length bs)) t" "tree_bytes enc_field w1 t = bt"
    using ready_step [OF r(2) w1(2)] dis bs(2) by auto
  have h1: "w_heap w1 = store_bytes (w_heap w) p bs" and c1: "w_count w1 = w_count w"
    using caches_onlyD(1,2) [OF w1(2)] by (simp_all add: set_heap_def)
  have v1: "valid_region (w_heap w1) (ptr_add p (length bs)) (nat (int (length bt)))"
    using valid_region_add [OF room(1)] valid_region_mono [OF room(1)] by (simp add: h1 valid_region_store_bytes)
  obtain w2 where w2: "Serialize g (rt t) (ptr_add p (length bs)) (int (length bt)) True w1 = Some (0, int (length bt), w2)"
    "caches_only (set (ids t)) (set_heap (store_bytes (w_heap w1) (ptr_add p (length bs)) bt) w1) w2"
    by (rule serializesD [OF ser [OF cnt(2)] r1(1) _ _ v1]) (use r1(2) room(2) c1 in \<open>auto simp: Serialize_def\<close>)
  have "store_bytes (w_heap w1) (ptr_add p (length bs)) bt = store_bytes (w_heap w) p (bs @ bt)"
    unfolding h1 by (rule store_bytes_append [OF room(1)])
  with w1 w2 caches_only_write_trans [OF w1(2), of "set (ids t)" "store_bytes (w_heap w) p (bs @ bt)" w2] show ?thesis by auto
qed

lemma tree_bytes_ne: "tree_bytes enc_field w t \<noteq> []"
  by (cases t) (simp add: enc_field_def varint_enc_ne)

text \<open>The tag and the length in front of them.\<close>

context knv_codec
begin

lemma package_head:
  assumes "length (enc t (WString v)) < 2 ^ 31" "valid_region h p (length (enc t (WString v)))"
  shows "\<exists>b0 b. knv_init_buff g buff0 p (to_u64 (int (length (enc t (WString v))))) = (0, b0) \<and>
     knv_add_string_head g h b0 t (to_u64 (int (length v))) = (0, store_bytes h p (head t (of_nat (length v))), b) \<and>
     knv_get_encoded_length g b = int (length (head t (of_nat (length v))))"
proof -
  let ?f = "enc t (WString v)" and ?hd = "head t (of_nat (length v))"
  obtain b0 where b0: "pb_init_buff buff0 p (to_u64 (int (length ?f))) = (0, b0)" "wr_ok h b0" "b_ptr b0 = p" "b_left b0 = int (length ?f)"
    "\<forall>k \<le> length ?f. pb_get_encoded_length (b_advance k b0) = int k"
    using init_buff_ok [of "int (length ?f)" h p] assms by auto
  have len: "length ?hd \<le> length ?f" by (simp add: enc_string)
  have "wr_res h b0 (head t (to_u64 (int (length v)))) (knv_add_string_head g h b0 t (to_u64 (int (length v))))"
    by (rule add_string_head [OF b0(2)])
  from wr_res_fits [OF this] len b0(3,4) have
    "knv_add_string_head g h b0 t (to_u64 (int (length v))) = (0, store_bytes h p ?hd, b_advance (length ?hd) b0)"
    by (simp add: wr_room_def)
  with b0 len show ?thesis by (auto simp: init_buff get_encoded_length)
qed

end

text \<open>The head of the package and the two trees, one behind the other in a buffer.\<close>

lemma pair_written:
  assumes g: "g = None \<or> g = Some pb_codecs" and s: "ready enc_field w p s" and t: "ready enc_field w p t"
    and dis: "set (ids s) \<inter> set (ids t) = {}" and b: "bs = tree_bytes enc_field w s" "bt = tree_bytes enc_field w t"
    and f: "f = pb_head tg (of_nat (length (bs @ bt))) @ bs @ bt" "length f \<le> 16777216" and v: "valid_region (w_heap w) p (length f)"
  shows "\<exists>b0 b w5 w6. knv_init_buff g buff0 p (to_u64 (int (length f))) = (0, b0) \<and>
     knv_add_string_head g (w_heap w) b0 tg (to_u64 (int (length (bs @ bt)))) = (0, store_bytes (w_heap w) p (pb_head tg (of_nat (length (bs @ bt)))), b) \<and>
     knv_get_encoded_length g b = int (length (pb_head tg (of_nat (length (bs @ bt))))) \<and>
     Serialize g (rt s) (ptr_add p (length (pb_head tg (of_nat (length (bs @ bt)))))) (int (length bs) + int (length bt)) True
       (set_heap (store_bytes (w_heap w) p (pb_head tg (of_nat (length (bs @ bt))))) w) = Some (0, int (length bs), w5) \<and>
     Serialize g (rt t) (ptr_add (ptr_add p (length (pb_head tg (of_nat (length (bs @ bt)))))) (length bs)) (int (length bt)) True w5 =
       Some (0, int (length bt), w6) \<and>
     caches_only (set (ids s) \<union> set (ids t)) (set_heap (store_bytes (w_heap w) p f) w) w6"
proof -
  define hd where "hd = pb_head tg (of_nat (length (bs @ bt)))"
  note codec = pb_knv_codec [OF g]
  have fl: "f = hd @ bs @ bt" using f(1) by (simp add: hd_def)
  have fe: "f = enc_field tg (WString (bs @ bt))"
    using wire_format.enc_string [OF knv_codec.axioms(1) [OF codec]] f(1) by simp
  obtain b0 b where hdr: "knv_init_buff g buff0 p (to_u64 (int (length f))) = (0, b0)"
    "knv_add_string_head g (w_heap w) b0 tg (to_u64 (int (length (bs @ bt)))) = (0, store_bytes (w_heap w) p hd, b)"
    "knv_get_encoded_length g b = int (length hd)"
    using knv_codec.package_head [OF codec, of tg "bs @ bt" "w_heap w" p] v f(2) fe unfolding hd_def by auto
  define w4 where "w4 = set_heap (store_bytes (w_heap w) p hd) w"
  have c4: "caches_only {} (set_heap (store_bytes (w_heap w) p hd) w) w4" by (simp add: w4_def)
  have r4: "ready enc_field w4 (ptr_add p (length hd)) s" "ready enc_field w4 (ptr_add p (length hd)) t"
    "tree_bytes enc_field w4 s = bs" "tree_bytes enc_field w4 t = bt"
    using ready_step [OF s c4] ready_step [OF t c4] b by auto
  have v4: "valid_region (w_heap w4) (ptr_add p (length hd)) (length bs + length bt)"
    using v valid_region_add [of "w_heap w" p "length hd"] valid_region_mono [OF v, of "length hd"]
    by (simp add: w4_def fl valid_region_store_bytes)
  obtain w5 w6 where ser: "Serialize g (rt s) (ptr_add p (length hd)) (int (length bs) + int (length bt)) True w4 = Some (0, int (length bs), w5)"
    "Serialize g (rt t) (ptr_add (ptr_add p (length hd)) (length bs)) (int (length bt)) True w5 = Some (0, int (length bt), w6)"
    "caches_only (set (ids s) \<union> set (ids t)) (set_heap (store_bytes (w_heap w4) (ptr_add p (length hd)) (bs @ bt)) w4) w6"
    using serialize_two [OF g r4(1,2) dis r4(3,4) [symmetric] v4] f(2) fl by auto
  have "store_bytes (w_heap w4) (ptr_add p (length hd)) (bs @ bt) = store_bytes (w_heap w) p f"
    using store_bytes_append [of "w_heap w" p hd "bs @ bt"] v by (simp add: w4_def fl)
  with ser(3) have "caches_only (set (ids s) \<union> set (ids t)) (set_heap (store_bytes (w_heap w) p f) w) w6" by (simp add: w4_def)
  with hdr ser(1,2) show ?thesis unfolding w4_def hd_def by blast
qed



text \<open>A header leaf and a body leaf.\<close>

definition demo_pair :: world where
  "demo_pair = demo_world\<lparr>w_nodes := (\<lambda>_. KnvNode0)(
     0 := KnvNode0\<lparr>n_tag := 11, n_type := KNV_VARINT, n_val := int_value 5, n_child_num := 0\<rparr>,
     1 := KnvNode0\<lparr>n_tag := 12, n_type := KNV_VARINT, n_val := int_value 6, n_child_num := 0\<rparr>,
     2 := KnvNode0\<lparr>n_tag := KNV_PKG_TAG\<rparr>)\<rparr>"


end
