(* ===== verification/Knv_Release.thy ===== *)
theory Knv_Release
  imports Knv_Tree
begin

text \<open>
  Release of trees (\<open>KnvNode::Delete\<close>, \<open>ReleaseObject\<close>, \<open>ReleaseKnvNodeList\<close>): every node of a tree goes back to the node pool
  exactly once, and every buffer that its nodes own goes back to the memory pools exactly once.
\<close>

section \<open>The buffers a tree owns\<close>

definition node_mems :: "knv_node \<Rightarrow> nat list" where
  "node_mems x = List.map_filter (\<lambda>m. m) [d_mem (k_dyn (n_key x)), h_mem (n_ht x), d_mem (n_dyn x)]"

definition mems :: "world \<Rightarrow> nat list \<Rightarrow> nat list" where
  "mems w ns = concat (map (\<lambda>n. node_mems (nd w n)) ns)"

lemma mems_simps [simp]: "mems w [] = []" "mems w (n # ns) = node_mems (nd w n) @ mems w ns" "mems w (as @ bs) = mems w as @ mems w bs"
  by (simp_all add: mems_def)

lemma mems_cong: "(\<And>i. i \<in> set ns \<Longrightarrow> node_mems (nd w' i) = node_mems (nd w i)) \<Longrightarrow> mems w' ns = mems w ns"
  by (induction ns) auto

lemma mset_mems: "mset as = mset bs \<Longrightarrow> mset (mems w as) = mset (mems w bs)"
proof (induction as arbitrary: bs)
  case (Cons a as)
  then have "a \<in> set bs" by (metis list.set_intros(1) set_mset_mset)
  then obtain xs ys where bs: "bs = xs @ a # ys" by (meson split_list)
  with Cons.prems have "mset as = mset (xs @ ys)" by simp
  from Cons.IH [OF this] show ?case by (simp add: bs)
qed simp

section \<open>Steps of a release\<close>

text \<open>
  The nodes \<open>ns\<close> are released between \<open>w\<close> and \<open>w'\<close>; the nodes in \<open>X\<close> may have changed, but own the same buffers; no other node has.
\<close>

definition blank :: "knv_node \<Rightarrow> bool" where
  "blank x \<longleftrightarrow> n_tag x = 0 \<and> node_mems x = [] \<and> \<not> n_subnode_dirty x \<and> n_child_num x = -1 \<and> n_ht x = ht_init"

definition freed :: "nat set \<Rightarrow> world \<Rightarrow> world \<Rightarrow> nat list \<Rightarrow> bool" where
  "freed X w w' ns \<longleftrightarrow> (\<forall>i. i \<notin> set ns \<union> X \<longrightarrow> nd w' i = nd w i) \<and> (\<forall>i \<in> X - set ns. node_mems (nd w' i) = node_mems (nd w i)) \<and>
     (\<forall>i \<in> set ns. blank (nd w' i)) \<and> w_count w' = w_count w \<and> w_ht_next w' = w_ht_next w \<and>
     (\<forall>U. mem_ok (w_mem w) U \<longrightarrow> distinct (mems w ns) \<longrightarrow> set (mems w ns) \<subseteq> U \<longrightarrow>
        mem_ok (w_mem w') (U - set (mems w ns)) \<and> keeps (U - set (mems w ns)) (snd (w_mem w)) (snd (w_mem w')))"

lemma freed_refl: "freed X w w []"
  by (simp add: freed_def)

lemma freed_trans:
  assumes a: "freed X w w1 as" and b: "freed X w1 w2 bs" and disj: "set as \<inter> set bs = {}" "set as \<inter> X = {}"
  shows "freed X w w2 (as @ bs)"
proof -
  have own: "node_mems (nd w1 i) = node_mems (nd w i)" if "i \<notin> set as" for i using a that by (cases "i \<in> X") (auto simp: freed_def)
  have eq: "mems w1 bs = mems w bs" using disj(1) by (intro mems_cong own) auto
  have mem: "mem_ok (w_mem w2) (U - set (mems w (as @ bs))) \<and> keeps (U - set (mems w (as @ bs))) (snd (w_mem w)) (snd (w_mem w2))"
    if U: "mem_ok (w_mem w) U" "distinct (mems w (as @ bs))" "set (mems w (as @ bs)) \<subseteq> U" for U
  proof -
    have 1: "mem_ok (w_mem w1) (U - set (mems w as))" "keeps (U - set (mems w as)) (snd (w_mem w)) (snd (w_mem w1))"
      using a U by (auto simp: freed_def)
    have "U - set (mems w as) - set (mems w1 bs) = U - set (mems w (as @ bs))" by (auto simp: eq)
    moreover have "distinct (mems w1 bs)" "set (mems w1 bs) \<subseteq> U - set (mems w as)" using U(2,3) by (auto simp: eq)
    ultimately have 2: "mem_ok (w_mem w2) (U - set (mems w (as @ bs)))" "keeps (U - set (mems w (as @ bs))) (snd (w_mem w1)) (snd (w_mem w2))"
      using b 1(1) unfolding freed_def by metis+
    have "keeps (U - set (mems w (as @ bs))) (snd (w_mem w)) (snd (w_mem w1))" using 1(2) by (auto simp: keeps_def)
    from keeps_trans [OF this 2(2)] 2(1) show ?thesis by simp
  qed
  have "nd w2 i = nd w i" if "i \<notin> set (as @ bs) \<union> X" for i using a b that by (simp add: freed_def)
  moreover have "node_mems (nd w2 i) = node_mems (nd w i)" if "i \<in> X - set (as @ bs)" for i using a b that by (simp add: freed_def)
  moreover have "blank (nd w2 i)" if "i \<in> set (as @ bs)" for i
  proof (cases "i \<in> set bs")
    case False
    then have "i \<in> set as" "i \<notin> X" using that disj(2) by auto
    with False show ?thesis using a b by (simp add: freed_def)
  qed (use b in \<open>simp add: freed_def\<close>)
  ultimately show ?thesis using mem a b unfolding freed_def by simp
qed

lemma freed_touch:
  assumes "freed X w w' ns" "n \<in> X" "n \<notin> set ns" "\<And>x. node_mems (F x) = node_mems x"
  shows "freed X w (upd n F w') ns"
  using assms unfolding freed_def by auto

lemma freed_perm:
  assumes "freed X w w' as" "mset as = mset bs"
  shows "freed X w w' bs"
proof -
  have "set as = set bs" "distinct (mems w as) = distinct (mems w bs)" "set (mems w as) = set (mems w bs)"
    using assms(2) mset_mems [OF assms(2), of w] by (auto dest: mset_eq_setD mset_eq_imp_distinct_iff)
  with assms(1) show ?thesis by (simp add: freed_def)
qed

text \<open>Three buffers at most are given back by one node.\<close>

lemma dyn_free_ok:
  assumes "mem_ok s U" "\<And>m. d = Some m \<Longrightarrow> m \<in> U" "s' = (if d \<noteq> None then mem_free d s else s)"
  shows "mem_ok s' (U - set_option d) \<and> keeps (U - set_option d) (snd s) (snd s')"
proof (cases d)
  case (Some m)
  with assms UcMem_Free_ok [OF assms(1) _ prod.collapse [symmetric], of m] show ?thesis by (simp add: mem_free_def)
qed (use assms in simp)

lemma ReleaseNode_freed: "freed X w (ReleaseNode n w) [n]"
proof -
  let ?x = "nd w n"
  define s1 where "s1 = (if d_mem (k_dyn (n_key ?x)) \<noteq> None then mem_free (d_mem (k_dyn (n_key ?x))) (w_mem w) else w_mem w)"
  define s2 where "s2 = (if h_mem (n_ht ?x) \<noteq> None then mem_free (h_mem (n_ht ?x)) s1 else s1)"
  define s3 where "s3 = (if d_mem (n_dyn ?x) \<noteq> None then mem_free (d_mem (n_dyn ?x)) s2 else s2)"
  have mem: "w_mem (ReleaseNode n w) = s3"
    by (simp add: ReleaseNode_def KnvLeaf_ReleaseObject_def dyn_free_def ht_clear_def Let_def set_mem_state_def s1_def s2_def s3_def)
  have "mem_ok s3 (U - set (node_mems ?x)) \<and> keeps (U - set (node_mems ?x)) (snd (w_mem w)) (snd s3)"
    if U: "mem_ok (w_mem w) U" "distinct (node_mems ?x)" "set (node_mems ?x) \<subseteq> U" for U
  proof -
    let ?a = "set_option (d_mem (k_dyn (n_key ?x)))" and ?b = "set_option (h_mem (n_ht ?x))" and ?c = "set_option (d_mem (n_dyn ?x))"
    have ms: "set (node_mems ?x) = ?a \<union> ?b \<union> ?c" "?a \<inter> ?b = {}" "?a \<inter> ?c = {}" "?b \<inter> ?c = {}"
      using U(2) by (auto simp: node_mems_def map_filter_simps split: option.splits)
    have 1: "mem_ok s1 (U - ?a) \<and> keeps (U - ?a) (snd (w_mem w)) (snd s1)"
      using ms U(1,3) by (intro dyn_free_ok [OF _ _ s1_def]) auto
    have 2: "mem_ok s2 (U - ?a - ?b) \<and> keeps (U - ?a - ?b) (snd s1) (snd s2)"
      using ms U(3) 1 by (intro dyn_free_ok [OF _ _ s2_def]) auto
    have 3: "mem_ok s3 (U - ?a - ?b - ?c) \<and> keeps (U - ?a - ?b - ?c) (snd s2) (snd s3)"
      using ms U(3) 2 by (intro dyn_free_ok [OF _ _ s3_def]) auto
    have "U - ?a - ?b - ?c = U - set (node_mems ?x)" using ms by auto
    with 1 2 3 show ?thesis by (auto simp: keeps_def)
  qed
  moreover have "blank (nd (ReleaseNode n w) n)"
    by (simp add: ReleaseNode_def KnvLeaf_ReleaseObject_def dyn_free_def ht_clear_def Let_def set_mem_state_def blank_def node_mems_def
        dyn_init_def ht_init_def map_filter_simps)
  moreover have "nd (ReleaseNode n w) i = nd w i" if "i \<noteq> n" for i using that
    by (simp add: ReleaseNode_def KnvLeaf_ReleaseObject_def dyn_free_def ht_clear_def Let_def set_mem_state_def)
  moreover have "w_count (ReleaseNode n w) = w_count w" "w_ht_next (ReleaseNode n w) = w_ht_next w"
    by (simp_all add: ReleaseNode_def KnvLeaf_ReleaseObject_def dyn_free_def ht_clear_def Let_def set_mem_state_def)
  ultimately show ?thesis unfolding freed_def mem by simp
qed

section \<open>Levels of a forest\<close>

fun below :: "ntree list \<Rightarrow> ntree list \<Rightarrow> ntree list" where
  "below [] acc = acc"
| "below (t # ts) acc = below ts (tkids t @ tmetas t @ acc)"

abbreviation all_ids :: "ntree list \<Rightarrow> nat list" where
  "all_ids ts \<equiv> concat (map ids ts)"

lemma mset_ids: "mset (ids t) = {#rt t#} + mset (all_ids (tkids t @ tmetas t))"
  by (cases t) simp

lemma mset_below: "mset (all_ids (below ts acc)) + mset (map rt ts) = mset (all_ids ts) + mset (all_ids acc)"
proof (induction ts arbitrary: acc)
  case (Cons t ts)
  from Cons.IH [of "tkids t @ tmetas t @ acc"] show ?case by (simp add: mset_ids [of t])
qed simp

lemma shape_sub: "shape w t \<Longrightarrow> s \<in> set (tkids t) \<union> set (tmetas t) \<Longrightarrow> shape w s"
  by (cases t) auto

lemma below_shape: "\<forall>t \<in> set ts \<union> set acc. shape w t \<Longrightarrow> t \<in> set (below ts acc) \<Longrightarrow> shape w t"
proof (induction ts arbitrary: acc)
  case (Cons s ts)
  have "\<forall>t \<in> set ts \<union> set (tkids s @ tmetas s @ acc). shape w t" using Cons.prems(1) shape_sub [of w s] by auto
  from Cons.IH [OF this] Cons.prems(2) show ?case by simp
qed simp

lemma shape_lists:
  assumes "shape w t"
  shows "(if n_child_num (nd w (rt t)) \<ge> 0 then n_childlist (nd w (rt t)) @ n_metalist (nd w (rt t)) @ cs else cs) = map rt (tkids t @ tmetas t) @ cs"
  using assms by (cases t) (auto simp: node_shape_def split: if_splits)

lemma shape_same: "(\<And>i. i \<in> set (ids t) \<Longrightarrow> nd w' i = nd w i) \<Longrightarrow> shape w' t = shape w t"
  by (intro shape_cong) (simp add: alike_def)

lemma ReleaseNode_free [simp]: "w_free (ReleaseNode n w) = w_free w"
  by (simp add: ReleaseNode_def KnvLeaf_ReleaseObject_def dyn_free_def ht_clear_def Let_def set_mem_state_def)

lemma freed_same: "freed {} w w' ns \<Longrightarrow> i \<notin> set ns \<Longrightarrow> nd w' i = nd w i"
  by (simp add: freed_def)

lemma release_level_ok:
  "\<forall>t \<in> set ts. shape w t \<Longrightarrow> distinct (all_ids ts) \<Longrightarrow>
   \<exists>w'. release_level (map rt ts) (map rt acc) w = (map rt (below ts acc), w') \<and> freed {} w w' (map rt ts) \<and> w_free w' = w_free w"
proof (induction ts arbitrary: acc w)
  case Nil
  then show ?case by (simp add: freed_refl)
next
  case (Cons t ts)
  let ?w = "ReleaseNode (rt t) w"
  have "set (ids t) \<inter> set (all_ids ts) = {}" using Cons.prems(2) by simp
  then have out: "rt t \<notin> set (all_ids ts)" using rt_in_ids [of t] by blast
  have "shape ?w s" if "s \<in> set ts" for s
  proof -
    have "nd ?w i = nd w i" if "i \<in> set (ids s)" for i
      using that \<open>s \<in> set ts\<close> out by (intro freed_same [OF ReleaseNode_freed]) auto
    with shape_same [of s ?w w] Cons.prems(1) that show ?thesis by auto
  qed
  with Cons.prems(2) obtain w' where w': "release_level (map rt ts) (map rt (tkids t @ tmetas t @ acc)) ?w = (map rt (below (t # ts) acc), w')"
    "freed {} ?w w' (map rt ts)" "w_free w' = w_free w"
    using Cons.IH [of ?w "tkids t @ tmetas t @ acc"] by auto
  have "release_level (map rt (t # ts)) (map rt acc) w = (map rt (below (t # ts) acc), w')"
    using w'(1) shape_lists [of w t "map rt acc"] Cons.prems(1) by (simp add: Let_def)
  moreover have "set [rt t] \<inter> set (map rt ts) = {}" using out rt_in_ids by fastforce
  from freed_trans [OF ReleaseNode_freed w'(2) this] have "freed {} w w' (map rt (t # ts))" by simp
  ultimately show ?case using w'(3) by blast
qed

lemma release_levels_ok:
  "length (all_ids ts) \<le> k \<Longrightarrow> \<forall>t \<in> set ts. shape w t \<Longrightarrow> distinct (all_ids ts) \<Longrightarrow>
   \<exists>fc w'. release_levels k (map rt ts) fl w = Some (fc, w') \<and> mset fc = mset (all_ids ts) + mset fl \<and>
     freed {} w w' (all_ids ts) \<and> w_free w' = w_free w"
proof (induction k arbitrary: ts fl w)
  case 0
  have "ids s \<noteq> []" for s by (cases s) simp
  with 0 have "ts = []" by (cases ts) simp_all
  then show ?case by (simp add: freed_refl)
next
  case (Suc k)
  show ?case
  proof (cases ts)
    case Nil
    then show ?thesis by (simp add: freed_refl)
  next
    case (Cons t r)
    obtain w1 where w1: "release_level (map rt ts) (map rt []) w = (map rt (below ts []), w1)" "freed {} w w1 (map rt ts)" "w_free w1 = w_free w"
      using release_level_ok [OF Suc.prems(2,3), of "[]"] by blast
    have ms: "mset (all_ids ts) = mset (map rt ts @ all_ids (below ts []))" using mset_below [of ts "[]"] by (simp add: add.commute)
    then have d: "distinct (map rt ts @ all_ids (below ts []))" using Suc.prems(3) mset_eq_imp_distinct_iff by blast
    have "length (all_ids ts) = length (map rt ts @ all_ids (below ts []))" using ms mset_eq_length by blast
    then have len: "length (all_ids (below ts [])) \<le> k" using Suc.prems(1) Cons by simp
    have "shape w1 s" if s: "s \<in> set (below ts [])" for s
    proof -
      have "nd w1 i = nd w i" if "i \<in> set (ids s)" for i
        using that s d by (intro freed_same [OF w1(2)]) auto
      with shape_same [of s w1 w] below_shape [of ts "[]" w s] Suc.prems(2) s show ?thesis by auto
    qed
    with Suc.IH [OF len, of w1 "map rt ts @ fl"] d obtain fc w' where r: "release_levels k (map rt (below ts [])) (map rt ts @ fl) w1 = Some (fc, w')"
      "mset fc = mset (all_ids (below ts [])) + mset (map rt ts @ fl)" "freed {} w1 w' (all_ids (below ts []))" "w_free w' = w_free w1"
      by auto
    have "freed {} w w' (map rt ts @ all_ids (below ts []))" using freed_trans [OF w1(2) r(3)] d by auto
    from freed_perm [OF this ms [symmetric]] have "freed {} w w' (all_ids ts)" .
    moreover have "release_levels (Suc k) (map rt ts) fl w = Some (fc, w')" using r(1) w1(1) Cons by simp
    moreover have "mset fc = mset (all_ids ts) + mset fl" using r(2) ms by simp
    ultimately show ?thesis using r(4) w1(3) by auto
  qed
qed

section \<open>Whole trees\<close>

lemma ReleaseKnvNodeList_ok:
  assumes "\<forall>t \<in> set ts. shape w t" "distinct (all_ids ts)" "\<forall>i \<in> set (all_ids ts). i < w_count w"
  shows "\<exists>w'. ReleaseKnvNodeList (map rt ts) w = Some w' \<and> freed {} w w' (all_ids ts) \<and> mset (w_free w') = mset (all_ids ts) + mset (w_free w)"
proof -
  have "length (all_ids ts) = card (set (all_ids ts))" using assms(2) by (simp only: distinct_card)
  also have "\<dots> \<le> card {..<w_count w}" using assms(3) by (intro card_mono) auto
  finally have "length (all_ids ts) \<le> Suc (w_count w)" by simp
  from release_levels_ok [OF this assms(1,2), of "[]"] obtain fc w1 where
    w1: "release_levels (Suc (w_count w)) (map rt ts) [] w = Some (fc, w1)" "mset fc = mset (all_ids ts)" "freed {} w w1 (all_ids ts)" "w_free w1 = w_free w"
    by auto
  then show ?thesis by (intro exI [of _ "w1\<lparr>w_free := fc @ w_free w1\<rparr>"]) (simp add: ReleaseKnvNodeList_def freed_def del: set_concat)
qed

lemma freed_mono: "freed {} w w' ns \<Longrightarrow> set ns \<inter> X = {} \<Longrightarrow> freed X w w' ns"
  by (auto simp: freed_def)

lemma freed_count: "freed X w w' ns \<Longrightarrow> w_count w' = w_count w"
  by (simp add: freed_def)

lemma ReleaseObject_ok:
  assumes "shape w t" "distinct (ids t)" "\<forall>i \<in> set (ids t). i < w_count w"
  shows "\<exists>w' fs. ReleaseObject (rt t) w = Some w' \<and> freed {rt t} w w' (ids t) \<and> mset (w_free w') = mset fs + mset (w_free w) \<and>
     mset (ids t) = {#rt t#} + mset fs"
proof -
  obtain n ms cs where t: "t = NT n ms cs" by (cases t)
  have sh: "node_shape w n ms cs" "\<forall>s \<in> set ms. shape w s" "\<forall>s \<in> set cs. shape w s" using assms(1) by (simp_all add: t)
  have d: "n \<notin> set (all_ids ms)" "n \<notin> set (all_ids cs)" "distinct (all_ids ms)" "distinct (all_ids cs)" "set (all_ids ms) \<inter> set (all_ids cs) = {}"
    using assms(2) by (auto simp: t)
  have cnt: "\<forall>i \<in> set (all_ids ms). i < w_count w" "\<forall>i \<in> set (all_ids cs). i < w_count w" using assms(3) by (auto simp: t)
  show ?thesis
  proof (cases "n_child_num (nd w n) < 0")
    case True
    then have "ms = []" "cs = []" using sh(1) by (simp_all add: node_shape_def)
    with True show ?thesis using ReleaseNode_freed [of "{n}" w n]
      by (intro exI [of _ "ReleaseNode n w"] exI [of _ "[]"]) (simp add: ReleaseObject_def t)
  next
    case False
    then have l: "n_metalist (nd w n) = map rt ms" "n_childlist (nd w n) = map rt cs" using sh(1) by (simp_all add: node_shape_def)
    obtain w1 where w1: "ReleaseKnvNodeList (map rt ms) w = Some w1" "freed {} w w1 (all_ids ms)" "mset (w_free w1) = mset (all_ids ms) + mset (w_free w)"
      using ReleaseKnvNodeList_ok [OF sh(2) d(3) cnt(1)] by blast
    let ?w1 = "upd n (n_metalist_update (\<lambda>_. [])) w1"
    have "nd ?w1 i = nd w i" if "i \<in> set (all_ids cs)" for i using that d freed_same [OF w1(2), of i] by auto
    then have "shape ?w1 s" if "s \<in> set cs" for s using that sh(3) by (subst shape_same [of s ?w1 w]) (auto simp del: nd_upd)
    then have "\<forall>s \<in> set cs. shape ?w1 s" by blast
    moreover have "\<forall>i \<in> set (all_ids cs). i < w_count ?w1" using cnt(2) freed_count [OF w1(2)] by simp
    ultimately obtain w2 where w2: "ReleaseKnvNodeList (map rt cs) ?w1 = Some w2" "freed {} ?w1 w2 (all_ids cs)"
      "mset (w_free w2) = mset (all_ids cs) + mset (w_free ?w1)"
      using ReleaseKnvNodeList_ok [OF _ d(4)] by blast
    let ?w2 = "upd n (n_childlist_update (\<lambda>_. [])) w2"
    have nm: "node_mems (n_metalist_update F x) = node_mems x" "node_mems (n_childlist_update F x) = node_mems x" for F x by (simp_all add: node_mems_def)
    have "freed {n} w ?w1 (all_ids ms)" using freed_touch [OF freed_mono [OF w1(2)], of "{n}" n] d(1) nm(1) by simp
    moreover have "freed {n} ?w1 ?w2 (all_ids cs)" using freed_touch [OF freed_mono [OF w2(2)], of "{n}" n] d(2) nm(2) by simp
    ultimately have "freed {n} w ?w2 (all_ids ms @ all_ids cs)" using freed_trans d(1,5) by fastforce
    from freed_trans [OF this ReleaseNode_freed [of _ _ n]] d(1,2) have "freed {n} w (ReleaseNode n ?w2) ((all_ids ms @ all_ids cs) @ [n])" by simp
    then have "freed {n} w (ReleaseNode n ?w2) (ids t)" by (rule freed_perm) (simp add: t)
    moreover have "n_childlist (nd ?w1 n) = map rt cs" using l(2) freed_same [OF w1(2) d(1)] by simp
    then have "ReleaseObject n w = Some (ReleaseNode n ?w2)" using False l(1) w1(1) w2(1) by (simp add: ReleaseObject_def)
    ultimately show ?thesis using w1(3) w2(3)
      by (intro exI [of _ "ReleaseNode n ?w2"] exI [of _ "all_ids ms @ all_ids cs"]) (simp add: t)
  qed
qed

lemma freed_inside: "freed X w w' ns \<Longrightarrow> X \<subseteq> set ns \<Longrightarrow> freed {} w w' ns"
  by (auto simp: freed_def)

lemma nodepool_Delete_ok:
  assumes "shape w t" "distinct (ids t)" "\<forall>i \<in> set (ids t). i < w_count w"
  shows "\<exists>w'. nodepool_Delete (rt t) w = Some w' \<and> freed {} w w' (ids t) \<and> mset (w_free w') = mset (ids t) + mset (w_free w)"
proof -
  obtain w1 fs where w1: "ReleaseObject (rt t) w = Some w1" "freed {rt t} w w1 (ids t)" "mset (w_free w1) = mset fs + mset (w_free w)"
    "mset (ids t) = {#rt t#} + mset fs" using ReleaseObject_ok [OF assms] by blast
  have "freed {} w w1 (ids t)" using freed_inside [OF w1(2)] rt_in_ids [of t] by blast
  then have "freed {} w (w1\<lparr>w_free := rt t # w_free w1\<rparr>) (ids t)" by (simp add: freed_def)
  with w1 show ?thesis by (intro exI [of _ "w1\<lparr>w_free := rt t # w_free w1\<rparr>"]) (simp add: nodepool_Delete_def)
qed

lemma release_each_ok:
  "\<forall>t \<in> set ts. shape w t \<Longrightarrow> distinct (all_ids ts) \<Longrightarrow> \<forall>i \<in> set (all_ids ts). i < w_count w \<Longrightarrow>
   \<exists>w' fs. release_each (map rt ts) w = Some w' \<and> freed {} w w' (all_ids ts) \<and> mset (w_free w') = mset fs + mset (w_free w) \<and>
     mset (all_ids ts) = mset (map rt ts) + mset fs"
proof (induction ts arbitrary: w)
  case Nil
  then show ?case by (simp add: freed_refl)
next
  case (Cons t ts)
  have t: "shape w t" "distinct (ids t)" "\<forall>i \<in> set (ids t). i < w_count w" using Cons.prems by simp_all
  obtain w1 fs where w1: "ReleaseObject (rt t) w = Some w1" "freed {rt t} w w1 (ids t)" "mset (w_free w1) = mset fs + mset (w_free w)"
    "mset (ids t) = {#rt t#} + mset fs" using ReleaseObject_ok [OF t] by blast
  have f1: "freed {} w w1 (ids t)" using freed_inside [OF w1(2)] rt_in_ids [of t] by blast
  have disj: "set (ids t) \<inter> set (all_ids ts) = {}" using Cons.prems(2) by simp
  have "nd w1 i = nd w i" if "i \<in> set (all_ids ts)" for i using that disj by (intro freed_same [OF f1]) blast
  then have "shape w1 s" if "s \<in> set ts" for s using that Cons.prems(1) by (subst shape_same [of s w1 w]) auto
  then have "\<forall>s \<in> set ts. shape w1 s" by blast
  moreover have "distinct (all_ids ts)" "\<forall>i \<in> set (all_ids ts). i < w_count w1" using Cons.prems freed_count [OF f1] by simp_all
  ultimately obtain w2 gs where w2: "release_each (map rt ts) w1 = Some w2" "freed {} w1 w2 (all_ids ts)"
    "mset (w_free w2) = mset gs + mset (w_free w1)" "mset (all_ids ts) = mset (map rt ts) + mset gs" using Cons.IH [of w1] by blast
  from freed_trans [OF f1 w2(2) disj] have "freed {} w w2 (all_ids (t # ts))" by simp
  with w1 w2 show ?case by (intro exI [of _ w2] exI [of _ "fs @ gs"]) simp
qed

lemma nodepool_DeleteAll_ok:
  assumes "\<forall>t \<in> set ts. shape w t" "distinct (all_ids ts)" "\<forall>i \<in> set (all_ids ts). i < w_count w"
  shows "\<exists>w'. nodepool_DeleteAll (map rt ts) w = Some w' \<and> freed {} w w' (all_ids ts) \<and> mset (w_free w') = mset (all_ids ts) + mset (w_free w)"
proof -
  obtain w1 fs where w1: "release_each (map rt ts) w = Some w1" "freed {} w w1 (all_ids ts)" "mset (w_free w1) = mset fs + mset (w_free w)"
    "mset (all_ids ts) = mset (map rt ts) + mset fs" using release_each_ok [OF assms] by blast
  have "freed {} w (w1\<lparr>w_free := map rt ts @ w_free w1\<rparr>) (all_ids ts)" using w1(2) by (simp add: freed_def)
  with w1 show ?thesis by (intro exI [of _ "w1\<lparr>w_free := map rt ts @ w_free w1\<rparr>"]) (simp add: nodepool_DeleteAll_def)
qed


text \<open>A node with one child; the value of the child is in a buffer from the memory pools.\<close>

definition demo_owner :: world where
  "demo_owner = \<lparr>
     w_nodes = (\<lambda>_. KnvNode0)(
       0 := KnvNode0\<lparr>n_tag := 11, n_child_num := 1, n_childlist := [1], n_subnode_dirty := True\<rparr>,
       1 := KnvNode0\<lparr>n_tag := 12, n_dyn := \<lparr>d_sz = 128, d_data = NULL, d_mem = Some 0\<rparr>, n_parent := Some 0\<rparr>),
     w_ht_next = (\<lambda>_. None), w_free = [], w_count = 2, w_pool = True, w_mem = snd (UcMem_Alloc 100 GetInstance start_ctx), w_errorstr = None\<rparr>"


end
