(* ===== verification/Knv_Remove.thy ===== *)
theory Knv_Remove
  imports Knv_Encode Knv_Update Knv_Release
begin

text \<open>
  Removal of a child: the lookup in the hash table, the release of the child with its buffers and the update of sizes and
  dirty flags, composed as \<open>RemoveChild\<close> does.
\<close>

section \<open>Lookup with the place of the link\<close>

lemma ht_walk_pos_finds:
  "chain nx xs None \<Longrightarrow> \<exists>x \<in> set xs. kf x = (t, k) \<Longrightarrow> \<exists>c pos'. ht_walk_pos kf nx t k pos (first_of xs None) = Some (Some (c, pos'))"
proof (induction xs arbitrary: pos)
  case (Cons x xs)
  show ?case
  proof (cases "kf x = (t, k)")
    case True
    then show ?thesis by (subst ht_walk_pos.simps) (simp add: IsMatch_eq)
  next
    case False
    with Cons.IH [of "NextPos x"] Cons.prems show ?thesis by (subst ht_walk_pos.simps) (auto simp: IsMatch_eq)
  qed
qed simp

lemma ht_get_pos_finds:
  assumes ok: "ht_ok kf nx ht S" and c: "c \<in> S" "kf c = (t, k)"
  shows "\<exists>c' pos. ht_get_pos kf nx t k ht = Some (Some (c', pos))"
proof -
  from ok obtain xs where rep: "slots_rep nx (h_tab ht) xs" and so: "slots_ok kf (h_sz ht) xs S" by (auto simp: ht_ok_def)
  let ?hi = "get_keyhash t k (h_sz ht)"
  have m: "c \<in> set (xs ?hi)" using so c by (simp add: slots_ok_def slot_of_def)
  then obtain p where p: "h_tab ht ?hi = Some p" using slots_repD(2) [OF rep, of ?hi] by (cases "h_tab ht ?hi") auto
  from ht_walk_pos_finds [OF slots_repD(1) [OF rep, of ?hi], of kf t k "SlotPos ?hi"] m c(2) slots_repD(3) [OF rep p] p
  show ?thesis by (auto simp: ht_get_pos_def Let_def)
qed

lemma ht_ok_cong:
  assumes "ht_ok kf nx ht S" "\<And>c. c \<in> S \<Longrightarrow> kf' c = kf c"
  shows "ht_ok kf' nx ht S"
proof -
  have "slots_ok kf' (h_sz ht) xs S = slots_ok kf (h_sz ht) xs S" for xs using assms(2) by (auto simp: slots_ok_def slot_of_def)
  with assms(1) show ?thesis by (simp add: ht_ok_def)
qed

section \<open>What an edit does not touch\<close>

definition same_links :: "world \<Rightarrow> world \<Rightarrow> bool" where
  "same_links w w' \<longleftrightarrow> (\<forall>i. n_ht (nd w' i) = n_ht (nd w i) \<and> n_key (nd w' i) = n_key (nd w i) \<and> n_tag (nd w' i) = n_tag (nd w i))"

lemma same_links_refl [simp]: "same_links w w"
  by (simp add: same_links_def)

lemma same_links_trans: "same_links w w1 \<Longrightarrow> same_links w1 w2 \<Longrightarrow> same_links w w2"
  by (simp add: same_links_def)

lemma same_links_upd: "same_links w (upd n (climb_node g ud ue off) w)"
  by (simp add: same_links_def)

lemma update_ancestors_links: "update_ancestors g k p ud ue off w = Some w' \<Longrightarrow> same_links w w'"
proof (induction k arbitrary: p ud ue off w)
  case 0
  then show ?case by (cases p) (auto split: if_splits)
next
  case (Suc k)
  show ?case
  proof (cases p)
    case (Some q)
    from Suc.IH Suc.prems [unfolded Some climb_step [OF refl refl]] show ?thesis
      using same_links_trans [OF same_links_upd] by blast
  qed (use Suc.prems in simp)
qed

lemma finish_edit_links:
  assumes "finish_edit g n off w = Some w'"
  shows "same_links w w'"
proof -
  obtain off' w1 where w1: "(if n_eval_sz (nd w n) \<ge> 0 then UPDATE_EVAL_SZ g n off w else (off, w)) = (off', w1)" by fastforce
  then have "same_links w (SET_VALUE_DIRTY n w1)"
    by (auto simp: same_links_def SET_VALUE_DIRTY_def UPDATE_EVAL_SZ_def Let_def split: if_splits)
  moreover have "same_links (SET_VALUE_DIRTY n w1) w'"
    using assms w1 update_ancestors_links by (auto simp: finish_edit_def UpdateParentEvalueAndSetDirty_def)
  ultimately show ?thesis by (rule same_links_trans)
qed

section \<open>Bytes that stay\<close>

lemma live_bytes:
  assumes "live s V q" "keeps V (snd s) (snd s')"
  shows "bytes_at (heap_of s') q n = bytes_at (heap_of s) q n"
proof -
  obtain b i where q: "q = Ptr b i" using assms(1) by (cases q) (auto simp: live_def has_mem_def dest: ptr_blk.elims [OF sym])
  have "heap_of s' b = heap_of s b"
    using assms(1) unfolding live_def
  proof
    assume "\<exists>m \<in> V. has_mem (snd s) m \<and> ptr_blk q = ptr_blk (c_mem (snd s) m)"
    then obtain m where m: "m \<in> V" "ptr_blk (c_mem (snd s) m) = Some b" using q by auto
    then obtain j where "c_mem (snd s) m = Ptr b j" by (cases "c_mem (snd s) m") auto
    with m(1) assms(2) show ?thesis by (auto simp: keeps_def buf_of_def)
  qed (use q assms(2) in \<open>auto simp: keeps_def\<close>)
  then show ?thesis by (simp add: q bytes_at_def)
qed

section \<open>The child leaves the tree\<close>

lemma distinct_roots:
  assumes "distinct (all_ids ts)"
  shows "distinct (map rt ts)"
proof -
  have "mset (all_ids ts) = mset (map rt ts @ all_ids (below ts []))" using mset_below [of ts "[]"] by (simp add: add.commute)
  with assms have "distinct (map rt ts @ all_ids (below ts []))" using mset_eq_imp_distinct_iff by blast
  then show ?thesis by simp
qed

lemma repl_sym: "repl w s s' t t' d \<Longrightarrow> rt s' = rt s \<Longrightarrow> repl w s' s t' t d"
proof (induction rule: repl.induct)
  case repl_here
  show ?case by (rule repl.repl_here)
next
  case (repl_part q q' d n ms cs ms' cs')
  have roots: "map rt ms' = map rt ms" using swap_parts(5) [OF repl_part.hyps(2)] repl_rt [OF repl_part.hyps(1) repl_part.prems] by simp
  then have "key_skip w n ms' = key_skip w n ms" by (intro key_skip_cong) simp_all
  moreover have "swap (key_skip w n ms) q' q ms' cs' ms cs" using repl_part.hyps(2) by (auto simp: swap_def)
  ultimately show ?case using repl_part by (auto intro: repl.repl_part)
qed

text \<open>
  The child \<open>u\<close> of \<open>n\<close> can be removed: the table of \<open>n\<close> holds the children, no other child has the tag and key of \<open>u\<close>, and the buffers of
  \<open>u\<close> are its own, so that what remains of the tree and the keys of the other children do not read them.
\<close>

definition removable :: "world \<Rightarrow> nat set \<Rightarrow> nat \<Rightarrow> ntree list \<Rightarrow> ntree list \<Rightarrow> ntree \<Rightarrow> ntree list \<Rightarrow> ntree \<Rightarrow> bool" where
  "removable w U n ms as u bs t \<longleftrightarrow> (let V = U - set (mems w (ids u)) in
     ht_ok (node_kf w) (w_ht_next w) (n_ht (nd w n)) (set (map rt (as @ u # bs))) \<and>
     (\<forall>p \<in> set (as @ bs). node_kf w (rt p) \<noteq> node_kf w (rt u)) \<and> (ms \<noteq> [] \<or> as @ bs \<noteq> []) \<and>
     mem_ok (w_mem w) U \<and> distinct (mems w (ids u)) \<and> set (mems w (ids u)) \<subseteq> U \<and> (\<forall>i \<in> set (ids t) - set (ids u). node_live (w_mem w) V (nd w i)) \<and>
     (\<forall>p \<in> set (as @ bs). k_len (n_key (nd w (rt p))) = 0 \<or> live (w_mem w) V (k_val (n_key (nd w (rt p))))))"

text \<open>The world when \<open>u\<close> has been released and \<open>finish_edit\<close> is still to come.\<close>

definition removed :: "world \<Rightarrow> world \<Rightarrow> nat set \<Rightarrow> nat \<Rightarrow> ntree list \<Rightarrow> ntree \<Rightarrow> ntree list \<Rightarrow> knv_ht \<Rightarrow> bool" where
  "removed w w1 U n as u bs ht \<longleftrightarrow> (\<forall>i. i \<notin> set (ids u) \<longrightarrow> i \<noteq> n \<longrightarrow> nd w1 i = nd w i) \<and> w_count w1 = w_count w \<and>
     nd w1 n = (nd w n)\<lparr>n_ht := ht, n_childlist := map rt (as @ bs), n_child_num := n_child_num (nd w n) - 1\<rparr> \<and>
     mset (w_free w1) = mset (ids u) + mset (w_free w) \<and>
     mem_ok (w_mem w1) (U - set (mems w (ids u))) \<and> keeps (U - set (mems w (ids u))) (snd (w_mem w)) (snd (w_mem w1))"

lemma removed_live:
  assumes "removable w U n ms as u bs t" "tree_inv enc w t" "removed w w1 U n as u bs ht" "i \<in> set (ids t)" "i \<notin> set (ids u)"
  shows "same_data (w_heap w) (w_heap w1) (nd w i)"
proof -
  have "node_live (w_mem w) (U - set (mems w (ids u))) (nd w i)" "node_ok (nd w i)" using assms by (auto simp: removable_def Let_def tree_inv_def tree_ok_def)
  moreover have keep: "keeps (U - set (mems w (ids u))) (snd (w_mem w)) (snd (w_mem w1))" using assms(3) by (simp add: removed_def)
  ultimately show ?thesis using live_bytes [OF _ keep] by (intro same_dataI) (auto simp: node_live_def)
qed

lemma removed_view:
  assumes "removable w U n ms as u bs t" "tree_inv enc w t" "removed w w1 U n as u bs ht" "i \<in> set (ids t)" "i \<notin> set (ids u)" "i \<noteq> n"
  shows "nd w1 i = nd w i \<and> same_view w w1 i"
  using removed_live [OF assms(1-5)] assms(3,5,6) by (auto simp: removed_def same_view_def)

lemma removed_bytes:
  assumes rm: "removable w U n ms as u bs t" and inv: "tree_inv enc w t" and rd: "removed w w1 U n as u bs ht"
    and r: "repl w (NT n ms (as @ u # bs)) (NT n ms (as @ bs)) t t' d"
  shows "deep_bytes enc w1 t' = deep_bytes enc w t'"
proof (rule deep_bytes_same)
  fix v
  assume "v \<in> set (subtrees t')"
  then have i: "rt v \<in> set (ids t')" using subtrees_ids rt_in_ids by blast
  have dt: "distinct (ids t)" using inv by (simp add: tree_inv_def tree_ok_def)
  have ds: "distinct (ids (NT n ms (as @ u # bs)))" by (rule distinct_subtree [OF dt repl_old [OF r]])
  have "rt v \<in> set (ids t) \<and> rt v \<notin> set (ids u)"
  proof (cases "rt v \<in> set (ids (NT n ms (as @ bs)))")
    case True
    then show ?thesis using ds repl_ids [OF r] by auto
  next
    case False
    with repl_outside [OF repl_sym [OF r] dt i] show ?thesis by auto
  qed
  then have "same_data (w_heap w) (w_heap w1) (nd w (rt v))" "rt v \<noteq> n \<Longrightarrow> nd w1 (rt v) = nd w (rt v)"
    using removed_live [OF rm inv rd] rd by (auto simp: removed_def)
  then show "same_deep w w1 v" using rd by (cases "rt v = n") (auto simp: same_deep_def Let_def removed_def keyed_def same_data_def)
qed

lemma removed_kf:
  assumes rm: "removable w U n ms as u bs t" and rd: "removed w w1 U n as u bs ht" and ds: "distinct (ids (NT n ms (as @ u # bs)))"
    and c: "c \<in> set (map rt (as @ bs))" and w2: "same_links w1 w2" "w_mem w2 = w_mem w1"
  shows "node_kf w2 c = node_kf w c"
proof -
  obtain p where p: "p \<in> set (as @ bs)" "c = rt p" using c by auto
  have "n \<notin> set (ids p)" "set (ids p) \<inter> set (ids u) = {}" using p(1) ds by auto
  then have "c \<noteq> n" "c \<notin> set (ids u)" using p(2) rt_in_ids [of p] by blast+
  then have nd: "nd w1 c = nd w c" using rd by (simp add: removed_def)
  have "key_bytes (w_heap w1) (n_key (nd w c)) = key_bytes (w_heap w) (n_key (nd w c))"
  proof (cases "k_len (n_key (nd w c)) = 0")
    case False
    with rm p have "live (w_mem w) (U - set (mems w (ids u))) (k_val (n_key (nd w c)))" by (auto simp: removable_def Let_def)
    moreover have "keeps (U - set (mems w (ids u))) (snd (w_mem w)) (snd (w_mem w1))" using rd by (simp add: removed_def)
    ultimately show ?thesis unfolding key_bytes_def by (rule live_bytes)
  qed (simp add: key_bytes_def)
  with nd w2 show ?thesis by (simp add: node_kf_def same_links_def)
qed

context knv_codec
begin

lemma remove_edited:
  assumes inv: "tree_inv enc w (NT n ms (as @ u # bs))" and ne: "ms \<noteq> [] \<or> as @ bs \<noteq> []"
    and out: "\<And>i. i \<notin> set (ids u) \<Longrightarrow> i \<noteq> n \<Longrightarrow> nd w1 i = nd w i"
    and view: "\<And>i. i \<in> set (ids (NT n ms (as @ bs))) \<Longrightarrow> i \<noteq> n \<Longrightarrow> same_view w w1 i"
    and key: "key_part enc w1 n = key_part enc w n"
    and n: "nd w1 n = (nd w n)\<lparr>n_ht := ht, n_childlist := map rt (as @ bs), n_child_num := n_child_num (nd w n) - 1\<rparr>"
  shows "edited enc w w1 (NT n ms (as @ u # bs)) (NT n ms (as @ bs)) (if n_eval_sz (nd w n) \<ge> 0 then - n_eval_sz (nd w (rt u)) else 0)"
proof -
  let ?s = "NT n ms (as @ u # bs)" and ?s' = "NT n ms (as @ bs)"
  have ds: "distinct (ids ?s)" using inv by (simp add: tree_inv_def tree_ok_def)
  then have ds': "distinct (ids ?s')" by auto
  have sub: "tree_inv enc w1 p \<and> deep_bytes enc w1 p = deep_bytes enc w p \<and> nd w1 (rt p) = nd w (rt p) \<and> n_parent (nd w1 (rt p)) = Some n"
    if p: "p \<in> set ms \<union> set (as @ bs)" for p
  proof -
    have d: "n \<notin> set (ids p)" "set (ids p) \<inter> set (ids u) = {}" using ds p by auto
    have v: "nd w1 i = nd w i \<and> same_view w w1 i" if "i \<in> set (ids p)" for i
      using that d p by (intro conjI out view) auto
    have "tree_inv enc w p" "n_parent (nd w (rt p)) = Some n" using inv p by (auto simp: tree_inv_NT tree_ok_def)
    with v show ?thesis using tree_inv_view [of p w1 w enc] deep_bytes_view [of p w w1 enc] rt_in_ids [of p] by metis
  qed
  have kd: "keyed (nd w1 n) = keyed (nd w n)" by (simp add: n keyed_def)
  have skip: "key_skip w1 n ms = key_skip w n ms" using sub kd by (intro key_skip_cong) auto
  have maps: "map (deep_bytes enc w1) ms = map (deep_bytes enc w) ms" "map (deep_bytes enc w1) (as @ bs) = map (deep_bytes enc w) (as @ bs)"
    using sub by auto
  have ne0: "ms \<noteq> [] \<or> as @ u # bs \<noteq> []" by simp
  have val: "int (length (deep_val enc w1 ?s')) = int (length (deep_val enc w ?s)) - int (length (deep_bytes enc w u))"
    unfolding deep_val_inner [OF ne] deep_val_inner [OF ne0] key skip maps by simp
  have ni: "node_inv enc w ?s" "node_shape w n ms (as @ u # bs)" using inv by (simp_all add: tree_inv_NT tree_ok_def)
  have nu: "node_inv enc w u" using inv by (cases u) (simp add: tree_inv_NT)
  have cnt: "n_eval_sz (nd w (rt p)) \<ge> 0" if "n_eval_sz (nd w n) \<ge> 0" "p \<in> set (counted_parts w ?s)" for p
    using ni(1) that by (force simp: node_inv_def)
  have off: "- n_eval_sz (nd w (rt u)) = int (length (deep_val enc w1 ?s')) - n_eval_val_sz (nd w n)" if n0: "n_eval_sz (nd w n) \<ge> 0"
  proof -
    have "n_eval_sz (nd w (rt u)) \<ge> 0" using cnt [OF n0, of u] by (simp add: counted_parts_def)
    then have "n_eval_sz (nd w (rt u)) = int (length (deep_bytes enc w u))" using nu by (simp add: node_inv_def)
    moreover have "n_eval_val_sz (nd w n) = int (length (deep_val enc w ?s))" using ni(1) n0 by (simp add: node_inv_def del: deep_bytes.simps)
    ultimately show ?thesis using val by simp
  qed
  have cnt1: "n_eval_sz (nd w1 (rt p)) \<ge> 0" if n0: "n_eval_sz (nd w n) \<ge> 0" and p: "p \<in> set (counted_parts w1 ?s')" for p
  proof -
    have "p \<in> set (counted_parts w ?s)" "p \<in> set ms \<union> set (as @ bs)" using p by (auto simp: counted_parts_def skip dest: in_set_dropD)
    with cnt [OF n0] sub show ?thesis by metis
  qed
  have "n_type (nd w n) = KNV_NODE" using ni(1) by (auto simp: node_inv_def has_parts_def)
  moreover have "node_shape w1 n ms (as @ bs)" using ni(2) by (auto simp: node_shape_def n split: if_splits)
  moreover have "\<forall>p \<in> set ms \<union> set (as @ bs). tree_inv enc w1 p \<and> n_parent (nd w1 (rt p)) = Some n" using sub by blast
  ultimately show ?thesis
    unfolding edited_def Let_def ntree.sel using ne ds' off cnt1 by (simp add: n has_parts_def del: ids.simps)
qed

lemma RemoveChild_run:
  assumes inv: "tree_inv enc w (NT n ms (as @ u # bs))" and rm: "removable w U n ms as u bs t"
    and cnt: "\<forall>i \<in> set (ids u). i < w_count w" and kf: "node_kf w (rt u) = (tg, k)"
  shows "\<exists>w1 ht. RemoveChild g n tg k w = do { w' \<leftarrow> finish_edit g n (if n_eval_sz (nd w n) \<ge> 0 then - n_eval_sz (nd w (rt u)) else 0) w1; Some (True, w') } \<and>
     removed w w1 U n as u bs ht \<and> ht_ok (node_kf w) (w_ht_next w1) ht (set (map rt (as @ bs)))"
proof -
  let ?c = "rt u"
  note rm' = rm [unfolded removable_def Let_def]
  have ok: "tree_ok w (NT n ms (as @ u # bs))" and ni: "node_inv enc w (NT n ms (as @ u # bs))" using inv by (simp_all add: tree_inv_NT)
  have d: "n \<notin> set (ids u)" "distinct (ids u)" "distinct (map rt (as @ u # bs))"
    using ok distinct_roots [of "as @ u # bs"] by (auto simp: tree_ok_def)
  have sh: "n_tag (nd w n) \<noteq> 0" "n_childlist (nd w n) = map rt (as @ u # bs)" "n_child_num (nd w n) > 0" "shape w u"
    using ok by (auto simp: tree_ok_def node_shape_def node_ok_def split: if_splits)
  obtain c pos where get: "ht_get_pos (node_kf w) (w_ht_next w) tg k (n_ht (nd w n)) = Some (Some (c, pos))"
    using ht_get_pos_finds [of "node_kf w" "w_ht_next w" "n_ht (nd w n)" _ ?c tg k] rm' kf by force
  define r where "r = ht_remove_pos c pos (w_ht_next w) (n_ht (nd w n))"
  have c: "c = ?c" and ht: "ht_ok (node_kf w) (fst r) (snd r) (set (map rt (as @ u # bs)) - {c})"
    using ht_get_pos_ok [OF _ get, of "set (map rt (as @ u # bs))"] rm' kf unfolding r_def by auto
  have rest: "set (map rt (as @ u # bs)) - {?c} = set (map rt (as @ bs))" "remove1 ?c (map rt (as @ u # bs)) = map rt (as @ bs)"
    using d(3) by (auto simp: remove1_append)
  let ?w1 = "upd n (n_ht_update (\<lambda>_. snd r)) (w\<lparr>w_ht_next := fst r\<rparr>)"
  let ?w2 = "upd n (n_childlist_update (remove1 ?c)) ?w1"
  have "nd ?w2 i = nd w i" if "i \<in> set (ids u)" for i using that d(1) by auto
  then have "shape ?w2 u" "mems ?w2 (ids u) = mems w (ids u)" using sh(4) shape_same [of u ?w2 w] by (auto intro!: mems_cong)
  moreover from this obtain w3 where w3: "nodepool_Delete ?c ?w2 = Some w3" "freed {} ?w2 w3 (ids u)" "mset (w_free w3) = mset (ids u) + mset (w_free w)"
    using nodepool_Delete_ok [of ?w2 u] d(2) cnt by auto
  ultimately have mem: "mem_ok (w_mem w3) (U - set (mems w (ids u)))" "keeps (U - set (mems w (ids u))) (snd (w_mem w)) (snd (w_mem w3))"
    using w3(2) rm' unfolding freed_def by auto
  let ?w4 = "upd n (n_child_num_update (\<lambda>k. k - 1)) w3"
  have n3: "nd w3 i = nd ?w2 i" if "i \<notin> set (ids u)" for i using freed_same [OF w3(2) that] .
  have minus: "minus_size g n ?c w = Some (if n_eval_sz (nd w n) \<ge> 0 then - n_eval_sz (nd w ?c) else 0, w)"
  proof -
    have "n_eval_sz (nd w n) \<ge> 0 \<Longrightarrow> n_eval_sz (nd w ?c) \<ge> 0" using ni by (force simp: node_inv_def counted_parts_def)
    then show ?thesis using EvaluateSize_known [of w ?c] by (simp add: minus_size_def)
  qed
  have "FindChild_pos g n tg k w = Some (Some (?c, pos), w)"
    using sh(1,3) get c by (simp add: FindChild_pos_def Expand_def InnerExpand_def node_ht_get_pos_def)
  moreover have "node_ht_remove_pos n ?c pos w = ?w1" using c by (simp add: node_ht_remove_pos_def r_def case_prod_unfold Let_def)
  ultimately have "RemoveChild g n tg k w =
     do { w' \<leftarrow> finish_edit g n (if n_eval_sz (nd w n) \<ge> 0 then - n_eval_sz (nd w (rt u)) else 0) ?w4; Some (True, w') }"
    using w3(1) minus by (simp add: RemoveChild_def RemoveChildByPos_def nodepool_Delete_child_def)
  moreover have "nd ?w4 n = (nd w n)\<lparr>n_ht := snd r, n_childlist := map rt (as @ bs), n_child_num := n_child_num (nd w n) - 1\<rparr>"
    using n3 [OF d(1)] sh(2) rest(2) by simp
  moreover have "\<forall>i. i \<notin> set (ids u) \<longrightarrow> i \<noteq> n \<longrightarrow> nd ?w4 i = nd w i" using n3 by simp
  moreover have "w_count ?w4 = w_count w" "w_ht_next ?w4 = fst r" using w3(2) by (simp_all add: freed_def)
  ultimately show ?thesis using ht c rest(1) w3(3) mem
    by (intro exI [of _ ?w4] exI [of _ "snd r"]) (simp add: removed_def)
qed

lemma RemoveChild_ok:
  assumes r: "repl w (NT n ms (as @ u # bs)) (NT n ms (as @ bs)) t t' d" and inv: "tree_inv enc w t" and dist: "distinct (ids t')"
    and small: "length (deep_bytes enc w t') < 2 ^ 31" and root: "n_parent (nd w (rt t)) = None" and bound: "\<forall>i \<in> set (ids t). i < w_count w"
    and rm: "removable w U n ms as u bs t" and kf: "node_kf w (rt u) = (tg, k)"
  shows "\<exists>w'. RemoveChild g n tg k w = Some (True, w') \<and> tree_inv enc w' t' \<and> deep_bytes enc w' t' = deep_bytes enc w t' \<and>
     mset (w_free w') = mset (ids u) + mset (w_free w) \<and> mem_ok (w_mem w') (U - set (mems w (ids u))) \<and>
     ht_ok (node_kf w') (w_ht_next w') (n_ht (nd w' n)) (set (map rt (as @ bs)))"
proof -
  let ?s = "NT n ms (as @ u # bs)" and ?s' = "NT n ms (as @ bs)" and ?V = "U - set (mems w (ids u))"
  let ?off = "if n_eval_sz (nd w n) \<ge> 0 then - n_eval_sz (nd w (rt u)) else 0"
  have old: "tree_inv enc w ?s" by (rule tree_inv_subtree [OF inv repl_old [OF r]])
  have st: "set (ids ?s) \<subseteq> set (ids t)" by (rule repl_ids [OF r])
  have ds: "distinct (ids ?s)" using old by (simp add: tree_inv_def tree_ok_def)
  then have nu: "n \<notin> set (ids u)" "n \<in> set (ids t)" using st by auto
  have cnt: "\<forall>i \<in> set (ids u). i < w_count w" using bound st by auto
  obtain w1 ht where run: "RemoveChild g n tg k w = do { w' \<leftarrow> finish_edit g n ?off w1; Some (True, w') }"
    and rd: "removed w w1 U n as u bs ht" and ht: "ht_ok (node_kf w) (w_ht_next w1) ht (set (map rt (as @ bs)))"
    using RemoveChild_run [OF old rm cnt kf] by blast
  note rd' = rd [unfolded removed_def]
  have data: "same_data (w_heap w) (w_heap w1) (nd w n)" by (rule removed_live [OF rm inv rd nu(2,1)])
  have key: "key_part enc w1 n = key_part enc w n" using data rd' by (simp add: key_part_def Let_def keyed_def same_data_def)
  have sub: "i \<in> set (ids t) \<and> i \<notin> set (ids u)" if "i \<in> set (ids ?s')" for i using that ds st by auto
  have n1: "nd w1 n = (nd w n)\<lparr>n_ht := ht, n_childlist := map rt (as @ bs), n_child_num := n_child_num (nd w n) - 1\<rparr>" using rd' by simp
  have ne: "ms \<noteq> [] \<or> as @ bs \<noteq> []" using rm by (simp add: removable_def Let_def)
  have e: "edited enc w w1 ?s ?s' ?off"
    by (rule remove_edited [OF old ne _ _ key n1]) (use rd' removed_view [OF rm inv rd] sub in \<open>blast+\<close>)
  have v: "nd w1 i = nd w i \<and> same_view w w1 i" if "i \<in> set (ids t)" "i \<notin> set (ids ?s)" for i
    using that by (intro removed_view [OF rm inv rd]) auto
  have "length (ids t) \<le> w_count w1" using length_ids_le [of w t] inv bound rd' by (simp add: tree_inv_def)
  from finish_edit_ok [OF r e inv dist v _ root this] small obtain w2 where
    w2: "finish_edit g n ?off w1 = Some w2" "tree_inv enc w2 t'" "deep_bytes enc w2 t' = deep_bytes enc w t'" "w2 = w1\<lparr>w_nodes := w_nodes w2\<rparr>"
    unfolding removed_bytes [OF rm inv rd r] ntree.sel by blast
  note links = finish_edit_links [OF w2(1)]
  have eq: "w_mem w2 = w_mem w1" "w_free w2 = w_free w1" "w_ht_next w2 = w_ht_next w1"
    using arg_cong [OF w2(4), of w_mem] arg_cong [OF w2(4), of w_free] arg_cong [OF w2(4), of w_ht_next] by simp_all
  have "ht_ok (node_kf w2) (w_ht_next w2) (n_ht (nd w2 n)) (set (map rt (as @ bs)))"
    using ht_ok_cong [OF ht removed_kf [OF rm rd ds _ links eq(1)]] links n1 eq(3) by (simp add: same_links_def)
  with run w2 rd' eq show ?thesis by auto
qed

end

section \<open>The operation on the default codec\<close>


text \<open>A root with two children, the second of which has a value in a buffer of the memory pools.\<close>

definition demo_kids :: world where
  "demo_kids = demo_owner\<lparr>w_count := 3, w_nodes := (\<lambda>_. KnvNode0)(
     0 := KnvNode0\<lparr>n_tag := 11, n_child_num := 2, n_childlist := [1, 2], n_subnode_dirty := True, n_eval_sz := 6, n_eval_val_sz := 4,
       n_ht := ht_init\<lparr>h_nr := 2, h_tab := (\<lambda>_. None)(12 \<mapsto> Some 1, 13 \<mapsto> Some 2)\<rparr>\<rparr>,
     1 := KnvNode0\<lparr>n_tag := 12, n_type := KNV_VARINT, n_val := int_value 5, n_child_num := 0, n_parent := Some 0, n_eval_sz := 2\<rparr>,
     2 := KnvNode0\<lparr>n_tag := 13, n_dyn := \<lparr>d_sz = 128, d_data = NULL, d_mem = Some 0\<rparr>, n_child_num := 0, n_parent := Some 0, n_eval_sz := 2\<rparr>)\<rparr>"

lemma demo_kids_kf: "node_kf demo_kids 1 = (12, [])" "node_kf demo_kids 2 = (13, [])"
  by (simp_all add: node_kf_def demo_kids_def KnvNode0_def key_default_def key_bytes_def)

lemma demo_kids_ht: "ht_ok (node_kf demo_kids) (w_ht_next demo_kids) (n_ht (nd demo_kids 0)) {1, 2}"
proof -
  let ?xs = "(\<lambda>_. [])(12 := [1], 13 := [2 :: nat])"
  have slot: "slot_of (node_kf demo_kids) 32 1 = 12" "slot_of (node_kf demo_kids) 32 2 = 13" unfolding slot_of_def demo_kids_kf by (simp_all add: get_keyhash_def)
  have "slots_ok (node_kf demo_kids) 32 ?xs {1, 2}" using slot by (auto simp: slots_ok_def)
  moreover have "slots_rep (\<lambda>_. None) ((\<lambda>_. None)(12 \<mapsto> Some 1, 13 \<mapsto> Some 2)) ?xs" by (simp add: slots_rep_def)
  ultimately show ?thesis by (auto simp: ht_ok_def demo_kids_def demo_owner_def ht_init_def KNV_DEFAULT_HT_SIZE_def)
qed


end
