(* ===== verification/Knv_Fold.thy ===== *)
theory Knv_Fold
  imports Knv_Remove
begin

text \<open>
  Folding (\<open>KnvNode::Fold\<close>): the parts of a node become its value in a buffer of the memory pools, and the parts are released.
\<close>

section \<open>The buffer\<close>

lemma alloc_size:
  assumes "mem_ok s U" "mem_alloc sz s = (Some m, s')" "sz \<le> 16777216"
  shows "uint (GetAllocSize m (fst s') (snd s')) = int (length (buf_of (snd s') m))" "length (buf_of (snd s') m) \<le> 16777216"
proof -
  have "m \<in> insert m U" "mgr_ok (fst s') (snd s') (insert m U)" "c_pool (snd s') m = get_magic sz"
    using UcMem_Alloc_ok [OF assms(1), of sz "Some m" "fst s'" "snd s'"] assms(2,3) by (auto simp: mem_alloc_def)
  note ok = this
  from assms(3) obtain i where i: "get_magic sz = Some i" by (simp add: get_magic_def biggest_magic_def)
  have il: "i < 10" using get_magic_least [of sz] i by simp
  from mgr_okD(5) [OF ok(2,1)] ok(3) i obtain p where p: "mg_pools (fst s') i = Some p" and len: "length (buf_of (snd s') m) = unat (magics ! i)"
    by auto
  have "p_self p = i" "sz_each p = magics ! p_self p" using mgr_okD(3) [OF ok(2) p] by (simp_all add: pool_ok_def)
  then have "GetAllocSize m (fst s') (snd s') = magics ! i" using ok(3) i p by (simp add: GetAllocSize_def)
  with len show "uint (GetAllocSize m (fst s') (snd s')) = int (length (buf_of (snd s') m))" by simp
  have "i \<in> {0, 1, 2, 3, 4, 5, 6, 7, 8, 9}" using il by auto
  then have "magics ! i \<le> 16777216" by (auto simp: magics_def)
  with len show "length (buf_of (snd s') m) \<le> 16777216" by (simp add: word_le_nat_alt)
qed

lemma keeps_mono: "keeps U c c' \<Longrightarrow> V \<subseteq> U \<Longrightarrow> keeps V c c'"
  by (auto simp: keeps_def)

text \<open>Writing into a buffer of one's own changes no other.\<close>

lemma keeps_store:
  assumes "mem_ok (w_mem w) (insert m U)" "m \<notin> U" "mem_ptr w m = Ptr (Mem k) i"
  shows "keeps U (snd (w_mem w)) (snd (w_mem (set_heap (store_bytes (w_heap w) (mem_ptr w m) bs) w)))"
proof -
  let ?c = "snd (w_mem w)"
  have c: "ctx_ok ?c" "m < c_objs ?c" "U \<subseteq> {..<c_objs ?c}" using mgr_okD(1,2) [OF assms(1)] by auto
  have "blk_bytes (store_bytes (w_heap w) (mem_ptr w m) bs) (c_mem ?c u) = blk_bytes (w_heap w) (c_mem ?c u)" if u: "u \<in> U" for u
  proof (cases "c_mem ?c u")
    case (Ptr b j)
    have "u < c_objs ?c" using u c(3) by auto
    have "b \<noteq> Mem k"
    proof
      assume "b = Mem k"
      with Ptr ctx_ok_mem [OF c(1) \<open>u < c_objs ?c\<close>] ctx_ok_mem [OF c(1,2)] assms(3) have "c_mem ?c u = c_mem ?c m"
        by (auto simp: mem_ptr_def)
      with ctx_ok_inj [OF c(1) \<open>u < c_objs ?c\<close> c(2)] Ptr u assms(2) show False by auto
    qed
    with Ptr assms(3) show ?thesis by simp
  qed simp
  then show ?thesis using assms(3) by (auto simp: keeps_def set_heap_def buf_of_def)
qed

text \<open>What \<open>pack_value\<close> leaves: the value in a buffer that was not in use, and the tree as it was but for its caches.\<close>

definition packed :: "world \<Rightarrow> nat set \<Rightarrow> ntree \<Rightarrow> nat \<Rightarrow> world \<Rightarrow> bool" where
  "packed w U t m w' \<longleftrightarrow> m \<notin> U \<and> mem_ok (w_mem w') (insert m U) \<and> keeps U (snd (w_mem w)) (snd (w_mem w')) \<and>
     has_mem (snd (w_mem w')) m \<and> bytes_at (w_heap w') (mem_ptr w' m) (length (tree_val enc_field w t)) = tree_val enc_field w t \<and>
     (\<forall>i. alike (nd w' i) (nd w i)) \<and> (\<forall>i. i \<notin> set (ids t) \<longrightarrow> nd w' i = nd w i) \<and> w_count w' = w_count w \<and> w_free w' = w_free w \<and>
     n_eval_val_sz (nd w' (rt t)) = int (length (tree_val enc_field w t)) \<and>
     n_eval_sz (nd w' (rt t)) = int (length (tree_bytes enc_field w t))"

lemma alike_err [simp]: "alike (nd (err n msg w) i) (nd w i) = (i \<noteq> n \<or> n_errmsg (nd w n) = Some msg)"
  by (auto simp: err_def alike_def)

lemma pack_value_ok:
  fixes n ms cs w
  defines "t \<equiv> NT n ms cs"
  assumes g: "g = None \<or> g = Some pb_codecs" and u: "usable w U t" and mem: "mem_ok (w_mem w) U" and inner: "\<not> is_flat (nd w n)"
    and len: "length (tree_bytes enc_field w t) \<le> 16777216"
  shows "\<exists>r w'. pack_value g n w = Some (r, w') \<and>
     (case r of Inl e \<Rightarrow> e = -2 \<and> mem_ok (w_mem w') U \<and> keeps U (snd (w_mem w)) (snd (w_mem w'))
      | Inr (m, k) \<Rightarrow> k = int (length (tree_val enc_field w t)) \<and> packed w U t m w')"
proof -
  let ?V = "tree_val enc_field w t" and ?B = "tree_bytes enc_field w t"
  obtain w1 where w1: "EvaluateSize g n w = Some (int (length ?B), w1)" "caches_only (set (ids t)) w w1" "usable w1 U t"
    "tree_bytes enc_field w1 t = ?B" using usable_evaluated [OF g u] len unfolding t_def by auto
  note c1 = caches_onlyD [OF w1(2)]
  have mem1: "mem_ok (w_mem w1) U" using mem c1(1) by simp
  have V1: "tree_val enc_field w1 t = ?V" using c1(1,5) by (intro tree_val_cong) simp_all
  obtain r w2 where mn: "mem_new (int (length ?B)) w1 = (r, w2)" by fastforce
  then obtain s where s: "mem_alloc (to_u64 (int (length ?B))) (w_mem w1) = (r, s)" "w2 = set_mem_state s w1"
    by (auto simp: mem_new_def split: prod.splits)
  have a: "keeps U (snd (w_mem w1)) (snd s)" using mem_alloc_ok [OF mem1 s(1)] by simp
  show ?thesis
  proof (cases r)
    case None
    then have "mem_ok s U" using mem_alloc_ok [OF mem1 s(1)] by simp
    with None a s c1(1) w1(1) show ?thesis by (simp add: pack_value_def err_def set_mem_state_def)
  next
    case (Some m)
    have sz: "0 \<le> int (length ?B)" "int (length ?B) \<le> 16777216" using len by simp_all
    note nb = new_buffer [OF mem1 mn [unfolded Some] sz] and rd = usable_ready [OF mem1 mn [unfolded Some] sz w1(3), unfolded w1(4)]
    have view1: "nd w2 i = nd w1 i \<and> same_view w1 w2 i" if "i \<in> set (ids t)" for i
      using new_buffer_view(2) [OF mem1 mn [unfolded Some] sz _ _ that] w1(3) by (simp add: usable_def)
    have V2: "tree_val enc_field w2 t = ?V" using view1 V1 tree_val_view [of t w1 w2] by simp
    have "unat (of_nat (length ?B) :: u64) = length ?B" using len by (intro of_nat_inverse [OF refl]) simp
    then have "to_u64 (int (length ?B)) \<le> 16777216" using len by (simp add: word_le_nat_alt)
    note as = alloc_size [OF mem1 s(1) [unfolded Some] this]
    let ?A = "buf_of (snd s) m"
    have ptr: "c_mem (snd s) m = mem_ptr w2 m" by (simp add: mem_ptr_def s(2) set_mem_state_def)
    obtain k where k: "mem_ptr w2 m = Ptr (Mem k) 0" using nb(3) by blast
    have room: "valid_region (w_heap w2) (mem_ptr w2 m) (length ?A)"
      using k by (simp add: buf_of_def ptr) (simp add: s(2) set_mem_state_def)
    have BA: "length ?B \<le> length ?A"
      using mem_alloc_ok [OF mem1 s(1)] Some \<open>to_u64 (int (length ?B)) \<le> 16777216\<close> \<open>unat (of_nat (length ?B) :: u64) = length ?B\<close> by simp
    have VB: "length ?V \<le> length ?B"
      using inner knv_codec.inner_bytes [OF pb_knv_codec [OF g]] by (simp add: t_def enc_field_def del: tree_bytes.simps)
    have rtn: "rt t = n" "n \<in> set (ids t)" by (simp_all add: t_def)
    have inner2: "\<not> is_flat (nd w2 n)" using inner view1 [OF rtn(2)] is_flat_alike [OF c1(5), of n] by simp
    have "valid_region (w_heap w2) (mem_ptr w2 m) (nat (int (length ?A)))" using room by simp
    then obtain w3 where w3: "Serialize g n (mem_ptr w2 m) (int (length ?A)) False w2 = Some (0, int (length ?V), w3)" "sizes_ok enc_field w3 t"
      "0 \<le> n_eval_sz (nd w3 n)" "n_eval_val_sz (nd w3 n) = int (length ?V)" "caches_only (set (ids t)) (set_heap (store_bytes (w_heap w2) (mem_ptr w2 m) ?V) w2) w3"
      using knv_codec.Serialize_inner_value [OF pb_knv_codec [OF g] rd(1) [unfolded t_def] inner2, of "int (length ?A)"] BA VB as(2)
      unfolding V2 rd(2) t_def [symmetric] by (auto simp del: tree_bytes.simps)
    have room': "valid_region (w_heap w2) (mem_ptr w2 m) (length ?V)" by (rule valid_region_mono [OF room]) (use BA VB in simp)
    note wb = written_buffer [OF nb(2) room' w3(5)]
    note c3 = caches_onlyD [OF w3(5)]
    have "nd w2 i = nd w1 i" for i using mem_new_sel(1) [OF mn] by simp
    then have al: "alike (nd w3 i) (nd w i)" for i using c3(5) [of i] c1(5) [of i] by (auto simp: set_heap_def intro: alike_trans)
    have out: "nd w3 i = nd w i" if "i \<notin> set (ids t)" for i
      using that c3(6) [of i] c1(6) [of i] \<open>\<And>i. nd w2 i = nd w1 i\<close> by (simp add: set_heap_def)
    have view3: "same_view w2 w3 i" if "i \<in> set (ids t)" for i
      using rd(1) that c3(1) c3(5) [of i] same_data_store [of "mem_ptr w2 m" "nd w2 i" "mem_ptr w2 m" "w_heap w2" ?V]
      by (auto simp: same_view_def ready_def tree_ok_def apart_def set_heap_def)
    have B3: "tree_bytes enc_field w3 t = ?B" using tree_bytes_view [of t w2 w3] view3 rd(2) by simp
    have "size_ok enc_field w3 t" using w3(2) by (cases t) (simp add: sizes_ok_def)
    then have sz3: "n_eval_sz (nd w3 n) = int (length ?B)" using rtn B3 w3(3) by (simp add: size_ok_def)
    have "keeps U (snd (w_mem w2)) (snd (w_mem w3))" using keeps_store [OF nb(2,1) k, of ?V] c3(1) by simp
    moreover have "keeps U (snd (w_mem w)) (snd (w_mem w2))" using a c1(1) by (simp add: s(2) set_mem_state_def)
    ultimately have kp: "keeps U (snd (w_mem w)) (snd (w_mem w3))" using keeps_trans by blast
    have "c_mem (snd (w_mem w3)) m = Ptr (Mem k) 0" using wb(2) k by (simp add: mem_ptr_def)
    then have hm: "has_mem (snd (w_mem w3)) m" by (simp add: has_mem_def)
    have cf: "w_count w3 = w_count w" "w_free w3 = w_free w" using c3(2,4) c1(2,4) by (simp_all add: set_heap_def s(2) set_mem_state_def)
    have "packed w U t m w3" using nb(1) wb(1,3) kp hm al out cf w3(4) sz3 rtn(1) unfolding packed_def by simp
    moreover have "pack_value g n w = Some (Inr (m, int (length ?V)), w3)"
    proof -
      have "to_int32 (uint (GetAllocSize m (fst s) (snd s))) = int (length ?A)" using as by (simp add: to_int32_nat)
      moreover have "w_mem w2 = s" by (simp add: s(2) set_mem_state_def)
      ultimately show ?thesis using w1(1) s w3(1,4) Some ptr by (simp add: pack_value_def)
    qed
    ultimately show ?thesis by auto
  qed
qed

section \<open>The parts\<close>

lemma DeleteAll_metas_ok:
  assumes "n_metalist (nd w n) = map rt ms" "\<forall>t \<in> set ms. shape w t" "distinct (all_ids ms)" "\<forall>i \<in> set (all_ids ms). i < w_count w"
    and "n \<notin> set (all_ids ms)"
  shows "\<exists>w'. DeleteAll_metas n w = Some w' \<and> freed {n} w w' (all_ids ms) \<and> mset (w_free w') = mset (all_ids ms) + mset (w_free w) \<and>
     nd w' n = (nd w n)\<lparr>n_metalist := []\<rparr>"
proof (cases ms)
  case Nil
  with assms(1) show ?thesis by (cases "nd w n") (simp add: DeleteAll_metas_def freed_refl)
next
  case (Cons m r)
  obtain w1 where w1: "nodepool_DeleteAll (map rt ms) w = Some w1" "freed {} w w1 (all_ids ms)" "mset (w_free w1) = mset (all_ids ms) + mset (w_free w)"
    using nodepool_DeleteAll_ok [OF assms(2-4)] by blast
  have "freed {n} w (upd n (n_metalist_update (\<lambda>_. [])) w1) (all_ids ms)"
    using freed_touch [OF freed_mono [OF w1(2)], of "{n}" n "n_metalist_update (\<lambda>_. [])"] assms(5) by (simp add: node_mems_def)
  moreover have "nd w1 n = nd w n" using freed_same [OF w1(2) assms(5)] .
  ultimately show ?thesis using w1(1,3) Cons assms(1) by (intro exI [of _ "upd n (n_metalist_update (\<lambda>_. [])) w1"]) (simp add: DeleteAll_metas_def)
qed

lemma DeleteAll_children_ok:
  assumes "n_childlist (nd w n) = map rt cs" "\<forall>t \<in> set cs. shape w t" "distinct (all_ids cs)" "\<forall>i \<in> set (all_ids cs). i < w_count w"
    and "n \<notin> set (all_ids cs)"
  shows "\<exists>w'. DeleteAll_children n w = Some w' \<and> freed {n} w w' (all_ids cs) \<and> mset (w_free w') = mset (all_ids cs) + mset (w_free w) \<and>
     nd w' n = (nd w n)\<lparr>n_childlist := []\<rparr>"
proof (cases cs)
  case Nil
  with assms(1) show ?thesis by (cases "nd w n") (simp add: DeleteAll_children_def freed_refl)
next
  case (Cons m r)
  obtain w1 where w1: "nodepool_DeleteAll (map rt cs) w = Some w1" "freed {} w w1 (all_ids cs)" "mset (w_free w1) = mset (all_ids cs) + mset (w_free w)"
    using nodepool_DeleteAll_ok [OF assms(2-4)] by blast
  have "freed {n} w (upd n (n_childlist_update (\<lambda>_. [])) w1) (all_ids cs)"
    using freed_touch [OF freed_mono [OF w1(2)], of "{n}" n "n_childlist_update (\<lambda>_. [])"] assms(5) by (simp add: node_mems_def)
  moreover have "nd w1 n = nd w n" using freed_same [OF w1(2) assms(5)] .
  ultimately show ?thesis using w1(1,3) Cons assms(1) by (intro exI [of _ "upd n (n_childlist_update (\<lambda>_. [])) w1"]) (simp add: DeleteAll_children_def)
qed

text \<open>Both lists, one after the other.\<close>

lemma DeleteAll_parts_ok:
  assumes t: "shape w (NT n ms cs)" "distinct (ids (NT n ms cs))" "\<forall>i \<in> set (ids (NT n ms cs)). i < w_count w"
    and w0: "\<And>i. i \<noteq> n \<Longrightarrow> nd w0 i = nd w i" "n_metalist (nd w0 n) = map rt ms" "n_childlist (nd w0 n) = map rt cs" "w_count w0 = w_count w"
  shows "\<exists>w1 w2. DeleteAll_metas n w0 = Some w1 \<and> DeleteAll_children n w1 = Some w2 \<and> freed {n} w0 w2 (all_ids (ms @ cs)) \<and>
     mset (w_free w2) = mset (all_ids (ms @ cs)) + mset (w_free w0) \<and> nd w2 n = (nd w0 n)\<lparr>n_metalist := [], n_childlist := []\<rparr>"
proof -
  have d: "n \<notin> set (all_ids ms)" "n \<notin> set (all_ids cs)" "distinct (all_ids ms)" "distinct (all_ids cs)" "set (all_ids ms) \<inter> set (all_ids cs) = {}"
    using t(2) by auto
  have sh: "shape w0 s" if "s \<in> set (ms @ cs)" for s
  proof -
    have "nd w0 i = nd w i" if "i \<in> set (ids s)" for i using that \<open>s \<in> set (ms @ cs)\<close> d(1,2) by (intro w0(1)) auto
    with shape_same [of s w0 w] t(1) that show ?thesis by auto
  qed
  obtain w1 where w1: "DeleteAll_metas n w0 = Some w1" "freed {n} w0 w1 (all_ids ms)" "mset (w_free w1) = mset (all_ids ms) + mset (w_free w0)"
    "nd w1 n = (nd w0 n)\<lparr>n_metalist := []\<rparr>"
    using DeleteAll_metas_ok [OF w0(2) _ d(3) _ d(1)] sh t(3) w0(4) by auto
  have same: "nd w1 i = nd w0 i" if i: "i \<in> set (all_ids cs)" for i
  proof -
    have "i \<notin> set (all_ids ms) \<union> {n}" using i d(2,5) by blast
    with w1(2) show ?thesis unfolding freed_def by blast
  qed
  have "shape w1 s" if s: "s \<in> set cs" for s
  proof -
    have "nd w1 i = nd w0 i" if "i \<in> set (ids s)" for i using that s by (intro same) auto
    with shape_same [of s w1 w0] sh [of s] s show ?thesis by auto
  qed
  then have "\<forall>s \<in> set cs. shape w1 s" by blast
  moreover have "n_childlist (nd w1 n) = map rt cs" using w1(4) w0(3) by simp
  moreover have "\<forall>i \<in> set (all_ids cs). i < w_count w1" using t(3) w0(4) freed_count [OF w1(2)] by simp
  ultimately obtain w2 where w2: "DeleteAll_children n w1 = Some w2" "freed {n} w1 w2 (all_ids cs)" "mset (w_free w2) = mset (all_ids cs) + mset (w_free w1)"
    "nd w2 n = (nd w1 n)\<lparr>n_childlist := []\<rparr>" using DeleteAll_children_ok [OF _ _ d(4) _ d(2)] by blast
  have "freed {n} w0 w2 (all_ids ms @ all_ids cs)" using freed_trans [OF w1(2) w2(2) d(5)] d(1) by simp
  with w1 w2 show ?thesis by simp
qed

section \<open>\<open>Fold\<close>\<close>

lemma v_of_buffer:
  "unat k = l \<Longrightarrow> bytes_at h p l = bs \<Longrightarrow>
   bytes_at h (v_data ((set_v_len k v)\<lparr>v_data := p\<rparr>)) (unat (v_len ((set_v_len k v)\<lparr>v_data := p\<rparr>))) = bs"
  by (simp add: v_len_def set_v_len_def set_low32_low)

text \<open>The buffers that \<open>Fold\<close> gives back: those of the parts and the one that held the former value.\<close>

definition fold_mems :: "world \<Rightarrow> ntree \<Rightarrow> nat list" where
  "fold_mems w t = List.map_filter (\<lambda>m. m) [d_mem (n_dyn (nd w (rt t)))] @ mems w (all_ids (tmetas t @ tkids t))"

text \<open>What \<open>Fold\<close> leaves of the node: the hash table is as it was.\<close>

definition folded :: "world \<Rightarrow> world \<Rightarrow> nat \<Rightarrow> bool" where
  "folded w w' n \<longleftrightarrow> n_tag (nd w' n) = n_tag (nd w n) \<and> n_type (nd w' n) = KNV_NODE \<and> n_child_num (nd w' n) = -1 \<and>
     n_key (nd w' n) = n_key (nd w n) \<and> n_parent (nd w' n) = n_parent (nd w n) \<and> n_ht (nd w' n) = n_ht (nd w n) \<and> 0 \<le> n_eval_sz (nd w' n) \<and>
     \<not> n_subnode_dirty (nd w' n) \<and> (\<exists>k. v_data (n_val (nd w' n)) = Ptr (Mem k) 0)"

lemma Fold_ok:
  fixes n ms cs w
  defines "t \<equiv> NT n ms cs"
  assumes g: "g = None \<or> g = Some pb_codecs" and u: "usable w U t" and mem: "mem_ok (w_mem w) U" and inner: "\<not> is_flat (nd w n)"
    and len: "length (tree_bytes enc_field w t) \<le> 16777216" and own: "distinct (fold_mems w t)" "set (fold_mems w t) \<subseteq> U"
  shows "\<exists>r w'. Fold g n w = Some (r, w') \<and>
     (r = -2 \<and> mem_ok (w_mem w') U \<and> keeps U (snd (w_mem w)) (snd (w_mem w')) \<or>
      r = 0 \<and> folded w w' n \<and> (\<forall>i \<in> set (all_ids (ms @ cs)). blank (nd w' i)) \<and>
        tree_inv enc_field w' (NT n [] []) \<and> tree_bytes enc_field w' (NT n [] []) = tree_bytes enc_field w t \<and>
        flat_bytes w' n = tree_val enc_field w t \<and> mset (w_free w') = mset (all_ids (ms @ cs)) + mset (w_free w) \<and>
        (\<forall>i. i \<notin> set (ids t) \<longrightarrow> nd w' i = nd w i) \<and> keeps (U - set (fold_mems w t)) (snd (w_mem w)) (snd (w_mem w')) \<and>
        (\<exists>m. m \<notin> U \<and> d_mem (n_dyn (nd w' n)) = Some m \<and> mem_ok (w_mem w') (insert m (U - set (fold_mems w t)))))"
proof -
  let ?V = "tree_val enc_field w t" and ?B = "tree_bytes enc_field w t"
  have ok: "tree_ok w t" "node_ok (nd w n)" using u by (simp_all add: usable_def t_def tree_ok_def)
  have valid: "IsValid w n" using ok(2) by (simp add: node_ok_def)
  obtain r w1 where pv: "pack_value g n w = Some (r, w1)"
    "case r of Inl e \<Rightarrow> e = -2 \<and> mem_ok (w_mem w1) U \<and> keeps U (snd (w_mem w)) (snd (w_mem w1))
      | Inr (m, k) \<Rightarrow> k = int (length ?V) \<and> packed w U t m w1"
    using pack_value_ok [OF g u [unfolded t_def] mem inner len [unfolded t_def]] unfolding t_def by blast
  show ?thesis
  proof (cases r)
    case (Inl e)
    with pv valid inner show ?thesis by (simp add: Fold_def)
  next
    case (Inr x)
    obtain m where x: "x = (m, int (length ?V))" using pv(2) Inr by (cases x) auto
    have p: "packed w U t m w1" using pv(2) Inr x by simp
    note p1 = p [unfolded packed_def]
    note al = alikeD [of "nd w1 i" "nd w i" for i]
    define d where "d = d_mem (n_dyn (nd w n))"
    define M where "M = mems w (all_ids (ms @ cs))"
    have fm: "set (fold_mems w t) = set_option d \<union> set M" "distinct M" "set_option d \<inter> set M = {}"
      using own(1) by (auto simp: fold_mems_def d_def M_def t_def map_filter_simps split: option.splits)
    define s4 where "s4 = (if d \<noteq> None then mem_free d (w_mem w1) else w_mem w1)"
    have s4: "mem_ok s4 (insert m U - set_option d)" "keeps (insert m U - set_option d) (snd (w_mem w1)) (snd s4)"
      using dyn_free_ok [of "w_mem w1" "insert m U" d s4] p1 own(2) fm(1) s4_def by auto
    define P where "P = c_mem (snd (w_mem w1)) m"
    have m: "m \<notin> U" "m \<notin> set_option d" "m \<notin> set M" using p1 own(2) fm(1) by auto
    have P: "c_mem (snd s4) m = P" using s4(2) m(2) by (auto simp: keeps_def P_def)
    obtain D where D: "node_assign n (Some m) (word_of_int (int (length ?V))) w1 = (P, upd n (n_dyn_update (\<lambda>_. D)) (set_mem_state s4 w1))"
      "d_mem D = Some m"
      using P al(4) [of n] p1 by (simp add: node_assign_def dyn_assign_def Let_def s4_def [unfolded d_def])
    define w2 where "w2 = upd n (\<lambda>x. x\<lparr>n_val := (set_v_len (word_of_int (int (length ?V))) (n_val x))\<lparr>v_data := P\<rparr>,
      n_subnode_dirty := False, n_child_num := -1\<rparr>) (upd n (n_dyn_update (\<lambda>_. D)) (set_mem_state s4 w1))"
    have w2: "w_mem w2 = s4" "w_count w2 = w_count w1" "w_free w2 = w_free w1" by (simp_all add: w2_def set_mem_state_def)
    have n2: "nd w2 n = (nd w1 n)\<lparr>n_dyn := D, n_val := (set_v_len (word_of_int (int (length ?V))) (n_val (nd w1 n)))\<lparr>v_data := P\<rparr>,
      n_subnode_dirty := False, n_child_num := -1\<rparr>" by (simp add: w2_def set_mem_state_def)
    have i2: "nd w2 i = nd w1 i" if "i \<noteq> n" for i using that by (simp add: w2_def set_mem_state_def)
    have sh: "shape w1 t" "distinct (ids t)" "\<forall>i \<in> set (ids t). i < w_count w1"
      using shape_cong [of t w1 w] p1 u by (simp_all add: usable_def tree_ok_def)
    have lists: "n_metalist (nd w1 n) = map rt ms" "n_childlist (nd w1 n) = map rt cs"
      using inner_shape(1,2) [of w n ms cs] ok(1) inner p1 al(8,9) [of n] by (simp_all add: t_def)
    obtain w3 w4 where w4: "DeleteAll_metas n w2 = Some w3" "DeleteAll_children n w3 = Some w4" "freed {n} w2 w4 (all_ids (ms @ cs))"
      "mset (w_free w4) = mset (all_ids (ms @ cs)) + mset (w_free w2)" "nd w4 n = (nd w2 n)\<lparr>n_metalist := [], n_childlist := []\<rparr>"
      using DeleteAll_parts_ok [OF sh [unfolded t_def], of w2] i2 lists n2 w2(2) by auto
    have run: "Fold g n w = Some (0, w4)"
      using valid inner pv(1) Inr x D(1) w4(1,2) by (simp add: Fold_def w2_def)
    have "n \<notin> set (all_ids (ms @ cs))" using sh(2) by (auto simp: t_def)
    then have "node_mems (nd w2 i) = node_mems (nd w i)" if "i \<in> set (all_ids (ms @ cs))" for i
      using that i2 [of i] al(4,5,7) [of i] p1 by (metis node_mems_def)
    then have M2: "mems w2 (all_ids (ms @ cs)) = M" unfolding M_def by (intro mems_cong)
    have out: "nd w4 i = nd w i" if i: "i \<notin> set (ids t)" for i
    proof -
      have "i \<notin> set (all_ids (ms @ cs)) \<union> {n}" "i \<noteq> n" using i by (auto simp: t_def)
      then show ?thesis using w4(3) i2 [of i] p1 i unfolding freed_def by metis
    qed
    let ?K = "insert m (U - set (fold_mems w t))"
    have K: "insert m U - set_option d - set M = ?K" using fm(1) m(2,3) by auto
    have "mem_ok (w_mem w4) ?K \<and> keeps ?K (snd s4) (snd (w_mem w4))"
    proof -
      have "mem_ok (w_mem w2) (insert m U - set_option d)" "set M \<subseteq> insert m U - set_option d" using s4(1) w2(1) fm(1,3) own(2) by auto
      with w4(3) fm(2) K w2(1) show ?thesis unfolding freed_def M2 by metis
    qed
    note k4 = this
    have "keeps ?K (snd (w_mem w1)) (snd s4)" using s4(2) by (rule keeps_mono) (use K in auto)
    then have k14: "keeps ?K (snd (w_mem w1)) (snd (w_mem w4))" using k4 keeps_trans by blast
    have "keeps (U - set (fold_mems w t)) (snd (w_mem w1)) (snd (w_mem w4))" using k14 by (rule keeps_mono) auto
    moreover have "keeps (U - set (fold_mems w t)) (snd (w_mem w)) (snd (w_mem w1))" by (rule keeps_mono [of U]) (use p1 in auto)
    ultimately have keep: "keeps (U - set (fold_mems w t)) (snd (w_mem w)) (snd (w_mem w4))" using keeps_trans by blast
    have "live (w_mem w1) ?K P" using p1 by (auto simp: live_def P_def)
    then have bytes: "bytes_at (w_heap w4) P (length ?V) = ?V" using live_bytes [OF _ k14] p1 by (simp add: P_def mem_ptr_def)
    have VB: "length ?V \<le> length ?B" "?B = enc_field (n_tag (nd w n)) (WString ?V)"
      using inner knv_codec.inner_bytes [OF pb_knv_codec [OF g]] by (simp_all add: t_def enc_field_def del: tree_bytes.simps)
    have l: "unat (word_of_int (int (length ?V)) :: u32) = length ?V" using VB(1) len by (simp add: unat_of_nat)
    have n4: "n_type (nd w4 n) = KNV_NODE" "n_tag (nd w4 n) = n_tag (nd w n)" "n_child_num (nd w4 n) = -1" "\<not> n_subnode_dirty (nd w4 n)"
      "d_mem (n_dyn (nd w4 n)) = Some m" "n_key (nd w4 n) = n_key (nd w n)" "n_eval_sz (nd w4 n) = n_eval_sz (nd w1 n)"
      "n_eval_val_sz (nd w4 n) = n_eval_val_sz (nd w1 n)" "n_val (nd w4 n) = (set_v_len (word_of_int (int (length ?V))) (n_val (nd w1 n)))\<lparr>v_data := P\<rparr>"
      using w4(5) n2 D(2) al(1,2,5) [of n] p1 is_flat_non_node [OF inner] by simp_all
    have "mem_ok (w_mem w1) (insert m U)" using p1 by blast
    then have "ctx_ok (snd (w_mem w1))" "m < c_objs (snd (w_mem w1))" using mgr_okD(1,2) by blast+
    then obtain k where k: "P = Ptr (Mem k) 0" using ctx_ok_mem [of "snd (w_mem w1)" m] p1 by (auto simp: P_def has_mem_def)
    have "n_ht (nd w4 n) = n_ht (nd w n)" "n_parent (nd w4 n) = n_parent (nd w n)" using w4(5) n2 al(7,14) [of n] p1 by simp_all
    then have fo: "folded w w4 n" using n4 k p1 by (simp add: folded_def t_def)
    have bl: "\<forall>i \<in> set (all_ids (ms @ cs)). blank (nd w4 i)" using w4(3) unfolding freed_def by blast
    have flat: "flat_bytes w4 n = ?V" using v_of_buffer [OF l bytes] n4(9) by (simp add: flat_bytes_def)
    have tb: "tree_bytes enc_field w4 (NT n [] []) = ?B" "deep_bytes enc_field w4 (NT n [] []) = ?B" "deep_val enc_field w4 (NT n [] []) = ?V"
      using n4(1-3) flat VB(2) by (simp_all add: is_flat_def wval_of_def flat_bytes_def [symmetric] deep_val_def)
    have "tree_ok w4 (NT n [] [])" using ok(2) n4(1-3,6) by (simp add: tree_ok_def node_ok_def node_shape_def named_type_def)
    moreover have "node_inv enc_field w4 (NT n [] [])"
      using tb(2,3) n4(7,8) p1 by (simp add: node_inv_def has_parts_def counted_parts_def t_def)
    ultimately have "tree_inv enc_field w4 (NT n [] [])" by (simp add: tree_inv_NT)
    with run tb(1) flat w4(4) w2(3) p1 keep m(1) n4(5) k4 out fo bl show ?thesis by auto
  qed
qed



end
