(* ===== verification/Knv_Expand.thy ===== *)
theory Knv_Expand
  imports Knv_Update
begin

text \<open>
  Expansion: the fields of a node's string become its metas and children, and the tree stands for the same field as before.
\<close>

section \<open>Steps that concern one node\<close>

text \<open>Nothing but the node \<open>c\<close> and its two buffers changes.\<close>

definition only_node :: "nat \<Rightarrow> world \<Rightarrow> world \<Rightarrow> bool" where
  "only_node c w w' \<longleftrightarrow> (\<forall>i. i \<noteq> c \<longrightarrow> nd w' i = nd w i) \<and> w_free w' = w_free w \<and> w_count w' = w_count w \<and>
     c_fail (snd (w_mem w')) = c_fail (snd (w_mem w)) \<and> (\<forall>b. b \<noteq> NodeBuf c \<longrightarrow> b \<noteq> KeyBuf c \<longrightarrow> w_heap w' b = w_heap w b)"

lemma only_node_refl [simp]: "only_node c w w"
  by (simp add: only_node_def)

lemma only_node_trans: "only_node c w w' \<Longrightarrow> only_node c w' w'' \<Longrightarrow> only_node c w w''"
  by (simp add: only_node_def)

lemma only_node_upd [simp]: "only_node c w (upd c f w') = only_node c w w'"
  by (simp add: only_node_def)

lemma node_key_init_ok:
  assumes "d_mem (k_dyn (n_key (nd w c))) = None" "named_type kt"
  shows "\<exists>r w' k. node_key_init c kt kv False w = (r, w') \<and> only_node c w w' \<and> nd w' c = (nd w c)\<lparr>n_key := k\<rparr> \<and> named_type (k_type k)"
proof -
  have small: "only_node c w (set_mem_state (put_bytes (key_small_buf c) bs (w_mem w)) w)"
    "nd (set_mem_state (put_bytes (key_small_buf c) bs (w_mem w)) w) c = nd w c" for bs
    by (auto simp: only_node_def set_mem_state_def put_bytes_def store_bytes_other)
  have st: "key_store (key_small_buf c) ty bs (n_key (nd w c)) s =
      ((n_key (nd w c))\<lparr>k_type := ty, k_len := of_nat (length bs), k_val := key_small_buf c, k_dyn := \<lparr>d_sz = 64, d_data = key_small_buf c, d_mem = None\<rparr>\<rparr>,
       put_bytes (key_small_buf c) bs s)" if "length bs \<le> 8" for ty bs s
  proof -
    have "of_nat (length bs) \<le> (64 :: u32)" using that by (simp add: word_le_nat_alt unat_of_nat)
    then show ?thesis using assms(1) by (simp add: key_store_def dyn_alloc_small mem_free_def UcMem_Free_def)
  qed
  have id: "set_mem_state (w_mem w) w = w" by (simp add: set_mem_state_def)
  show ?thesis
  proof (cases kv)
    case None
    with assms(2) show ?thesis
      by (intro exI [of _ 0] exI [of _ "upd c (n_key_update (\<lambda>_. key_null kt (n_key (nd w c)))) w"] exI [of _ "key_null kt (n_key (nd w c))"])
        (auto simp: node_key_init_def key_init_def id key_null_def)
  next
    case (Some v)
    show ?thesis
    proof (cases kt)
      case PB_TYPE_STRING
      then show ?thesis using Some by (auto simp: node_key_init_def key_init_def id Let_def named_type_def)
    next
      case (PB_TYPE_CODE x)
      with assms(2) show ?thesis by (simp add: named_type_def)
    qed (use Some small in \<open>auto simp: node_key_init_def key_init_def st named_type_def intro!: exI\<close>)
  qed
qed

lemma knv_begin_named:
  assumes "g = None \<or> g = Some pb_codecs" "unat len < 2 ^ 31" "knv_begin g h f p (to_int32 (uint (len :: u32))) = (True, f2)"
  shows "named_type (f_type f2)"
proof -
  note codec = pb_knv_codec [OF assms(1)]
  let ?f = "pb_start f p (to_int32 (uint len))"
  have "int (unat len) < int (2 ^ 31)" using assms(2) by (simp only: of_nat_less_iff)
  then have "rd_ok ?f" using to_int32_nat [OF assms(2)] by (simp add: rd_ok_def pb_start_def)
  then show ?thesis using knv_codec.next_Some [OF codec, of ?f h] knv_codec.next_None [OF codec, of ?f h] assms(3)
      knv_codec.begin_next [OF codec, of h f p] wire_format.parse_type [OF knv_codec.axioms(1) [OF codec], of "pending h ?f"]
    by (cases "parse_field (pending h ?f)") fastforce+
qed

lemma init_key_ok:
  assumes g: "g = None \<or> g = Some pb_codecs" and d: "d_mem (k_dyn (n_key (nd w c))) = None"
    and len: "str_len \<noteq> 0 \<Longrightarrow> unat (v_len (n_val (nd w c))) < 2 ^ 31"
  shows "\<exists>ch w' k. init_key g c str_len fnk w = (ch, w') \<and> (ch = -1 \<or> ch = 0) \<and> only_node c w w' \<and>
     nd w' c = (nd w c)\<lparr>n_key := k\<rparr> \<and> named_type (k_type k)"
proof -
  obtain pf f2 where kb: "knv_begin g (w_heap w) field0 (v_data (n_val (nd w c))) (to_int32 (uint (v_len (n_val (nd w c))))) = (pf, f2)"
    by fastforce
  have key: "\<exists>w' k. snd (node_key_init c kt kv False w) = w' \<and> only_node c w w' \<and> nd w' c = (nd w c)\<lparr>n_key := k\<rparr> \<and> named_type (k_type k)"
    if "named_type kt" for kt kv using node_key_init_ok [OF d that, of kv] by auto
  have "named_type KNV_NODE" by (simp add: named_type_def)
  moreover have "str_len \<noteq> 0 \<Longrightarrow> pf \<Longrightarrow> named_type (f_type f2)" using knv_begin_named [OF g len] kb by simp
  ultimately show ?thesis using key [of KNV_NODE None] key [of "f_type f2" "Some (f_val f2)"] kb
    by (auto simp: init_key_def Let_def)
qed

text \<open>What a node looks like that was made from a field \<open>v\<close> of type \<open>ty\<close> without copying it.\<close>

definition leaf_of :: "knv_tag_t \<Rightarrow> knv_type_t \<Rightarrow> knv_value_t \<Rightarrow> int \<Rightarrow> knv_node \<Rightarrow> bool" where
  "leaf_of t ty v sz x \<longleftrightarrow> n_tag x = t \<and> n_type x = ty \<and> (\<forall>h. wval_of h ty (n_val x) = wval_of h ty v) \<and>
     n_eval_sz x = sz \<and> n_eval_val_sz x = (if ty = KNV_NODE then to_int32 (uint (v_len v)) else 0) \<and>
     (n_child_num x = -1 \<or> n_child_num x = 0) \<and> n_childlist x = [] \<and> n_metalist x = [] \<and> \<not> n_subnode_dirty x \<and>
     named_type (k_type (n_key x)) \<and> (ty = KNV_NODE \<longrightarrow> v_len (n_val x) = v_len v \<and> v_data (n_val x) = v_data v)"

lemma init_value_ok:
  assumes "named_type (n_type (nd w c))"
  shows "\<exists>l f. init_value c (Some v) False w = (Some l, upd c (n_val_update f) w) \<and> l = (if n_type (nd w c) = KNV_NODE then v_len v else 0) \<and>
     (\<forall>h u. wval_of h (n_type (nd w c)) (f u) = wval_of h (n_type (nd w c)) v) \<and>
     (\<forall>u. n_type (nd w c) = KNV_NODE \<longrightarrow> v_len (f u) = v_len v \<and> v_data (f u) = v_data v)"
proof (cases "n_type (nd w c) = KNV_NODE")
  case True
  let ?f = "\<lambda>u. (set_v_len (v_len v) u)\<lparr>v_data := v_data v\<rparr>"
  have "v_len (?f u) = v_len v" for u by (simp add: v_len_def set_v_len_def set_low32_low)
  then show ?thesis using True by (intro exI [of _ "v_len v"] exI [of _ ?f]) (simp add: init_value_def wval_of_def)
next
  case False
  then show ?thesis using assms
    by (intro exI [of _ 0] exI [of _ "\<lambda>u. u\<lparr>v_i64 := v_i64 v\<rparr>"])
      (auto simp: init_value_def wval_of_def v_i32_def named_type_def split: pb_type_t.splits)
qed

lemma InitNode_ok:
  assumes g: "g = None \<or> g = Some pb_codecs" and d: "d_mem (k_dyn (n_key (nd w c))) = None" "\<not> n_subnode_dirty (nd w c)"
    and ty: "named_type ty" and len: "ty = KNV_NODE \<Longrightarrow> unat (v_len v) < 2 ^ 31" and sz: "0 < fsz"
  shows "\<exists>w'. InitNode g c t ty (Some v) False True fsz fnk w = (0, w') \<and> only_node c w w' \<and> leaf_of t ty v fsz (nd w' c)"
proof -
  let ?w1 = "upd c (\<lambda>x. x\<lparr>n_tag := t, n_type := ty, n_parent := None\<rparr>) w"
  have ty1: "n_type (nd ?w1 c) = ty" by simp
  obtain l f where iv: "init_value c (Some v) False ?w1 = (Some l, upd c (n_val_update f) ?w1)" and l: "l = (if ty = KNV_NODE then v_len v else 0)"
    and f: "\<forall>h u. wval_of h ty (f u) = wval_of h ty v" "\<forall>u. ty = KNV_NODE \<longrightarrow> v_len (f u) = v_len v \<and> v_data (f u) = v_data v"
    using init_value_ok [of ?w1 c v] ty unfolding ty1 by blast
  let ?w2 = "upd c (\<lambda>x. x\<lparr>n_eval_val_sz := to_int32 (uint l), n_eval_sz := (if fsz > 0 then fsz else knv_eval_field_length g t ty (n_val x))\<rparr>)
     (upd c (n_val_update f) ?w1)"
  have "d_mem (k_dyn (n_key (nd ?w2 c))) = None" using d(1) by simp
  moreover have "l \<noteq> 0 \<Longrightarrow> unat (v_len (n_val (nd ?w2 c))) < 2 ^ 31" using len l f(2) by (auto split: if_splits)
  ultimately obtain ch w' k where ik: "init_key g c l fnk ?w2 = (ch, w')" "ch = -1 \<or> ch = 0" "only_node c ?w2 w'"
    "nd w' c = (nd ?w2 c)\<lparr>n_key := k\<rparr>" "named_type (k_type k)" using init_key_ok [OF g, of ?w2 c l fnk] by blast
  let ?w3 = "InitChildList ch c (upd c (n_no_key_update (\<lambda>_. fnk \<or> ty \<noteq> KNV_NODE)) w')"
  have "InitNode g c t ty (Some v) False True fsz fnk w = (0, ?w3)"
    unfolding InitNode_def Let_def iv using ik(1) by simp
  moreover have "only_node c w ?w3"
    using ik(3) by (auto simp: InitChildList_def intro: only_node_trans [of c w ?w2])
  moreover have "leaf_of t ty v fsz (nd ?w3 c)"
    using ik(2,4,5) f sz d(2) l to_int32_nat [of 0] by (simp add: leaf_of_def InitChildList_def)
  ultimately show ?thesis by blast
qed

section \<open>Nodes of the pool\<close>

definition unused :: "world \<Rightarrow> nat set" where
  "unused w = set (w_free w) \<union> {w_count w..}"

text \<open>The free nodes are as their release left them, and no allocation fails.\<close>

definition spare :: "world \<Rightarrow> bool" where
  "spare w \<longleftrightarrow> distinct (w_free w) \<and> (\<forall>i. \<not> c_fail (snd (w_mem w)) i) \<and>
     (\<forall>c \<in> set (w_free w). c < w_count w \<and> d_mem (k_dyn (n_key (nd w c))) = None \<and> \<not> n_subnode_dirty (nd w c))"

lemma spare_only: "spare w \<Longrightarrow> only_node c w w' \<Longrightarrow> c \<notin> unused w \<Longrightarrow> spare w' \<and> unused w' = unused w"
  by (auto simp: spare_def only_node_def unused_def)

lemma nodepool_New_ok:
  assumes "spare w"
  shows "\<exists>c w'. nodepool_New w = (Some c, w') \<and> c \<in> unused w \<and> unused w' = unused w - {c} \<and> spare w' \<and>
     (\<forall>i. i \<noteq> c \<longrightarrow> nd w' i = nd w i) \<and> d_mem (k_dyn (n_key (nd w' c))) = None \<and> \<not> n_subnode_dirty (nd w' c) \<and>
     (\<forall>b. b \<noteq> NodeBuf c \<longrightarrow> b \<noteq> KeyBuf c \<longrightarrow> w_heap w' b = w_heap w b)"
proof (cases "w_free w")
  case Nil
  let ?c = "w_count w"
  have "d_mem (k_dyn (n_key KnvNode0)) = None" "\<not> n_subnode_dirty KnvNode0" by (simp_all add: KnvNode0_def key_default_def dyn_init_def)
  then show ?thesis using assms Nil by (auto simp: nodepool_New_def Let_def spare_def unused_def)
next
  case (Cons q ys)
  with assms show ?thesis by (auto simp: nodepool_New_def spare_def unused_def)
qed

section \<open>The iteration over a message\<close>

text \<open>The iterator stands at offset \<open>k\<close> of a message of \<open>len\<close> bytes at \<open>data\<close>.\<close>

definition at_off :: "ptr \<Rightarrow> nat \<Rightarrow> nat \<Rightarrow> knv_field_t \<Rightarrow> bool" where
  "at_off data len k f \<longleftrightarrow> f_ptr f = ptr_add data k \<and> f_left f = int (len - k) \<and> k \<le> len \<and> len < 2 ^ 31"

lemma at_off_pending: "at_off data len k f \<Longrightarrow> pending h f = drop k (bytes_at h data len) \<and> rd_ok f"
  by (auto simp: at_off_def pending_def rd_ok_def drop_bytes_at simp flip: of_nat_diff)

lemma knv_next_cong:
  assumes "g = None \<or> g = Some pb_codecs" "rd_ok f" "pending h f = pending h' f"
  shows "knv_next g h f = knv_next g h' f"
  using pb_decode_tag_cong [OF assms(2,3)] by (simp add: knv_is_pb [OF assms(1)] pb_next_def)

lemma knv_next_field:
  assumes g: "g = None \<or> g = Some pb_codecs" and f: "at_off data len k f" and h: "bytes_at h data len = M"
    and M: "drop k M = enc_field t v @ rest" "wf_field (t, v)"
  shows "\<exists>f'. knv_next g h f = (True, f') \<and> f_tag f' = t \<and> f_type f' = wval_type v \<and>
     (\<forall>h'. bytes_at h' data len = M \<longrightarrow> wval_of h' (wval_type v) (f_val f') = v) \<and> at_off data len (k + length (enc_field t v)) f'"
proof -
  note codec = pb_knv_codec [OF g]
  have pend: "pending h' f = enc_field t v @ rest" "rd_ok f" if "bytes_at h' data len = M" for h'
    using at_off_pending [OF f] that M(1) by simp_all
  have parse: "parse_field (pending h' f) = Some ((t, v), rest)" if "bytes_at h' data len = M" for h'
    using pend(1) [OF that] wf_field_parse [OF M(2)] by simp
  obtain f' where f': "knv_next g h f = (True, f')" "f_tag f' = t" "f_type f' = wval_type v" "pending h f' = rest" "rd_ok f'" "moved f f'"
    using knv_codec.next_Some [OF codec pend(2) [OF h] parse [OF h]] by blast
  have "wval_of h' (wval_type v) (f_val f') = v" if h': "bytes_at h' data len = M" for h'
  proof -
    have "knv_next g h' f = (True, f')" using f'(1) knv_next_cong [OF g pend(2) [OF h], of h' h] pend(1) [OF h'] pend(1) [OF h] by simp
    then show ?thesis using knv_codec.next_Some [OF codec pend(2) [OF h'] parse [OF h']] by auto
  qed
  moreover have "at_off data len (k + length (enc_field t v)) f'"
  proof -
    have "length M = len" using h length_bytes_at [of h data len] by simp
    then have l: "length (enc_field t v) + length rest = len - k" using arg_cong [OF M(1), of length] by simp
    have "nat (f_left f') = length rest" using f'(4) length_pending [of h f'] by simp
    then have "f_left f' = int (length rest)" using f'(5) unfolding rd_ok_def by linarith
    moreover from this have "nat (f_left f - f_left f') = length (enc_field t v)" "k \<le> len" using f l by (auto simp: at_off_def)
    ultimately show ?thesis using f f'(6) l by (auto simp: at_off_def moved_def ptr_add_add)
  qed
  ultimately show ?thesis using f' by blast
qed

section \<open>One field\<close>

text \<open>
  The world \<open>w\<close> in the middle of an expansion of \<open>n\<close> that began at \<open>w0\<close>: \<open>ms\<close> and \<open>cs\<close> are the nodes attached so far, taken
  from the unused ones; the rest of the world is as it was, except for the buffers of nodes that were unused.
\<close>

definition own_buffers :: "nat set \<Rightarrow> blk set" where
  "own_buffers U = NodeBuf ` U \<union> KeyBuf ` U"

definition kept :: "knv_node \<Rightarrow> knv_node \<Rightarrow> bool" where
  "kept x y \<longleftrightarrow> n_tag y = n_tag x \<and> n_type y = n_type x \<and> n_val y = n_val x \<and> n_key y = n_key x \<and>
     n_no_key y = n_no_key x \<and> n_parent y = n_parent x \<and> n_eval_sz y = n_eval_sz x \<and> n_eval_val_sz y = n_eval_val_sz x \<and>
     h_sz (n_ht y) = h_sz (n_ht x)"

definition took :: "nat \<Rightarrow> nat \<Rightarrow> world \<Rightarrow> world \<Rightarrow> bool" where
  "took n c w w' \<longleftrightarrow> spare w' \<and> c \<in> unused w \<and> unused w' = unused w - {c} \<and> (\<forall>i. i \<noteq> c \<longrightarrow> i \<noteq> n \<longrightarrow> nd w' i = nd w i) \<and>
     (\<forall>b. b \<noteq> NodeBuf c \<longrightarrow> b \<noteq> KeyBuf c \<longrightarrow> w_heap w' b = w_heap w b)"

definition grown :: "nat \<Rightarrow> world \<Rightarrow> world \<Rightarrow> nat list \<Rightarrow> nat list \<Rightarrow> bool" where
  "grown n w0 w ms cs \<longleftrightarrow> spare w \<and> unused w \<subseteq> unused w0 \<and> set (ms @ cs) \<subseteq> unused w0 - unused w \<and> distinct (ms @ cs) \<and>
     n \<notin> unused w0 \<and> (\<forall>i. i \<notin> unused w0 \<longrightarrow> i \<noteq> n \<longrightarrow> nd w i = nd w0 i) \<and>
     (\<forall>b. b \<notin> own_buffers (unused w0) \<longrightarrow> w_heap w b = w_heap w0 b) \<and>
     kept (nd w0 n) (nd w n) \<and> n_metalist (nd w n) = ms \<and> n_childlist (nd w n) = cs \<and> n_child_num (nd w n) = int (length cs) \<and>
     h_nr (n_ht (nd w n)) = h_nr (n_ht (nd w0 n)) + int (length cs)"

lemma spare_upd: "c \<notin> unused w \<Longrightarrow> spare (upd c F w) = spare w" "unused (upd c F w) = unused w"
  by (auto simp: spare_def unused_def)

lemma new_leaf:
  assumes g: "g = None \<or> g = Some pb_codecs" and w: "spare w" "n \<notin> unused w"
    and ty: "named_type ty" and len: "ty = KNV_NODE \<Longrightarrow> unat (v_len v) < 2 ^ 31" and sz: "0 < fsz"
  shows "\<exists>c w1 w2. nodepool_New w = (Some c, w1) \<and> InitNode g c t ty (Some v) False True fsz fnk (upd n (F c) w1) = (0, w2) \<and>
     leaf_of t ty v fsz (nd w2 c) \<and> nd w2 n = F c (nd w n) \<and> took n c w w2"
proof -
  obtain c w1 where c: "nodepool_New w = (Some c, w1)" "c \<in> unused w" "unused w1 = unused w - {c}" "spare w1"
    "\<forall>i. i \<noteq> c \<longrightarrow> nd w1 i = nd w i" "d_mem (k_dyn (n_key (nd w1 c))) = None" "\<not> n_subnode_dirty (nd w1 c)"
    "\<forall>b. b \<noteq> NodeBuf c \<longrightarrow> b \<noteq> KeyBuf c \<longrightarrow> w_heap w1 b = w_heap w b"
    using nodepool_New_ok [OF w(1)] by blast
  have ne: "c \<noteq> n" using c(2) w(2) by blast
  let ?w = "upd n (F c) w1"
  have "d_mem (k_dyn (n_key (nd ?w c))) = None" "\<not> n_subnode_dirty (nd ?w c)" using c(6,7) ne by simp_all
  then obtain w2 where w2: "InitNode g c t ty (Some v) False True fsz fnk ?w = (0, w2)" "only_node c ?w w2" "leaf_of t ty v fsz (nd w2 c)"
    using InitNode_ok [OF g _ _ ty len sz] by blast
  have "spare ?w" "unused ?w = unused w - {c}" using c(3,4) w(2) by (simp_all add: spare_upd)
  then have sp: "spare w2" "unused w2 = unused w - {c}" using spare_only [OF _ w2(2)] by auto
  have "nd w2 i = nd w i" if "i \<noteq> c" "i \<noteq> n" for i using that w2(2) c(5) by (simp add: only_node_def)
  moreover have "nd w2 n = F c (nd w n)" using ne w2(2) c(5) by (auto simp: only_node_def)
  moreover have "w_heap w2 b = w_heap w b" if "b \<noteq> NodeBuf c" "b \<noteq> KeyBuf c" for b using that w2(2) c(8) by (simp add: only_node_def)
  ultimately have "took n c w w2" using sp c(2) by (simp add: took_def)
  with c(1) w2(1,3) \<open>nd w2 n = F c (nd w n)\<close> show ?thesis by blast
qed

lemma grown_step:
  assumes gr: "grown n w0 w ms cs" and tk: "took n c w w'" and k: "kept (nd w n) (nd w' n)"
    and l: "(n_metalist (nd w' n) = ms @ [c] \<and> n_childlist (nd w' n) = cs \<and> ms' = ms @ [c] \<and> cs' = cs) \<or>
       (n_metalist (nd w' n) = ms \<and> n_childlist (nd w' n) = cs @ [c] \<and> ms' = ms \<and> cs' = cs @ [c])"
    and nr: "n_child_num (nd w' n) = int (length cs')" "h_nr (n_ht (nd w' n)) = h_nr (n_ht (nd w n)) + int (length cs') - int (length cs)"
  shows "grown n w0 w' ms' cs'"
proof -
  have c: "c \<in> unused w" "c \<in> unused w0" "c \<notin> set (ms @ cs)" "c \<noteq> n" using gr tk by (auto simp: grown_def took_def)
  have "w_heap w' b = w_heap w0 b" if "b \<notin> own_buffers (unused w0)" for b
    using that c(2) gr tk by (auto simp: grown_def took_def own_buffers_def)
  moreover have "kept (nd w0 n) (nd w' n)" using gr k by (simp add: grown_def kept_def)
  moreover have "set (ms' @ cs') \<subseteq> unused w0 - unused w'" "distinct (ms' @ cs')" using l c gr tk by (auto simp: grown_def took_def)
  moreover have "nd w' i = nd w0 i" if "i \<notin> unused w0" "i \<noteq> n" for i
    using that c(2) gr tk by (auto simp: grown_def took_def)
  ultimately show ?thesis using gr tk l nr unfolding grown_def took_def by auto
qed

text \<open>One field becomes the last meta or the last child.\<close>

lemma node_ht_put_room:
  assumes "h_nr (n_ht (nd w n)) + 1 \<le> int (h_sz (n_ht (nd w n)))"
  shows "\<exists>nx tab. node_ht_put n c w =
     Some (0, upd n (n_ht_update (\<lambda>_. (n_ht (nd w n))\<lparr>h_tab := tab, h_nr := h_nr (n_ht (nd w n)) + 1\<rparr>)) (w\<lparr>w_ht_next := nx\<rparr>))"
  using assms by (auto simp: node_ht_put_def ht_put_def Let_def set_mem_state_def)

lemma expand_field_meta:
  assumes g: "g = None \<or> g = Some pb_codecs" and gr: "grown n w0 w ms cs" and tag: "unat (f_tag f) \<le> UC_MAX_META_NUM"
    and ty: "named_type (f_type f)" "f_type f = KNV_NODE \<Longrightarrow> unat (v_len (f_val f)) < 2 ^ 31" and sz: "0 < ptr_diff (f_ptr f) prev"
  shows "\<exists>c w'. expand_field g n fnk f prev w = Some (0, w') \<and> grown n w0 w' (ms @ [c]) cs \<and>
     leaf_of (f_tag f) (f_type f) (f_val f) (ptr_diff (f_ptr f) prev) (nd w' c) \<and> n_parent (nd w' c) = Some n \<and>
     (\<forall>i \<in> set (ms @ cs). nd w' i = nd w i)"
proof -
  let ?w = "if n_metalist (nd w n) = [] then upd n (n_metas_update (\<lambda>_ _. None)) w else w"
  have n: "n \<notin> unused w" using gr by (auto simp: grown_def)
  have sp: "spare ?w" "n \<notin> unused ?w" "unused ?w = unused w" using gr n by (auto simp: grown_def spare_upd)
  obtain c w1 w2 where a: "nodepool_New ?w = (Some c, w1)"
    "InitNode g c (f_tag f) (f_type f) (Some (f_val f)) False True (ptr_diff (f_ptr f) prev) True (upd n (n_metalist_update (\<lambda>xs. xs @ [c])) w1) = (0, w2)"
    "leaf_of (f_tag f) (f_type f) (f_val f) (ptr_diff (f_ptr f) prev) (nd w2 c)" "nd w2 n = n_metalist_update (\<lambda>xs. xs @ [c]) (nd ?w n)" "took n c ?w w2"
    using new_leaf [OF g sp(1,2) ty sz, of "f_tag f" True "\<lambda>c. n_metalist_update (\<lambda>xs. xs @ [c])"] by blast
  let ?w3 = "upd n (\<lambda>x. x\<lparr>n_metas := (n_metas x)(unat (f_tag f) \<mapsto> c)\<rparr>) (upd c (n_parent_update (\<lambda>_. Some n)) w2)"
  have c: "c \<noteq> n" "c \<notin> set (ms @ cs)" "n \<notin> set (ms @ cs)" using a(5) sp n gr by (auto simp: took_def grown_def)
  have "expand_field g n fnk f prev w = Some (0, ?w3)" using tag a(1,2) by (simp add: expand_field_def Let_def)
  moreover have tk: "took n c w ?w3" using a(5) sp(3) c(1) n by (auto simp: took_def spare_upd split: if_splits)
  have "kept (nd w n) (nd ?w3 n)" "n_metalist (nd ?w3 n) = n_metalist (nd w n) @ [c]" "n_childlist (nd ?w3 n) = n_childlist (nd w n)"
    "n_child_num (nd ?w3 n) = n_child_num (nd w n)" "h_nr (n_ht (nd ?w3 n)) = h_nr (n_ht (nd w n))"
    using a(4) c(1) by (simp_all add: kept_def)
  then have "grown n w0 ?w3 (ms @ [c]) cs"
    by (intro grown_step [OF gr tk]) (use gr in \<open>simp_all add: grown_def\<close>)
  moreover have "leaf_of (f_tag f) (f_type f) (f_val f) (ptr_diff (f_ptr f) prev) (nd ?w3 c)" "n_parent (nd ?w3 c) = Some n"
    using a(3) c(1) by (simp_all add: leaf_of_def)
  moreover have "\<forall>i \<in> set (ms @ cs). nd ?w3 i = nd w i" using tk c by (auto simp: took_def)
  ultimately show ?thesis by (intro exI [of _ c] exI [of _ ?w3]) simp
qed

lemma expand_field_child:
  assumes g: "g = None \<or> g = Some pb_codecs" and gr: "grown n w0 w ms cs" and tag: "\<not> unat (f_tag f) \<le> UC_MAX_META_NUM"
    and ty: "named_type (f_type f)" "f_type f = KNV_NODE \<Longrightarrow> unat (v_len (f_val f)) < 2 ^ 31" and sz: "0 < ptr_diff (f_ptr f) prev"
    and room: "h_nr (n_ht (nd w n)) + 1 \<le> int (h_sz (n_ht (nd w n)))"
  shows "\<exists>c w'. expand_field g n fnk f prev w = Some (0, w') \<and> grown n w0 w' ms (cs @ [c]) \<and>
     leaf_of (f_tag f) (f_type f) (f_val f) (ptr_diff (f_ptr f) prev) (nd w' c) \<and> n_parent (nd w' c) = Some n \<and>
     (\<forall>i \<in> set (ms @ cs). nd w' i = nd w i)"
proof -
  have n: "n \<notin> unused w" "spare w" using gr by (auto simp: grown_def)
  obtain c w1 w2 where a: "nodepool_New w = (Some c, w1)"
    "InitNode g c (f_tag f) (f_type f) (Some (f_val f)) False True (ptr_diff (f_ptr f) prev) fnk (upd n (n_childlist_update (\<lambda>xs. xs @ [c])) w1) = (0, w2)"
    "leaf_of (f_tag f) (f_type f) (f_val f) (ptr_diff (f_ptr f) prev) (nd w2 c)" "nd w2 n = n_childlist_update (\<lambda>xs. xs @ [c]) (nd w n)" "took n c w w2"
    using new_leaf [OF g n(2,1) ty sz, of "f_tag f" fnk "\<lambda>c. n_childlist_update (\<lambda>xs. xs @ [c])"] by blast
  have c: "c \<noteq> n" "c \<notin> set (ms @ cs)" "n \<notin> set (ms @ cs)" using a(5) n gr by (auto simp: took_def grown_def)
  define w3 where "w3 = upd c (n_parent_update (\<lambda>_. Some n)) (if k_len (n_key (nd w2 c)) > 0 then upd n (n_child_has_key_update (\<lambda>_. True)) w2 else w2)"
  have n3: "kept (nd w n) (nd w3 n)" "n_ht (nd w3 n) = n_ht (nd w n)" "n_metalist (nd w3 n) = n_metalist (nd w n)"
    "n_childlist (nd w3 n) = n_childlist (nd w n) @ [c]" "n_child_num (nd w3 n) = n_child_num (nd w n)"
    and c3: "nd w3 c = (nd w2 c)\<lparr>n_parent := Some n\<rparr>" and tk3: "took n c w w3"
    using a(4,5) c(1) n by (auto simp: w3_def kept_def took_def spare_upd)
  obtain nx tab where put: "node_ht_put n c w3 =
      Some (0, upd n (n_ht_update (\<lambda>_. (n_ht (nd w3 n))\<lparr>h_tab := tab, h_nr := h_nr (n_ht (nd w3 n)) + 1\<rparr>)) (w3\<lparr>w_ht_next := nx\<rparr>))"
    using node_ht_put_room [of w3 n c] room n3(2) by auto
  let ?w4 = "upd n (n_child_num_update (\<lambda>k. k + 1))
     (upd n (n_ht_update (\<lambda>_. (n_ht (nd w3 n))\<lparr>h_tab := tab, h_nr := h_nr (n_ht (nd w3 n)) + 1\<rparr>)) (w3\<lparr>w_ht_next := nx\<rparr>))"
  have "expand_field g n fnk f prev w = Some (0, ?w4)"
    unfolding expand_field_def Let_def a(1) prod.case option.case a(2) w3_def [symmetric] put using tag by simp
  moreover have tk: "took n c w ?w4" using tk3 n c(1) by (simp add: took_def spare_upd) (simp add: spare_def unused_def)
  have "kept (nd w n) (nd ?w4 n)" "n_metalist (nd ?w4 n) = n_metalist (nd w n)" "n_childlist (nd ?w4 n) = n_childlist (nd w n) @ [c]"
    "n_child_num (nd ?w4 n) = n_child_num (nd w n) + 1" "h_nr (n_ht (nd ?w4 n)) = h_nr (n_ht (nd w n)) + 1"
    using n3 by (simp_all add: kept_def)
  then have "grown n w0 ?w4 ms (cs @ [c])"
    by (intro grown_step [OF gr tk]) (use gr in \<open>simp_all add: grown_def\<close>)
  moreover have "leaf_of (f_tag f) (f_type f) (f_val f) (ptr_diff (f_ptr f) prev) (nd ?w4 c)" "n_parent (nd ?w4 c) = Some n"
    using a(3) c(1) c3 by (simp_all add: leaf_of_def)
  moreover have "\<forall>i \<in> set (ms @ cs). nd ?w4 i = nd w i" using tk c by (auto simp: took_def)
  ultimately show ?thesis by (intro exI [of _ c] exI [of _ ?w4]) simp
qed

section \<open>All fields\<close>

definition is_meta :: "u32 \<times> wval \<Rightarrow> bool" where
  "is_meta x \<longleftrightarrow> unat (fst x) \<le> UC_MAX_META_NUM"

text \<open>The node was made from the field \<open>x\<close> of the message \<open>M\<close> at \<open>data\<close> and is a part of \<open>n\<close>.\<close>

definition part_of :: "nat \<Rightarrow> ptr \<Rightarrow> byte list \<Rightarrow> u32 \<times> wval \<Rightarrow> knv_node \<Rightarrow> bool" where
  "part_of n data M x y \<longleftrightarrow> n_tag y = fst x \<and> n_type y = wval_type (snd x) \<and> named_type (k_type (n_key y)) \<and> n_parent y = Some n \<and>
     (\<forall>h. bytes_at h data (length M) = M \<longrightarrow> wval_of h (n_type y) (n_val y) = snd x) \<and>
     n_eval_sz y = int (length (enc_field (fst x) (snd x))) \<and> n_eval_val_sz y = (case snd x of WString s \<Rightarrow> int (length s) | _ \<Rightarrow> 0) \<and>
     (n_child_num y = -1 \<or> n_child_num y = 0) \<and> n_childlist y = [] \<and> n_metalist y = [] \<and> \<not> n_subnode_dirty y"

lemma wval_of_string:
  "wval_of h ty v = WString s \<Longrightarrow> unat (v_len v) = length s"
  by (auto simp: wval_of_def split: pb_type_t.splits)

lemma enc_field_longer: "length s \<le> length (enc_field t (WString s))"
  by (simp add: enc_field_def)

lemma leaf_part_of:
  assumes "leaf_of (f_tag f) (f_type f) (f_val f) (int (length (enc_field t v))) y" "n_parent y = Some n"
    and "f_tag f = t" "f_type f = wval_type v" "length (enc_field t v) < 2 ^ 31"
    and M: "\<forall>h. bytes_at h data (length M) = M \<longrightarrow> wval_of h (wval_type v) (f_val f) = v" "bytes_at h data (length M) = M"
  shows "part_of n data M (t, v) y"
proof -
  have "to_int32 (uint (v_len (f_val f))) = int (length s)" if "v = WString s" for s
  proof -
    have "unat (v_len (f_val f)) = length s" using wval_of_string [of h "wval_type v" "f_val f" s] M that by simp
    moreover have "length s < 2 ^ 31" using enc_field_longer [of s t] assms(5) that by simp
    ultimately show ?thesis by (metis to_int32_nat uint_nat)
  qed
  then show ?thesis using assms by (cases v) (auto simp: part_of_def leaf_of_def)
qed

lemma expand_step:
  assumes g: "g = None \<or> g = Some pb_codecs" and gr: "grown n w0 w ms cs"
    and data: "data = Ptr b i" "b \<notin> own_buffers (unused w0)" "bytes_at (w_heap w0) data (length M) = M"
    and f: "f_tag f = t" "f_type f = wval_type v" "wf_field (t, v)" "at_off data (length M) (k + length (enc_field t v)) f"
      "\<forall>h. bytes_at h data (length M) = M \<longrightarrow> wval_of h (wval_type v) (f_val f) = v"
    and room: "\<not> is_meta (t, v) \<Longrightarrow> h_nr (n_ht (nd w n)) + 1 \<le> int (h_sz (n_ht (nd w n)))"
  shows "\<exists>c w'. expand_field g n fnk f (ptr_add data k) w = Some (0, w') \<and>
     grown n w0 w' (if is_meta (t, v) then ms @ [c] else ms) (if is_meta (t, v) then cs else cs @ [c]) \<and>
     part_of n data M (t, v) (nd w' c) \<and> (\<forall>i \<in> set (ms @ cs). nd w' i = nd w i)"
proof -
  have short: "length (enc_field t v) < 2 ^ 31" "f_ptr f = ptr_add data (k + length (enc_field t v))"
    using f(4) by (auto simp: at_off_def)
  have "enc_field t v \<noteq> []" using wire_format.enc_ne [OF knv_codec.axioms(1) [OF pb_knv_codec [OF g]] f(3)] .
  then have diff: "ptr_diff (f_ptr f) (ptr_add data k) = int (length (enc_field t v))" "0 < ptr_diff (f_ptr f) (ptr_add data k)"
    using short(2) data(1) by auto
  have ty: "named_type (f_type f)" using f(2) by (cases v) (simp_all add: named_type_def)
  have len: "unat (v_len (f_val f)) < 2 ^ 31" if node: "f_type f = KNV_NODE"
  proof -
    obtain s where "v = WString s" using node f(2) by (cases v) simp_all
    then show ?thesis using wval_of_string [of "w_heap w0" "wval_type v" "f_val f" s] f(5) short(1) data(3) enc_field_longer [of s t] by simp
  qed
  note leaf = leaf_part_of [OF _ _ f(1,2) short(1) f(5) data(3), of _ n]
  show ?thesis
  proof (cases "is_meta (t, v)")
    case True
    then have "unat (f_tag f) \<le> UC_MAX_META_NUM" using f(1) by (simp add: is_meta_def)
    from expand_field_meta [OF g gr this ty len diff(2), of fnk] leaf diff(1) True show ?thesis by fastforce
  next
    case False
    then have "\<not> unat (f_tag f) \<le> UC_MAX_META_NUM" using f(1) by (simp add: is_meta_def)
    from expand_field_child [OF g gr this ty len diff(2) room [OF False], of fnk] leaf diff(1) False show ?thesis by fastforce
  qed
qed

lemma enc_all_longer: "\<forall>x \<in> set fs. wf_field x \<Longrightarrow> length fs \<le> length (enc_all enc_field fs)"
proof (induction fs)
  case (Cons x fs)
  then have "enc_field (fst x) (snd x) \<noteq> []" by (intro pb.enc_ne) simp
  then have "1 \<le> length (enc_field (fst x) (snd x))" by (cases "enc_field (fst x) (snd x)") auto
  with Cons show ?case by (simp del: One_nat_def)
qed simp

text \<open>The message is not in a buffer of an unused node, so that it stays as it was.\<close>

lemma grown_message:
  assumes "grown n w0 w ms cs" "b \<notin> own_buffers (unused w0)" "bytes_at (w_heap w0) (Ptr b i) (length M) = M"
  shows "bytes_at (w_heap w) (Ptr b i) (length M) = M"
proof -
  have "bytes_at (w_heap w) (Ptr b i) m = bytes_at (w_heap w0) (Ptr b i) m" for m
    using assms(1,2) by (simp add: grown_def bytes_at_def)
  with assms(3) show ?thesis by simp
qed

lemma expand_loop_ok:
  assumes g: "g = None \<or> g = Some pb_codecs"
    and data: "data = Ptr b i" "b \<notin> own_buffers (unused w0)" "bytes_at (w_heap w0) data (length M) = M"
  shows "grown n w0 w ms cs \<Longrightarrow> at_off data (length M) (k + length (enc_field t v)) f \<Longrightarrow> f_tag f = t \<Longrightarrow> f_type f = wval_type v \<Longrightarrow>
     \<forall>h. bytes_at h data (length M) = M \<longrightarrow> wval_of h (wval_type v) (f_val f) = v \<Longrightarrow>
     drop (k + length (enc_field t v)) M = enc_all enc_field fs \<Longrightarrow> \<forall>x \<in> set ((t, v) # fs). wf_field x \<Longrightarrow> length fs < m \<Longrightarrow>
     h_nr (n_ht (nd w n)) + int (length (filter (\<lambda>x. \<not> is_meta x) ((t, v) # fs))) \<le> int (h_sz (n_ht (nd w n))) \<Longrightarrow>
     \<exists>f' w' ms' cs'. expand_loop g n fnk m f (ptr_add data k) w = Some (0, f', w') \<and> f_eom f' \<and> grown n w0 w' (ms @ ms') (cs @ cs') \<and>
       list_all2 (part_of n data M) (filter is_meta ((t, v) # fs)) (map (nd w') ms') \<and>
       list_all2 (part_of n data M) (filter (\<lambda>x. \<not> is_meta x) ((t, v) # fs)) (map (nd w') cs') \<and> (\<forall>i \<in> set (ms @ cs). nd w' i = nd w i)"
proof (induction fs arbitrary: w ms cs k t v f m)
  case Nil
  note p = Nil.prems
  obtain m' where m: "m = Suc m'" using p(8) by (cases m) auto
  have "wf_field (t, v)" "\<not> is_meta (t, v) \<Longrightarrow> h_nr (n_ht (nd w n)) + 1 \<le> int (h_sz (n_ht (nd w n)))" using p(7,9) by simp_all
  then obtain c w' where w': "expand_field g n fnk f (ptr_add data k) w = Some (0, w')"
     "grown n w0 w' (if is_meta (t, v) then ms @ [c] else ms) (if is_meta (t, v) then cs else cs @ [c])"
     "part_of n data M (t, v) (nd w' c)" "\<forall>i \<in> set (ms @ cs). nd w' i = nd w i"
    using expand_step [OF g p(1) data p(3,4) _ p(2,5), where fnk = fnk] by blast
  have "pending (w_heap w') f = []" "rd_ok f" using at_off_pending [OF p(2), of "w_heap w'"] grown_message [OF w'(2) data(2)] data p(6) by simp_all
  then obtain f' where "knv_next g (w_heap w') f = (False, f')" "f_eom f'"
    using knv_codec.next_end [OF pb_knv_codec [OF g]] by blast
  then have "expand_loop g n fnk m f (ptr_add data k) w = Some (0, f', w')" "f_eom f'" by (simp_all add: m w'(1))
  with w' show ?case
    by (intro exI [of _ f'] exI [of _ w'] exI [of _ "if is_meta (t, v) then [c] else []"] exI [of _ "if is_meta (t, v) then [] else [c]"]) (cases "is_meta (t, v)"; simp)
next
  case (Cons x fs)
  note p = Cons.prems
  obtain m' where m: "m = Suc m'" using p(8) by (cases m) auto
  obtain t' v' where x: "x = (t', v')" by (cases x)
  have "wf_field (t, v)" "\<not> is_meta (t, v) \<Longrightarrow> h_nr (n_ht (nd w n)) + 1 \<le> int (h_sz (n_ht (nd w n)))" using p(7,9) by simp_all
  then obtain c w' where w': "expand_field g n fnk f (ptr_add data k) w = Some (0, w')"
     "grown n w0 w' (if is_meta (t, v) then ms @ [c] else ms) (if is_meta (t, v) then cs else cs @ [c])"
     "part_of n data M (t, v) (nd w' c)" "\<forall>i \<in> set (ms @ cs). nd w' i = nd w i"
    using expand_step [OF g p(1) data p(3,4) _ p(2,5), where fnk = fnk] by blast
  let ?k = "k + length (enc_field t v)"
  have M: "bytes_at (w_heap w') data (length M) = M" using grown_message [OF w'(2) data(2)] data by simp
  have d: "drop ?k M = enc_field t' v' @ enc_all enc_field fs" "wf_field (t', v')" using p(6,7) x by simp_all
  obtain f' where f': "knv_next g (w_heap w') f = (True, f')" "f_tag f' = t'" "f_type f' = wval_type v'"
    "\<forall>h'. bytes_at h' data (length M) = M \<longrightarrow> wval_of h' (wval_type v') (f_val f') = v'" "at_off data (length M) (?k + length (enc_field t' v')) f'"
    using knv_next_field [OF g p(2) M d] by blast
  have d': "drop (?k + length (enc_field t' v')) M = enc_all enc_field fs"
    using d(1) by (metis add.commute append_eq_conv_conj drop_drop)
  have room: "h_nr (n_ht (nd w' n)) + int (length (filter (\<lambda>x. \<not> is_meta x) ((t', v') # fs))) \<le> int (h_sz (n_ht (nd w' n)))"
    using p(1,9) w'(2) by (auto simp: grown_def kept_def x split: if_splits)
  obtain f2 w2 ms' cs' where r: "expand_loop g n fnk m' f' (ptr_add data ?k) w' = Some (0, f2, w2)" "f_eom f2"
    "grown n w0 w2 ((if is_meta (t, v) then ms @ [c] else ms) @ ms') ((if is_meta (t, v) then cs else cs @ [c]) @ cs')"
    "list_all2 (part_of n data M) (filter is_meta ((t', v') # fs)) (map (nd w2) ms')"
    "list_all2 (part_of n data M) (filter (\<lambda>x. \<not> is_meta x) ((t', v') # fs)) (map (nd w2) cs')"
    "\<forall>i \<in> set ((if is_meta (t, v) then ms @ [c] else ms) @ (if is_meta (t, v) then cs else cs @ [c])). nd w2 i = nd w' i"
    using Cons.IH [OF w'(2) f'(5,2,3,4) d' _ _ room, of m'] p(7,8) x m by auto
  have "f_ptr f = ptr_add data ?k" using p(2) by (simp add: at_off_def)
  then have "expand_loop g n fnk m f (ptr_add data k) w = Some (0, f2, w2)" using r(1) f'(1) w'(1) by (simp add: m)
  moreover have "part_of n data M (t, v) (nd w2 c)" "\<forall>i \<in> set (ms @ cs). nd w2 i = nd w i" using r(6) w'(3,4) by (auto split: if_splits)
  ultimately show ?case using r x
    by (intro exI [of _ f2] exI [of _ w2] exI [of _ "if is_meta (t, v) then c # ms' else ms'"] exI [of _ "if is_meta (t, v) then cs' else c # cs'"]) (cases "is_meta (t, v)"; simp)
qed

section \<open>The whole expansion\<close>

lemma InnerExpand_run:
  assumes g: "g = None \<or> g = Some pb_codecs" and w: "spare w" "n \<notin> unused w"
    and n: "n_child_num (nd w n) < 0" "n_type (nd w n) = KNV_NODE"
      "\<not> (n_tag (nd w n) = 1 \<and> (case n_parent (nd w n) of Some p \<Rightarrow> k_len (n_key (nd w p)) \<noteq> 0 | None \<Rightarrow> False))"
    and data: "v_data (n_val (nd w n)) = Ptr b i" "b \<notin> own_buffers (unused w)" "unat (v_len (n_val (nd w n))) < 2 ^ 31"
    and M: "flat_bytes w n = enc_all enc_field fs" "\<forall>x \<in> set fs. wf_field x"
    and room: "h_nr (n_ht (nd w n)) + int (length (filter (\<lambda>x. \<not> is_meta x) fs)) \<le> int (h_sz (n_ht (nd w n)))"
  shows "\<exists>w' ms cs. InnerExpand g n fnk w = Some (0, w') \<and> grown n w w' ms cs \<and> (fs \<noteq> [] \<longrightarrow> \<not> n_subnode_dirty (nd w' n)) \<and>
     list_all2 (part_of n (Ptr b i) (flat_bytes w n)) (filter is_meta fs) (map (nd w') ms) \<and>
     list_all2 (part_of n (Ptr b i) (flat_bytes w n)) (filter (\<lambda>x. \<not> is_meta x) fs) (map (nd w') cs)"
proof -
  let ?M = "flat_bytes w n"
  define w1 where "w1 = upd n (n_child_has_key_update (\<lambda>_. False)) (InitChildList 0 n w)"
  let ?f = "pb_start field0 (Ptr b i) (int (length ?M))"
  have w1: "n_tag (nd w1 n) = n_tag (nd w n)" "n_type (nd w1 n) = KNV_NODE" "n_parent (nd w1 n) = n_parent (nd w n)" "n_val (nd w1 n) = n_val (nd w n)"
    "n_key (nd w1 p) = n_key (nd w p)" "n_ht (nd w1 p) = n_ht (nd w p)" "w_heap w1 = w_heap w" for p
    using n(2) by (simp_all add: w1_def InitChildList_def)
  have len: "length ?M = unat (v_len (n_val (nd w n)))" by (simp add: flat_bytes_def)
  have gr: "grown n w w1 [] []" using w by (simp add: w1_def grown_def InitChildList_def spare_upd kept_def)
  have M0: "bytes_at (w_heap w) (Ptr b i) (length ?M) = ?M" by (simp add: flat_bytes_def data(1))
  then have Mw: "bytes_at (w_heap w1) (Ptr b i) (length ?M) = ?M" by (simp add: w1)
  have at: "at_off (Ptr b i) (length ?M) 0 ?f" using data(3) len by (simp add: at_off_def pb_start_def)
  have sz: "to_int32 (uint (v_len (n_val (nd w n)))) = int (length ?M)" using to_int32_nat [OF data(3)] len by simp
  have ne: "(n_child_num (nd w n) \<ge> 0) = False" using n(1) by simp
  have run: "InnerExpand g n fnk w = (let (pf, f) = knv_next g (w_heap w1) ?f in if \<not> pf then Some (0, w1) else
      do { (ret, f, w) \<leftarrow> expand_loop g n fnk (Suc (length ?M)) f (Ptr b i) w1;
        if ret \<noteq> 0 then Some (ret, w)
        else (let w = upd n (n_subnode_dirty_update (\<lambda>_. False)) w in if \<not> f_eom f then do { w \<leftarrow> expand_reset n w; Some (0, w) } else Some (0, w)) })"
    unfolding InnerExpand_def ne if_False Let_def w1_def [symmetric] w1 knv_codec.begin_next [OF pb_knv_codec [OF g]] sz data(1) len [symmetric]
    using n(3) by (simp only: if_False simp_thms)
  show ?thesis
  proof (cases fs)
    case Nil
    then have "pending (w_heap w1) ?f = []" "rd_ok ?f" using at_off_pending [OF at] Mw M(1) by simp_all
    then obtain f' where "knv_next g (w_heap w1) ?f = (False, f')" using knv_codec.next_end [OF pb_knv_codec [OF g]] by blast
    with run gr Nil show ?thesis by (intro exI [of _ w1] exI [of _ "[]"]) simp
  next
    case (Cons x r)
    obtain t v where x: "x = (t, v)" by (cases x)
    have d: "drop 0 ?M = enc_field t v @ enc_all enc_field r" "wf_field (t, v)" using M Cons x by simp_all
    obtain f' where f': "knv_next g (w_heap w1) ?f = (True, f')" "f_tag f' = t" "f_type f' = wval_type v"
      "\<forall>h'. bytes_at h' (Ptr b i) (length ?M) = ?M \<longrightarrow> wval_of h' (wval_type v) (f_val f') = v" "at_off (Ptr b i) (length ?M) (0 + length (enc_field t v)) f'"
      using knv_next_field [OF g at Mw d] by blast
    have "drop (0 + length (enc_field t v)) ?M = enc_all enc_field r" using d(1) by simp
    moreover have "length r < Suc (length ?M)" using enc_all_longer [of fs] M Cons by simp
    moreover have "h_nr (n_ht (nd w1 n)) + int (length (filter (\<lambda>x. \<not> is_meta x) ((t, v) # r))) \<le> int (h_sz (n_ht (nd w1 n)))"
      using room Cons x by (simp add: w1)
    moreover have "\<forall>x \<in> set ((t, v) # r). wf_field x" using M(2) Cons x by simp
    ultimately obtain f2 w' ms cs where r: "expand_loop g n fnk (Suc (length ?M)) f' (ptr_add (Ptr b i) 0) w1 = Some (0, f2, w')" "f_eom f2"
      "grown n w w' ([] @ ms) ([] @ cs)" "list_all2 (part_of n (Ptr b i) ?M) (filter is_meta ((t, v) # r)) (map (nd w') ms)"
      "list_all2 (part_of n (Ptr b i) ?M) (filter (\<lambda>x. \<not> is_meta x) ((t, v) # r)) (map (nd w') cs)"
      using expand_loop_ok [OF g refl data(2) M0 gr f'(5,2,3,4)] by blast
    let ?w2 = "upd n (n_subnode_dirty_update (\<lambda>_. False)) w'"
    have nn: "n \<notin> set (ms @ cs)" using r(3) by (auto simp: grown_def)
    then have eq: "map (nd ?w2) ms = map (nd w') ms" "map (nd ?w2) cs = map (nd w') cs" by auto
    have "n \<notin> unused w'" using r(3) by (auto simp: grown_def)
    then have "grown n w ?w2 ms cs" using r(3) by (auto simp: grown_def kept_def spare_upd)
    moreover have "InnerExpand g n fnk w = Some (0, ?w2)" using run f'(1) r(1,2) by (simp del: expand_loop.simps)
    moreover have "\<not> n_subnode_dirty (nd ?w2 n)" by simp
    ultimately show ?thesis using r(4,5) unfolding Cons x eq [symmetric] by blast
  qed
qed

section \<open>The tree after the expansion\<close>

abbreviation leaf :: "nat \<Rightarrow> ntree" where
  "leaf c \<equiv> NT c [] []"

definition node_field :: "world \<Rightarrow> nat \<Rightarrow> u32 \<times> wval" where
  "node_field w c = (n_tag (nd w c), wval_of (w_heap w) (n_type (nd w c)) (n_val (nd w c)))"

lemma part_of_inv:
  assumes "part_of n data M x (nd w c)" "bytes_at (w_heap w) data (length M) = M" "wf_field x"
  shows "tree_inv enc_field w (leaf c)" "node_field w c = x" "deep_bytes enc_field w (leaf c) = enc_field (fst x) (snd x)"
    "n_parent (nd w c) = Some n" "\<not> n_subnode_dirty (nd w c)" "0 \<le> n_eval_sz (nd w c)"
proof -
  have v: "wval_of (w_heap w) (wval_type (snd x)) (n_val (nd w c)) = snd x" and t: "n_type (nd w c) = wval_type (snd x)" "n_tag (nd w c) = fst x"
    using assms(1,2) by (auto simp: part_of_def)
  show "node_field w c = x" "deep_bytes enc_field w (leaf c) = enc_field (fst x) (snd x)" using v t by (simp_all add: node_field_def)
  show "n_parent (nd w c) = Some n" "\<not> n_subnode_dirty (nd w c)" "0 \<le> n_eval_sz (nd w c)" using assms(1) by (simp_all add: part_of_def)
  have "named_type (wval_type (snd x))" by (cases "snd x") (simp_all add: named_type_def)
  then have "tree_ok w (leaf c)" using assms(1,3) by (auto simp: tree_ok_def node_shape_def node_ok_def part_of_def wf_field_def)
  moreover have "length (deep_val enc_field w (leaf c)) = (case snd x of WString s \<Rightarrow> length s | _ \<Rightarrow> 0)"
  proof (cases "snd x")
    case (WString s)
    with v t show ?thesis using wval_of_string [of "w_heap w" "n_type (nd w c)" "n_val (nd w c)" s] by (simp add: deep_val_def flat_bytes_def)
  qed (use t in \<open>simp_all add: deep_val_def\<close>)
  then have "n_eval_val_sz (nd w c) = int (length (deep_val enc_field w (leaf c)))" using assms(1) by (cases "snd x") (simp_all add: part_of_def)
  then have "node_inv enc_field w (leaf c)"
    using assms(1) v t by (simp add: node_inv_def part_of_def has_parts_def counted_parts_def)
  ultimately show "tree_inv enc_field w (leaf c)" by (simp add: tree_inv_def)
qed

lemma parts_inv:
  assumes "list_all2 (part_of n data M) fs (map (nd w) cs)" "bytes_at (w_heap w) data (length M) = M" "\<forall>x \<in> set fs. wf_field x"
  shows "map (node_field w) cs = fs" "map (deep_bytes enc_field w \<circ> leaf) cs = map (\<lambda>(t, v). enc_field t v) fs"
    "\<forall>c \<in> set cs. tree_inv enc_field w (leaf c) \<and> n_parent (nd w c) = Some n \<and> \<not> n_subnode_dirty (nd w c) \<and> 0 \<le> n_eval_sz (nd w c)"
proof -
  have "map (node_field w) cs = fs \<and> map (deep_bytes enc_field w \<circ> leaf) cs = map (\<lambda>(t, v). enc_field t v) fs \<and>
    (\<forall>c \<in> set cs. tree_inv enc_field w (leaf c) \<and> n_parent (nd w c) = Some n \<and> \<not> n_subnode_dirty (nd w c) \<and> 0 \<le> n_eval_sz (nd w c))"
    using assms(1,3)
  proof (induction fs "map (nd w) cs" arbitrary: cs rule: list_all2_induct)
    case (Cons x fs y ys)
    then obtain c r where cs: "cs = c # r" "y = nd w c" "ys = map (nd w) r" by (cases cs) auto
    with Cons part_of_inv [of n data M x w c] assms(2) show ?case by (auto simp: case_prod_unfold)
  qed simp
  then show "map (node_field w) cs = fs" "map (deep_bytes enc_field w \<circ> leaf) cs = map (\<lambda>(t, v). enc_field t v) fs"
    "\<forall>c \<in> set cs. tree_inv enc_field w (leaf c) \<and> n_parent (nd w c) = Some n \<and> \<not> n_subnode_dirty (nd w c) \<and> 0 \<le> n_eval_sz (nd w c)"
    by simp_all
qed

text \<open>The bytes a key refers to.\<close>

lemma key_val_cong:
  assumes "k_val k = Ptr b i" "h' b = h b" "named_type (k_type k)"
  shows "wval_of h' (k_type k) (key_GetValue h' k) = wval_of h (k_type k) (key_GetValue h k)"
proof -
  have "bytes_at h' (k_val k) m = bytes_at h (k_val k) m" for m using assms by (simp add: bytes_at_def)
  then show ?thesis using assms(3) by (auto simp: key_GetValue_def key_GetIntVal_def wval_of_def str_value_def named_type_def split: pb_type_t.splits)
qed

text \<open>
  An unexpanded string node whose value is the message of the metas \<open>fm\<close> followed by the children \<open>fk\<close>, with room for the children in
  its hash table.  Its message and its key are not in a buffer of an unused node; a key is the first field of the message.
\<close>

definition expandable :: "world \<Rightarrow> nat \<Rightarrow> (u32 \<times> wval) list \<Rightarrow> (u32 \<times> wval) list \<Rightarrow> bool" where
  "expandable w n fm fk \<longleftrightarrow> (let x = nd w n; safe = (\<lambda>p. p \<noteq> NULL \<and> the (ptr_blk p) \<notin> own_buffers (unused w)) in
     spare w \<and> n \<notin> unused w \<and> n_child_num x < 0 \<and> n_type x = KNV_NODE \<and>
     \<not> (n_tag x = 1 \<and> (case n_parent x of Some p \<Rightarrow> k_len (n_key (nd w p)) \<noteq> 0 | None \<Rightarrow> False)) \<and>
     safe (v_data (n_val x)) \<and> unat (v_len (n_val x)) < 2 ^ 31 \<and> flat_bytes w n = enc_all enc_field (fm @ fk) \<and>
     (\<forall>y \<in> set fm. wf_field y \<and> is_meta y) \<and> (\<forall>y \<in> set fk. wf_field y \<and> \<not> is_meta y) \<and>
     h_nr (n_ht x) + int (length fk) \<le> int (h_sz (n_ht x)) \<and>
     (keyed x \<longrightarrow> fm \<noteq> [] \<and> hd fm = (1, wval_of (w_heap w) (k_type (n_key x)) (key_GetValue (w_heap w) (n_key x))) \<and> safe (k_val (n_key x))))"

lemma grown_val:
  assumes ex: "expandable w n fm fk" and ok: "node_ok (nd w n)" and gr: "grown n w w' ms cs"
    and pm: "map (node_field w') ms = fm" "map (deep_bytes enc_field w' \<circ> leaf) ms = map (\<lambda>(t, v). enc_field t v) fm"
    and pk: "map (deep_bytes enc_field w' \<circ> leaf) cs = map (\<lambda>(t, v). enc_field t v) fk"
  shows "key_part enc_field w' n @ concat (drop (key_skip w' n (map leaf ms)) (map (deep_bytes enc_field w') (map leaf ms))) @
      concat (map (deep_bytes enc_field w') (map leaf cs)) = flat_bytes w n"
proof -
  have n: "kept (nd w n) (nd w' n)" using gr by (simp add: grown_def)
  have ty: "named_type (k_type (n_key (nd w n)))" using ok by (simp add: node_ok_def)
  have kd: "keyed (nd w' n) = keyed (nd w n)" using n by (simp add: kept_def keyed_def)
  have key: "key_part enc_field w' n @ concat (drop (key_skip w' n (map leaf ms)) (map (\<lambda>(t, v). enc_field t v) fm)) = enc_all enc_field fm"
  proof (cases "keyed (nd w n)")
    case False
    then show ?thesis using kd by (simp add: key_part_def Let_def key_skip_def enc_all_def)
  next
    case True
    then obtain x r where fm: "fm = (1, wval_of (w_heap w) (k_type (n_key (nd w n))) (key_GetValue (w_heap w) (n_key (nd w n)))) # r"
      using ex by (cases fm) (auto simp: expandable_def Let_def)
    obtain b i where b: "k_val (n_key (nd w n)) = Ptr b i" "b \<notin> own_buffers (unused w)"
      using True ex by (cases "k_val (n_key (nd w n))") (auto simp: expandable_def Let_def)
    have "w_heap w' b = w_heap w b" using gr b(2) by (simp add: grown_def)
    from key_val_cong [where h = "w_heap w" and h' = "w_heap w'", OF b(1) this ty] have kp: "key_part enc_field w' n = enc_field (fst (hd fm)) (snd (hd fm))"
      using True kd n by (simp add: key_part_def Let_def fm kept_def)
    have "ms \<noteq> []" "n_tag (nd w' (hd ms)) = 1" using pm(1) fm by (auto simp: node_field_def)
    then have "key_skip w' n (map leaf ms) = 1" using True kd by (simp add: key_skip_def hd_map)
    then show ?thesis by (simp add: kp fm enc_all_def)
  qed
  show ?thesis using key ex unfolding map_map pm(2) pk by (simp add: expandable_def Let_def enc_all_def)
qed

lemma grown_inv:
  assumes inv: "tree_inv enc_field w (leaf n)" and ex: "expandable w n fm fk"
    and gr: "grown n w w' ms cs" and nd: "fm @ fk \<noteq> [] \<longrightarrow> \<not> n_subnode_dirty (nd w' n)"
    and M: "bytes_at (w_heap w') (v_data (n_val (nd w n))) (length (flat_bytes w n)) = flat_bytes w n"
    and parts: "list_all2 (part_of n (v_data (n_val (nd w n))) (flat_bytes w n)) fm (map (nd w') ms)"
      "list_all2 (part_of n (v_data (n_val (nd w n))) (flat_bytes w n)) fk (map (nd w') cs)"
  shows "tree_inv enc_field w' (NT n (map leaf ms) (map leaf cs)) \<and>
     deep_bytes enc_field w' (NT n (map leaf ms) (map leaf cs)) = deep_bytes enc_field w (leaf n)"
proof -
  let ?t = "NT n (map leaf ms) (map leaf cs)"
  have wf: "\<forall>x \<in> set fm. wf_field x" "\<forall>x \<in> set fk. wf_field x" using ex by (simp_all add: expandable_def Let_def)
  note pm = parts_inv [OF parts(1) M wf(1)] and pk = parts_inv [OF parts(2) M wf(2)]
  have ok: "node_ok (nd w n)" and kn: "kept (nd w n) (nd w' n)" using inv gr by (simp_all add: tree_inv_def tree_ok_def grown_def)
  have ty: "n_type (nd w n) = KNV_NODE" "n_type (nd w' n) = KNV_NODE" "n_tag (nd w' n) = n_tag (nd w n)" "n_val (nd w' n) = n_val (nd w n)"
    using kn ex by (simp_all add: kept_def expandable_def Let_def)
  have flat: "flat_bytes w' n = flat_bytes w n" using M by (simp add: flat_bytes_def ty)
  note val = grown_val [OF ex ok gr pm(1,2) pk(2)]
  have empty: "flat_bytes w n = []" if "ms = []" "cs = []" using that pm(1) pk(1) ex by (auto simp: expandable_def Let_def)
  have dv: "deep_val enc_field w' ?t = flat_bytes w n"
    unfolding deep_val_def ntree.sel val using flat empty ty by simp
  have db: "deep_bytes enc_field w' ?t = enc_field (n_tag (nd w n)) (WString (flat_bytes w n))"
    unfolding deep_bytes.simps val using flat empty ty by (simp add: wval_of_def flat_bytes_def)
  have "deep_bytes enc_field w (leaf n) = enc_field (n_tag (nd w n)) (WString (flat_bytes w n))" "deep_val enc_field w (leaf n) = flat_bytes w n"
    using ty by (simp_all add: wval_of_def flat_bytes_def deep_val_def)
  note same = this db dv
  have "node_inv enc_field w (leaf n)" using inv by (simp add: tree_inv_def)
  moreover have "n_eval_sz (nd w' n) = n_eval_sz (nd w n)" "n_eval_val_sz (nd w' n) = n_eval_val_sz (nd w n)" using kn by (simp_all add: kept_def)
  moreover have "0 \<le> n_eval_sz (nd w' (rt q))" if "q \<in> set (counted_parts w' ?t)" for q
  proof -
    have "q \<in> set (map leaf ms) \<union> set (map leaf cs)" using that by (auto simp: counted_parts_def dest: in_set_dropD simp del: set_map)
    then show ?thesis using pm(3) pk(3) by auto
  qed
  ultimately have "node_inv enc_field w' ?t"
    using pm(3) pk(3) ty flat unfolding node_inv_def same ntree.sel by force
  moreover have "tree_ok w' ?t"
  proof -
    have "map ids (map leaf zs) = map (\<lambda>c. [c]) zs" "map rt (map leaf zs) = zs" for zs by (simp_all add: comp_def)
    then have "ids ?t = n # ms @ cs" "node_shape w' n (map leaf ms) (map leaf cs)"
      using gr by (simp_all add: grown_def node_shape_def del: map_map)
    moreover have "node_ok (nd w' n)" "distinct (n # ms @ cs)" using ok kn gr by (auto simp: node_ok_def kept_def grown_def)
    moreover have "node_ok (nd w' c) \<and> shape w' (leaf c) \<and> n_parent (nd w' c) = Some n" if "c \<in> set ms \<union> set cs" for c
      using that pm(3) pk(3) by (auto simp: tree_inv_def tree_ok_def)
    ultimately show ?thesis unfolding tree_ok_def by (auto simp del: ids.simps)
  qed
  moreover have "\<forall>s \<in> set (map leaf ms) \<union> set (map leaf cs). tree_inv enc_field w' s" using pm(3) pk(3) by auto
  ultimately show ?thesis unfolding tree_inv_NT using same by simp
qed


text \<open>A node with the key 5 whose message \<open>[8, 5, 96, 7]\<close> holds the key and one child; one node of the pool is free.\<close>

definition demo_packed :: world where
  "demo_packed = demo_world\<lparr>w_free := [1],
     w_nodes := (\<lambda>_. KnvNode0)(0 := KnvNode0\<lparr>n_tag := 11, n_val := str_value 4 (Ptr (Ext 0) 0), n_eval_sz := 6, n_eval_val_sz := 4,
       n_key := key_default\<lparr>k_type := KNV_VARINT, k_len := 8, k_val := key_small_buf 0\<rparr>\<rparr>),
     w_mem := (GetInstance, start_ctx\<lparr>c_heap := (\<lambda>_. [])(Ext 0 := [8, 5, 96, 7], KeyBuf 0 := [5, 0, 0, 0, 0, 0, 0, 0])\<rparr>)\<rparr>"

lemma demo_packed_ok:
  "expandable demo_packed 0 [(1, WVarint 5)] [(12, WVarint 7)]" "tree_inv enc_field demo_packed (NT 0 [] [])"
  "tree_bytes enc_field demo_packed (NT 0 [] []) = [90, 4, 8, 5, 96, 7]"
proof -
  have b: "bytes_at (w_heap demo_packed) (Ptr (Ext 0) 0) 4 = [8, 5, 96, 7]" by (simp add: demo_packed_def bytes_at_def upt_rec numeral_eq_Suc)
  have k: "bytes_at (w_heap demo_packed) (Ptr (KeyBuf 0) 0) 8 = [5, 0, 0, 0, 0, 0, 0, 0]" by (simp add: demo_packed_def bytes_at_def upt_rec numeral_eq_Suc)
  have n: "n_val (nd demo_packed 0) = str_value 4 (Ptr (Ext 0) 0)" "n_tag (nd demo_packed 0) = 11" "n_type (nd demo_packed 0) = KNV_NODE"
    "n_key (nd demo_packed 0) = key_default\<lparr>k_type := KNV_VARINT, k_len := 8, k_val := Ptr (KeyBuf 0) 0\<rparr>" "n_child_num (nd demo_packed 0) = -1"
    "n_parent (nd demo_packed 0) = None" "n_ht (nd demo_packed 0) = ht_init" "n_eval_sz (nd demo_packed 0) = 6" "n_eval_val_sz (nd demo_packed 0) = 4"
    by (simp_all add: demo_packed_def KnvNode0_def)
  have v: "v_len (str_value 4 (Ptr (Ext 0) 0)) = 4" "v_data (str_value 4 (Ptr (Ext 0) 0)) = Ptr (Ext 0) 0" by (simp_all add: str_value_def v_len_def)
  have flat: "flat_bytes demo_packed 0 = [8, 5, 96, 7]" using b by (simp add: flat_bytes_def n v)
  have key: "wval_of (w_heap demo_packed) KNV_VARINT (key_GetValue (w_heap demo_packed) (n_key (nd demo_packed 0))) = WVarint 5"
    using k by (simp add: n key_GetValue_def key_GetIntVal_def wval_of_def int_value_def)
  have u: "unused demo_packed = {1..}" by (auto simp: unused_def demo_packed_def demo_world_def)
  have "spare demo_packed" by (simp add: spare_def demo_packed_def demo_world_def start_ctx_def KnvNode0_def key_default_def dyn_init_def)
  then show "expandable demo_packed 0 [(1, WVarint 5)] [(12, WVarint 7)]"
    using key by (auto simp: expandable_def Let_def u n v flat own_buffers_def enc_all_def enc_field_def varint_enc_small pb_tag_word_def
       wf_field_def is_meta_def UC_MAX_META_NUM_def ht_init_def KNV_DEFAULT_HT_SIZE_def)
  show bs: "tree_bytes enc_field demo_packed (NT 0 [] []) = [90, 4, 8, 5, 96, 7]"
    using b by (simp add: is_flat_def n v wval_of_def enc_field_def varint_enc_small pb_tag_word_def)
  show "tree_inv enc_field demo_packed (NT 0 [] [])"
    using b by (simp add: tree_inv_def tree_ok_def node_shape_def node_ok_def node_inv_def named_type_def n v has_parts_def counted_parts_def deep_val_def
      wval_of_def enc_field_def varint_enc_small pb_tag_word_def flat)
qed


end
