(* ===== verification/Knv_Stale.thy ===== *)
theory Knv_Stale
  imports Knv_Fold Knv_Expand
begin

text \<open>
  A node that is folded and expanded again.  \<open>Fold\<close> releases the children but leaves them in the hash table of the node; \<open>Expand\<close>
  gets the same objects back from the node pool and puts them into the table a second time.
\<close>

section \<open>A released child is used again\<close>

definition reused :: "nat \<Rightarrow> nat \<Rightarrow> knv_tag_t \<Rightarrow> world \<Rightarrow> bool" where
  "reused n c t w \<longleftrightarrow> h_tab (n_ht (nd w n)) (get_keyhash t [] (h_sz (n_ht (nd w n)))) = Some (Some c) \<and> w_ht_next w c = Some c \<and>
     node_kf w c = (t, [])"

lemma InitNode_varint:
  assumes "0 < fsz"
  shows "\<exists>w'. InitNode g c t KNV_VARINT (Some v) False True fsz fnk w = (0, w') \<and> w_mem w' = w_mem w \<and> w_ht_next w' = w_ht_next w \<and>
     (\<forall>i. i \<noteq> c \<longrightarrow> nd w' i = nd w i) \<and> n_tag (nd w' c) = t \<and> k_len (n_key (nd w' c)) = 0"
  using assms by (simp add: InitNode_def init_value_def init_key_def node_key_init_def key_init_def key_null_def Let_def InitChildList_def set_mem_state_def)

lemma expand_reused:
  assumes w: "w_free w = c # fr" "c \<noteq> n" and f: "f_type f = KNV_VARINT" "\<not> unat (f_tag f) \<le> UC_MAX_META_NUM" "0 < ptr_diff (f_ptr f) prev"
    and tab: "h_tab (n_ht (nd w n)) (get_keyhash (f_tag f) [] (h_sz (n_ht (nd w n)))) = Some (Some c)" "h_nr (n_ht (nd w n)) < int (h_sz (n_ht (nd w n)))"
  shows "\<exists>w'. expand_field g n fnk f prev w = Some (0, w') \<and> w_mem w' = w_mem w \<and> reused n c (f_tag f) w' \<and>
     n_tag (nd w' n) = n_tag (nd w n) \<and> n_child_num (nd w' n) = n_child_num (nd w n) + 1 \<and> h_sz (n_ht (nd w' n)) = h_sz (n_ht (nd w n))"
proof -
  let ?w1 = "upd n (n_childlist_update (\<lambda>xs. xs @ [c])) (w\<lparr>w_free := fr\<rparr>)" and ?h = "n_ht (nd w n)"
  obtain w2 where w2: "InitNode g c (f_tag f) KNV_VARINT (Some (f_val f)) False True (ptr_diff (f_ptr f) prev) fnk ?w1 = (0, w2)" "w_mem w2 = w_mem w"
    "w_ht_next w2 = w_ht_next w" "\<forall>i. i \<noteq> c \<longrightarrow> nd w2 i = nd ?w1 i" "n_tag (nd w2 c) = f_tag f" "k_len (n_key (nd w2 c)) = 0"
    using InitNode_varint [OF f(3), of g c "f_tag f" "f_val f" fnk ?w1] by auto
  let ?w3 = "upd c (n_parent_update (\<lambda>_. Some n)) w2"
  have n3: "nd ?w3 n = (nd w n)\<lparr>n_childlist := n_childlist (nd w n) @ [c]\<rparr>" using w(2) w2(4) by simp
  have kf: "node_kf ?w3 c = (f_tag f, [])" using w2(5,6) by (simp add: node_kf_def key_bytes_def)
  let ?i = "get_keyhash (f_tag f) [] (h_sz ?h)"
  have "node_ht_put n c ?w3 = Some (0, upd n (n_ht_update (\<lambda>_. ?h\<lparr>h_tab := (h_tab ?h)(?i \<mapsto> Some c), h_nr := h_nr ?h + 1\<rparr>))
      (?w3\<lparr>w_ht_next := (w_ht_next ?w3)(c \<mapsto> c), w_mem := w_mem w2\<rparr>))"
    using tab n3 by (simp add: node_ht_put_def ht_put_def kf slot_push_def Let_def set_mem_state_def)
  then have "expand_field g n fnk f prev w = Some (0, upd n (n_child_num_update (\<lambda>k. k + 1)) (upd n (n_ht_update (\<lambda>_. ?h\<lparr>h_tab := (h_tab ?h)(?i \<mapsto> Some c), h_nr := h_nr ?h + 1\<rparr>))
      (?w3\<lparr>w_ht_next := (w_ht_next ?w3)(c \<mapsto> c), w_mem := w_mem w2\<rparr>)))"
    using f w(1) w2(1,6) by (simp add: expand_field_def nodepool_New_def Let_def)
  then show ?thesis using n3 kf w2(2) w(2) by (simp add: reused_def node_kf_def)
qed

text \<open>From then on a lookup in the same slot does not return.\<close>

lemma FindChild_reused:
  assumes "reused n c t w" "n_tag (nd w n) \<noteq> 0" "0 < n_child_num (nd w n)"
    and "get_keyhash t' k (h_sz (n_ht (nd w n))) = get_keyhash t [] (h_sz (n_ht (nd w n)))" "(t', k) \<noteq> (t, [])"
  shows "FindChild g n t' k w = None"
proof -
  have "ht_walk (node_kf w) (w_ht_next w) t' k (Some c) \<noteq> Some r" for r
    using ht_walk_loop [of "node_kf w" "w_ht_next w" t' k "Some c" r c] assms(1,5) by (auto simp: reused_def)
  then have "ht_walk (node_kf w) (w_ht_next w) t' k (Some c) = None" by (cases "ht_walk (node_kf w) (w_ht_next w) t' k (Some c)") auto
  then have "node_ht_get n t' k w = None" using assms(1,4) by (simp add: node_ht_get_def ht_get_def reused_def)
  with assms(2,3) show ?thesis by (simp add: FindChild_def Expand_def InnerExpand_def)
qed

lemma Expand_reused:
  assumes g: "g = None \<or> g = Some pb_codecs" and w: "w_free w = c # fr" "c \<noteq> n"
    and n: "n_tag (nd w n) \<noteq> 0" "n_child_num (nd w n) < 0" "n_type (nd w n) = KNV_NODE"
      "\<not> (n_tag (nd w n) = 1 \<and> (case n_parent (nd w n) of Some p \<Rightarrow> k_len (n_key (nd w p)) \<noteq> 0 | None \<Rightarrow> False))"
    and data: "v_data (n_val (nd w n)) = Ptr b i" "unat (v_len (n_val (nd w n))) < 2 ^ 31"
    and M: "flat_bytes w n = enc_field t (WVarint u)" "wf_field (t, WVarint u)" "\<not> unat t \<le> UC_MAX_META_NUM"
    and tab: "h_tab (n_ht (nd w n)) (get_keyhash t [] (h_sz (n_ht (nd w n)))) = Some (Some c)" "h_nr (n_ht (nd w n)) < int (h_sz (n_ht (nd w n)))"
  shows "\<exists>w'. Expand g n w = Some (0, w') \<and> reused n c t w' \<and> n_tag (nd w' n) \<noteq> 0 \<and> 0 < n_child_num (nd w' n) \<and>
     h_sz (n_ht (nd w' n)) = h_sz (n_ht (nd w n))"
proof -
  let ?M = "flat_bytes w n"
  define w1 where "w1 = upd n (n_child_has_key_update (\<lambda>_. False)) (InitChildList 0 n w)"
  let ?f = "pb_start field0 (Ptr b i) (int (length ?M))"
  have w1: "n_tag (nd w1 p) = n_tag (nd w p)" "n_type (nd w1 n) = KNV_NODE" "n_parent (nd w1 n) = n_parent (nd w n)" "n_val (nd w1 n) = n_val (nd w n)"
    "n_key (nd w1 p) = n_key (nd w p)" "n_ht (nd w1 p) = n_ht (nd w p)" "w_mem w1 = w_mem w" "w_free w1 = w_free w" "n_child_num (nd w1 n) = 0" for p
    using n(3) by (simp_all add: w1_def InitChildList_def)
  have len: "length ?M = unat (v_len (n_val (nd w n)))" by (simp add: flat_bytes_def)
  have Mw: "bytes_at (w_heap w1) (Ptr b i) (length ?M) = ?M" by (simp add: flat_bytes_def data(1) w1)
  have at: "at_off (Ptr b i) (length ?M) 0 ?f" using data(2) len by (simp add: at_off_def pb_start_def)
  have sz: "to_int32 (uint (v_len (n_val (nd w n)))) = int (length ?M)" using to_int32_nat [OF data(2)] len by simp
  have ne: "(n_child_num (nd w n) \<ge> 0) = False" using n(2) by simp
  have run: "InnerExpand g n False w = (let (pf, f) = knv_next g (w_heap w1) ?f in if \<not> pf then Some (0, w1) else
      do { (ret, f, w) \<leftarrow> expand_loop g n False (Suc (length ?M)) f (Ptr b i) w1;
        if ret \<noteq> 0 then Some (ret, w)
        else (let w = upd n (n_subnode_dirty_update (\<lambda>_. False)) w in if \<not> f_eom f then do { w \<leftarrow> expand_reset n w; Some (0, w) } else Some (0, w)) })"
    unfolding InnerExpand_def ne if_False Let_def w1_def [symmetric] w1 knv_codec.begin_next [OF pb_knv_codec [OF g]] sz data(1) len [symmetric]
    using n(4) by (simp only: if_False simp_thms)
  have d: "drop 0 ?M = enc_field t (WVarint u) @ []" using M(1) by simp
  obtain f where f: "knv_next g (w_heap w1) ?f = (True, f)" "f_tag f = t" "f_type f = KNV_VARINT"
    "at_off (Ptr b i) (length ?M) (0 + length (enc_field t (WVarint u))) f"
    using knv_next_field [OF g at Mw d M(2)] by auto
  have "enc_field t (WVarint u) \<noteq> []" using pb.enc_ne [OF M(2)] by simp
  then have "0 < ptr_diff (f_ptr f) (Ptr b i)" using f(4) by (simp add: at_off_def)
  then obtain w2 where w2: "expand_field g n False f (Ptr b i) w1 = Some (0, w2)" "w_mem w2 = w_mem w1" "reused n c t w2"
    "n_tag (nd w2 n) = n_tag (nd w1 n)" "n_child_num (nd w2 n) = n_child_num (nd w1 n) + 1" "h_sz (n_ht (nd w2 n)) = h_sz (n_ht (nd w1 n))"
    using expand_reused [of w1 c fr n f "Ptr b i" g False] w M(3) tab f(2,3) by (auto simp: w1)
  have "pending (w_heap w2) f = []" "rd_ok f" using at_off_pending [OF f(4), of "w_heap w2"] Mw M(1) by (simp_all add: w2(2) w1(7))
  then obtain f' where f': "knv_next g (w_heap w2) f = (False, f')" "f_eom f'"
    using knv_codec.next_end [OF pb_knv_codec [OF g]] by blast
  have "InnerExpand g n False w = Some (0, upd n (n_subnode_dirty_update (\<lambda>_. False)) w2)" using run f(1) w2(1) f' by simp
  then show ?thesis using n(1) w(2) w2(3-6) w1(1,6,9) by (simp add: Expand_def reused_def node_kf_def)
qed

section \<open>Fold, then look up\<close>

lemma ht_ok_single:
  assumes "ht_ok kf nx ht {c}" "kf c = (t, k)"
  shows "h_tab ht (get_keyhash t k (h_sz ht)) = Some (Some c)" "h_nr ht < int (h_sz ht)"
proof -
  from assms(1) obtain xs where rep: "slots_rep nx (h_tab ht) xs" and ok: "slots_ok kf (h_sz ht) xs {c}" and sz: "h_sz ht \<in> {32, 256, 8192}" "h_nr ht = 1"
    by (auto simp: ht_ok_def)
  let ?i = "get_keyhash t k (h_sz ht)"
  have "set (xs ?i) = {c}" "distinct (xs ?i)" using ok assms(2) by (auto simp: slots_ok_def slot_of_def)
  then have "xs ?i = [c]" by (cases "xs ?i") (auto simp: subset_singleton_iff)
  then show "h_tab ht ?i = Some (Some c)" using slots_repD(2,3) [OF rep, of ?i] by (cases "h_tab ht ?i") auto
  show "h_nr ht < int (h_sz ht)" using sz by auto
qed


text \<open>Tag 44 selects the slot of the child with tag 12.\<close>

definition demo_table :: world where
  "demo_table = \<lparr>
     w_nodes = (\<lambda>_. KnvNode0)(
       0 := KnvNode0\<lparr>n_tag := 11, n_child_num := 1, n_childlist := [1], n_subnode_dirty := True,
         n_ht := ht_init\<lparr>h_nr := 1, h_tab := (\<lambda>_. None)(12 \<mapsto> Some 1)\<rparr>\<rparr>,
       1 := KnvNode0\<lparr>n_tag := 12, n_type := KNV_VARINT, n_val := int_value 5, n_child_num := 0, n_parent := Some 0\<rparr>),
     w_ht_next = (\<lambda>_. None), w_free = [], w_count = 2, w_pool = True, w_mem = (GetInstance, start_ctx), w_errorstr = None\<rparr>"


end
