(* ===== verification/Knv_Inside.thy ===== *)
theory Knv_Inside
  imports Knv_Fold
begin

text \<open>
  Folding inside of a tree: when a part of a tree is replaced by one that stands for the same field, the invariant of the tree holds
  up to the root without any update of the ancestors.
\<close>

section \<open>Parts that stand for the same field\<close>

definition same_part :: "(u32 \<Rightarrow> wval \<Rightarrow> byte list) \<Rightarrow> world \<Rightarrow> world \<Rightarrow> ntree \<Rightarrow> ntree \<Rightarrow> bool" where
  "same_part enc w w' p p' \<longleftrightarrow> rt p' = rt p \<and> tree_inv enc w' p' \<and> deep_bytes enc w' p' = deep_bytes enc w p \<and>
     n_tag (nd w' (rt p)) = n_tag (nd w (rt p)) \<and> n_parent (nd w' (rt p)) = n_parent (nd w (rt p)) \<and>
     (n_subnode_dirty (nd w' (rt p)) \<longrightarrow> n_subnode_dirty (nd w (rt p))) \<and> (n_eval_sz (nd w' (rt p)) < 0 \<longrightarrow> n_eval_sz (nd w (rt p)) < 0)"

lemma same_part_view:
  assumes "tree_inv enc w p" "\<And>i. i \<in> set (ids p) \<Longrightarrow> nd w' i = nd w i \<and> same_view w w' i"
  shows "same_part enc w w' p p"
  using assms tree_inv_view [of p w' w enc] deep_bytes_view [of p w w' enc] by (simp add: same_part_def)

lemma map_all2: "list_all2 R xs ys \<Longrightarrow> (\<And>x y. R x y \<Longrightarrow> f y = g x) \<Longrightarrow> map f ys = map g xs"
  by (induction rule: list_all2_induct) auto

lemma all2_set: "list_all2 R xs ys \<Longrightarrow> y \<in> set ys \<Longrightarrow> \<exists>x \<in> set xs. R x y"
  by (induction rule: list_all2_induct) auto

lemma same_parts:
  assumes inv: "tree_inv enc w (NT n ms cs)" and m: "list_all2 (same_part enc w w') ms ms'" and c: "list_all2 (same_part enc w w') cs cs'"
    and n: "nd w' n = nd w n" "same_view w w' n" and dist: "distinct (ids (NT n ms' cs'))"
  shows "same_part enc w w' (NT n ms cs) (NT n ms' cs')"
proof -
  let ?t = "NT n ms cs" and ?t' = "NT n ms' cs'"
  have rts: "map rt ms' = map rt ms" "map rt cs' = map rt cs" using m c by (auto intro!: map_all2 [of "same_part enc w w'"] simp: same_part_def)
  have db: "map (deep_bytes enc w') ms' = map (deep_bytes enc w) ms" "map (deep_bytes enc w') cs' = map (deep_bytes enc w) cs"
    using m c by (auto intro!: map_all2 [of "same_part enc w w'"] simp: same_part_def)
  have "\<exists>y \<in> set ms'. same_part enc w w' x y" if "x \<in> set ms" for x
    using m that by (induction rule: list_all2_induct) auto
  then have tags: "n_tag (nd w' (rt x)) = n_tag (nd w (rt x))" if "x \<in> set ms" for x using that by (auto simp: same_part_def)
  have part: "\<exists>q. same_part enc w w' q p \<and> q \<in> set ms \<union> set cs" if "p \<in> set ms' \<union> set cs'" for p
    using that all2_set [OF m, of p] all2_set [OF c, of p] by auto
  have skip: "key_skip w' n ms' = key_skip w n ms"
    by (rule key_skip_cong [OF _ rts(1) tags]) (simp add: n(1))
  have cp: "list_all2 (same_part enc w w') (counted_parts w ?t) (counted_parts w' ?t')"
    unfolding counted_parts_def ntree.sel skip by (intro list_all2_appendI c list_all2_dropI m)
  have counted: "\<exists>q \<in> set (counted_parts w ?t). same_part enc w w' q p" if "p \<in> set (counted_parts w' ?t')" for p
    using all2_set [OF cp that] .
  have ne: "ms' = [] \<longleftrightarrow> ms = []" "cs' = [] \<longleftrightarrow> cs = []" using list_all2_lengthD [OF m] list_all2_lengthD [OF c] by auto
  have kp: "key_part enc w' n = key_part enc w n" by (rule key_part_view [OF n(2)])
  have fl: "n_type (nd w n) = KNV_NODE \<Longrightarrow> flat_bytes w' n = flat_bytes w n"
    using n by (simp add: same_view_def same_data_def wval_of_def flat_bytes_def)
  have dv: "deep_val enc w' ?t' = deep_val enc w ?t"
    unfolding deep_val_def ntree.sel ne n(1) kp skip db using fl by (cases "n_type (nd w n) = KNV_NODE") simp_all
  have "wval_of (w_heap w') (n_type (nd w n)) (n_val (nd w n)) = wval_of (w_heap w) (n_type (nd w n)) (n_val (nd w n))"
    using n by (simp add: same_view_def same_data_def)
  then have dbt: "deep_bytes enc w' ?t' = deep_bytes enc w ?t" by (simp only: deep_bytes.simps ne n(1) kp skip db)
  have ni: "node_inv enc w ?t" and ok: "tree_ok w ?t" using inv by (simp_all add: tree_inv_NT)
  have "node_shape w' n ms' cs'"
    using ok ne list_all2_lengthD [OF c] by (simp add: tree_ok_def node_shape_def n(1) rts split: if_splits)
  moreover have "n_parent (nd w' (rt p)) = Some n" "shape w' p" "\<forall>i \<in> set (ids p). node_ok (nd w' i)" if p: "p \<in> set ms' \<union> set cs'" for p
  proof -
    obtain q where q: "same_part enc w w' q p" "q \<in> set ms \<union> set cs" using part [OF p] by blast
    then have "n_parent (nd w (rt q)) = Some n" using ok by (auto simp: tree_ok_def)
    with q(1) show "n_parent (nd w' (rt p)) = Some n" "shape w' p" "\<forall>i \<in> set (ids p). node_ok (nd w' i)"
      by (simp_all add: same_part_def tree_inv_def tree_ok_def)
  qed
  ultimately have ok': "tree_ok w' ?t'" using ok dist n(1) by (auto simp: tree_ok_def)
  have "node_inv enc w' ?t'"
    unfolding node_inv_def ntree.sel n(1) dv dbt
  proof (intro conjI ballI impI)
    fix q'
    assume "q' \<in> set ms' \<union> set cs'" "n_subnode_dirty (nd w' (rt q'))"
    with part [of q'] ni show "n_subnode_dirty (nd w n)" by (auto simp: node_inv_def same_part_def)
  next
    fix q'
    assume "q' \<in> set (counted_parts w' ?t')" "n_eval_sz (nd w' (rt q')) < 0"
    with counted [of q'] ni show "n_eval_sz (nd w n) < 0" by (auto simp: node_inv_def same_part_def)
  qed (use ni fl ne in \<open>auto simp: node_inv_def has_parts_def simp del: deep_bytes.simps\<close>)
  moreover have "\<forall>p \<in> set ms' \<union> set cs'. tree_inv enc w' p" using part by (auto simp: same_part_def)
  ultimately have "tree_inv enc w' ?t'" using ok' by (simp add: tree_inv_NT)
  with dbt n(1) show ?thesis by (simp add: same_part_def del: deep_bytes.simps)
qed

text \<open>Up to the root.\<close>

lemma repl_same_part:
  "repl w s s' t t' d \<Longrightarrow> same_part enc w w' s s' \<Longrightarrow> tree_inv enc w t \<Longrightarrow> distinct (ids t') \<Longrightarrow>
   (\<And>i. i \<in> set (ids t) \<Longrightarrow> i \<notin> set (ids s) \<Longrightarrow> nd w' i = nd w i \<and> same_view w w' i) \<Longrightarrow> same_part enc w w' t t'"
proof (induction rule: repl.induct)
  case (repl_part q q' d n ms cs ms' cs')
  let ?t = "NT n ms cs" and ?t' = "NT n ms' cs'"
  note view = repl_part.prems(4)
  have dt: "distinct (ids ?t)" using repl_part.prems(2) by (simp add: tree_inv_def tree_ok_def)
  have q: "q \<in> set ms \<union> set cs" "q' \<in> set ms' \<union> set cs'" using repl_part.hyps(2) by (auto simp: swap_def)
  have sq: "set (ids s) \<subseteq> set (ids q)" by (rule repl_ids [OF repl_part.hyps(1)])
  have tq: "tree_inv enc w p" if "p \<in> set ms \<union> set cs" for p using repl_part.prems(2) that by (auto simp: tree_inv_NT)
  have vq: "nd w' i = nd w i \<and> same_view w w' i" if "i \<in> set (ids q)" "i \<notin> set (ids s)" for i
    using view [of i] ids_sub [OF q(1), of n] that by blast
  have q'sub: "q' \<in> set (subtrees ?t')" using q(2) by (cases q') (auto intro: bexI [of _ q'])
  have qq: "same_part enc w w' q q'"
    using repl_part.IH [OF repl_part.prems(1) tq [OF q(1)] distinct_subtree [OF repl_part.prems(3) q'sub] vq] .
  have other: "same_part enc w w' p p" if p: "p \<in> set ms \<union> set cs" "p \<noteq> q" for p
  proof (rule same_part_view [OF tq [OF p(1)]])
    fix i
    assume i: "i \<in> set (ids p)"
    then have "i \<notin> set (ids s)" using part_ids_disjoint [OF dt p(1) q(1) p(2)] sq by blast
    then show "nd w' i = nd w i \<and> same_view w w' i" using view [of i] ids_sub [OF p(1), of n] i by blast
  qed
  have refl: "list_all2 (same_part enc w w') zs zs" if "set zs \<subseteq> set ms \<union> set cs" "q \<notin> set zs" for zs
    using that other by (auto simp: list_all2_same)
  have once: "distinct (concat (map ids ms) @ concat (map ids cs))" "distinct (concat (map ids ms))" "distinct (concat (map ids cs))" using dt by simp_all
  have all: "list_all2 (same_part enc w w') ms ms'" "list_all2 (same_part enc w w') cs cs'"
  proof -
    consider (m) as bs where "ms = as @ q # bs" "ms' = as @ q' # bs" "cs' = cs" | (c) as bs where "cs = as @ q # bs" "cs' = as @ q' # bs" "ms' = ms"
      using repl_part.hyps(2) by (auto simp: swap_def)
    then have "list_all2 (same_part enc w w') ms ms' \<and> list_all2 (same_part enc w w') cs cs'"
    proof cases
      case m
      have "q \<notin> set as \<union> set bs" using part_once once(2) unfolding m(1) .
      moreover have "q \<notin> set cs" using part_one_side [OF once(1), of q] m(1) by simp
      ultimately have "list_all2 (same_part enc w w') as as" "list_all2 (same_part enc w w') bs bs" "list_all2 (same_part enc w w') cs cs"
        using m(1) by (auto intro!: refl)
      then show ?thesis unfolding m using qq by (intro conjI list_all2_appendI list.rel_intros(2))
    next
      case c
      have "q \<notin> set as \<union> set bs" using part_once once(3) unfolding c(1) .
      moreover have "q \<notin> set ms" using part_one_side [OF once(1), of q] c(1) by simp
      ultimately have "list_all2 (same_part enc w w') as as" "list_all2 (same_part enc w w') bs bs" "list_all2 (same_part enc w w') ms ms"
        using c(1) by (auto intro!: refl)
      then show ?thesis unfolding c using qq by (intro conjI list_all2_appendI list.rel_intros(2))
    qed
    then show "list_all2 (same_part enc w w') ms ms'" "list_all2 (same_part enc w w') cs cs'" by blast+
  qed
  have "n \<notin> set (ids s)" using dt sq q(1) by auto
  then have n: "nd w' n = nd w n" "same_view w w' n" using view [of n] by simp_all
  show ?case by (rule same_parts [OF repl_part.prems(2) all n repl_part.prems(3)])
qed

section \<open>A node of a tree is folded\<close>


text \<open>A tree of three levels: the node in the middle is folded.\<close>

definition demo_deep :: world where
  "demo_deep = demo_edit\<lparr>w_count := 3, w_nodes := (\<lambda>_. KnvNode0)(
     0 := KnvNode0\<lparr>n_tag := 11, n_child_num := 1, n_childlist := [1], n_subnode_dirty := True, n_eval_sz := 6, n_eval_val_sz := 4\<rparr>,
     1 := KnvNode0\<lparr>n_tag := 12, n_child_num := 1, n_childlist := [2], n_subnode_dirty := True, n_parent := Some 0, n_eval_sz := 4, n_eval_val_sz := 2\<rparr>,
     2 := KnvNode0\<lparr>n_tag := 13, n_type := KNV_VARINT, n_val := int_value 5, n_child_num := 0, n_parent := Some 1, n_eval_sz := 2\<rparr>)\<rparr>"


end
