(* ===== verification/Knv_Find.thy ===== *)
theory Knv_Find
  imports Knv_Remove
begin

text \<open>
  Insertion and lookup: after \<open>InsertChild\<close> the hash table of the node holds its children and the new one, and \<open>FindChild\<close> finds
  exactly them.
\<close>

section \<open>An edit changes nodes only\<close>

lemma update_ancestors_nodes: "update_ancestors g k p ud ue off w = Some w' \<Longrightarrow> w_mem w' = w_mem w \<and> w_ht_next w' = w_ht_next w"
proof (induction k arbitrary: p ud ue off w)
  case 0
  then show ?case by (cases p) (auto split: if_splits)
next
  case (Suc k)
  show ?case
  proof (cases p)
    case (Some q)
    from Suc.IH Suc.prems [unfolded Some climb_step [OF refl refl]] show ?thesis by fastforce
  qed (use Suc.prems in simp)
qed

lemma finish_edit_nodes:
  assumes "finish_edit g n off w = Some w'"
  shows "w_mem w' = w_mem w \<and> w_ht_next w' = w_ht_next w"
proof -
  obtain off' w1 where w1: "(if n_eval_sz (nd w n) \<ge> 0 then UPDATE_EVAL_SZ g n off w else (off, w)) = (off', w1)" by fastforce
  then have "w_mem (SET_VALUE_DIRTY n w1) = w_mem w \<and> w_ht_next (SET_VALUE_DIRTY n w1) = w_ht_next w"
    by (auto simp: SET_VALUE_DIRTY_def UPDATE_EVAL_SZ_def Let_def split: if_splits)
  moreover have "w_mem w' = w_mem (SET_VALUE_DIRTY n w1) \<and> w_ht_next w' = w_ht_next (SET_VALUE_DIRTY n w1)"
    using assms w1 update_ancestors_nodes by (fastforce simp: finish_edit_def UpdateParentEvalueAndSetDirty_def)
  ultimately show ?thesis by simp
qed

section \<open>The table after an insertion\<close>

lemma INSERT_CHILD_table:
  assumes ht: "ht_ok (node_kf w) (w_ht_next w) (n_ht (nd w n)) S" "c \<notin> S" and ne: "n \<noteq> c"
    and room: "h_nr (n_ht (nd w n)) + 1 \<le> int (h_sz (n_ht (nd w n)))"
  shows "\<exists>w1. INSERT_CHILD n c b (upd c (n_parent_update (\<lambda>_. Some n)) w) = Some w1 \<and>
     ht_ok (node_kf w) (w_ht_next w1) (n_ht (nd w1 n)) (insert c S) \<and> (\<forall>i. node_kf w1 i = node_kf w i)"
proof -
  let ?w = "upd n (n_childlist_update (\<lambda>xs. if b then xs @ [c] else c # xs)) (upd c (n_parent_update (\<lambda>_. Some n)) w)"
  have kf: "node_kf ?w = node_kf w" using ne by (auto simp: node_kf_def fun_eq_iff)
  obtain r nx ht' s where p: "ht_put (node_kf w) c (w_ht_next w) (n_ht (nd w n)) (w_mem w) = Some (r, nx, ht', s)"
    "if r = 0 then ht_ok (node_kf w) nx ht' (insert c S) else ht_ok (node_kf w) nx ht' S"
    using ht_put_ok [OF ht] by blast
  have r: "r = 0" "s = w_mem w" using p(1) room by (auto simp: ht_put_def Let_def)
  have "node_ht_put n c ?w = Some (0, upd n (n_ht_update (\<lambda>_. ht')) (set_mem_state (w_mem w) (?w\<lparr>w_ht_next := nx\<rparr>)))"
    using p(1) r ne by (simp add: node_ht_put_def kf)
  then show ?thesis using p(2) r(1) ne by (auto simp: INSERT_CHILD_def set_mem_state_def node_kf_def)
qed

context knv_codec
begin

lemma InsertChild_table:
  assumes run: "InsertChild g n (Some c) True own b w = Some (0, w')" and n: "n_tag (nd w n) \<noteq> 0" "n_type (nd w n) = KNV_NODE" "n_child_num (nd w n) \<ge> 0"
    and ht: "ht_ok (node_kf w) (w_ht_next w) (n_ht (nd w n)) S" "c \<notin> S" "n \<noteq> c"
    and room: "h_nr (n_ht (nd w n)) + 1 \<le> int (h_sz (n_ht (nd w n)))" and ev: "n_eval_sz (nd w n) \<ge> 0 \<Longrightarrow> n_eval_sz (nd w c) \<ge> 0"
  shows "ht_ok (node_kf w') (w_ht_next w') (n_ht (nd w' n)) (insert c S) \<and> node_kf w' = node_kf w"
proof -
  obtain w1 where w1: "INSERT_CHILD n c b (upd c (n_parent_update (\<lambda>_. Some n)) w) = Some w1"
    "ht_ok (node_kf w) (w_ht_next w1) (n_ht (nd w1 n)) (insert c S)" "\<forall>i. node_kf w1 i = node_kf w i"
    using INSERT_CHILD_table [OF ht room] by blast
  have e: "n_eval_sz (nd w1 n) = n_eval_sz (nd w n)" "n_eval_sz (nd w1 c) = n_eval_sz (nd w c)" using INSERT_CHILD_ok [OF ht(3) room, of b] w1(1) by (auto simp: Let_def)
  obtain off where fe: "finish_edit g n off w1 = Some w'"
    using run n w1(1) e ev EvaluateSize_known [of w1 c] by (auto simp: InsertChild_def InnerInsertChild_def expand_if_folded_def split: if_splits bind_splits)
  note l = finish_edit_links [OF fe] finish_edit_nodes [OF fe]
  have "node_kf w' = node_kf w" using l w1(3) by (simp add: same_links_def node_kf_def fun_eq_iff)
  then show ?thesis using l w1(2) by (simp add: same_links_def)
qed

end

lemma FindChild_table:
  assumes "n_tag (nd w n) \<noteq> 0" "0 < n_child_num (nd w n)" "ht_ok (node_kf w) (w_ht_next w) (n_ht (nd w n)) S"
  shows "\<exists>r. FindChild g n tg k w = Some (r, w) \<and>
     (case r of None \<Rightarrow> \<forall>c \<in> S. node_kf w c \<noteq> (tg, k) | Some c \<Rightarrow> c \<in> S \<and> node_kf w c = (tg, k))"
  using ht_get_ok [OF assms(3), of tg k] assms(1,2) by (auto simp: FindChild_def Expand_def InnerExpand_def node_ht_get_def)

section \<open>Insert, then find\<close>

text \<open>
  C13. When the hash table of an expanded node holds its children, it holds them and the new child after \<open>InsertChild\<close>.  From then on
  \<open>FindChild\<close> changes nothing and returns a child with the given tag and key, the new one included, and null when there is none.
\<close>

theorem insert_then_find:
  assumes "g = None \<or> g = Some pb_codecs" "repl w (NT n ms cs) (NT n ms (add_kid b u cs)) t t' d"
    and "tree_inv enc_field w t" "tree_inv enc_field w u" "distinct (ids t')" "length (deep_bytes enc_field w t') < 2 ^ 31"
    and "n_parent (nd w (rt t)) = None" "\<forall>i \<in> set (ids t). i < w_count w" "n_type (nd w n) = KNV_NODE" "n_child_num (nd w n) \<ge> 0"
    and "has_parts (NT n ms cs) \<or> (v_len (n_val (nd w n)) = 0 \<and> \<not> keyed (nd w n))"
    and "n_eval_sz (nd w n) \<ge> 0 \<Longrightarrow> n_eval_sz (nd w (rt u)) \<ge> 0" "h_nr (n_ht (nd w n)) + 1 \<le> int (h_sz (n_ht (nd w n)))"
    and "ht_ok (node_kf w) (w_ht_next w) (n_ht (nd w n)) (set (map rt cs))"
  shows "\<exists>w'. InsertChild g n (Some (rt u)) True own b w = Some (0, w') \<and>
     ht_ok (node_kf w') (w_ht_next w') (n_ht (nd w' n)) (set (map rt (add_kid b u cs))) \<and>
     (\<forall>tg k. \<exists>r. FindChild g n tg k w' = Some (r, w') \<and>
        (case r of None \<Rightarrow> \<forall>c \<in> set (map rt (add_kid b u cs)). node_kf w c \<noteq> (tg, k)
         | Some c \<Rightarrow> c \<in> set (map rt (add_kid b u cs)) \<and> node_kf w c = (tg, k)))"
proof -
  have "length (ids t) \<le> w_count w" using assms(3,8) by (intro length_ids_le) (simp_all add: tree_inv_def)
  then obtain w' where w': "InsertChild g n (Some (rt u)) True own b w = Some (0, w')" "tree_inv enc_field w' t'"
    using knv_codec.InsertChild_ok [OF pb_knv_codec [OF assms(1)] assms(2-7) _ assms(9-13)] by blast
  have ds: "distinct (ids (NT n ms (add_kid b u cs)))" by (rule distinct_subtree [OF assms(5) repl_new [OF assms(2)]])
  then have "distinct (map rt (add_kid b u cs))" by (intro distinct_roots) simp
  then have u: "rt u \<notin> set (map rt cs)" "set (map rt (add_kid b u cs)) = insert (rt u) (set (map rt cs))" by (auto simp: add_kid_def split: if_splits)
  have nu: "n \<noteq> rt u" using add_kid_disjoint [OF ds] rt_in_ids [of u] by auto
  have "tree_inv enc_field w (NT n ms cs)" by (rule tree_inv_subtree [OF assms(3) repl_old [OF assms(2)]])
  then have tag: "n_tag (nd w n) \<noteq> 0" by (simp add: tree_inv_def tree_ok_def node_ok_def)
  note tab = knv_codec.InsertChild_table [OF pb_knv_codec [OF assms(1)] w'(1) tag assms(9,10,14) u(1) nu assms(13,12)]
  have "tree_inv enc_field w' (NT n ms (add_kid b u cs))" by (rule tree_inv_subtree [OF w'(2) repl_new [OF assms(2)]])
  then have n': "n_tag (nd w' n) \<noteq> 0" "0 < n_child_num (nd w' n)"
    by (auto simp: tree_inv_def tree_ok_def node_ok_def node_shape_def add_kid_def split: if_splits)
  have ht: "ht_ok (node_kf w') (w_ht_next w') (n_ht (nd w' n)) (set (map rt (add_kid b u cs)))" using tab unfolding u(2) by blast
  have kf: "node_kf w' = node_kf w" using tab by blast
  have "\<exists>r. FindChild g n tg k w' = Some (r, w') \<and>
      (case r of None \<Rightarrow> \<forall>c \<in> set (map rt (add_kid b u cs)). node_kf w c \<noteq> (tg, k)
       | Some c \<Rightarrow> c \<in> set (map rt (add_kid b u cs)) \<and> node_kf w c = (tg, k))" for tg k
    using FindChild_table [OF n' ht, of g tg k] unfolding kf .
  with w'(1) ht show ?thesis by blast
qed

text \<open>A third child is inserted in front of the two of \<open>demo_kids\<close>.\<close>

definition demo_third :: world where
  "demo_third = demo_kids\<lparr>w_count := 4, w_nodes := (w_nodes demo_kids)(
     3 := KnvNode0\<lparr>n_tag := 14, n_type := KNV_VARINT, n_val := int_value 1, n_child_num := 0, n_eval_sz := 2\<rparr>)\<rparr>"

theorem insert_then_find_witness:
  "\<exists>w'. InsertChild None 0 (Some 3) True False False demo_third = Some (0, w') \<and> FindChild None 0 14 [] w' = Some (Some 3, w') \<and>
     FindChild None 0 12 [] w' = Some (Some 1, w') \<and> FindChild None 0 15 [] w' = Some (None, w')"
proof -
  let ?cs = "[NT 1 [] [], NT 2 [] []]" and ?u = "NT 3 [] []"
  let ?t = "NT 0 [] ?cs" and ?t' = "NT 0 [] (add_kid False ?u ?cs)"
  note simps = demo_third_def demo_kids_def demo_edit_simps demo_owner_def
  have inv: "tree_inv enc_field demo_third ?t" "tree_inv enc_field demo_third ?u" by (simp_all add: simps flat_bytes_def)
  have "deep_bytes enc_field demo_third ?t' = [90, 6, 112, 1, 96, 5, 106, 0]" by (simp add: add_kid_def simps)
  then have small: "length (deep_bytes enc_field demo_third ?t') < 2 ^ 31" by simp
  have r: "repl demo_third ?t ?t' ?t ?t' 0" by (rule repl_here)
  have kf: "node_kf demo_third 1 = (12, [])" "node_kf demo_third 2 = (13, [])" "node_kf demo_third 3 = (14, [])"
    by (simp_all add: node_kf_def key_bytes_def simps)
  have "ht_ok (node_kf demo_third) (w_ht_next demo_kids) (n_ht (nd demo_kids 0)) {1, 2}"
    by (rule ht_ok_cong [OF demo_kids_ht]) (use kf demo_kids_kf in auto)
  then have ht: "ht_ok (node_kf demo_third) (w_ht_next demo_third) (n_ht (nd demo_third 0)) (set (map rt ?cs))"
    by (simp add: demo_third_def)
  have side: "distinct (ids ?t')" "n_parent (nd demo_third (rt ?t)) = None" "\<forall>i \<in> set (ids ?t). i < w_count demo_third"
    "n_type (nd demo_third 0) = KNV_NODE" "n_child_num (nd demo_third 0) \<ge> 0" "n_eval_sz (nd demo_third (rt ?u)) \<ge> 0"
    "h_nr (n_ht (nd demo_third 0)) + 1 \<le> int (h_sz (n_ht (nd demo_third 0)))"
    by (simp_all add: add_kid_def demo_third_def demo_kids_def KnvNode0_def ht_init_def KNV_DEFAULT_HT_SIZE_def)
  have S: "set (map rt (add_kid False ?u ?cs)) = {3, 1, 2}" by (simp add: add_kid_def)
  obtain w' where w': "InsertChild None 0 (Some (rt ?u)) True False False demo_third = Some (0, w')"
    "\<forall>tg k. \<exists>r. FindChild None 0 tg k w' = Some (r, w') \<and> (case r of None \<Rightarrow> \<forall>c \<in> {3, 1, 2}. node_kf demo_third c \<noteq> (tg, k)
       | Some c \<Rightarrow> c \<in> {3, 1, 2} \<and> node_kf demo_third c = (tg, k))"
    using insert_then_find [OF disjI1 [OF refl] r inv side(1) small side(2-5) _ side(6,7) ht, of False] unfolding S by (auto simp: has_parts_def)
  have find: "FindChild None 0 tg [] w' = Some (r, w')"
    if "r = (if tg = 14 then Some 3 else if tg = 12 then Some 1 else None)" "tg \<noteq> 13" for tg r
  proof -
    obtain q where q: "FindChild None 0 tg [] w' = Some (q, w')" "case q of None \<Rightarrow> \<forall>c \<in> {3, 1, 2}. node_kf demo_third c \<noteq> (tg, [])
       | Some c \<Rightarrow> c \<in> {3, 1, 2} \<and> node_kf demo_third c = (tg, [])" using w'(2) by blast
    have "q = r"
    proof (cases q)
      case None
      then show ?thesis using q(2) kf that(1) by simp
    next
      case (Some c)
      then have "c = 3 \<or> c = 1 \<or> c = 2" "node_kf demo_third c = (tg, [])" using q(2) by simp_all
      then show ?thesis using kf that Some by (elim disjE) simp_all
    qed
    with q(1) show ?thesis by simp
  qed
  show ?thesis using w'(1) find [of "Some 3" 14] find [of "Some 1" 12] find [of None 15] by (intro exI [of _ w']) simp
qed

end
