(* ===== verification/Knv_Split.thy ===== *)
theory Knv_Split
  imports Knv_Encode
begin

text \<open>
  Iteration over the requests of a package, and the return codes of the operations that split packages.
\<close>

section \<open>Requests\<close>

text \<open>The children \<open>cs\<close> of \<open>t\<close>, linked through their parent.\<close>

definition kids_linked :: "world \<Rightarrow> nat \<Rightarrow> nat list \<Rightarrow> bool" where
  "kids_linked w t cs \<longleftrightarrow> n_childlist (nd w t) = cs \<and> distinct cs \<and>
     (\<forall>c \<in> set cs. n_parent (nd w c) = Some t \<and> c < w_count w \<and> c \<notin> set (n_metalist (nd w t)))"

lemma kids_linked_no_err [simp]: "kids_linked (no_err n w) t cs = kids_linked w t cs"
  by (auto simp: kids_linked_def no_err_def set_err_def)

lemma node_next_kids:
  assumes "kids_linked w t cs" "cs = xs @ c # ys"
  shows "node_next w c = (case ys of [] \<Rightarrow> None | d # _ \<Rightarrow> Some d)"
proof -
  have "siblings w c = cs" using assms by (simp add: kids_linked_def siblings_def)
  moreover have "dropWhile (\<lambda>d. d \<noteq> c) cs = c # ys" using assms by (auto simp: kids_linked_def dropWhile_append)
  ultimately show ?thesis by (cases ys) (simp_all add: node_next_def)
qed

lemma seek_kids:
  assumes "kids_linked w t cs" "cs = xs @ ys" "length ys \<le> k"
  shows "\<exists>w'. seek_tag k tg (case ys of [] \<Rightarrow> None | d # _ \<Rightarrow> Some d) w = Some (find (\<lambda>c. n_tag (nd w c) = tg) ys, w')"
  using assms
proof (induction ys arbitrary: k w xs)
  case Nil
  then show ?case by simp
next
  case (Cons c ys)
  obtain j where k: "k = Suc j" using Cons.prems(3) by (cases k) auto
  have tags: "n_tag (nd (no_err c w) d) = n_tag (nd w d)" for d by (simp add: no_err_def set_err_def)
  have "\<exists>w'. seek_tag j tg (case ys of [] \<Rightarrow> None | d # _ \<Rightarrow> Some d) (no_err c w) = Some (find (\<lambda>c. n_tag (nd w c) = tg) ys, w')"
    using Cons.IH [of "no_err c w" "xs @ [c]" j] Cons.prems k by (simp add: tags)
  then show ?case using node_next_kids [OF Cons.prems(1,2)] by (simp add: k GetSibling_def)
qed

lemma kids_fuel: "kids_linked w t cs \<Longrightarrow> length cs \<le> w_count w"
  using card_mono [of "{..<w_count w}" "set cs"] by (auto simp: kids_linked_def distinct_card)

text \<open>
  C28. \<open>GetNextRequest\<close> returns for every well-formed package, and moves the current body to the next child of the tree that
  has the body tag; after the last one it returns null and leaves the current body.
\<close>

theorem next_request:
  assumes "kids_linked w t cs" "cs = xs @ b # ys" "p_body p = Some b"
  shows "\<exists>w'. GetNextRequest p w =
     Some (find (\<lambda>c. n_tag (nd w c) = KNV_PKG_BDY_TAG) ys,
           case find (\<lambda>c. n_tag (nd w c) = KNV_PKG_BDY_TAG) ys of None \<Rightarrow> p | Some c \<Rightarrow> p\<lparr>p_body := Some c\<rparr>, w')"
proof -
  have tags: "n_tag (nd (no_err b w) d) = n_tag (nd w d)" for d by (simp add: no_err_def set_err_def)
  have "length ys \<le> Suc (w_count w)" using kids_fuel [OF assms(1)] assms(2) by simp
  moreover have "w_count (no_err b w) = w_count w" by (simp add: no_err_def set_err_def)
  ultimately obtain w' where "FindFirstBody (case ys of [] \<Rightarrow> None | d # _ \<Rightarrow> Some d) (no_err b w) =
      Some (find (\<lambda>c. n_tag (nd w c) = KNV_PKG_BDY_TAG) ys, w')"
    using seek_kids [of "no_err b w" t cs "xs @ [b]" ys "Suc (w_count w)" KNV_PKG_BDY_TAG] assms(1,2)
    by (auto simp: FindFirstBody_def tags)
  then show ?thesis using assms(3) node_next_kids [OF assms(1,2)]
    by (auto simp: GetNextRequest_def GetSibling_def split: option.splits)
qed

definition demo_requests :: world where
  "demo_requests = demo_world\<lparr>w_count := 4, w_nodes := (\<lambda>_. KnvNode0)(
     0 := KnvNode0\<lparr>n_tag := KNV_PKG_TAG, n_child_num := 3, n_childlist := [1, 2, 3]\<rparr>,
     1 := KnvNode0\<lparr>n_tag := KNV_PKG_BDY_TAG, n_parent := Some 0\<rparr>,
     2 := KnvNode0\<lparr>n_tag := KNV_PKG_HDR_TAG, n_parent := Some 0\<rparr>,
     3 := KnvNode0\<lparr>n_tag := KNV_PKG_BDY_TAG, n_parent := Some 0\<rparr>)\<rparr>"

theorem next_request_witness:
  "\<exists>w'. GetNextRequest (demo_proto\<lparr>p_body := Some 1\<rparr>) demo_requests = Some (Some 3, demo_proto\<lparr>p_body := Some 3\<rparr>, w')"
proof -
  have "kids_linked demo_requests 0 [1, 2, 3]" by (simp add: kids_linked_def demo_requests_def KnvNode0_def)
  from next_request [OF this, of "[]" 1 "[2, 3]" "demo_proto\<lparr>p_body := Some 1\<rparr>"] show ?thesis
    by (simp add: demo_requests_def proto_consts)
qed

section \<open>Switching off the request for split replies\<close>

lemma remove_children_ge: "remove_children g this t cs k off w = Some (k', off', w') \<Longrightarrow> k \<le> k'"
  by (induction g this t cs k off w arbitrary: rule: remove_children.induct)
    (auto split: if_splits option.splits prod.splits bind_splits, fastforce+)

lemma remove_children_found:
  "remove_children g this t cs k off w = Some (k', off', w') \<Longrightarrow> c \<in> set cs \<Longrightarrow> n_tag (nd w c) = t \<Longrightarrow> k < k'"
proof (induction cs arbitrary: k off w)
  case Nil
  then show ?case by simp
next
  case (Cons d cs)
  show ?case
  proof (cases "n_tag (nd w d) = t")
    case True
    with Cons.prems(1) show ?thesis by (auto split: bind_splits dest!: remove_children_ge)
  next
    case False
    with Cons show ?thesis by auto
  qed
qed

text \<open>
  \<open>SetReqSplit(false)\<close> never succeeds on a header that asks for split replies.  \<open>RemoveChildrenByTag\<close> returns the number of
  children it removed, which the call takes for an error: the field is gone, but the caller gets -2 and a message built from whatever the
  header's last message was; when there is none, the code appends a null pointer to a string, and the model has no result.
\<close>

theorem set_req_split_off_fails:
  assumes "proto_IsValid p w" "p_header p = Some h" "IsValid w h" "0 < n_child_num (nd w h)"
    and "c \<in> set (n_childlist (nd w h))" "n_tag (nd w c) = KNV_PKG_HDR_ALLOW_SPLIT"
    and rm: "RemoveChildrenByTag g h KNV_PKG_HDR_ALLOW_SPLIT w = Some (k, w1)"
  shows "0 < k \<and> SetReqSplit g False pkg_sz p w =
     (case node_msg w1 h of None \<Rightarrow> None | Some m \<Rightarrow> Some (-2, perr (''Set header allow field failed: '' @ m) p, w1))"
proof -
  have num: "GetChildNum g h w = Some (n_child_num (nd w h), w)"
    using assms(3,4) by (simp add: GetChildNum_def Expand_def InnerExpand_def)
  have "0 < k" using rm assms(3,4) num
    by (auto simp: RemoveChildrenByTag_def split: bind_splits dest!: remove_children_found [OF _ assms(5,6)])
  then show ?thesis using rm assms(1,2) by (simp add: SetReqSplit_def perr_cat_def split: option.split)
qed

text \<open>A package with a header (node 1) whose only field is \<open>KNV_PKG_HDR_ALLOW_SPLIT\<close>.\<close>

definition demo_split_header :: world where
  "demo_split_header = demo_world\<lparr>w_count := 3, w_nodes := (\<lambda>_. KnvNode0)(
     0 := KnvNode0\<lparr>n_tag := KNV_PKG_TAG, n_child_num := 1, n_childlist := [1]\<rparr>,
     1 := KnvNode0\<lparr>n_tag := KNV_PKG_HDR_TAG, n_child_num := 1, n_childlist := [2], n_parent := Some 0, n_errmsg := Some ''no error''\<rparr>,
     2 := KnvNode0\<lparr>n_tag := KNV_PKG_HDR_ALLOW_SPLIT, n_type := KNV_VARINT, n_val := int_value 1, n_child_num := 0, n_parent := Some 1\<rparr>)\<rparr>"

lemma demo_remove_split:
  "\<exists>w1. RemoveChildrenByTag None 1 KNV_PKG_HDR_ALLOW_SPLIT demo_split_header = Some (1, w1) \<and> node_msg w1 1 = Some ''no error''"
  by (simp add: RemoveChildrenByTag_def GetChildNum_def Expand_def InnerExpand_def proto_consts minus_size_def node_ht_remove_def
    nodepool_Delete_child_def nodepool_Delete_def ReleaseObject_def ReleaseKnvNodeList_def ReleaseNode_def KnvLeaf_ReleaseObject_def
    demo_split_header_def demo_world_def KnvNode0_def Let_def upd_def set_errorstr_def dyn_free_def dyn_init_def key_default_def
    set_mem_state_def ht_remove_def ht_clear_def ht_init_def finish_edit_def UpdateParentEvalueAndSetDirty_def SET_VALUE_DIRTY_def
    numeral_3_eq_3)

theorem set_req_split_off_fails_witness:
  "\<exists>w1. SetReqSplit None False 0 (demo_proto\<lparr>p_tree := Some 0, p_header := Some 1\<rparr>) demo_split_header =
     Some (-2, perr ''Set header allow field failed: no error'' (demo_proto\<lparr>p_tree := Some 0, p_header := Some 1\<rparr>), w1)"
proof -
  let ?p = "demo_proto\<lparr>p_tree := Some 0, p_header := Some 1\<rparr>"
  obtain w1 where rm: "RemoveChildrenByTag None 1 KNV_PKG_HDR_ALLOW_SPLIT demo_split_header = Some (1, w1)"
      and msg: "node_msg w1 1 = Some ''no error''"
    using demo_remove_split by blast
  have "proto_IsValid ?p demo_split_header" "p_header ?p = Some 1" "IsValid demo_split_header 1" "0 < n_child_num (nd demo_split_header 1)"
    "2 \<in> set (n_childlist (nd demo_split_header 1))" "n_tag (nd demo_split_header 2) = KNV_PKG_HDR_ALLOW_SPLIT"
    by (simp_all add: demo_split_header_def proto_IsValid_def proto_consts)
  from set_req_split_off_fails [OF this rm, of 0] msg show ?thesis by simp
qed

end
