(* ===== verification/Knv_Text.thy ===== *)
theory Knv_Text
  imports Knv_Sub
begin

text \<open>
  The text tools of \<open>src/src/knv_show.cpp\<close>: reading hexadecimal text, and the translation of a \<open>.proto\<close> file
  to enumerations of tags.  A C string is the list of its characters before the terminating null; text written to the
  standard output is appended to a string.  \<open>None\<close> is undefined behaviour: a local buffer is overrun, an uninitialised
  one is printed, or a format string is incomplete.
\<close>

section \<open>Characters\<close>

abbreviation code :: "char \<Rightarrow> nat" where
  "code c \<equiv> of_char c"

definition isspace :: "char \<Rightarrow> bool" where
  "isspace c \<longleftrightarrow> code c = 32 \<or> (9 \<le> code c \<and> code c \<le> 13)"

definition isdigit :: "char \<Rightarrow> bool" where
  "isdigit c \<longleftrightarrow> 48 \<le> code c \<and> code c \<le> 57"

definition isalpha :: "char \<Rightarrow> bool" where
  "isalpha c \<longleftrightarrow> (65 \<le> code c \<and> code c \<le> 90) \<or> (97 \<le> code c \<and> code c \<le> 122)"

definition isalnum :: "char \<Rightarrow> bool" where
  "isalnum c \<longleftrightarrow> isdigit c \<or> isalpha c"

definition isxdigit :: "char \<Rightarrow> bool" where
  "isxdigit c \<longleftrightarrow> isdigit c \<or> (65 \<le> code c \<and> code c \<le> 70) \<or> (97 \<le> code c \<and> code c \<le> 102)"

definition xvalue :: "char \<Rightarrow> nat" where
  "xvalue c = (if isdigit c then code c - 48 else if code c \<le> 70 then code c - 55 else code c - 87)"

text \<open>\<open>strtol(s, NULL, 16)\<close> on the short strings of \<open>str2bin\<close>; a prefix \<open>0x\<close> without digits gives 0 as well.\<close>

definition strtol16 :: "string \<Rightarrow> int" where
  "strtol16 s =
     (let s = dropWhile isspace s;
          neg = (s \<noteq> [] \<and> hd s = CHR ''-'');
          s = (if s \<noteq> [] \<and> (hd s = CHR ''-'' \<or> hd s = CHR ''+'') then tl s else s);
          v = int (foldl (\<lambda>v c. 16 * v + xvalue c) 0 (takeWhile isxdigit s))
      in if neg then - v else v)"

section \<open>Hexadecimal text\<close>

text \<open>
  The loop of \<open>hex_squeeze\<close>: \<open>buf\<close> is the string, \<open>i\<close> the position of \<open>str\<close> and \<open>j\<close> that of \<open>data\<close>.  At the end the code writes
  the terminating null at \<open>data\<close>, where it already is.
\<close>

function squeeze_loop :: "string \<Rightarrow> nat \<Rightarrow> nat \<Rightarrow> string" where
  "squeeze_loop buf i j =
     (if j < length buf
      then if isxdigit (buf ! j) then squeeze_loop (buf[i := buf ! j]) (i + 1) (j + 1) else squeeze_loop buf i (j + 1)
      else buf)"
  by pat_completeness auto
termination by (relation "measure (\<lambda>(buf, i, j). length buf - j)") auto

declare squeeze_loop.simps [simp del]

definition hex_squeeze :: "string \<Rightarrow> string" where
  "hex_squeeze str = squeeze_loop str 0 0"

definition str2bin :: "string \<Rightarrow> nat \<Rightarrow> byte list" where
  "str2bin psAsciiData iBinSize =
     (let s = hex_squeeze psAsciiData;
          iAsciiLength = length s;
          iRealLength = (if iAsciiLength div 2 > iBinSize then iBinSize else iAsciiLength div 2)
      in map (\<lambda>i. word_of_int (strtol16 [s ! (i * 2), s ! (i * 2 + 1)])) [0..<iRealLength])"

text \<open>What the loop leaves: the digits in front, and behind them the old characters.\<close>

lemma squeeze_loop_eq:
  assumes "i \<le> j" "j \<le> length buf"
  shows "squeeze_loop buf i j = take i buf @ filter isxdigit (drop j buf) @ drop (i + length (filter isxdigit (drop j buf))) buf"
  using assms
proof (induction buf i j rule: squeeze_loop.induct)
  case (1 buf i j)
  show ?case
  proof (cases "j < length buf")
    case False
    with 1(3,4) show ?thesis by (simp add: squeeze_loop.simps)
  next
    case True
    then have d: "drop j buf = buf ! j # drop (j + 1) buf" by (simp add: Cons_nth_drop_Suc)
    show ?thesis
    proof (cases "isxdigit (buf ! j)")
      case False
      with 1 True d show ?thesis by (subst squeeze_loop.simps) simp
    next
      case x: True
      let ?b = "buf[i := buf ! j]" and ?k = "length (filter isxdigit (drop (j + 1) buf))"
      have "drop (j + 1) ?b = drop (j + 1) buf" "take (i + 1) ?b = take i buf @ [buf ! j]" "drop (i + 1 + ?k) ?b = drop (i + 1 + ?k) buf"
        using 1(3) True by (simp_all add: take_Suc_conv_app_nth)
      moreover have "squeeze_loop ?b (i + 1) (j + 1) =
          take (i + 1) ?b @ filter isxdigit (drop (j + 1) ?b) @ drop (i + 1 + length (filter isxdigit (drop (j + 1) ?b))) ?b"
        using 1 True x by simp
      ultimately show ?thesis using True x d by (subst squeeze_loop.simps) (simp add: add.assoc)
    qed
  qed
qed

lemma hex_squeeze_eq: "hex_squeeze s = filter isxdigit s @ drop (length (filter isxdigit s)) s"
  by (simp add: hex_squeeze_def squeeze_loop_eq)

lemma length_hex_squeeze [simp]: "length (hex_squeeze s) = length s"
  by (simp add: hex_squeeze_eq)

text \<open>The two hexadecimal digits of a byte.\<close>

definition xchar :: "nat \<Rightarrow> char" where
  "xchar n = char_of (if n < 10 then 48 + n else 87 + n)"

definition hex_text :: "byte list \<Rightarrow> string" where
  "hex_text bs = concat (map (\<lambda>b. [xchar (unat b div 16), xchar (unat b mod 16)]) bs)"

lemma xchar_digit:
  assumes "n < 16"
  shows "isxdigit (xchar n)" "xvalue (xchar n) = n"
  using assms by (auto simp: xchar_def isxdigit_def xvalue_def isdigit_def)

lemma xdigit_plain: "isxdigit c \<Longrightarrow> \<not> isspace c \<and> c \<noteq> CHR ''-'' \<and> c \<noteq> CHR ''+''"
  by (auto simp: isxdigit_def isdigit_def isspace_def)

lemma strtol16_two: "isxdigit a \<Longrightarrow> isxdigit b \<Longrightarrow> strtol16 [a, b] = int (16 * xvalue a + xvalue b)"
  by (simp add: strtol16_def xdigit_plain)

lemma strtol16_byte: "word_of_int (strtol16 [xchar (unat b div 16), xchar (unat b mod 16)]) = (b :: byte)"
proof -
  have "unat b < 256" using unsigned_less [of b] by (simp add: unsigned_less)
  then have "unat b div 16 < 16" "unat b mod 16 < 16" by simp_all
  then have "strtol16 [xchar (unat b div 16), xchar (unat b mod 16)] = int (16 * (unat b div 16) + unat b mod 16)"
    by (simp add: strtol16_two xchar_digit)
  then show ?thesis by simp
qed

lemma hex_text_digits: "filter isxdigit (hex_text bs) = hex_text bs"
proof -
  have "unat (b :: byte) < 256" for b using unsigned_less [of b] by (simp add: unsigned_less)
  then have "unat (b :: byte) div 16 < 16" for b by (simp add: less_mult_imp_div_less)
  then show ?thesis by (induction bs) (simp_all add: hex_text_def xchar_digit)
qed

lemma length_hex_text [simp]: "length (hex_text bs) = 2 * length bs"
  by (induction bs) (simp_all add: hex_text_def)

lemma hex_text_nth:
  "i < length bs \<Longrightarrow> hex_text bs ! (2 * i) = xchar (unat (bs ! i) div 16) \<and> hex_text bs ! (2 * i + 1) = xchar (unat (bs ! i) mod 16)"
proof (induction bs arbitrary: i)
  case (Cons b bs)
  then show ?case by (cases i) (simp_all add: hex_text_def)
qed simp

text \<open>Digits without separators are read back as the bytes, as far as the output buffer reaches.\<close>

lemma str2bin_digits: "str2bin (hex_text bs) n = take n bs"
proof (rule nth_equalityI)
  show len: "length (str2bin (hex_text bs) n) = length (take n bs)" by (simp add: str2bin_def Let_def min_def)
  fix i assume "i < length (str2bin (hex_text bs) n)"
  then have i: "i < length bs" "i < n" using len by simp_all
  have "hex_squeeze (hex_text bs) = hex_text bs" by (simp add: hex_squeeze_eq hex_text_digits)
  then show "str2bin (hex_text bs) n ! i = take n bs ! i"
    using i hex_text_nth [OF i(1)] by (simp add: str2bin_def Let_def mult.commute strtol16_byte)
qed

text \<open>
  Text with separators is not read correctly: the squeezed string is not shortened, so \<open>str2bin\<close> always gives half as many
  bytes as the text has characters, and behind the bytes of the digits come bytes made from the old tail of the text; the four
  digits of \<open>12 34\<close> followed by a line end give the bytes 12, 34 and a third one.
\<close>

theorem str2bin_keeps_tail:
  "length (str2bin s n) = min n (length s div 2) \<and> hex_squeeze s = filter isxdigit s @ drop (length (filter isxdigit s)) s \<and>
   str2bin ''12 34 '' 64 = [0x12, 0x34, 4]"
proof (intro conjI)
  show "str2bin ''12 34 '' 64 = [0x12, 0x34, 4]" by code_simp
qed (simp_all add: str2bin_def Let_def min_def hex_squeeze_eq)

section \<open>Tokens\<close>

text \<open>The rest of the text and what has been printed; white space and comments are printed as they are.\<close>

type_synonym scan = "string \<times> string"

abbreviation newline :: char where
  "newline \<equiv> CHR 0x0A"

abbreviation creturn :: char where
  "creturn \<equiv> CHR 0x0D"

definition skip_space :: "scan \<Rightarrow> bool \<times> scan" where
  "skip_space s = (case s of (proto, out) \<Rightarrow> (takeWhile isspace proto \<noteq> [], dropWhile isspace proto, out @ takeWhile isspace proto))"

lemma skip_space_shorter: "length (fst (snd (skip_space (proto, out)))) \<le> length proto"
  by (simp add: skip_space_def length_dropWhile_le)

text \<open>A comment with its line end, and what follows; the buffer of the comment has 1024 characters.\<close>

definition is_comment :: "string \<Rightarrow> bool" where
  "is_comment proto \<longleftrightarrow> take 2 proto = ''//''"

function comment_loop :: "bool \<Rightarrow> scan \<Rightarrow> (bool \<times> scan) option" where
  "comment_loop skipped (proto, out) =
     (if is_comment proto
      then
        (let line = takeWhile (\<lambda>c. c \<noteq> newline) proto; rest = dropWhile (\<lambda>c. c \<noteq> newline) proto in
         if rest \<noteq> []
         then if length line + 1 < 1024
              then comment_loop True (snd (skip_space (tl rest, out @ line @ [newline])))
              else None
         else if length line < 1024 then Some (True, '''', out @ line) else None)
      else Some (skipped, proto, out))"
  by pat_completeness auto
termination
proof (relation "measure (\<lambda>(_, proto, _). length proto)", goal_cases)
  case (2 skipped proto out line rest)
  have "length rest \<le> length proto" using 2 by (simp add: length_dropWhile_le)
  moreover have "length (tl rest) < length rest" using 2(4) by (cases rest) simp_all
  ultimately have "length (tl rest) < length proto" by simp
  then show ?case using skip_space_shorter [of "tl rest" "out @ line @ [newline]"]
    by (simp add: case_prod_beta)
qed simp

declare comment_loop.simps [simp del]

definition skip_comment :: "scan \<Rightarrow> (bool \<times> scan) option" where
  "skip_comment s = comment_loop False (snd (skip_space s))"

definition tokchar :: "char \<Rightarrow> bool" where
  "tokchar c \<longleftrightarrow> isalnum c \<or> c = CHR ''_'' \<or> c = CHR ''.''"

text \<open>The next token, or a null pointer at the end; the buffer of the token has 1024 characters.\<close>

definition get_token :: "scan \<Rightarrow> (string option \<times> scan) option" where
  "get_token s =
     do {
       (_, proto, out) \<leftarrow> skip_comment s;
       if proto = [] then Some (None, proto, out)
       else
         (let tok = (if takeWhile tokchar proto = [] then [hd proto] else takeWhile tokchar proto) in
          if length tok < 1024 then Some (Some tok, drop (length tok) proto, out) else None)
     }"

lemma comment_loop_shorter: "comment_loop sk s = Some (b, s') \<Longrightarrow> length (fst s') \<le> length (fst s)"
proof (induction sk s arbitrary: b s' rule: comment_loop.induct)
  case (1 sk proto out)
  let ?rest = "dropWhile (\<lambda>c. c \<noteq> newline) proto" and ?line = "takeWhile (\<lambda>c. c \<noteq> newline) proto"
  have l: "length (tl ?rest) \<le> length proto" using length_dropWhile_le [of "\<lambda>c. c \<noteq> newline" proto] by simp
  show ?case
  proof (cases "is_comment proto \<and> ?rest \<noteq> [] \<and> length ?line + 1 < 1024")
    case True
    then have "length (fst s') \<le> length (fst (snd (skip_space (tl ?rest, out @ ?line @ [newline]))))"
      using 1 by (simp add: comment_loop.simps [of sk])
    then show ?thesis using l skip_space_shorter [of "tl ?rest" "out @ ?line @ [newline]"] by simp
  next
    case False
    then show ?thesis using 1(2) by (auto simp: comment_loop.simps [of sk] Let_def split: if_splits)
  qed
qed

lemma skip_comment_shorter: "skip_comment s = Some (b, s') \<Longrightarrow> length (fst s') \<le> length (fst s)"
  using comment_loop_shorter [of False "snd (skip_space s)" b s'] skip_space_shorter [of "fst s" "snd s"]
  by (simp add: skip_comment_def)

text \<open>Every token is taken off the text, so that the loops of \<open>parse_proto\<close> end.\<close>

lemma get_token_shorter:
  assumes "get_token s = Some (tok, s')"
  shows "length (fst s') \<le> length (fst s) \<and> (tok \<noteq> None \<longrightarrow> length (fst s') < length (fst s))"
proof -
  obtain b proto out where sk: "skip_comment s = Some (b, proto, out)" using assms by (auto simp: get_token_def bind_eq_Some_conv)
  show ?thesis using skip_comment_shorter [OF sk] assms sk
    by (cases proto) (auto simp: get_token_def Let_def split: if_splits)
qed

section \<open>Translation of a \<open>.proto\<close> file\<close>

text \<open>The local variables of \<open>parse_proto\<close>; \<open>name\<close> is not initialised before the first message.\<close>

record pstate =
  in_msg :: bool
  msg_name :: "string option"
  nsnum :: nat

text \<open>A return of the function: its value, the standard output and the text written to \<open>stderr\<close>.\<close>

type_synonym pret = "int \<times> string \<times> string"

text \<open>The parts of a package name between the dots: the \<open>do\<close> loop.\<close>

function dots :: "string \<Rightarrow> string list" where
  "dots s =
     (case dropWhile (\<lambda>c. c \<noteq> CHR ''.'') s of
        [] \<Rightarrow> [s]
      | _ # r \<Rightarrow> takeWhile (\<lambda>c. c \<noteq> CHR ''.'') s # dots r)"
  by pat_completeness auto
termination
proof (relation "measure length", goal_cases)
  case (2 s c r)
  then show ?case using length_dropWhile_le [of "\<lambda>c. c \<noteq> CHR ''.''" s] by simp
qed simp

declare dots.simps [simp del]

definition namespaces :: "string \<Rightarrow> string \<Rightarrow> string" where
  "namespaces eol s = concat (map (\<lambda>n. eol @ ''namespace '' @ n @ eol @ ''{'' @ eol) (dots s))"

text \<open>
  The body of an \<open>enum\<close> up to the brace, printed as it is, a semicolon as a comma.  The token is used as the format
  of \<open>printf\<close>: a single percent sign is an incomplete conversion.
\<close>

function enum_loop :: "scan \<Rightarrow> (string option \<times> scan) option" where
  "enum_loop s =
     (case get_token s of
        None \<Rightarrow> None
      | Some (None, s) \<Rightarrow> Some (None, s)
      | Some (Some subtok, proto, out) \<Rightarrow>
          if hd subtok = CHR ''}'' then Some (Some subtok, proto, out)
          else if hd subtok = CHR '';'' then enum_loop (proto, out @ '','')
          else if subtok = ''%'' then None
          else enum_loop (proto, out @ subtok))"
  by pat_completeness auto
termination by (relation "measure (\<lambda>s. length (fst s))") (auto dest: get_token_shorter)

declare enum_loop.simps [simp del]

text \<open>The options of a field, from a bracket to the closing one.\<close>

function options_loop :: "scan \<Rightarrow> scan option" where
  "options_loop s =
     (case get_token s of
        None \<Rightarrow> None
      | Some (None, s) \<Rightarrow> Some s
      | Some (Some subtok, s) \<Rightarrow> if hd subtok = CHR '']'' then Some s else options_loop s)"
  by pat_completeness auto
termination by (relation "measure (\<lambda>s. length (fst s))") (auto dest: get_token_shorter)

declare options_loop.simps [simp del]

definition missing_name :: string where
  "missing_name = ''incomplete proto: message name missing'' @ [newline]"

text \<open>The branches of the loop, in the order of the code.\<close>

definition parse_package :: "string \<Rightarrow> scan \<Rightarrow> pstate \<Rightarrow> (pret + (scan \<times> pstate)) option" where
  "parse_package eol s st =
     do {
       (subtok, proto, out) \<leftarrow> get_token s;
       case subtok of
         None \<Rightarrow> Some (Inl (-1, out, missing_name))
       | Some n \<Rightarrow>
           if \<not> isalpha (hd n) then Some (Inl (-1, out, missing_name))
           else Some (Inr ((proto, out @ namespaces eol n), st\<lparr>nsnum := nsnum st + length (dots n)\<rparr>))
     }"

definition parse_msg_name :: "string \<Rightarrow> scan \<Rightarrow> pstate \<Rightarrow> (pret + (scan \<times> pstate)) option" where
  "parse_msg_name eol s st =
     do {
       (subtok, proto, out) \<leftarrow> get_token s;
       case subtok of
         None \<Rightarrow> Some (Inl (-1, out, missing_name))
       | Some n \<Rightarrow>
           if \<not> isalpha (hd n) then Some (Inl (-1, out, missing_name))
           else Some (Inr ((proto, out @ eol @ ''enum '' @ n @ ''Tags''), st\<lparr>msg_name := Some n\<rparr>))
     }"

definition parse_enum :: "scan \<Rightarrow> pstate \<Rightarrow> (pret + (scan \<times> pstate)) option" where
  "parse_enum s st =
     do {
       (subtok, proto, out) \<leftarrow> enum_loop (fst s, snd s @ ''enum'');
       Some (Inr ((proto, if subtok \<noteq> None then out @ ''};'' else out), st))
     }"

definition parse_field :: "scan \<Rightarrow> pstate \<Rightarrow> (pret + (scan \<times> pstate)) option" where
  "parse_field s st =
     do {
       let bad = (\<lambda>out. Some (Inl (-1, out, ''incomplete proto: field name missing'' @ [newline])));
       (t, s) \<leftarrow> get_token s;
       if t = None then bad (snd s)
       else
         do {
           (f, s) \<leftarrow> get_token s;
           case f of
             None \<Rightarrow> bad (snd s)
           | Some fname \<Rightarrow>
               if length fname \<ge> 256 then None
               else
                 do {
                   let nonum = (\<lambda>out. Some (Inl (-1, out, ''incomplete proto: field '' @ fname @ '' tag number missing'' @ [newline])));
                   (t, s) \<leftarrow> get_token s;
                   if t = None then nonum (snd s)
                   else
                     do {
                       (n, proto, out) \<leftarrow> get_token s;
                       case n of
                         None \<Rightarrow> nonum out
                       | Some subtok \<Rightarrow>
                           if \<not> isdigit (hd subtok) then nonum out
                           else
                             do {
                               name \<leftarrow> msg_name st;
                               Some (Inr ((proto, out @ name @ ''Tag_'' @ fname @ '' = '' @ subtok @ '',''), st))
                             }
                     }
                 }
         }
     }"

definition parse_token :: "string \<Rightarrow> string \<Rightarrow> scan \<Rightarrow> pstate \<Rightarrow> (pret + (scan \<times> pstate)) option" where
  "parse_token eol tok s st =
     (if tok = ''package'' then parse_package eol s st
      else if tok = ''message'' then parse_msg_name eol s st
      else if tok = ''enum'' then parse_enum s st
      else if tok = ''{''
      then if in_msg st then Some (Inl (-1, snd s, ''inline submsg unsupported'' @ [newline]))
           else Some (Inr ((fst s, snd s @ ''{''), st\<lparr>in_msg := True\<rparr>))
      else if tok = ''}''
      then if in_msg st then Some (Inr ((fst s, snd s @ ''};''), st\<lparr>in_msg := False\<rparr>))
           else Some (Inl (-1, snd s, ''unexpected } token'' @ [newline]))
      else if tok = ''optional'' \<or> tok = ''repeated'' \<or> tok = ''required'' then parse_field s st
      else if tok = ''['' then do { s \<leftarrow> options_loop s; Some (Inr (s, st)) }
      else Some (Inr (s, st)))"

lemma enum_loop_shorter: "enum_loop s = Some (t, s') \<Longrightarrow> length (fst s') \<le> length (fst s)"
proof (induction s arbitrary: t s' rule: enum_loop.induct)
  case (1 s)
  obtain tok proto out where g: "get_token s = Some (tok, proto, out)" using 1(3) by (auto simp: enum_loop.simps [of s] split: option.splits)
  show ?case
  proof (cases tok)
    case None
    with 1(3) g get_token_shorter [OF g] show ?thesis by (simp add: enum_loop.simps [of s])
  next
    case (Some n)
    then have "length (fst s') \<le> length proto" using 1 g by (auto simp: enum_loop.simps [of s] split: if_splits)
    then show ?thesis using get_token_shorter [OF g] by simp
  qed
qed

lemma options_loop_shorter: "options_loop s = Some s' \<Longrightarrow> length (fst s') \<le> length (fst s)"
proof (induction s arbitrary: s' rule: options_loop.induct)
  case (1 s)
  obtain tok u where g: "get_token s = Some (tok, u)" using 1(2) by (auto simp: options_loop.simps [of s] split: option.splits)
  show ?case
  proof (cases tok)
    case None
    with 1(2) g get_token_shorter [OF g] show ?thesis by (simp add: options_loop.simps [of s])
  next
    case (Some n)
    then have "length (fst s') \<le> length (fst u)" using 1 g by (auto simp: options_loop.simps [of s] split: if_splits)
    then show ?thesis using get_token_shorter [OF g] by simp
  qed
qed

lemma parse_package_shorter: "parse_package eol s st = Some (Inr (s', st')) \<Longrightarrow> length (fst s') \<le> length (fst s)"
  by (auto simp: parse_package_def bind_eq_Some_conv split: if_splits option.splits dest!: get_token_shorter)

lemma parse_msg_name_shorter: "parse_msg_name eol s st = Some (Inr (s', st')) \<Longrightarrow> length (fst s') \<le> length (fst s)"
  by (auto simp: parse_msg_name_def bind_eq_Some_conv split: if_splits option.splits dest!: get_token_shorter)

lemma parse_enum_shorter: "parse_enum s st = Some (Inr (s', st')) \<Longrightarrow> length (fst s') \<le> length (fst s)"
  by (auto simp: parse_enum_def bind_eq_Some_conv dest!: enum_loop_shorter)

lemma proto_field_shorter:
  assumes "parse_field s st = Some (Inr (s', st'))"
  shows "length (fst s') \<le> length (fst s)"
proof -
  obtain t1 t2 t3 t4 u1 u2 u3 u4 where "get_token s = Some (t1, u1)" "get_token u1 = Some (t2, u2)" "get_token u2 = Some (t3, u3)"
    "get_token u3 = Some (t4, u4)" "fst s' = fst u4"
    using assms unfolding parse_field_def Let_def by (auto split: bind_splits prod.splits option.splits if_splits)
  from this(1-4) [THEN get_token_shorter] this(5) show ?thesis by simp
qed

lemma parse_token_shorter:
  assumes "parse_token eol tok s st = Some (Inr (s', st'))"
  shows "length (fst s') \<le> length (fst s)"
proof -
  consider "parse_package eol s st = Some (Inr (s', st'))" | "parse_msg_name eol s st = Some (Inr (s', st'))"
    | "parse_enum s st = Some (Inr (s', st'))" | "parse_field s st = Some (Inr (s', st'))" | "options_loop s = Some s'" | "fst s' = fst s"
    using assms unfolding parse_token_def by (split if_split_asm; (auto split: if_split_asm bind_splits; fail)?)+
  then show ?thesis
    using parse_package_shorter parse_msg_name_shorter parse_enum_shorter proto_field_shorter options_loop_shorter
    by cases (blast | simp)+
qed

function parse_loop :: "string \<Rightarrow> scan \<Rightarrow> pstate \<Rightarrow> pret option" where
  "parse_loop eol s st =
     (case get_token s of
        None \<Rightarrow> None
      | Some (None, proto, out) \<Rightarrow> Some (0, out @ concat (replicate (nsnum st) (eol @ ''}; //namespace'' @ eol)), '''')
      | Some (Some tok, s) \<Rightarrow>
          (case parse_token eol tok s st of
             None \<Rightarrow> None
           | Some (Inl r) \<Rightarrow> Some r
           | Some (Inr (s, st)) \<Rightarrow> parse_loop eol s st))"
  by pat_completeness auto
termination
  by (relation "measure (\<lambda>(eol, s, st). length (fst s))") (auto dest!: get_token_shorter parse_token_shorter)

declare parse_loop.simps [simp del]

text \<open>The text is given by its \<open>len\<close> characters; the last one is overwritten with a null.\<close>

definition parse_proto :: "string \<Rightarrow> pret option" where
  "parse_proto data =
     (let proto = takeWhile (\<lambda>c. c \<noteq> CHR 0x00) (butlast data);
          eol = (if creturn \<in> set proto then [creturn, newline] else [newline]) in
      do {
        (_, s) \<leftarrow> skip_comment (proto, '''');
        parse_loop eol s \<lparr>in_msg = False, msg_name = None, nsnum = 0\<rparr>
      })"

section \<open>A message and its enumeration\<close>

text \<open>Names: the characters of a token, shorter than the buffers.\<close>

definition word_ok :: "nat \<Rightarrow> string \<Rightarrow> bool" where
  "word_ok k s \<longleftrightarrow> s \<noteq> [] \<and> list_all tokchar s \<and> length s < k"

text \<open>A field: label, type, name and number; a message, as it is written in a file.\<close>

type_synonym field_decl = "string \<times> string \<times> string \<times> string"

fun field_ok :: "field_decl \<Rightarrow> bool" where
  "field_ok (l, ty, f, n) = (l \<in> {''optional'', ''repeated'', ''required''} \<and> word_ok 1024 ty \<and> word_ok 256 f \<and> word_ok 1024 n \<and> isdigit (hd n))"

fun field_text :: "field_decl \<Rightarrow> string" where
  "field_text (l, ty, f, n) = l @ '' '' @ ty @ '' '' @ f @ ''='' @ n @ '';''"

definition message_text :: "string \<Rightarrow> field_decl list \<Rightarrow> string" where
  "message_text name fs = ''message '' @ name @ ''{'' @ concat (map field_text fs) @ ''}''"

text \<open>What is printed for a field and for a message; the blanks of the text are printed as well.\<close>

fun field_enum :: "string \<Rightarrow> field_decl \<Rightarrow> string" where
  "field_enum name (l, ty, f, n) = ''  '' @ name @ ''Tag_'' @ f @ '' = '' @ n @ '',''"

definition message_enum :: "string \<Rightarrow> field_decl list \<Rightarrow> string" where
  "message_enum name fs = '' '' @ [newline] @ ''enum '' @ name @ ''Tags{'' @ concat (map (field_enum name) fs) @ ''};''"

lemma tokchar_code: "tokchar c \<Longrightarrow> code c = 95 \<or> code c = 46 \<or> (48 \<le> code c \<and> code c \<le> 57) \<or> (65 \<le> code c \<and> code c \<le> 90) \<or> (97 \<le> code c \<and> code c \<le> 122)"
  by (auto simp: tokchar_def isalnum_def isalpha_def isdigit_def)

lemma tokchar_plain: "tokchar c \<Longrightarrow> \<not> isspace c \<and> c \<noteq> CHR ''/'' \<and> c \<noteq> CHR 0x00 \<and> c \<noteq> creturn \<and> c \<noteq> newline"
  by (drule tokchar_code) (auto simp: isspace_def)

lemma skip_comment_none: "\<not> isspace c \<Longrightarrow> c \<noteq> CHR ''/'' \<Longrightarrow> skip_comment (c # s, out) = Some (False, c # s, out)"
  by (simp add: skip_comment_def skip_space_def comment_loop.simps is_comment_def)

lemma skip_comment_blank: "skip_comment (CHR '' '' # s, out) = skip_comment (s, out @ '' '')"
  by (simp add: skip_comment_def skip_space_def isspace_def)

lemma get_token_blank: "get_token (CHR '' '' # s, out) = get_token (s, out @ '' '')"
  by (simp add: get_token_def skip_comment_blank)

lemma get_token_word:
  assumes "word_ok k w" "k \<le> 1024" "r = [] \<or> \<not> tokchar (hd r)"
  shows "get_token (w @ r, out) = Some (Some w, r, out)"
proof -
  have w: "w \<noteq> []" "\<forall>c \<in> set w. tokchar c" "length w < 1024" using assms(1,2) by (auto simp: word_ok_def list_all_iff)
  then obtain c v where cv: "w = c # v" by (cases w) auto
  have "takeWhile tokchar r = []" using assms(3) by (cases r) auto
  then have "takeWhile tokchar (w @ r) = w" using w(2) by (simp add: takeWhile_append2)
  moreover have "skip_comment (w @ r, out) = Some (False, w @ r, out)"
    using skip_comment_none [of c "v @ r" out] tokchar_plain [of c] w(2) cv by simp
  ultimately show ?thesis using w(1,3) by (simp add: get_token_def)
qed

lemma get_token_sign:
  assumes "c \<in> {CHR ''{'', CHR ''}'', CHR ''='', CHR '';''}"
  shows "get_token (c # r, out) = Some (Some [c], r, out)"
proof -
  have "\<not> tokchar c \<and> \<not> isspace c \<and> c \<noteq> CHR ''/''" using assms by (auto simp: tokchar_def isalnum_def isalpha_def isdigit_def isspace_def)
  then show ?thesis using skip_comment_none [of c r out] by (simp add: get_token_def)
qed

lemma sign_hd: "\<not> tokchar (CHR '' '')" "\<not> tokchar (CHR ''{'')" "\<not> tokchar (CHR ''='')" "\<not> tokchar (CHR '';'')"
  by (simp_all add: tokchar_def isalnum_def isalpha_def isdigit_def)

lemmas token_steps = get_token_blank get_token_sign get_token_word sign_hd

lemma parse_field_step:
  assumes "field_ok (l, ty, f, n)" "msg_name st = Some name"
  shows "parse_field ('' '' @ ty @ '' '' @ f @ ''='' @ n @ '';'' @ r, out) st = Some (Inr (('';'' @ r, out @ field_enum name (l, ty, f, n)), st))"
proof -
  have "length f < 256" "word_ok 256 f" using assms(1) by (simp_all add: word_ok_def)
  then show ?thesis using assms by (auto simp: parse_field_def token_steps)
qed

lemma label_word: "l \<in> {''optional'', ''repeated'', ''required''} \<Longrightarrow> word_ok 1024 l"
  by (auto simp: word_ok_def tokchar_def isalnum_def isalpha_def)

lemma parse_loop_field:
  assumes "field_ok fd" "msg_name st = Some name"
  shows "parse_loop eol (field_text fd @ r, out) st = parse_loop eol (r, out @ field_enum name fd) st"
proof -
  obtain l ty f n where fd: "fd = (l, ty, f, n)" by (cases fd) auto
  let ?s = "'' '' @ ty @ '' '' @ f @ ''='' @ n @ '';'' @ r"
  have l: "l \<in> {''optional'', ''repeated'', ''required''}" using assms(1) fd by simp
  have "get_token (l @ ?s, out) = Some (Some l, ?s, out)" using get_token_word [OF label_word [OF l]] by (simp add: sign_hd)
  moreover have "parse_token eol l (?s, out) st = parse_field (?s, out) st" using l by (auto simp: parse_token_def)
  moreover have "parse_loop eol ('';'' @ r, out') st = parse_loop eol (r, out') st" for out'
    by (subst parse_loop.simps) (simp add: get_token_sign parse_token_def)
  ultimately show ?thesis using parse_field_step [of l ty f n st name r out] assms fd
    by (subst parse_loop.simps) simp
qed

lemma parse_loop_fields:
  assumes "list_all field_ok fs" "msg_name st = Some name"
  shows "parse_loop eol (concat (map field_text fs) @ r, out) st = parse_loop eol (r, out @ concat (map (field_enum name) fs)) st"
  using assms(1)
proof (induction fs arbitrary: out)
  case (Cons fd fs)
  then show ?case using parse_loop_field [OF _ assms(2), of fd eol "concat (map field_text fs) @ r" out] by simp
qed simp

lemma parse_loop_message:
  assumes "word_ok 1024 name" "isalpha (hd name)" "list_all field_ok fs" "\<not> in_msg st"
  shows "parse_loop [newline] (message_text name fs @ r, out) st =
     parse_loop [newline] (r, out @ message_enum name fs) (st\<lparr>msg_name := Some name\<rparr>)"
proof -
  let ?fs = "concat (map field_text fs)" and ?st = "st\<lparr>msg_name := Some name\<rparr>"
  let ?o1 = "out @ '' '' @ [newline] @ ''enum '' @ name @ ''Tags''" and ?e = "concat (map (field_enum name) fs)"
  have "word_ok 1024 ''message''" by (simp add: word_ok_def tokchar_def isalnum_def isalpha_def)
  from get_token_word [OF this, of "'' '' @ name @ ''{'' @ ?fs @ ''}'' @ r" out]
  have t: "get_token (message_text name fs @ r, out) = Some (Some ''message'', '' '' @ name @ ''{'' @ ?fs @ ''}'' @ r, out)"
    by (simp add: message_text_def sign_hd)
  have m: "parse_token [newline] ''message'' ('' '' @ name @ ''{'' @ ?fs @ ''}'' @ r, out) st = Some (Inr ((''{'' @ ?fs @ ''}'' @ r, ?o1), ?st))"
    using assms(1,2) by (simp add: parse_token_def parse_msg_name_def token_steps)
  have opn: "parse_loop [newline] (''{'' @ s, o1) ?st = parse_loop [newline] (s, o1 @ ''{'') (?st\<lparr>in_msg := True\<rparr>)" for s o1
    using assms(4) by (subst parse_loop.simps) (simp add: get_token_sign parse_token_def)
  have cls: "parse_loop [newline] (''}'' @ s, o1) (?st\<lparr>in_msg := True\<rparr>) = parse_loop [newline] (s, o1 @ ''};'') ?st" for s o1
    using assms(4) by (cases st) (subst parse_loop.simps, simp add: get_token_sign parse_token_def)
  have "parse_loop [newline] (message_text name fs @ r, out) st = parse_loop [newline] (''{'' @ ?fs @ ''}'' @ r, ?o1) ?st"
    using t m by (subst parse_loop.simps) simp
  also have "\<dots> = parse_loop [newline] (?fs @ ''}'' @ r, ?o1 @ ''{'') (?st\<lparr>in_msg := True\<rparr>)" by (rule opn)
  also have "\<dots> = parse_loop [newline] (''}'' @ r, (?o1 @ ''{'') @ ?e) (?st\<lparr>in_msg := True\<rparr>)"
    by (rule parse_loop_fields [OF assms(3)]) simp
  also have "\<dots> = parse_loop [newline] (r, ((?o1 @ ''{'') @ ?e) @ ''};'') ?st" by (rule cls)
  finally show ?thesis by (simp add: message_enum_def)
qed

fun message_ok :: "string \<times> field_decl list \<Rightarrow> bool" where
  "message_ok (name, fs) = (word_ok 1024 name \<and> isalpha (hd name) \<and> list_all field_ok fs)"

lemma parse_loop_messages:
  assumes "list_all message_ok ms" "\<not> in_msg st" "nsnum st = 0"
  shows "parse_loop [newline] (concat (map (case_prod message_text) ms), out) st = Some (0, out @ concat (map (case_prod message_enum) ms), '''')"
  using assms
proof (induction ms arbitrary: out st)
  case Nil
  then show ?case by (simp add: parse_loop.simps get_token_def skip_comment_def skip_space_def comment_loop.simps is_comment_def)
next
  case (Cons m ms)
  obtain name fs where m: "m = (name, fs)" by fastforce
  then have "parse_loop [newline] (message_text name fs @ concat (map (case_prod message_text) ms), out) st =
      parse_loop [newline] (concat (map (case_prod message_text) ms), out @ message_enum name fs) (st\<lparr>msg_name := Some name\<rparr>)"
    using Cons.prems by (intro parse_loop_message) simp_all
  with Cons m show ?case by simp
qed

text \<open>The characters of such a text: no null and no carriage return among them.\<close>

definition plain_char :: "char \<Rightarrow> bool" where
  "plain_char c \<longleftrightarrow> tokchar c \<or> c \<in> set '' {}=;''"

lemma plain_word: "word_ok k w \<Longrightarrow> list_all plain_char w"
  by (auto simp: word_ok_def list_all_iff plain_char_def)

lemma plain_field: "field_ok fd \<Longrightarrow> list_all plain_char (field_text fd)"
  by (cases fd) (auto dest!: plain_word label_word simp: plain_char_def simp del: insert_iff)

lemma plain_concat: "(\<And>x. x \<in> set xs \<Longrightarrow> list_all plain_char (f x)) \<Longrightarrow> list_all plain_char (concat (map f xs))"
  by (induction xs) simp_all

lemma plain_message:
  assumes "message_ok m"
  shows "list_all plain_char (case_prod message_text m)"
proof -
  obtain name fs where m: "m = (name, fs)" by fastforce
  with assms have "word_ok 1024 name" "\<forall>fd \<in> set fs. field_ok fd" by (simp_all add: list_all_iff)
  then have "list_all plain_char name" "list_all plain_char (concat (map field_text fs))"
    using plain_word plain_concat [of fs field_text] plain_field by blast+
  moreover have "list_all plain_char ''message ''" by (simp add: plain_char_def tokchar_def isalnum_def isalpha_def)
  ultimately show ?thesis using m by (simp add: message_text_def plain_char_def)
qed

lemma plain_text:
  assumes "list_all plain_char t"
  shows "takeWhile (\<lambda>c. c \<noteq> CHR 0x00) t = t" "creturn \<notin> set t"
proof -
  have "plain_char c \<Longrightarrow> c \<noteq> CHR 0x00 \<and> c \<noteq> creturn" for c using tokchar_plain [of c] by (auto simp: plain_char_def)
  then show "takeWhile (\<lambda>c. c \<noteq> CHR 0x00) t = t" "creturn \<notin> set t" using assms by (auto simp: list_all_iff takeWhile_eq_all_conv)
qed



end
