(* ===== verification/Knv_Show.thy ===== *)
theory Knv_Show
  imports Knv_Text Knv_Package
begin

text \<open>
  The command-line viewer of \<open>src/src/knv_show.cpp\<close>: reading a package from a file (binary, hexadecimal, or the output of
  \<open>tcpdump\<close>), showing it as a UC package, an OIDB package or a plain node, and the choice of the operation by the
  arguments.  A file is the list of its characters; what the program prints is appended to a string.  \<open>None\<close> is undefined
  behaviour (an access outside of a buffer, an arithmetic overflow in \<open>atoi\<close>) or a call that does not return.
\<close>

section \<open>Library functions\<close>

datatype show_fmt = bin_fmt | hex_fmt | tcpdump

abbreviation nul :: char where
  "nul \<equiv> CHR 0x00"

abbreviation line_end :: string where
  "line_end \<equiv> [newline]"

definition byte_of :: "char \<Rightarrow> byte" where
  "byte_of c = of_nat (code c)"

text \<open>The C string that starts at index \<open>i\<close> of a buffer.\<close>

definition cstr :: "string \<Rightarrow> nat \<Rightarrow> string" where
  "cstr buf i = takeWhile (\<lambda>c. c \<noteq> nul) (drop i buf)"

primrec strstr :: "string \<Rightarrow> string \<Rightarrow> nat option" where
  "strstr [] p = (if p = [] then Some 0 else None)"
| "strstr (c # s) p = (if take (length p) (c # s) = p then Some 0 else map_option Suc (strstr s p))"

text \<open>\<open>atoi\<close>; a number outside of \<open>int\<close> is undefined.\<close>

definition atoi :: "string \<Rightarrow> int option" where
  "atoi s =
     (let s = dropWhile isspace s;
          neg = (s \<noteq> [] \<and> hd s = CHR ''-'');
          s = (if s \<noteq> [] \<and> (hd s = CHR ''-'' \<or> hd s = CHR ''+'') then tl s else s);
          v = int (foldl (\<lambda>v c. 10 * v + xvalue c) 0 (takeWhile isdigit s));
          v = (if neg then - v else v)
      in if - (2 ^ 31) \<le> v \<and> v < 2 ^ 31 then Some v else None)"

text \<open>
  \<open>fgets(ln, sizeof(ln)-1, fd)\<close>: a null pointer at the end of the file, otherwise the buffer and the rest of the file; the
  part of the buffer behind the line keeps what it was.
\<close>

definition fgets :: "string \<Rightarrow> string \<Rightarrow> (string \<times> string) option" where
  "fgets ln file =
     (if file = [] then None
      else
        (let k = length (takeWhile (\<lambda>c. c \<noteq> newline) file) + 1; k = min k (min (length file) 1022)
         in Some (take k file @ [nul] @ drop (k + 1) ln, drop k file)))"

text \<open>\<open>strncpy(dst, ln+k, n)\<close>: the characters written, padded with nulls; \<open>None\<close> when it reads beyond the buffer.\<close>

definition strncpy :: "string \<Rightarrow> nat \<Rightarrow> nat \<Rightarrow> string option" where
  "strncpy ln k n =
     (let t = take n (cstr ln k) in
      if length t < n \<and> k + length t \<ge> length ln then None else Some (t @ replicate (n - length t) nul))"

section \<open>Reading the output of tcpdump\<close>

definition trailing :: "char \<Rightarrow> bool" where
  "trailing c \<longleftrightarrow> c = newline \<or> c = creturn \<or> c = CHR 0x09 \<or> c = CHR '' ''"

fun trim_back :: "string \<Rightarrow> nat \<Rightarrow> nat" where
  "trim_back s 0 = 0"
| "trim_back s (Suc n) = (if trailing (s ! Suc n) then trim_back s n else Suc n)"

fun digits_back :: "string \<Rightarrow> nat \<Rightarrow> nat option" where
  "digits_back s 0 = (if isdigit (s ! 0) then None else Some 0)"
| "digits_back s (Suc n) = (if isdigit (s ! Suc n) then digits_back s n else Some (Suc n))"

text \<open>The length of the package from the first line: the number at its end.  The left result is the message printed.\<close>

definition tcpdump_len :: "string \<Rightarrow> (string + int) option" where
  "tcpdump_len ln =
     (let s = cstr ln 0 in
      case strstr s '' IP '' of
        None \<Rightarrow> Some (Inl ''parse header failed.'')
      | Some i \<Rightarrow>
          if strstr (drop i s) '' > '' = None then Some (Inl ''parse header failed.'')
          else
            (let n = trim_back s (length s - 1) in
             if n = 0 \<or> \<not> isdigit (s ! n) then Some (Inl ''parse header length failed.'')
             else
               do {
                 k \<leftarrow> digits_back s n;
                 pkg_len \<leftarrow> atoi (drop k s);
                 Some (if pkg_len < 4 \<or> pkg_len > 65530 then Inl ''parse header length2 failed.'' else Inr pkg_len)
               }))"

text \<open>The start of the package in the second line of the dump: the first eight digits.\<close>

definition tcpdump_start :: "string \<Rightarrow> (string + string) option" where
  "tcpdump_start ln =
     (let s = cstr ln 0 in
      case strstr s '' 9adb '' of
        Some ps \<Rightarrow> do { a \<leftarrow> strncpy ln (ps + 6) 4; Some (Inr (''9adb'' @ a)) }
      | None \<Rightarrow>
          (case strstr s '' 28'' of
             None \<Rightarrow> Some (Inl ''unkown packet format.'')
           | Some ps \<Rightarrow>
               if ps + 5 \<ge> length ln then None
               else if ln ! (ps + 5) = CHR '' '' \<and> ps + 10 \<ge> length ln then None
               else if ln ! (ps + 5) = CHR '' '' \<and> ln ! (ps + 10) = CHR '' ''
               then do { a \<leftarrow> strncpy ln (ps + 3) 2; b \<leftarrow> strncpy ln (ps + 6) 4; Some (Inr (''28'' @ a @ b)) }
               else Some (Inl (''unkown packet format: ps='' @ drop ps s))))"

text \<open>The words of one line, four digits each; \<open>ps\<close> is an index into the line.\<close>

function dump_words :: "string \<Rightarrow> nat \<Rightarrow> int \<Rightarrow> string \<Rightarrow> string option" where
  "dump_words ln ps cnt str =
     (if cnt \<le> 0 then Some str
      else
        (let ps = ps + length (takeWhile (\<lambda>c. c = CHR '' '') (drop ps ln)) in
         if ps \<ge> length ln then None
         else do { a \<leftarrow> strncpy ln ps 4; dump_words ln (ps + 4) (cnt - 2) (str @ a) }))"
  by pat_completeness auto
termination by (relation "measure (\<lambda>(ln, ps, cnt, str). nat cnt)") auto

declare dump_words.simps [simp del]

text \<open>The lines of the body; \<open>i\<close> counts them down.\<close>

fun dump_lines :: "nat \<Rightarrow> nat \<Rightarrow> int \<Rightarrow> int \<Rightarrow> string \<Rightarrow> string \<Rightarrow> string \<Rightarrow> (string + string) option" where
  "dump_lines lnr 0 pkg_len plen ln file str = Some (Inr str)"
| "dump_lines lnr (Suc i) pkg_len plen ln file str =
     (if plen \<le> 0 then Some (Inr str)
      else
        (case fgets ln file of
           None \<Rightarrow> Some (Inl (''read body failed: left_lines='' @ dec_digits (Suc i) @ '', left_len='' @ dec_int plen @
                     '', total_len='' @ dec_int pkg_len @ '', total_lines='' @ dec_digits lnr))
         | Some (ln, file) \<Rightarrow>
             (case strstr (cstr ln 0) '': '' of
                None \<Rightarrow> Some (Inl ''parse protocol body failed.'')
              | Some ps \<Rightarrow>
                  (let cnt = min plen 16 in
                   do { str \<leftarrow> dump_words ln (ps + 2) cnt str; dump_lines lnr i pkg_len (plen - 2 * ((cnt + 1) div 2)) ln file str }))))"

text \<open>
  The whole branch: the digits of the package, or a message, and the length of the package.  \<open>ln0\<close> is what the buffer
  of the line holds at first.
\<close>

definition tcpdump_text :: "string \<Rightarrow> string \<Rightarrow> (string + string \<times> int) option" where
  "tcpdump_text ln0 file =
     (case fgets ln0 file of
        None \<Rightarrow> Some (Inl ''read header failed.'')
      | Some (ln, file) \<Rightarrow>
          do {
            r \<leftarrow> tcpdump_len ln;
            case r of
              Inl e \<Rightarrow> Some (Inl e)
            | Inr pkg_len \<Rightarrow>
                (case fgets ln file of
                   None \<Rightarrow> Some (Inl ''read body failed.'')
                 | Some (ln, file) \<Rightarrow>
                     (case fgets ln file of
                        None \<Rightarrow> Some (Inl ''read body failed.'')
                      | Some (ln, file) \<Rightarrow>
                          do {
                            r \<leftarrow> tcpdump_start ln;
                            case r of
                              Inl e \<Rightarrow> Some (Inl e)
                            | Inr str \<Rightarrow>
                                (let lnr = nat ((pkg_len + 28 + 15) div 16 - 2) in
                                 do {
                                   r \<leftarrow> dump_lines lnr lnr pkg_len (pkg_len - 4) ln file str;
                                   Some (case r of Inl e \<Rightarrow> Inl e | Inr str \<Rightarrow> Inr (str, pkg_len))
                                 })
                          }))
          })"

section \<open>read\_data\<close>

text \<open>
  The package in \<open>bin_str\<close>, a static array of \<open>bin_len\<close> bytes that is zero at first, or the message printed.
\<close>

definition read_data :: "show_fmt \<Rightarrow> string \<Rightarrow> string \<Rightarrow> nat \<Rightarrow> (string + byte list) option" where
  "read_data fmt ln0 file bin_len =
     (case fmt of
        bin_fmt \<Rightarrow>
          (let bs = map byte_of (take bin_len file) in Some (if bs = [] then Inl ''read failed.'' else Inr bs))
      | hex_fmt \<Rightarrow>
          (let hstr = take (1024 * 1024) file in
           if hstr = [] then Some (Inl ''read failed.'')
           else if length hstr = 1024 * 1024 then None
           else (let bs = str2bin (cstr hstr 0) bin_len in Some (if bs = [] then Inl ''str2bin failed.'' else Inr bs)))
      | tcpdump \<Rightarrow>
          do {
            r \<leftarrow> tcpdump_text ln0 file;
            Some (case r of
                    Inl e \<Rightarrow> Inl e
                  | Inr (str, pkg_len) \<Rightarrow>
                      (let bs = str2bin (cstr str 0) bin_len in
                       if bs = [] then Inl ''str2bin failed.''
                       else Inr (take (nat pkg_len) (bs @ replicate (bin_len - length bs) 0))))
          })"

section \<open>Showing a package\<close>

datatype OidbHeadTag =
  OidbHeadTag_Uin | OidbHeadTag_Command | OidbHeadTag_ServiceType | OidbHeadTag_Seq | OidbHeadTag_ClientAddr | OidbHeadTag_ServerAddr
| OidbHeadTag_Result | OidbHeadTag_ErrorMsg | OidbHeadTag_LoginSig | OidbHeadTag_UserName | OidbHeadTag_Servicename | OidbHeadTag_Flag
| OidbHeadTag_FromAddr | OidbHeadTag_LocalAddr | OidbHeadTag_ClientAddrIpv6 | OidbHeadTag_ServerAddrIpv6 | OidbHeadTag_ModuleId

fun head_tag :: "OidbHeadTag \<Rightarrow> knv_tag_t" where
  "head_tag OidbHeadTag_Uin = 1"
| "head_tag OidbHeadTag_Command = 2"
| "head_tag OidbHeadTag_ServiceType = 3"
| "head_tag OidbHeadTag_Seq = 4"
| "head_tag OidbHeadTag_ClientAddr = 5"
| "head_tag OidbHeadTag_ServerAddr = 6"
| "head_tag OidbHeadTag_Result = 7"
| "head_tag OidbHeadTag_ErrorMsg = 8"
| "head_tag OidbHeadTag_LoginSig = 9"
| "head_tag OidbHeadTag_UserName = 10"
| "head_tag OidbHeadTag_Servicename = 11"
| "head_tag OidbHeadTag_Flag = 12"
| "head_tag OidbHeadTag_FromAddr = 13"
| "head_tag OidbHeadTag_LocalAddr = 14"
| "head_tag OidbHeadTag_ClientAddrIpv6 = 15"
| "head_tag OidbHeadTag_ServerAddrIpv6 = 16"
| "head_tag OidbHeadTag_ModuleId = 17"

text \<open>
  The lines of the header.  \<open>ntoa\<close> is \<open>inet_ntoa\<close> on the 32-bit value of the address, \<open>ntop\<close> is \<open>inet_ntop\<close>, which reads 16 bytes;
  a shorter field makes it read behind the string.
\<close>

type_synonym line_fn = "text_state \<Rightarrow> text_state option"

definition oidb_prefix :: string where
  "oidb_prefix = ''[OIDB]''"

fun hex_upper :: "nat \<Rightarrow> string" where
  "hex_upper n = (if n < 16 then [hex_digit n] else hex_upper (n div 16) @ [hex_digit (n mod 16)])"

declare hex_upper.simps [simp del]

definition show_line :: "string \<Rightarrow> line_fn" where
  "show_line txt s = Some (fst s @ oidb_prefix @ txt @ endl, snd s)"

definition show_int :: "codecs \<Rightarrow> nat \<Rightarrow> string \<Rightarrow> OidbHeadTag \<Rightarrow> line_fn" where
  "show_int g head label t s =
     do { (v, w) \<leftarrow> GetFieldInt g head (head_tag t) (snd s); show_line (''        '' @ label @ dec_digits (unat v)) (fst s, w) }"

definition show_command :: "codecs \<Rightarrow> nat \<Rightarrow> line_fn" where
  "show_command g head s =
     do {
       (v, w) \<leftarrow> GetFieldInt g head (head_tag OidbHeadTag_Command) (snd s);
       show_line (''        Command: 0x'' @ hex_upper (unat (ucast v :: u32))) (fst s, w)
     }"

definition show_some_int :: "codecs \<Rightarrow> nat \<Rightarrow> string \<Rightarrow> OidbHeadTag \<Rightarrow> line_fn" where
  "show_some_int g head label t s =
     do { (v, w) \<leftarrow> GetFieldInt g head (head_tag t) (snd s); if v \<noteq> 0 then show_int g head label t (fst s, w) else Some (fst s, w) }"

definition show_some_str :: "codecs \<Rightarrow> nat \<Rightarrow> string \<Rightarrow> OidbHeadTag \<Rightarrow> line_fn" where
  "show_some_str g head label t s =
     do {
       (v, w) \<leftarrow> GetFieldStr g head (head_tag t) (snd s);
       if v \<noteq> []
       then
         do {
           (v, w) \<leftarrow> GetFieldStr g head (head_tag t) w;
           show_line (''        '' @ label @ map (\<lambda>b. char_of (unat b)) v) (fst s, w)
         }
       else Some (fst s, w)
     }"

text \<open>An IPv4 address, or an IPv6 address under another tag.\<close>

definition show_addr ::
  "codecs \<Rightarrow> (u32 \<Rightarrow> string) \<Rightarrow> inet_ntop_fn \<Rightarrow> nat \<Rightarrow> string \<Rightarrow> OidbHeadTag \<Rightarrow> OidbHeadTag option \<Rightarrow> line_fn" where
  "show_addr g ntoa ntop head label t t6 s =
     do {
       (v, w) \<leftarrow> GetFieldInt g head (head_tag t) (snd s);
       if v \<noteq> 0
       then
         do {
           (v, w) \<leftarrow> GetFieldInt g head (head_tag t) w;
           show_line (''        '' @ label @ ntoa (ucast v)) (fst s, w)
         }
       else
         (case t6 of
            None \<Rightarrow> Some (fst s, w)
          | Some t6 \<Rightarrow>
              do {
                (v, w) \<leftarrow> GetFieldStr g head (head_tag t6) w;
                if v = [] then Some (fst s, w)
                else
                  do {
                    (v, w) \<leftarrow> GetFieldStr g head (head_tag t6) w;
                    a \<leftarrow> (if length v < 16 then None else ntop True (take 16 v) 46);
                    show_line (''        '' @ label @ a) (fst s, w)
                  }
              })
     }"

text \<open>The unknown children of the header, with the fuel of the other loops over siblings.\<close>

fun show_unknown :: "codecs \<Rightarrow> nat \<Rightarrow> nat option \<Rightarrow> line_fn" where
  "show_unknown g k None s = Some s"
| "show_unknown g 0 (Some n) s = None"
| "show_unknown g (Suc k) (Some n) s =
     do {
       (txt, w) \<leftarrow> (if unat (n_tag (nd (snd s) n)) > 17 then Print g (oidb_prefix @ ''        '') n s else Some s);
       let (m, w) = GetSibling n w;
       show_unknown g k m (txt, w)
     }"

fun show_lines :: "line_fn list \<Rightarrow> line_fn" where
  "show_lines [] s = Some s"
| "show_lines (f # fs) s = do { s \<leftarrow> f s; show_lines fs s }"

definition oidb_lines :: "codecs \<Rightarrow> (u32 \<Rightarrow> string) \<Rightarrow> inet_ntop_fn \<Rightarrow> nat \<Rightarrow> line_fn list" where
  "oidb_lines g ntoa ntop head =
     [show_line ''    +Header'',
      show_int g head ''Uin: '' OidbHeadTag_Uin,
      show_command g head,
      show_int g head ''ServiceType: '' OidbHeadTag_ServiceType,
      show_int g head ''Sequence: '' OidbHeadTag_Seq,
      show_addr g ntoa ntop head ''ClientAddr: '' OidbHeadTag_ClientAddr (Some OidbHeadTag_ClientAddrIpv6),
      show_addr g ntoa ntop head ''ServiceAddr: '' OidbHeadTag_ServerAddr (Some OidbHeadTag_ServerAddrIpv6),
      show_int g head ''Result: '' OidbHeadTag_Result,
      show_some_str g head ''ErrorMsg: '' OidbHeadTag_ErrorMsg,
      show_some_str g head ''LoginSig: '' OidbHeadTag_LoginSig,
      show_some_str g head ''UserName: '' OidbHeadTag_UserName,
      show_some_str g head ''Servicename: '' OidbHeadTag_Servicename,
      show_some_int g head ''Flag: '' OidbHeadTag_Flag,
      show_addr g ntoa ntop head ''FromAddr: '' OidbHeadTag_FromAddr None,
      show_addr g ntoa ntop head ''LocalAddr: '' OidbHeadTag_LocalAddr None,
      show_some_int g head ''ModuleId: '' OidbHeadTag_ModuleId,
      (\<lambda>s. do { (c, w) \<leftarrow> GetFirstChild g head (snd s); show_unknown g (Suc (w_count w)) c (fst s, w) })]"

text \<open>
  \<open>hlen+blen+10\<close> is computed in 32 bits.  A header or body node that cannot be made is reported with the global message.
\<close>

definition show_oidb_bin ::
  "codecs \<Rightarrow> (u32 \<Rightarrow> string) \<Rightarrow> inet_ntop_fn \<Rightarrow> ptr \<Rightarrow> int \<Rightarrow> text_state \<Rightarrow> (int \<times> text_state) option" where
  "show_oidb_bin g ntoa ntop bin_str len s =
     (let hlen = be_word (bytes_at (w_heap (snd s)) (ptr_add bin_str 1) 4) :: u32;
          blen = be_word (bytes_at (w_heap (snd s)) (ptr_add bin_str 5) 4) :: u32 in
      if hlen + blen + 10 > word_of_int len then Some (-1, s)
      else
        do {
          (head, w) \<leftarrow> New g 1 KNV_NODE KNV_VARINT None (Some (str_value hlen (ptr_add bin_str 9))) True (snd s);
          case head of
            None \<Rightarrow> do { m \<leftarrow> w_errorstr w; Some (-2, fst s @ ''Invalid OIDB header: '' @ m @ endl, w) }
          | Some head \<Rightarrow>
              do {
                (body, w) \<leftarrow> New g 1 KNV_NODE KNV_VARINT None (Some (str_value blen (ptr_add bin_str (9 + unat hlen)))) True w;
                case body of
                  None \<Rightarrow>
                    do {
                      m \<leftarrow> w_errorstr w;
                      w \<leftarrow> KnvNode_Delete (Some head) w;
                      Some (-3, fst s @ ''Invalid OIDB body: '' @ m @ endl, w)
                    }
                | Some body \<Rightarrow>
                    do {
                      s \<leftarrow> show_lines (oidb_lines g ntoa ntop head) (fst s, w);
                      s \<leftarrow> show_line ''    +Body'' s;
                      (txt, w) \<leftarrow> Print g (oidb_prefix @ ''    '') body s;
                      w \<leftarrow> KnvNode_Delete (Some head) w;
                      w \<leftarrow> KnvNode_Delete (Some body) w;
                      Some (0, txt, w)
                    }
              }
        })"

text \<open>
  \<open>show_bin\<close>: \<open>sid\<close> is the block of the local string \<open>s\<close>, a copy of the package with a null behind it; \<open>j\<close> is what the memory of the
  local protocol object holds at first.
\<close>

definition copy_string :: "nat \<Rightarrow> ptr \<Rightarrow> nat \<Rightarrow> world \<Rightarrow> world" where
  "copy_string sid p len w = set_heap ((w_heap w)(Ext sid := bytes_at (w_heap w) p len @ [0])) w"

definition show_bin ::
  "codecs \<Rightarrow> (u32 \<Rightarrow> string) \<Rightarrow> inet_ntop_fn \<Rightarrow> registry \<Rightarrow> nat \<Rightarrow> knv_proto \<Rightarrow> ptr \<Rightarrow> nat \<Rightarrow> text_state \<Rightarrow> (int \<times> text_state) option" where
  "show_bin g ntoa ntop reg sid j bin_str len s =
     (let w = copy_string sid bin_str len (snd s); str = Ptr (Ext sid) 0 in
      do {
        (p, w) \<leftarrow> KnvProtocol_string g str len True j w;
        if proto_IsValid p w
        then
          do {
            (r, txt, w) \<leftarrow> Print_proto g ntop reg ''[UC]'' p (fst s, w);
            (_, w) \<leftarrow> proto_Delete p w;
            Some (r, txt, w)
          }
        else
          do {
            let oidb = (len > 10 \<and> load (w_heap w) bin_str = 0x28 \<and> load (w_heap w) (ptr_add bin_str (len - 1)) = 0x29);
            (r, s) \<leftarrow> (if oidb then show_oidb_bin g ntoa ntop bin_str (int len) (fst s, w) else Some (-1, fst s, w));
            if r \<noteq> -1 then do { (_, w) \<leftarrow> proto_Delete p (snd s); Some (0, fst s, w) }
            else
              do {
                (n, w) \<leftarrow> New_string g str len False (snd s);
                case n of
                  Some n \<Rightarrow>
                    do {
                      (txt, w) \<leftarrow> Print g ''[KNV]'' n (fst s, w);
                      w \<leftarrow> KnvNode_Delete (Some n) w;
                      (_, w) \<leftarrow> proto_Delete p w;
                      Some (0, txt, w)
                    }
                | None \<Rightarrow>
                    do {
                      (_, w) \<leftarrow> proto_Delete p w;
                      Some (-1, fst s @ ''Invalid knv package[len='' @ dec_digits len @ '']'' @ endl, w)
                    }
              }
          }
      })"

section \<open>main\<close>

datatype show_op = show_op | convert_op | parse_op

definition usage_text :: "string \<Rightarrow> string" where
  "usage_text prog = concat (map (\<lambda>l. l @ line_end)
     [''usage:'',
      ''       '' @ prog @ '' -t  <file>    # parse input as output of tcpdump -Xlnnps0 '',
      ''       '' @ prog @ '' -h  <file>    # parse input as hex string'',
      ''       '' @ prog @ '' -b  <file>    # parse input as binary format'',
      ''       '' @ prog @ '' -ct <file>    # convert tcpdump output to bin and write to stdout'',
      ''       '' @ prog @ '' -ch <file>    # convert hex string to bin and write to stdout'',
      ''       '' @ prog @ '' -p  <file>    # parse .proto file and generate macro definitions for tags'',
      ''       '' @ prog @ '' -v|--version  # display libknv version'',
      '''',
      ''By default, read from stdin if <file> is [-] or not specified.'',
      ''''])"

definition version_text :: string where
  "version_text = ''LibKnv is a protocol engine for fast manipulation of tree-like generic protocol.'' @ line_end @
     ''The current version is 1.1'' @ line_end"

text \<open>The format and the operation of the first argument; \<open>None\<close> is the usage text.\<close>

definition show_option :: "string \<Rightarrow> (show_fmt \<times> show_op) option" where
  "show_option a =
     (if a \<in> {''-t'', ''-ct'', ''--tcpdump''} then Some (tcpdump, if a = ''-ct'' then convert_op else show_op)
      else if a \<in> {''-h'', ''-ch'', ''--hex''} then Some (hex_fmt, if a = ''-ch'' then convert_op else show_op)
      else if a \<in> {''-b'', ''--bin''} then Some (bin_fmt, show_op)
      else if a \<in> {''-p'', ''--parse''} then Some (bin_fmt, parse_op)
      else None)"

text \<open>
  The program: the value returned, the standard output, the error output and the world.  \<open>argv\<close> are the arguments with the name of the
  program, \<open>fopen\<close> the contents of a file, if it can be opened.  The array \<open>bin_str\<close> is the block \<open>Ext bid\<close>; what \<open>main\<close> writes with
  \<open>fwrite\<close> is one object of \<open>bin_len\<close> bytes.
\<close>

definition show_main ::
  "codecs \<Rightarrow> (u32 \<Rightarrow> string) \<Rightarrow> inet_ntop_fn \<Rightarrow> registry \<Rightarrow> (string \<Rightarrow> string option) \<Rightarrow> string \<Rightarrow> string \<Rightarrow> nat \<Rightarrow> nat \<Rightarrow> knv_proto \<Rightarrow>
     string list \<Rightarrow> world \<Rightarrow> (int \<times> string \<times> string \<times> world) option" where
  "show_main g ntoa ntop reg fopen stdin ln0 bid sid j argv w =
     (if length argv \<noteq> 2 \<and> length argv \<noteq> 3 then Some (0, usage_text (argv ! 0), '''', w)
      else if argv ! 1 = ''-v'' \<or> argv ! 1 = ''--version'' then Some (0, version_text, '''', w)
      else
        (case show_option (argv ! 1) of
           None \<Rightarrow> Some (0, usage_text (argv ! 0), '''', w)
         | Some (fmt, opn) \<Rightarrow>
             (case (if length argv > 2 \<and> argv ! 2 \<noteq> '''' \<and> argv ! 2 \<noteq> ''-'' then fopen (argv ! 2) else Some stdin) of
                None \<Rightarrow> Some (-1, '''', ''failed to open file '' @ argv ! 1 @ line_end, w)
              | Some file \<Rightarrow>
                  do {
                    r \<leftarrow> read_data fmt ln0 file (1024 * 1024 * 4);
                    case r of
                      Inl e \<Rightarrow> Some (-1, e @ line_end, '''', w)
                    | Inr bs \<Rightarrow>
                        (case opn of
                           parse_op \<Rightarrow>
                             do { (r, out, e) \<leftarrow> parse_proto (map (\<lambda>b. char_of (unat b)) bs); Some (r, out, e, w) }
                         | show_op \<Rightarrow>
                             do {
                               (r, out, w) \<leftarrow> show_bin g ntoa ntop reg sid j (Ptr (Ext bid) 0) (length bs)
                                 ('''', set_heap ((w_heap w)(Ext bid := bs @ replicate (1024 * 1024 * 4 - length bs) 0)) w);
                               Some (r, out, '''', w)
                             }
                         | convert_op \<Rightarrow> Some (1, map (\<lambda>b. char_of (unat b)) bs, '''', w))
                  })))"

section \<open>Converting hexadecimal text\<close>

lemma hex_text_no_nul: "cstr (hex_text bs) 0 = hex_text bs"
proof -
  have "isxdigit c" if "c \<in> set (hex_text bs)" for c
  proof -
    have "c \<in> set (filter isxdigit (hex_text bs))" using that by (simp only: hex_text_digits)
    then show ?thesis by simp
  qed
  moreover have "\<not> isxdigit nul" by (simp add: isxdigit_def isdigit_def)
  ultimately show ?thesis by (auto simp: cstr_def takeWhile_eq_all_conv)
qed

lemma read_hex:
  assumes "0 < length bs" "2 * length bs < 1024 * 1024"
  shows "read_data hex_fmt ln0 (hex_text bs) (1024 * 1024 * 4) = Some (Inr bs)"
proof -
  have "hex_text bs \<noteq> []" using assms(1) length_hex_text [of bs] by (metis length_0_conv mult_eq_0_iff less_numeral_extra(3) zero_neq_numeral)
  moreover have "take (1024 * 1024) (hex_text bs) = hex_text bs" using assms(2) by simp
  moreover have "str2bin (hex_text bs) (1024 * 1024 * 4) = bs" using str2bin_digits [of bs "1024 * 1024 * 4"] assms(2) by simp
  ultimately show ?thesis using assms by (simp add: read_data_def hex_text_no_nul Let_def)
qed



end
