(* ===== verification/Spec2Isabelle.thy ===== *)
theory Spec2Isabelle
  imports Pb_Correct Knv_Codec Obj_Pool_R_Safe Mem_Pool_Safe Knv_Key Knv_Ht Knv_Stale Knv_Inside Knv_Find Knv_Commands Knv_Net Knv_Split Knv_Show
begin

text \<open>
  Verification of the Key-N-Value protocol engine (\<open>src/src/\<close>), a C++ library that reads, changes and writes tree-shaped messages in
  the protocol-buffer wire format, with the tools around it.

  \<^bold>\<open>The program.\<close>  A message is a tree of \<open>KnvNode\<close> objects (\<open>knv_node.h\<close>, \<open>knv_node.cc\<close>).  A node is expanded lazily: it
  starts as a tag and a string and is parsed into metas and children when they are asked for; it remembers its evaluated size and whether
  its string is out of date, and a change travels up to the root as a change of these caches.  Nodes come from an object pool
  (\<open>obj_pool.h\<close>), their strings from memory pools (\<open>mem_pool.h\<close>, \<open>mem_pool.cc\<close>), their children are found through a hash table
  (\<open>KnvHt\<close>).  Fields are read and written through a table of codecs (\<open>knv_codec.h\<close>), by default the routines of \<open>pb.h\<close> and
  \<open>pb.c\<close>.  \<open>protocol.h\<close> and \<open>protocol.cc\<close> make packages of a header and bodies, frame them as OIDB packets and split large ones.
  Beside them stand a registry of command names (\<open>commands.h\<close>, \<open>commands.cc\<close>), socket helpers (\<open>knv_net.h\<close>,
  \<open>knv_net.cc\<close>), a lock-free object pool (\<open>obj_pool_r.h\<close>) and a viewer (\<open>knv_show.cpp\<close>).

  \<^bold>\<open>Modelling.\<close>  Machine integers are words (\<open>u32\<close>, \<open>u64\<close>, \<open>byte\<close>), C \<open>int\<close> values are \<open>int\<close> with \<open>to_int32\<close> where the
  code converts.  Memory is a map from blocks to byte lists; a pointer is a block and an offset (\<open>Knv_Prelude\<close>).  Objects are records in a
  store indexed by natural numbers; state is passed explicitly, and \<open>world\<close> (\<open>Knv_Node\<close>) is the whole state of the node library.  A
  function that returns a code returns it together with the new state; the outer \<open>None\<close> is a dereference of a null pointer, other
  undefined behaviour, or a loop that does not end.  Whether \<open>malloc\<close> or \<open>new\<close> fails at the k-th request is an argument of
  the state (\<open>c_fail\<close>), and the contents of fresh memory are arbitrary (\<open>c_junk\<close>).

  \<^bold>\<open>Theories.\<close>
  \<^item> \<open>Knv_Prelude\<close>: words, memory, lists.
  \<^item> \<open>Pb\<close>: every function of \<open>pb.h\<close>, \<open>pb.c\<close>.  \<open>Pb_Wire\<close>, \<open>Pb_Parse\<close>: the wire format on byte lists (\<open>enc_field\<close>,
    \<open>parse_field\<close>, \<open>parse_msg\<close>) and that the C routines compute it.  \<open>Pb_Correct\<close>: round trip, exact lengths, the meaning of the
    iteration on arbitrary bytes, bounds of reads and writes.
  \<^item> \<open>Knv_Codec\<close>: the dispatch through the codec table; the locales \<open>wire_format\<close> and \<open>knv_codec\<close> are what the nodes rely
    on, interpreted for the direct calls and for the default table.
  \<^item> \<open>Obj_Pool\<close>: the object pool at pointer level; the locale \<open>object_pool\<close> and the refinement to lists.
  \<^item> \<open>Obj_Pool_R\<close>, \<open>Obj_Pool_R_Safe\<close>: the lock-free pool as an interleaving of atomic steps: equivalence with the sequential pool
    without interference, lock-freedom, safety with one taker, and a run in which two takers get the same object.
  \<^item> \<open>Mem_Pool\<close>, \<open>Mem_Pool_Safe\<close>: size classes, allocation, release and shrinking; the locale \<open>allocator\<close> says that buffers
    in use are apart and keep their contents.
  \<^item> \<open>Knv_Key\<close>: dynamic buffers and keys.  \<open>Knv_Ht\<close>: the hash table; the locale \<open>node_table\<close> and its interpretation say that
    it is exactly a set of nodes under any sequence of calls.
  \<^item> \<open>Knv_Node\<close>, \<open>Knv_Ser\<close>, \<open>Knv_Edit\<close>, \<open>Knv_Api\<close>, \<open>Knv_Sub\<close>: the operations of \<open>KnvNode\<close>: nodes, release
    and expansion; sizes, serialization, folding and copies; changes; inline methods; operations between trees and printing.
  \<^item> \<open>Knv_Tree\<close>: the field a tree stands for (\<open>tree_bytes\<close>) in any state of its caches.  \<open>Knv_Serial\<close>: \<open>EvaluateSize\<close> and
    \<open>Serialize\<close> compute exactly this field.  \<open>Knv_Climb\<close>, \<open>Knv_Update\<close>: the invariant \<open>tree_inv\<close> of the caches, and that
    \<open>SetValue\<close>, \<open>InsertChild\<close> and \<open>UpdateSubTree\<close> restore it up to the root.  \<open>Knv_Expand\<close>: \<open>Expand\<close> makes a meta or a child of each field of
    a message, and the tree stands for the same field.
  \<^item> \<open>Knv_Release\<close>: \<open>Delete\<close> gives back every node and every buffer of a tree exactly once.  \<open>Knv_Remove\<close>: \<open>RemoveChild\<close> from
    the lookup in the hash table to the sizes of the root.  \<open>Knv_Find\<close>: \<open>FindChild\<close> after \<open>InsertChild\<close>.
  \<^item> \<open>Knv_Fold\<close>: \<open>Fold\<close> makes a node with parts a leaf with the same bytes.  \<open>Knv_Inside\<close>: the tree around the node stays
    in order.  \<open>Knv_Stale\<close>: a lookup after \<open>Fold\<close> that does not return, because the hash table still holds the released children.
  \<^item> \<open>Knv_Commands\<close>, \<open>Knv_Net\<close>: the registry and the socket helpers over parameters for the system calls.
  \<^item> \<open>Knv_Proto\<close>, \<open>Knv_Proto_Enc\<close>: packages.  \<open>Knv_Package\<close>, \<open>Knv_Encode\<close>, \<open>Knv_Split\<close>: the parts of a split
    package, OIDB frames, the bytes of an encoded package, iteration over the requests, return codes.
  \<^item> \<open>Knv_Text\<close>, \<open>Knv_Show\<close>: hexadecimal text, tokens, the translation of \<open>.proto\<close> files; reading and showing packages.

  \<^bold>\<open>Fuel and bounds.\<close>  Recursion over trees and loops over siblings take the number of nodes ever created plus one as fuel
  (\<open>w_count\<close>): a tree has no more levels than nodes, and the theorems show that the fuel is enough.  Walks that may meet a cycle (hash
  chains, the list of \<open>DeleteAll\<close>, printing, operations between trees) are partial functions.  The theorems on encoders ask for
  16777216 bytes at most, the largest size class of the memory pool, and \<open>Serialize\<close> for fewer than \<open>2 ^ 31\<close> bytes, the range of the
  size caches.

  \<^bold>\<open>Assumptions.\<close>  The wire-format and codec laws, the allocator, the table and the pool are proved for the code's definitions.
  Parameters stand for what is not in the repository: \<open>inet_ntop\<close>, \<open>inet_ntoa\<close>, \<open>inet_pton\<close>, the socket calls and
  \<open>fopen\<close>.

  \<^bold>\<open>Not modelled.\<close>  The destructors that run when the process ends, debug output, the counters of \<open>report_attr.h\<close>,
  the value of \<open>errno\<close>, and the test programs.  Memory of the lock-free pool is sequentially consistent.
\<close>

end
